(* ===== verification/Prelude.thy ===== *)
theory Prelude
  imports Main
begin

text \<open>
  Shared vocabulary of the development: the outcome of a C++ call, operations that thread a
  mutable key/value map, the checked 32-bit arithmetic of \<open>int\<close>, and the notion of an operation
  that is confined to a set of keys.  The component theories compose their handlers from these
  and prove their footprints with the collection \<open>confined_intros\<close>.
\<close>

named_theorems confined_intros "rules showing that an operation stays within a set of keys"
named_theorems op_simps "one-step evaluation of map-threading operations"

section \<open>Outcomes of C++ calls\<close>

text \<open>
  \<open>Throw\<close> is an exception derived from \<open>std::exception\<close>, \<open>Undef\<close> is undefined behaviour (signed
  overflow, an out-of-range \<open>operator[]\<close>, a missing key of a \<open>const\<close> JSON object), and \<open>Stuck\<close> is
  a call that never returns because the thread waits for a lock it holds itself.
\<close>

datatype cxx_exn = Invalid_argument | Out_of_range | Type_error | Parse_error | Runtime_error

datatype 'a outcome = Ret 'a | Throw cxx_exn | Undef | Stuck

definition bind_outcome :: "'a outcome \<Rightarrow> ('a \<Rightarrow> 'b outcome) \<Rightarrow> 'b outcome" where
  "bind_outcome r f =
     (case r of Ret a \<Rightarrow> f a | Throw e \<Rightarrow> Throw e | Undef \<Rightarrow> Undef | Stuck \<Rightarrow> Stuck)"

lemma bind_outcome_simps [simp]:
  "bind_outcome (Ret a) f = f a"
  "bind_outcome (Throw e) f = Throw e"
  "bind_outcome Undef f = Undef"
  "bind_outcome Stuck f = Stuck"
  by (simp_all add: bind_outcome_def)

lemma bind_outcome_Ret_iff:
  "bind_outcome r f = Ret b \<longleftrightarrow> (\<exists>a. r = Ret a \<and> f a = Ret b)"
  by (cases r) auto

text \<open>A loop whose body may fail, and the loop it is when the body never fails under an invariant.\<close>

fun each :: "('a \<Rightarrow> 's \<Rightarrow> 's outcome) \<Rightarrow> 'a list \<Rightarrow> 's \<Rightarrow> 's outcome" where
  "each f [] s = Ret s"
| "each f (x # xs) s = bind_outcome (f x s) (\<lambda>s'. each f xs s')"

lemma each_append: "each f (xs @ ys) s = bind_outcome (each f xs s) (each f ys)"
proof (induction xs arbitrary: s)
  case (Cons x xs)
  then show ?case by (cases "f x s") simp_all
qed simp

lemma each_concat: "each f (concat xss) s = each (each f) xss s"
proof (induction xss arbitrary: s)
  case (Cons xs xss)
  then show ?case by (cases "each f xs s") (simp_all add: each_append)
qed simp

lemma each_fold:
  assumes "\<And>x s. x \<in> set xs \<Longrightarrow> P s \<Longrightarrow> f x s = Ret (g x s) \<and> P (g x s)" "P s"
  shows "each f xs s = Ret (fold g xs s) \<and> P (fold g xs s)"
  using assms by (induction xs arbitrary: s) simp_all

section \<open>Operations on a shared map\<close>

text \<open>
  A handler of the program reads and writes one shared \<open>tbb::concurrent_hash_map\<close> from strings to
  strings; what it wrote before an exception stays written, so the new map comes with every
  outcome.
\<close>

type_synonym kvmap = "string \<Rightarrow> string option"
type_synonym ('s, 'a) op = "'s \<Rightarrow> 'a outcome \<times> 's"

definition ret :: "'a \<Rightarrow> ('s, 'a) op" where
  "ret a s = (Ret a, s)"

definition lift :: "'a outcome \<Rightarrow> ('s, 'a) op" where
  "lift r s = (r, s)"

definition and_then :: "('s, 'a) op \<Rightarrow> ('a \<Rightarrow> ('s, 'b) op) \<Rightarrow> ('s, 'b) op" where
  "and_then m f s =
     (case m s of
        (Ret a, s') \<Rightarrow> f a s'
      | (Throw e, s') \<Rightarrow> (Throw e, s')
      | (Undef, s') \<Rightarrow> (Undef, s')
      | (Stuck, s') \<Rightarrow> (Stuck, s'))"

text \<open>\<open>find\<close> of a concurrent map, and \<open>insert\<close> followed by an assignment to the element.\<close>

definition lookup_op :: "string \<Rightarrow> (kvmap, string option) op" where
  "lookup_op k s = (Ret (s k), s)"

definition store_op :: "string \<Rightarrow> string \<Rightarrow> (kvmap, unit) op" where
  "store_op k v s = (Ret (), s(k \<mapsto> v))"

text \<open>\<open>try { ... } catch (const std::exception&) { return b; }\<close>\<close>

definition catch_with :: "'a \<Rightarrow> ('s, 'a) op \<Rightarrow> ('s, 'a) op" where
  "catch_with b m s = (case m s of (Throw e, s') \<Rightarrow> (Ret b, s') | r \<Rightarrow> r)"

lemma op_eval [simp, op_simps]:
  "ret a s = (Ret a, s)"
  "lift r s = (r, s)"
  "lookup_op k m = (Ret (m k), m)"
  "store_op k v m = (Ret (), m(k \<mapsto> v))"
  by (simp_all add: ret_def lift_def lookup_op_def store_op_def)

lemma and_then_eval [op_simps]:
  "m s = (Ret a, s') \<Longrightarrow> and_then m f s = f a s'"
  "m s = (Throw e, s') \<Longrightarrow> and_then m f s = (Throw e, s')"
  "m s = (Undef, s') \<Longrightarrow> and_then m f s = (Undef, s')"
  "m s = (Stuck, s') \<Longrightarrow> and_then m f s = (Stuck, s')"
  by (simp_all add: and_then_def)

lemma and_then_run: "m s = (Ret a, s') \<Longrightarrow> and_then m f s = f a s'"
  by (simp add: and_then_def)

lemma and_then_Ret_iff:
  "and_then m f s = (Ret b, t) \<longleftrightarrow> (\<exists>a s'. m s = (Ret a, s') \<and> f a s' = (Ret b, t))"
  by (auto simp: and_then_def split: prod.splits outcome.splits)

lemma and_then_basic [simp]:
  "and_then (ret a) f s = f a s"
  "and_then (lift (Ret a)) f s = f a s"
  "and_then (lift (Throw e)) f s = (Throw e, s)"
  "and_then (lift Undef) f s = (Undef, s)"
  "and_then (lift Stuck) f s = (Stuck, s)"
  "and_then (lookup_op k) g m = g (m k) m"
  "and_then (store_op k v) h m = h () (m(k \<mapsto> v))"
  by (simp_all add: and_then_def)

section \<open>Confinement\<close>

text \<open>
  \<open>confined F m\<close>: the outcome of \<open>m\<close> and what it leaves in \<open>F\<close> depend on \<open>F\<close> only, and it writes
  nothing outside \<open>F\<close>.
\<close>

definition agree :: "string set \<Rightarrow> kvmap \<Rightarrow> kvmap \<Rightarrow> bool" where
  "agree F s t \<longleftrightarrow> (\<forall>k\<in>F. s k = t k)"

definition confined :: "string set \<Rightarrow> (kvmap, 'a) op \<Rightarrow> bool" where
  "confined F m \<longleftrightarrow>
     (\<forall>s t. agree F s t \<longrightarrow> fst (m s) = fst (m t) \<and> agree F (snd (m s)) (snd (m t))) \<and>
     (\<forall>s k. k \<notin> F \<longrightarrow> snd (m s) k = s k)"

lemma confinedI:
  assumes "\<And>s t. agree F s t \<Longrightarrow> fst (m s) = fst (m t)"
    and "\<And>s t. agree F s t \<Longrightarrow> agree F (snd (m s)) (snd (m t))"
    and "\<And>s k. k \<notin> F \<Longrightarrow> snd (m s) k = s k"
  shows "confined F m"
  using assms by (auto simp: confined_def)

lemma confined_outcome: "confined F m \<Longrightarrow> agree F s t \<Longrightarrow> fst (m s) = fst (m t)"
  by (simp add: confined_def)

lemma confined_agree: "confined F m \<Longrightarrow> agree F s t \<Longrightarrow> agree F (snd (m s)) (snd (m t))"
  by (simp add: confined_def)

lemma confined_frame: "confined F m \<Longrightarrow> k \<notin> F \<Longrightarrow> snd (m s) k = s k"
  by (simp add: confined_def)

lemma confined_ret [confined_intros]: "confined F (ret a)"
  by (rule confinedI) (simp_all add: agree_def)

lemma confined_lift [confined_intros]: "confined F (lift r)"
  by (rule confinedI) (simp_all add: agree_def)

lemma confined_lookup [confined_intros]: "k \<in> F \<Longrightarrow> confined F (lookup_op k)"
  by (rule confinedI) (simp_all add: agree_def)

lemma confined_store [confined_intros]: "k \<in> F \<Longrightarrow> confined F (store_op k v)"
  by (rule confinedI) (auto simp: agree_def)

lemma confined_and_then [confined_intros]:
  assumes m: "confined F m" and f: "\<And>a u u'. m u = (Ret a, u') \<Longrightarrow> confined F (f a)"
  shows "confined F (and_then m f)"
proof (rule confinedI)
  fix s t assume st: "agree F s t"
  obtain r s' where ms: "m s = (r, s')" by fastforce
  obtain r' t' where mt: "m t = (r', t')" by fastforce
  have r: "r' = r" using confined_outcome [OF m st] ms mt by simp
  have st': "agree F s' t'" using confined_agree [OF m st] ms mt by simp
  have "fst (and_then m f s) = fst (and_then m f t) \<and>
      agree F (snd (and_then m f s)) (snd (and_then m f t))"
  proof (cases r)
    case (Ret a)
    then have c: "confined F (f a)" using f ms by blast
    show ?thesis
      using confined_outcome [OF c st'] confined_agree [OF c st'] by (simp add: and_then_def ms mt r Ret)
  qed (simp_all add: and_then_def ms mt r st')
  then show "fst (and_then m f s) = fst (and_then m f t)"
    and "agree F (snd (and_then m f s)) (snd (and_then m f t))" by simp_all
next
  fix s :: kvmap and k assume k: "k \<notin> F"
  obtain r s' where ms: "m s = (r, s')" by fastforce
  have s': "s' k = s k" using confined_frame [OF m k, of s] ms by simp
  show "snd (and_then m f s) k = s k"
  proof (cases r)
    case (Ret a)
    then have c: "confined F (f a)" using f ms by blast
    show ?thesis using confined_frame [OF c k] s' by (simp add: and_then_def ms Ret)
  qed (simp_all add: and_then_def ms s')
qed

lemma confined_catch [confined_intros]:
  assumes m: "confined F m"
  shows "confined F (catch_with b m)"
proof (rule confinedI)
  fix s t assume st: "agree F s t"
  obtain r s' where ms: "m s = (r, s')" by fastforce
  obtain r' t' where mt: "m t = (r', t')" by fastforce
  have "r' = r" and "agree F s' t'"
    using confined_outcome [OF m st] confined_agree [OF m st] ms mt by simp_all
  then show "fst (catch_with b m s) = fst (catch_with b m t)"
    and "agree F (snd (catch_with b m s)) (snd (catch_with b m t))"
    by (cases r; simp add: catch_with_def ms mt)+
next
  fix s :: kvmap and k assume k: "k \<notin> F"
  obtain r s' where ms: "m s = (r, s')" by fastforce
  then have "s' k = s k" using confined_frame [OF m k, of s] by simp
  then show "snd (catch_with b m s) k = s k"
    by (cases r) (simp_all add: catch_with_def ms)
qed

lemma confined_if [confined_intros]:
  "(P \<Longrightarrow> confined F m) \<Longrightarrow> (\<not> P \<Longrightarrow> confined F n) \<Longrightarrow> confined F (if P then m else n)"
  by simp

lemma confined_option [confined_intros]:
  "(x = None \<Longrightarrow> confined F m) \<Longrightarrow> (\<And>a. x = Some a \<Longrightarrow> confined F (n a)) \<Longrightarrow>
   confined F (case x of None \<Rightarrow> m | Some a \<Rightarrow> n a)"
  by (cases x) simp_all

lemma confined_outcome_case [confined_intros]:
  "(\<And>a. r = Ret a \<Longrightarrow> confined F (f a)) \<Longrightarrow> (\<And>e. r = Throw e \<Longrightarrow> confined F (g e)) \<Longrightarrow>
   (r = Undef \<Longrightarrow> confined F m) \<Longrightarrow> (r = Stuck \<Longrightarrow> confined F n) \<Longrightarrow>
   confined F (case r of Ret a \<Rightarrow> f a | Throw e \<Rightarrow> g e | Undef \<Rightarrow> m | Stuck \<Rightarrow> n)"
  by (cases r) simp_all

lemma confined_mono:
  assumes m: "confined F m" and FG: "F \<subseteq> G"
  shows "confined G m"
proof (rule confinedI)
  fix s t assume st: "agree G s t"
  then have F: "agree F s t" using FG by (auto simp: agree_def)
  show "fst (m s) = fst (m t)" by (rule confined_outcome [OF m F])
  have "agree F (snd (m s)) (snd (m t))" by (rule confined_agree [OF m F])
  then show "agree G (snd (m s)) (snd (m t))"
    using st confined_frame [OF m] by (auto simp: agree_def)
next
  fix s :: kvmap and k assume "k \<notin> G"
  then show "snd (m s) k = s k" using confined_frame [OF m] FG by blast
qed

text \<open>Operations confined to disjoint sets commute, with the same outcomes.\<close>

lemma confined_commute:
  assumes m: "confined F m" and n: "confined G n" and disj: "F \<inter> G = {}"
  shows "snd (n (snd (m s))) = snd (m (snd (n s)))"
    and "fst (n (snd (m s))) = fst (n s)"
proof -
  have G: "agree G (snd (m s)) s"
    using confined_frame [OF m] disj by (auto simp: agree_def)
  have F: "agree F (snd (n s)) s"
    using confined_frame [OF n] disj by (auto simp: agree_def)
  show "fst (n (snd (m s))) = fst (n s)" by (rule confined_outcome [OF n G])
  show "snd (n (snd (m s))) = snd (m (snd (n s)))"
  proof
    fix k
    show "snd (n (snd (m s))) k = snd (m (snd (n s))) k"
    proof (cases "k \<in> F")
      case True
      then have "k \<notin> G" using disj by blast
      then show ?thesis
        using confined_frame [OF n] confined_agree [OF m F] True by (simp add: agree_def)
    next
      case False
      then show ?thesis
        using confined_frame [OF m] confined_frame [OF n] confined_agree [OF n G]
        by (cases "k \<in> G") (simp_all add: agree_def)
    qed
  qed
qed

section \<open>The 32-bit signed \<open>int\<close>\<close>

text \<open>
  A C++ \<open>int\<close> is an integer in this range; an addition or subtraction that leaves it is undefined
  behaviour.
\<close>

definition in_int :: "int \<Rightarrow> bool" where
  "in_int x \<longleftrightarrow> - 2147483648 \<le> x \<and> x \<le> 2147483647"

definition add_int :: "int \<Rightarrow> int \<Rightarrow> int outcome" where
  "add_int a b = (if in_int (a + b) then Ret (a + b) else Undef)"

definition sub_int :: "int \<Rightarrow> int \<Rightarrow> int outcome" where
  "sub_int a b = (if in_int (a - b) then Ret (a - b) else Undef)"

lemma add_int_Ret [simp]: "add_int a b = Ret c \<longleftrightarrow> in_int (a + b) \<and> c = a + b"
  by (auto simp: add_int_def)

lemma sub_int_Ret [simp]: "sub_int a b = Ret c \<longleftrightarrow> in_int (a - b) \<and> c = a - b"
  by (auto simp: sub_int_def)

lemma in_int_0 [simp]: "in_int 0"
  by (simp add: in_int_def)

end
