(* ===== verification/Cxx_Text.thy ===== *)
theory Cxx_Text
  imports Prelude
begin

text \<open>
  The text functions of the C++ standard library that the program builds its formats on:
  \<open>std::stoi\<close>, \<open>std::to_string\<close>, reading words with \<open>operator>>\<close> and splitting with
  \<open>std::getline\<close>.  Strings are lists of bytes.
\<close>

section \<open>Characters\<close>

definition isspace :: "char \<Rightarrow> bool" where
  "isspace c = (let n = (of_char c :: nat) in n = 32 \<or> (9 \<le> n \<and> n \<le> 13))"

definition isdigit :: "char \<Rightarrow> bool" where
  "isdigit c = (let n = (of_char c :: nat) in 48 \<le> n \<and> n \<le> 57)"

definition digit_char :: "nat \<Rightarrow> char" where
  "digit_char d = char_of (48 + d)"

definition char_digit :: "char \<Rightarrow> nat" where
  "char_digit c = of_char c - 48"

lemma of_digit_char: "d < 10 \<Longrightarrow> (of_char (digit_char d) :: nat) = 48 + d"
  by (simp add: digit_char_def of_char_of)

lemma isdigit_digit_char [simp]: "d < 10 \<Longrightarrow> isdigit (digit_char d)"
  by (simp add: isdigit_def of_digit_char)

lemma char_digit_digit_char [simp]: "d < 10 \<Longrightarrow> char_digit (digit_char d) = d"
  by (simp add: char_digit_def of_digit_char)

lemma isdigit_not_isspace: "isdigit c \<Longrightarrow> \<not> isspace c"
  by (auto simp: isdigit_def isspace_def Let_def)

section \<open>\<open>std::to_string\<close> and \<open>std::stoi\<close>\<close>

fun show_nat :: "nat \<Rightarrow> string" where
  "show_nat n = (if n < 10 then [digit_char n] else show_nat (n div 10) @ [digit_char (n mod 10)])"

declare show_nat.simps [simp del]

definition to_string :: "int \<Rightarrow> string" where
  "to_string i = (if i < 0 then CHR ''-'' # show_nat (nat (- i)) else show_nat (nat i))"

definition digits_value :: "string \<Rightarrow> nat" where
  "digits_value ds = foldl (\<lambda>n c. 10 * n + char_digit c) 0 ds"

text \<open>
  \<open>std::stoi\<close> in base 10: leading white space, an optional sign, the longest run of digits; the
  rest is ignored.  No digit throws \<open>invalid_argument\<close>, a value outside \<open>int\<close> throws \<open>out_of_range\<close>.
\<close>

definition split_sign :: "string \<Rightarrow> bool \<times> string" where
  "split_sign t =
     (case t of
        [] \<Rightarrow> (False, [])
      | c # r \<Rightarrow> if c = CHR ''-'' then (True, r) else if c = CHR ''+'' then (False, r) else (False, t))"

definition stoi :: "string \<Rightarrow> int outcome" where
  "stoi s =
     (let (neg, u) = split_sign (dropWhile isspace s);
          ds = takeWhile isdigit u
      in if ds = [] then Throw Invalid_argument
         else let v = int (digits_value ds); w = (if neg then - v else v)
              in if in_int w then Ret w else Throw Out_of_range)"

lemma digits_value_snoc: "digits_value (ds @ [c]) = 10 * digits_value ds + char_digit c"
  by (simp add: digits_value_def)

lemma digits_value_Nil [simp]: "digits_value [] = 0"
  by (simp add: digits_value_def)

lemma digits_value_single [simp]: "digits_value [c] = char_digit c"
  using digits_value_snoc [of "[]" c] by simp

lemma show_nat_digits: "list_all isdigit (show_nat n)"
proof (induction n rule: show_nat.induct)
  case (1 n)
  then show ?case by (subst show_nat.simps) simp
qed

lemma show_nat_nonempty [simp]: "show_nat n \<noteq> []"
  by (subst show_nat.simps) simp

lemma digits_value_show_nat [simp]: "digits_value (show_nat n) = n"
proof (induction n rule: show_nat.induct)
  case (1 n)
  then show ?case by (subst show_nat.simps) (simp add: digits_value_snoc)
qed

lemma isdigit_sign: "isdigit c \<Longrightarrow> c \<noteq> CHR ''-'' \<and> c \<noteq> CHR ''+''"
  by (auto simp: isdigit_def)

lemma takeWhile_isdigit_show_nat [simp]: "takeWhile isdigit (show_nat n) = show_nat n"
  using show_nat_digits [of n] by (simp add: list_all_iff takeWhile_eq_all_conv)

lemma stoi_digits:
  assumes "list_all isdigit ds" "ds \<noteq> []" "in_int (int (digits_value ds))"
  shows "stoi ds = Ret (int (digits_value ds))"
proof -
  obtain c r where ds: "ds = c # r" using assms(2) by (cases ds) auto
  then have c: "isdigit c" using assms(1) by simp
  have dw: "dropWhile isspace ds = ds" using ds isdigit_not_isspace [OF c] by simp
  have sp: "split_sign ds = (False, ds)"
    using ds isdigit_sign [OF c] by (simp add: split_sign_def)
  have tw: "takeWhile isdigit ds = ds"
    using assms(1) by (simp add: list_all_iff takeWhile_eq_all_conv)
  show ?thesis using assms(2,3) by (simp add: stoi_def dw sp tw)
qed

lemma stoi_to_string [simp]:
  assumes "in_int i"
  shows "stoi (to_string i) = Ret i"
proof (cases "i < 0")
  case True
  have "\<not> isspace (CHR ''-'')" by (simp add: isspace_def)
  with True assms show ?thesis
    by (simp add: stoi_def to_string_def split_sign_def)
next
  case False
  then show ?thesis
    using stoi_digits [of "show_nat (nat i)"] assms show_nat_digits
    by (simp add: to_string_def)
qed

lemma stoi_in_int: "stoi s = Ret i \<Longrightarrow> in_int i"
  by (auto simp: stoi_def Let_def split: prod.splits if_splits)

lemma stoi_Nil [simp]: "stoi [] = Throw Invalid_argument"
  by (simp add: stoi_def split_sign_def)

lemma to_string_inj: "to_string i = to_string j \<longleftrightarrow> i = j"
proof
  assume eq: "to_string i = to_string j"
  have first: "hd (show_nat n) \<noteq> CHR ''-''" for n
    using show_nat_digits [of n] isdigit_sign by (cases "show_nat n") auto
  show "i = j"
  proof (cases "i < 0"; cases "j < 0")
    assume "i < 0" "j < 0"
    with eq have "show_nat (nat (- i)) = show_nat (nat (- j))" by (simp add: to_string_def)
    then have "nat (- i) = nat (- j)" by (metis digits_value_show_nat)
    with \<open>i < 0\<close> \<open>j < 0\<close> show ?thesis by simp
  next
    assume "\<not> i < 0" "\<not> j < 0"
    with eq have "show_nat (nat i) = show_nat (nat j)" by (simp add: to_string_def)
    then have "nat i = nat j" by (metis digits_value_show_nat)
    with \<open>\<not> i < 0\<close> \<open>\<not> j < 0\<close> show ?thesis by simp
  next
    assume "i < 0" "\<not> j < 0"
    with eq first [of "nat j"] show ?thesis by (metis to_string_def list.sel(1))
  next
    assume "\<not> i < 0" "j < 0"
    with eq first [of "nat i"] show ?thesis by (metis to_string_def list.sel(1))
  qed
qed simp

lemma to_string_nonempty [simp]: "to_string i \<noteq> []"
  by (simp add: to_string_def)

lemma to_string_chars: "c \<in> set (to_string i) \<Longrightarrow> isdigit c \<or> c = CHR ''-''"
  using show_nat_digits by (auto simp: to_string_def list_all_iff split: if_splits)

lemma to_string_no_comma [simp]: "CHR '','' \<notin> set (to_string i)"
  using to_string_chars [of "CHR '',''" i] by (auto simp: isdigit_def)

section \<open>Words and lines\<close>

lemma takeWhile_neq_id [simp]: "c \<notin> set s \<Longrightarrow> takeWhile (\<lambda>x. x \<noteq> c) s = s"
  by (induction s) auto

text \<open>The words \<open>while (iss >> word)\<close> yields.\<close>

function words_of :: "string \<Rightarrow> string list" where
  "words_of s =
     (case dropWhile isspace s of
        [] \<Rightarrow> []
      | c # cs \<Rightarrow> (c # takeWhile (\<lambda>x. \<not> isspace x) cs) # words_of (dropWhile (\<lambda>x. \<not> isspace x) cs))"
  by pat_completeness auto
termination
proof (relation "measure length")
  show "wf (measure (length :: string \<Rightarrow> nat))" by simp
next
  fix s :: string and c cs
  assume d: "dropWhile isspace s = c # cs"
  have "length (dropWhile (\<lambda>x. \<not> isspace x) cs) \<le> length cs" by (rule length_dropWhile_le)
  also have "\<dots> < length (dropWhile isspace s)" using d by simp
  also have "\<dots> \<le> length s" by (rule length_dropWhile_le)
  finally show "(dropWhile (\<lambda>x. \<not> isspace x) cs, s) \<in> measure length" by simp
qed

declare words_of.simps [simp del]

lemma words_of_Nil [simp]: "words_of [] = []"
  by (subst words_of.simps) simp

text \<open>
  The segments \<open>while (std::getline(ss, segment, d))\<close> yields: the text between delimiters, and no
  final empty segment.
\<close>

function getline_all :: "char \<Rightarrow> string \<Rightarrow> string list" where
  "getline_all d s =
     (if s = [] then []
      else takeWhile (\<lambda>x. x \<noteq> d) s # getline_all d (drop 1 (dropWhile (\<lambda>x. x \<noteq> d) s)))"
  by pat_completeness auto
termination
proof (relation "measure (\<lambda>(d, s). length s)")
  show "wf (measure (\<lambda>(d :: char, s :: string). length s))" by simp
next
  fix d :: char and s :: string
  assume "s \<noteq> []"
  have "length (dropWhile (\<lambda>x. x \<noteq> d) s) \<le> length s" by (rule length_dropWhile_le)
  moreover have "0 < length s" using \<open>s \<noteq> []\<close> by simp
  ultimately show "((d, drop 1 (dropWhile (\<lambda>x. x \<noteq> d) s)), (d, s)) \<in> measure (\<lambda>(d, s). length s)"
    by (simp only: in_measure prod.case length_drop)
qed

declare getline_all.simps [simp del]

lemma getline_all_Nil [simp]: "getline_all d [] = []"
  by (subst getline_all.simps) simp

lemma getline_all_segment:
  assumes "d \<notin> set a"
  shows "getline_all d (a @ d # s) = a # getline_all d s"
proof -
  have "takeWhile (\<lambda>x. x \<noteq> d) (a @ d # s) = a" "dropWhile (\<lambda>x. x \<noteq> d) (a @ d # s) = d # s"
    using assms by (auto simp: takeWhile_append dropWhile_append)
  then show ?thesis by (subst getline_all.simps) simp
qed

lemma getline_all_last:
  assumes "d \<notin> set a"
  shows "getline_all d a = (if a = [] then [] else [a])"
proof (cases "a = []")
  case False
  have tw: "takeWhile (\<lambda>x. x \<noteq> d) a = a" and dw: "dropWhile (\<lambda>x. x \<noteq> d) a = []"
    using assms by (auto simp: takeWhile_eq_all_conv)
  show ?thesis using False by (subst getline_all.simps) (simp add: tw dw)
qed simp

end
