(* ===== verification/Payload.thy ===== *)
theory Payload
  imports Cxx_Text
begin

text \<open>
  Transactions as the processors see them: the records of \<open>transaction.proto\<close>, JSON values with the
  operations of the JSON library the code uses, the element-level operations of the concurrent map,
  and the shape all four \<open>ProcessTxn\<close> handlers share.
\<close>

section \<open>Messages\<close>

record txn_header =
  family_name :: string
  inputs :: "string list"
  client_ID :: string
  client_nonce :: string
  outputs :: "string list"

record transaction =
  t_header :: string
  t_dependencies :: "string list"
  t_payload :: string

record block_header =
  block_num :: nat
  previous_block_id :: string
  transaction_ids :: "string list"
  state_root_hash :: string
  timestamp :: int

record block =
  b_header :: string
  b_transactions :: "transaction list"
  block_hash :: string

section \<open>JSON values\<close>

text \<open>
  A number keeps its literal text: the program only ever moves numbers around.  An object is the
  association list of its members.
\<close>

datatype json =
    JNull
  | JBool bool
  | JNumber string
  | JStr string
  | JArr "json list"
  | JObj "(string \<times> json) list"

text \<open>
  The codecs the program takes from its libraries: \<open>ParseFromString\<close> of a header, \<open>json::parse\<close>
  (\<open>None\<close> throws \<open>parse_error\<close>) and \<open>dump\<close> (\<open>None\<close> throws \<open>type_error\<close>, on text that is not UTF-8).
\<close>

record codec =
  parse_header :: "string \<Rightarrow> txn_header option"
  jparse :: "string \<Rightarrow> json option"
  jdump :: "json \<Rightarrow> string option"

definition json_parse :: "codec \<Rightarrow> string \<Rightarrow> json outcome" where
  "json_parse C s = (case jparse C s of None \<Rightarrow> Throw Parse_error | Some j \<Rightarrow> Ret j)"

definition json_dump :: "codec \<Rightarrow> json \<Rightarrow> string outcome" where
  "json_dump C j = (case jdump C j of None \<Rightarrow> Throw Type_error | Some s \<Rightarrow> Ret s)"

text \<open>
  \<open>std::string s = p[k]\<close>.  On a mutable value a missing key becomes \<open>null\<close>, whose conversion to a
  string throws; on a \<open>const\<close> object a missing key is undefined behaviour.
\<close>

definition jfield :: "json \<Rightarrow> string \<Rightarrow> string outcome" where
  "jfield p k =
     (case p of
        JObj ms \<Rightarrow> (case map_of ms k of Some (JStr s) \<Rightarrow> Ret s | _ \<Rightarrow> Throw Type_error)
      | _ \<Rightarrow> Throw Type_error)"

definition jfield_const :: "json \<Rightarrow> string \<Rightarrow> string outcome" where
  "jfield_const p k =
     (case p of
        JObj ms \<Rightarrow>
          (case map_of ms k of
             Some (JStr s) \<Rightarrow> Ret s | Some _ \<Rightarrow> Throw Type_error | None \<Rightarrow> Undef)
      | _ \<Rightarrow> Throw Type_error)"

text \<open>What iterating over a value visits, \<open>erase\<close> of the element at an index, and \<open>push_back\<close>.\<close>

definition jitems :: "json \<Rightarrow> json list" where
  "jitems j = (case j of JArr xs \<Rightarrow> xs | JObj ms \<Rightarrow> map snd ms | JNull \<Rightarrow> [] | _ \<Rightarrow> [j])"

definition remove_nth :: "nat \<Rightarrow> 'a list \<Rightarrow> 'a list" where
  "remove_nth i xs = take i xs @ drop (Suc i) xs"

definition jerase :: "nat \<Rightarrow> json \<Rightarrow> json" where
  "jerase i j =
     (case j of
        JArr xs \<Rightarrow> JArr (remove_nth i xs)
      | JObj ms \<Rightarrow> JObj (remove_nth i ms)
      | _ \<Rightarrow> JNull)"

definition jpush :: "json \<Rightarrow> json \<Rightarrow> json outcome" where
  "jpush j x = (case j of JArr xs \<Rightarrow> Ret (JArr (xs @ [x])) | JNull \<Rightarrow> Ret (JArr [x]) | _ \<Rightarrow> Throw Type_error)"

text \<open>\<open>std::find(j.begin(), j.end(), h)\<close> for a string \<open>h\<close>: the index of the first hit.\<close>

definition jfind :: "json \<Rightarrow> string \<Rightarrow> nat option" where
  "jfind j h =
     (let n = length (takeWhile (\<lambda>x. x \<noteq> JStr h) (jitems j))
      in if n < length (jitems j) then Some n else None)"

section \<open>Element access of the concurrent map\<close>

text \<open>
  \<open>insert(acc, k)\<close> creates an empty string when the key is new and says whether it did;
  \<open>find(acc, k)\<close> says whether the key is there.
\<close>

definition insert_op :: "string \<Rightarrow> (kvmap, bool) op" where
  "insert_op k m = (case m k of None \<Rightarrow> (Ret True, m(k \<mapsto> [])) | Some v \<Rightarrow> (Ret False, m))"

definition find_op :: "string \<Rightarrow> (kvmap, bool) op" where
  "find_op k m = (Ret (m k \<noteq> None), m)"

lemma insert_op_eval [simp, op_simps]:
  "m k = None \<Longrightarrow> insert_op k m = (Ret True, m(k \<mapsto> []))"
  "m k = Some v \<Longrightarrow> insert_op k m = (Ret False, m)"
  by (simp_all add: insert_op_def)

lemma find_op_eval [simp, op_simps]: "find_op k m = (Ret (m k \<noteq> None), m)"
  by (simp add: find_op_def)

lemma and_then_find [simp]: "and_then (find_op k) f m = f (m k \<noteq> None) m"
  by (simp add: and_then_def)

lemma and_then_insert [simp]:
  "and_then (insert_op k) f m = (if m k = None then f True (m(k \<mapsto> [])) else f False m)"
  by (auto simp: and_then_def insert_op_def split: option.splits)

lemma confined_insert_op [confined_intros]: "k \<in> F \<Longrightarrow> confined F (insert_op k)"
  by (rule confinedI) (auto simp: insert_op_def agree_def split: option.splits)

lemma confined_find_op [confined_intros]: "k \<in> F \<Longrightarrow> confined F (find_op k)"
  by (rule confinedI) (auto simp: find_op_def agree_def)

section \<open>The common shape of \<open>ProcessTxn\<close>\<close>

text \<open>
  Parse the header, parse the payload, read \<open>Verb\<close>, and dispatch, all under a handler that turns
  every exception into \<open>false\<close>.
\<close>

definition process_txn ::
    "codec \<Rightarrow> (json \<Rightarrow> string \<Rightarrow> (kvmap, bool) op) \<Rightarrow> transaction \<Rightarrow> (kvmap, bool) op" where
  "process_txn C dispatch t =
     (case parse_header C (t_header t) of
        None \<Rightarrow> ret False
      | Some h \<Rightarrow>
          catch_with False
            (and_then (lift (json_parse C (t_payload t)))
              (\<lambda>p. and_then (lift (jfield p ''Verb'')) (\<lambda>verb. dispatch p verb))))"

lemma jfield_Ret_iff: "jfield p k = Ret s \<longleftrightarrow> (\<exists>ms. p = JObj ms \<and> map_of ms k = Some (JStr s))"
  by (auto simp: jfield_def split: json.splits option.splits)

lemma jfield_not_Undef [simp]: "jfield p k \<noteq> Undef" "jfield p k \<noteq> Stuck"
  by (auto simp: jfield_def split: json.splits option.splits)

lemma json_parse_cases: "json_parse C s = Throw Parse_error \<or> (\<exists>j. json_parse C s = Ret j)"
  by (auto simp: json_parse_def split: option.splits)

text \<open>A \<open>true\<close> verdict comes from the dispatcher, on the parsed payload and its verb.\<close>

lemma process_txn_True:
  assumes "process_txn C d t m = (Ret True, m')"
  obtains h p verb where "parse_header C (t_header t) = Some h" "jparse C (t_payload t) = Some p"
    "jfield p ''Verb'' = Ret verb" "d p verb m = (Ret True, m')"
proof -
  obtain h where h: "parse_header C (t_header t) = Some h"
    using assms by (auto simp: process_txn_def split: option.splits)
  have c: "and_then (lift (json_parse C (t_payload t)))
      (\<lambda>p. and_then (lift (jfield p ''Verb'')) (d p)) m = (Ret True, m')"
    using assms h by (auto simp: process_txn_def catch_with_def split: prod.splits outcome.splits)
  then show thesis
    using that [OF h] by (auto simp: and_then_Ret_iff json_parse_def split: option.splits)
qed

lemma process_txn_eq:
  assumes "parse_header C (t_header t) = Some h" "jparse C (t_payload t) = Some p"
    and "jfield p ''Verb'' = Ret verb"
  shows "process_txn C d t m = catch_with False (d p verb) m"
  using assms by (simp add: process_txn_def json_parse_def catch_with_def)

text \<open>The keys a payload names: the union over a list of member names of those that are strings.\<close>

definition named_keys :: "string list \<Rightarrow> json \<Rightarrow> string set" where
  "named_keys fs p = {k. \<exists>f\<in>set fs. jfield p f = Ret k}"

lemma named_keysI: "jfield p f = Ret k \<Longrightarrow> f \<in> set fs \<Longrightarrow> k \<in> named_keys fs p"
  by (auto simp: named_keys_def)

definition txn_keys :: "codec \<Rightarrow> string list \<Rightarrow> transaction \<Rightarrow> string set" where
  "txn_keys C fs t = (case jparse C (t_payload t) of None \<Rightarrow> {} | Some p \<Rightarrow> named_keys fs p)"

lemma confined_process_txn:
  assumes "\<And>p verb. jparse C (t_payload t) = Some p \<Longrightarrow> jfield p ''Verb'' = Ret verb \<Longrightarrow>
      confined (named_keys fs p) (d p verb)"
  shows "confined (txn_keys C fs t) (process_txn C d t)"
proof (cases "parse_header C (t_header t)")
  case None
  then show ?thesis by (simp add: process_txn_def confined_ret)
next
  case (Some h)
  show ?thesis
  proof (cases "jparse C (t_payload t)")
    case None
    then show ?thesis using Some
      by (auto simp: process_txn_def json_parse_def intro!: confined_intros)
  next
    case (Some p)
    then show ?thesis using \<open>parse_header C (t_header t) = Some h\<close> assms [OF Some]
      by (auto simp: process_txn_def json_parse_def txn_keys_def intro!: confined_intros)
  qed
qed

end
