(* ===== verification/Wallet.thy ===== *)
theory Wallet
  imports Payload
begin

text \<open>
  \<open>WalletProcessor\<close> of \<open>smartContracts/wallet/walletProcessor.h\<close>.  The three trees hold the same
  code.  \<open>gv\<close> stands for \<open>state.getValue\<close>, the value the committed state holds for a key; the map
  is the block-wide \<open>myMap\<close>.
\<close>

section \<open>The handlers\<close>

definition getOrLoadBalance :: "(string \<Rightarrow> string) \<Rightarrow> string \<Rightarrow> (kvmap, int) op" where
  "getOrLoadBalance gv name =
     and_then (lookup_op name) (\<lambda>found.
       case found of
         Some v \<Rightarrow> lift (stoi v)
       | None \<Rightarrow>
           and_then (lift (if gv name = [] then Ret 0 else stoi (gv name))) (\<lambda>bal.
           and_then (insert_op name) (\<lambda>isnew.
           and_then (if isnew then store_op name (to_string bal) else ret ()) (\<lambda>_.
           ret bal))))"

definition deposit :: "(string \<Rightarrow> string) \<Rightarrow> string \<Rightarrow> string \<Rightarrow> (kvmap, bool) op" where
  "deposit gv name val =
     and_then (getOrLoadBalance gv name) (\<lambda>currentBalance.
     and_then (lift (stoi val)) (\<lambda>v.
     and_then (lift (add_int currentBalance v)) (\<lambda>newBalance.
     and_then (insert_op name) (\<lambda>isnew.
     and_then (if isnew then ret True else find_op name) (\<lambda>ok.
     and_then (if ok then store_op name (to_string newBalance) else ret ()) (\<lambda>_.
     ret True))))))"

definition getBalance :: "(string \<Rightarrow> string) \<Rightarrow> string \<Rightarrow> string" where
  "getBalance gv name = (let bal = gv name in if bal = [] then ''0'' else bal)"

definition withdraw :: "(string \<Rightarrow> string) \<Rightarrow> string \<Rightarrow> string \<Rightarrow> (kvmap, bool) op" where
  "withdraw gv name val =
     and_then (getOrLoadBalance gv name) (\<lambda>currentBalance.
     and_then (lift (stoi val)) (\<lambda>amount.
       if currentBalance \<ge> amount then
         and_then (lift (sub_int currentBalance amount)) (\<lambda>newBalance.
         and_then (find_op name) (\<lambda>found.
         and_then (if found then ret False else insert_op name) (\<lambda>_.
         and_then (store_op name (to_string newBalance)) (\<lambda>_.
         ret True))))
       else ret False))"

definition transfer :: "(string \<Rightarrow> string) \<Rightarrow> string \<Rightarrow> string \<Rightarrow> string \<Rightarrow> (kvmap, bool) op" where
  "transfer gv name1 name2 val =
     and_then (lift (stoi val)) (\<lambda>amount.
     and_then (getOrLoadBalance gv name1) (\<lambda>balance1.
     and_then (getOrLoadBalance gv name2) (\<lambda>balance2.
       if balance1 \<ge> amount then
         and_then (lift (sub_int balance1 amount)) (\<lambda>newBalance1.
         and_then (lift (add_int balance2 amount)) (\<lambda>newBalance2.
         and_then (store_op name1 (to_string newBalance1)) (\<lambda>_.
         and_then (store_op name2 (to_string newBalance2)) (\<lambda>_.
         ret True))))
       else ret False)))"

definition wallet_dispatch :: "(string \<Rightarrow> string) \<Rightarrow> json \<Rightarrow> string \<Rightarrow> (kvmap, bool) op" where
  "wallet_dispatch gv p verb =
     (if verb = ''deposit'' then
        and_then (lift (jfield p ''Name'')) (\<lambda>n.
        and_then (lift (jfield p ''Value'')) (\<lambda>v. deposit gv n v))
      else if verb = ''withdraw'' then
        and_then (lift (jfield p ''Name'')) (\<lambda>n.
        and_then (lift (jfield p ''Value'')) (\<lambda>v. withdraw gv n v))
      else if verb = ''transfer'' then
        and_then (lift (jfield p ''Name1'')) (\<lambda>n1.
        and_then (lift (jfield p ''Name2'')) (\<lambda>n2.
        and_then (lift (jfield p ''Value'')) (\<lambda>v. transfer gv n1 n2 v)))
      else ret False)"

definition wallet_process :: "codec \<Rightarrow> (string \<Rightarrow> string) \<Rightarrow> transaction \<Rightarrow> (kvmap, bool) op" where
  "wallet_process C gv t = process_txn C (wallet_dispatch gv) t"

section \<open>What a balance is\<close>

text \<open>The balance of a name: its entry in the map, else the committed value, else zero.\<close>

definition balance_of :: "(string \<Rightarrow> string) \<Rightarrow> kvmap \<Rightarrow> string \<Rightarrow> int outcome" where
  "balance_of gv m name =
     (case m name of
        Some v \<Rightarrow> stoi v
      | None \<Rightarrow> if gv name = [] then Ret 0 else stoi (gv name))"

lemma balance_of_store [simp]:
  "in_int b \<Longrightarrow> balance_of gv (m(n \<mapsto> to_string b)) n' = (if n' = n then Ret b else balance_of gv m n')"
  by (simp add: balance_of_def)

lemma balance_of_in_int: "balance_of gv m n = Ret b \<Longrightarrow> in_int b"
  by (auto simp: balance_of_def stoi_in_int split: option.splits if_splits)

text \<open>Loading returns the balance, and changes no balance of any name.\<close>

lemma load_outcome: "fst (getOrLoadBalance gv n m) = balance_of gv m n"
  by (auto simp: getOrLoadBalance_def balance_of_def and_then_def split: option.splits outcome.splits)

lemma load_Ret:
  assumes "balance_of gv m n = Ret b"
  shows "\<exists>m'. getOrLoadBalance gv n m = (Ret b, m') \<and> m' n \<noteq> None \<and>
    (\<forall>k. k \<noteq> n \<longrightarrow> m' k = m k) \<and> balance_of gv m' = balance_of gv m"
proof (cases "m n")
  case (Some v)
  then show ?thesis using assms by (simp add: getOrLoadBalance_def balance_of_def)
next
  case None
  have b: "in_int b" using balance_of_in_int [OF assms] .
  have g: "(if gv n = [] then Ret 0 else stoi (gv n)) = Ret b"
    using assms None by (simp add: balance_of_def)
  have "getOrLoadBalance gv n m = (Ret b, m(n \<mapsto> to_string b))"
    by (simp add: getOrLoadBalance_def None g)
  moreover have "balance_of gv (m(n \<mapsto> to_string b)) = balance_of gv m"
    using b assms by auto
  ultimately show ?thesis by simp
qed

lemma load_fails:
  assumes "\<And>b. balance_of gv m n \<noteq> Ret b"
  shows "getOrLoadBalance gv n m = (balance_of gv m n, m)"
  using assms
  by (cases "m n"; cases "gv n = []"; cases "stoi (gv n)"; cases "stoi (the (m n))")
    (auto simp: getOrLoadBalance_def balance_of_def)

section \<open>What the handlers do\<close>

lemma deposit_effect:
  assumes b: "balance_of gv m n = Ret b" and v: "stoi val = Ret v" and i: "in_int (b + v)"
  shows "\<exists>m'. deposit gv n val m = (Ret True, m') \<and>
    balance_of gv m' = (balance_of gv m)(n := Ret (b + v))"
proof -
  obtain m1 where m1: "getOrLoadBalance gv n m = (Ret b, m1)" "m1 n \<noteq> None"
      "balance_of gv m1 = balance_of gv m"
    using load_Ret [OF b] by blast
  note r1 = and_then_run [of "getOrLoadBalance gv n" m b m1, OF m1(1)]
  have "deposit gv n val m = (Ret True, m1(n \<mapsto> to_string (b + v)))"
    using m1(2) by (auto simp: deposit_def r1 v add_int_def i)
  then show ?thesis using i m1(3) by auto
qed

lemma withdraw_effect:
  assumes b: "balance_of gv m n = Ret b" and v: "stoi val = Ret v" and i: "in_int (b - v)"
  shows "\<exists>m'. withdraw gv n val m = (Ret (v \<le> b), m') \<and>
    balance_of gv m' = (if v \<le> b then (balance_of gv m)(n := Ret (b - v)) else balance_of gv m)"
proof -
  obtain m1 where m1: "getOrLoadBalance gv n m = (Ret b, m1)" "m1 n \<noteq> None"
      "balance_of gv m1 = balance_of gv m"
    using load_Ret [OF b] by blast
  note r1 = and_then_run [of "getOrLoadBalance gv n" m b m1, OF m1(1)]
  have "withdraw gv n val m = (if v \<le> b then (Ret True, m1(n \<mapsto> to_string (b - v))) else (Ret False, m1))"
    using m1(2) by (auto simp: withdraw_def r1 v sub_int_def i)
  then show ?thesis using i m1(3) by auto
qed

text \<open>
  A transfer subtracts from the first name and then writes the second balance it read before, so
  with equal names the second write wins.
\<close>

lemma transfer_effect:
  assumes b1: "balance_of gv m n1 = Ret b1" and b2: "balance_of gv m n2 = Ret b2"
    and v: "stoi val = Ret v" and i: "v \<le> b1 \<Longrightarrow> in_int (b1 - v) \<and> in_int (b2 + v)"
  shows "\<exists>m'. transfer gv n1 n2 val m = (Ret (v \<le> b1), m') \<and>
    balance_of gv m' =
      (if v \<le> b1 then (balance_of gv m)(n1 := Ret (b1 - v), n2 := Ret (b2 + v)) else balance_of gv m)"
proof -
  obtain m1 where m1: "getOrLoadBalance gv n1 m = (Ret b1, m1)"
      "balance_of gv m1 = balance_of gv m"
    using load_Ret [OF b1] by blast
  obtain m2 where m2: "getOrLoadBalance gv n2 m1 = (Ret b2, m2)"
      "balance_of gv m2 = balance_of gv m"
    using load_Ret [of gv m1 n2 b2] b2 m1(2) by auto
  note r1 = and_then_run [of "getOrLoadBalance gv n1" m b1 m1, OF m1(1)]
  note r2 = and_then_run [of "getOrLoadBalance gv n2" m1 b2 m2, OF m2(1)]
  have "transfer gv n1 n2 val m =
      (if v \<le> b1 then (Ret True, m2(n1 \<mapsto> to_string (b1 - v), n2 \<mapsto> to_string (b2 + v)))
       else (Ret False, m2))"
    using i by (auto simp: transfer_def v r1 r2
        sub_int_def add_int_def)
  then show ?thesis using i m2(2) by auto
qed

lemma stoi_cases: "(\<exists>v. stoi s = Ret v) \<or> stoi s = Throw Invalid_argument \<or> stoi s = Throw Out_of_range"
  by (auto simp: stoi_def Let_def split: prod.splits)

text \<open>Every outcome of a handler on numeric balances: it succeeds, refuses, throws or overflows.\<close>

lemma deposit_cases:
  assumes b: "balance_of gv m n = Ret b" and d: "deposit gv n val m = (r, m')"
  shows "r = Undef \<or> (\<exists>v. r = Ret True \<and> stoi val = Ret v \<and>
      balance_of gv m' = (balance_of gv m)(n := Ret (b + v))) \<or>
    ((\<exists>e. r = Throw e) \<and> balance_of gv m' = balance_of gv m)"
proof -
  obtain m1 where m1: "getOrLoadBalance gv n m = (Ret b, m1)" "balance_of gv m1 = balance_of gv m"
    using load_Ret [OF b] by blast
  note r1 = and_then_run [of "getOrLoadBalance gv n" m b m1, OF m1(1)]
  show ?thesis
  proof (cases "\<exists>v. stoi val = Ret v \<and> in_int (b + v)")
    case True
    then obtain v where v: "stoi val = Ret v" "in_int (b + v)" by blast
    show ?thesis using deposit_effect [OF b v] d v(1) by auto
  next
    case False
    then show ?thesis using d m1(2) stoi_cases [of val]
      by (auto simp: deposit_def r1 add_int_def)
  qed
qed

lemma withdraw_cases:
  assumes b: "balance_of gv m n = Ret b" and d: "withdraw gv n val m = (r, m')"
  shows "r = Undef \<or> (\<exists>v. r = Ret True \<and> stoi val = Ret v \<and>
      balance_of gv m' = (balance_of gv m)(n := Ret (b - v))) \<or>
    (((\<exists>e. r = Throw e) \<or> r = Ret False) \<and> balance_of gv m' = balance_of gv m)"
proof -
  obtain m1 where m1: "getOrLoadBalance gv n m = (Ret b, m1)" "balance_of gv m1 = balance_of gv m"
    using load_Ret [OF b] by blast
  note r1 = and_then_run [of "getOrLoadBalance gv n" m b m1, OF m1(1)]
  show ?thesis
  proof (cases "\<exists>v. stoi val = Ret v \<and> in_int (b - v)")
    case True
    then obtain v where v: "stoi val = Ret v" "in_int (b - v)" by blast
    show ?thesis using withdraw_effect [OF b v] d v(1) by (auto split: if_splits)
  next
    case False
    then show ?thesis using d m1(2) stoi_cases [of val]
      by (auto simp: withdraw_def r1 sub_int_def split: if_splits)
  qed
qed

lemma transfer_cases:
  assumes b1: "balance_of gv m n1 = Ret b1" and b2: "balance_of gv m n2 = Ret b2"
    and d: "transfer gv n1 n2 val m = (r, m')"
  shows "r = Undef \<or> (\<exists>v. r = Ret True \<and> stoi val = Ret v \<and> v \<le> b1 \<and>
      balance_of gv m' = (balance_of gv m)(n1 := Ret (b1 - v), n2 := Ret (b2 + v))) \<or>
    (((\<exists>e. r = Throw e) \<or> r = Ret False) \<and> balance_of gv m' = balance_of gv m)"
proof -
  obtain m1 where m1: "getOrLoadBalance gv n1 m = (Ret b1, m1)" "balance_of gv m1 = balance_of gv m"
    using load_Ret [OF b1] by blast
  obtain m2 where m2: "getOrLoadBalance gv n2 m1 = (Ret b2, m2)"
    using load_Ret [of gv m1 n2 b2] b2 m1(2) by auto
  note r1 = and_then_run [of "getOrLoadBalance gv n1" m b1 m1, OF m1(1)]
  note r2 = and_then_run [of "getOrLoadBalance gv n2" m1 b2 m2, OF m2(1)]
  show ?thesis
  proof (cases "\<exists>v. stoi val = Ret v \<and> (v \<le> b1 \<longrightarrow> in_int (b1 - v) \<and> in_int (b2 + v))")
    case True
    then obtain v where v: "stoi val = Ret v" "v \<le> b1 \<Longrightarrow> in_int (b1 - v) \<and> in_int (b2 + v)" by blast
    show ?thesis using transfer_effect [OF b1 b2 v] d v(1) by (auto split: if_splits)
  next
    case False
    then show ?thesis using d stoi_cases [of val]
      by (auto simp: transfer_def r1 r2 sub_int_def add_int_def split: if_splits)
  qed
qed

section \<open>The money supply\<close>

text \<open>The sum of the balances of a set of names, when all of them are numbers.\<close>

definition balance :: "(string \<Rightarrow> string) \<Rightarrow> kvmap \<Rightarrow> string \<Rightarrow> int" where
  "balance gv m n = (case balance_of gv m n of Ret b \<Rightarrow> b | _ \<Rightarrow> 0)"

definition numeric :: "(string \<Rightarrow> string) \<Rightarrow> kvmap \<Rightarrow> string set \<Rightarrow> bool" where
  "numeric gv m S \<longleftrightarrow> (\<forall>n\<in>S. \<exists>b. balance_of gv m n = Ret b)"

definition total_coins :: "(string \<Rightarrow> string) \<Rightarrow> kvmap \<Rightarrow> string set \<Rightarrow> int" where
  "total_coins gv m S = (\<Sum>n\<in>S. balance gv m n)"

text \<open>What a successful transaction adds to the supply.\<close>

definition minted :: "json \<Rightarrow> int" where
  "minted p =
     (case (jfield p ''Verb'', jfield p ''Value'') of
        (Ret verb, Ret val) \<Rightarrow>
          (case stoi val of
             Ret v \<Rightarrow> if verb = ''deposit'' then v else if verb = ''withdraw'' then - v else 0
           | _ \<Rightarrow> 0)
      | _ \<Rightarrow> 0)"

text \<open>The payload is not a transfer from a name to itself.\<close>

definition no_self_transfer :: "json \<Rightarrow> bool" where
  "no_self_transfer p \<longleftrightarrow>
     (jfield p ''Verb'' = Ret ''transfer'' \<longrightarrow> jfield p ''Name1'' \<noteq> jfield p ''Name2'')"

lemma supply_upd:
  assumes "finite S" "n \<in> S" "balance_of gv m' = (balance_of gv m)(n := Ret b')"
    and "balance_of gv m n = Ret b"
  shows "total_coins gv m' S = total_coins gv m S + (b' - b)"
proof -
  have "balance gv m' = (balance gv m)(n := b')" using assms(3) by (auto simp: balance_def)
  moreover have "balance gv m n = b" using assms(4) by (simp add: balance_def)
  ultimately show ?thesis
    using assms(1,2) sum.remove [of S n "balance gv m"] sum.remove [of S n "(balance gv m)(n := b')"]
    by (simp add: total_coins_def)
qed

lemma supply_upd2:
  assumes "finite S" "n1 \<in> S" "n2 \<in> S" "n1 \<noteq> n2" "balance_of gv m n1 = Ret b1" "balance_of gv m n2 = Ret b2"
    and "balance_of gv m' = (balance_of gv m)(n1 := Ret (b1 - v), n2 := Ret (b2 + v))"
  shows "total_coins gv m' S = total_coins gv m S"
proof -
  have b: "balance gv m' = (balance gv m)(n1 := b1 - v, n2 := b2 + v)"
    using assms(7) by (auto simp: balance_def)
  have s: "sum f S = f n1 + (f n2 + sum f (S - {n1} - {n2}))" for f :: "string \<Rightarrow> int"
    using assms(1-4) by (simp add: sum.remove [of S n1] sum.remove [of "S - {n1}" n2])
  have "sum (balance gv m') (S - {n1} - {n2}) = sum (balance gv m) (S - {n1} - {n2})"
    by (rule sum.cong) (simp_all add: b)
  moreover have "balance gv m n1 = b1" "balance gv m n2 = b2" using assms(5,6) by (simp_all add: balance_def)
  ultimately show ?thesis using assms(4) by (simp add: total_coins_def s b)
qed

lemma numeric_cong: "balance_of gv m' = balance_of gv m \<Longrightarrow> numeric gv m' S = numeric gv m S"
  by (simp add: numeric_def)

lemma numeric_upd:
  "numeric gv m S \<Longrightarrow> balance_of gv m' = (balance_of gv m)(n := Ret b) \<Longrightarrow> numeric gv m' S"
  by (simp add: numeric_def)

lemma numeric_upd2:
  "numeric gv m S \<Longrightarrow> balance_of gv m' = (balance_of gv m)(n := Ret b, n' := Ret b') \<Longrightarrow> numeric gv m' S"
  by (simp add: numeric_def)

lemma supply_cong: "balance_of gv m' = balance_of gv m \<Longrightarrow> total_coins gv m' S = total_coins gv m S"
  by (simp add: total_coins_def balance_def)

text \<open>
  The supply law of one dispatched transaction: unless it overflows, every account stays a number,
  and the supply changes by what the transaction mints when it succeeds and not at all otherwise.
\<close>

definition supply_step :: "(string \<Rightarrow> string) \<Rightarrow> string set \<Rightarrow> json \<Rightarrow> kvmap \<Rightarrow> bool outcome \<times> kvmap \<Rightarrow> bool" where
  "supply_step gv S p m res \<longleftrightarrow>
     fst res = Undef \<or>
     (numeric gv (snd res) S \<and>
      total_coins gv (snd res) S = total_coins gv m S + (if fst res = Ret True then minted p else 0))"

lemma supply_step_same:
  "numeric gv m S \<Longrightarrow> balance_of gv m' = balance_of gv m \<Longrightarrow> r \<noteq> Ret True \<Longrightarrow> supply_step gv S p m (r, m')"
  using numeric_cong [of gv m' m S] supply_cong [of gv m' m S] by (simp add: supply_step_def)

lemma supply_step_undef: "supply_step gv S p m (Undef, m')"
  by (simp add: supply_step_def)

lemma supply_step_upd:
  assumes "finite S" "n \<in> S" "numeric gv m S" "balance_of gv m n = Ret b"
    and "balance_of gv m' = (balance_of gv m)(n := Ret b')" "minted p = b' - b"
  shows "supply_step gv S p m (Ret True, m')"
  using supply_upd [OF assms(1,2,5,4)] numeric_upd [OF assms(3,5)] assms(6)
  by (simp add: supply_step_def)

lemma supply_step_throw: "numeric gv m S \<Longrightarrow> supply_step gv S p m (Throw e, m)"
  by (rule supply_step_same) simp_all

lemma supply_step_field:
  assumes "numeric gv m S" "\<And>v. jfield p f = Ret v \<Longrightarrow> supply_step gv S p m (g v m)"
  shows "supply_step gv S p m (and_then (lift (jfield p f)) g m)"
  using assms supply_step_throw [OF assms(1)] by (cases "jfield p f") auto

lemma supply_step_deposit:
  assumes S: "finite S" "n \<in> S" and m: "numeric gv m S"
    and p: "jfield p ''Verb'' = Ret ''deposit''" "jfield p ''Value'' = Ret val"
  shows "supply_step gv S p m (deposit gv n val m)"
proof -
  obtain b where b: "balance_of gv m n = Ret b" using m S(2) by (auto simp: numeric_def)
  obtain r m' where d: "deposit gv n val m = (r, m')" by fastforce
  consider "r = Undef"
    | v where "r = Ret True" "stoi val = Ret v" "balance_of gv m' = (balance_of gv m)(n := Ret (b + v))"
    | "r \<noteq> Ret True" "balance_of gv m' = balance_of gv m"
    using deposit_cases [OF b d] by blast
  then show ?thesis unfolding d
  proof cases
    case 1
    then show "supply_step gv S p m (r, m')" by (simp add: supply_step_undef)
  next
    case (2 v)
    have "minted p = b + v - b" using p 2(2) by (simp add: minted_def)
    then show "supply_step gv S p m (r, m')" using supply_step_upd [OF S m b 2(3)] 2(1) by simp
  next
    case 3
    then show "supply_step gv S p m (r, m')" by (intro supply_step_same [OF m])
  qed
qed

lemma supply_step_withdraw:
  assumes S: "finite S" "n \<in> S" and m: "numeric gv m S"
    and p: "jfield p ''Verb'' = Ret ''withdraw''" "jfield p ''Value'' = Ret val"
  shows "supply_step gv S p m (withdraw gv n val m)"
proof -
  obtain b where b: "balance_of gv m n = Ret b" using m S(2) by (auto simp: numeric_def)
  obtain r m' where d: "withdraw gv n val m = (r, m')" by fastforce
  consider "r = Undef"
    | v where "r = Ret True" "stoi val = Ret v" "balance_of gv m' = (balance_of gv m)(n := Ret (b - v))"
    | "r \<noteq> Ret True" "balance_of gv m' = balance_of gv m"
    using withdraw_cases [OF b d] by blast
  then show ?thesis unfolding d
  proof cases
    case 1
    then show "supply_step gv S p m (r, m')" by (simp add: supply_step_undef)
  next
    case (2 v)
    have "minted p = b - v - b" using p 2(2) by (simp add: minted_def)
    then show "supply_step gv S p m (r, m')" using supply_step_upd [OF S m b 2(3)] 2(1) by simp
  next
    case 3
    then show "supply_step gv S p m (r, m')" by (intro supply_step_same [OF m])
  qed
qed

lemma supply_step_transfer:
  assumes S: "finite S" "n1 \<in> S" "n2 \<in> S" "n1 \<noteq> n2" and m: "numeric gv m S"
    and p: "jfield p ''Verb'' = Ret ''transfer''"
  shows "supply_step gv S p m (transfer gv n1 n2 val m)"
proof -
  obtain b1 where b1: "balance_of gv m n1 = Ret b1" using m S(2) by (auto simp: numeric_def)
  obtain b2 where b2: "balance_of gv m n2 = Ret b2" using m S(3) by (auto simp: numeric_def)
  obtain r m' where d: "transfer gv n1 n2 val m = (r, m')" by fastforce
  have mint: "minted p = 0" using p by (simp add: minted_def split: outcome.splits)
  consider "r = Undef"
    | v where "r = Ret True"
        "balance_of gv m' = (balance_of gv m)(n1 := Ret (b1 - v), n2 := Ret (b2 + v))"
    | "r \<noteq> Ret True" "balance_of gv m' = balance_of gv m"
    using transfer_cases [OF b1 b2 d] by blast
  then show ?thesis unfolding d
  proof cases
    case 1
    then show "supply_step gv S p m (r, m')" by (simp add: supply_step_undef)
  next
    case (2 v)
    show "supply_step gv S p m (r, m')"
      using supply_upd2 [OF S b1 b2 2(2)] numeric_upd2 [OF m 2(2)] mint
      by (simp add: supply_step_def)
  next
    case 3
    then show "supply_step gv S p m (r, m')" by (intro supply_step_same [OF m])
  qed
qed

section \<open>Footprint\<close>

definition wallet_fields :: "string list" where
  "wallet_fields = [''Name'', ''Name1'', ''Name2'']"

lemma supply_step_dispatch:
  assumes S: "finite S" "named_keys wallet_fields p \<subseteq> S" and m: "numeric gv m S"
    and p: "jfield p ''Verb'' = Ret verb" "no_self_transfer p"
  shows "supply_step gv S p m (wallet_dispatch gv p verb m)"
proof -
  have k: "k \<in> S" if "jfield p f = Ret k" "f \<in> set wallet_fields" for f k
    using S(2) named_keysI [OF that] by blast
  note fld = supply_step_field [OF m]
  consider "verb = ''deposit''" | "verb = ''withdraw''" | "verb = ''transfer''"
    | "verb \<noteq> ''deposit''" "verb \<noteq> ''withdraw''" "verb \<noteq> ''transfer''" by blast
  then show ?thesis
  proof cases
    case 1
    have "supply_step gv S p m (deposit gv n v m)"
      if "jfield p ''Name'' = Ret n" "jfield p ''Value'' = Ret v" for n v
      using supply_step_deposit [OF S(1) k [OF that(1)] m] p(1) that(2) 1
      by (simp add: wallet_fields_def)
    then show ?thesis unfolding 1 wallet_dispatch_def by (simp add: fld)
  next
    case 2
    have "supply_step gv S p m (withdraw gv n v m)"
      if "jfield p ''Name'' = Ret n" "jfield p ''Value'' = Ret v" for n v
      using supply_step_withdraw [OF S(1) k [OF that(1)] m] p(1) that(2) 2
      by (simp add: wallet_fields_def)
    then show ?thesis unfolding 2 wallet_dispatch_def by (simp add: fld)
  next
    case 3
    have "supply_step gv S p m (transfer gv n1 n2 v m)"
      if "jfield p ''Name1'' = Ret n1" "jfield p ''Name2'' = Ret n2" for n1 n2 v
    proof -
      have "n1 \<noteq> n2" using p 3 that by (simp add: no_self_transfer_def)
      then show ?thesis
        using supply_step_transfer [OF S(1) k [OF that(1)] k [OF that(2)] _ m] p(1) 3
        by (simp add: wallet_fields_def)
    qed
    then show ?thesis unfolding 3 wallet_dispatch_def by (simp add: fld)
  next
    case 4
    then show ?thesis using supply_step_same [OF m, of m "Ret False"]
      by (simp add: wallet_dispatch_def)
  qed
qed

lemma confined_load [confined_intros]: "n \<in> F \<Longrightarrow> confined F (getOrLoadBalance gv n)"
  unfolding getOrLoadBalance_def by (intro confined_intros)

lemma confined_wallet_dispatch:
  "confined (named_keys wallet_fields p) (wallet_dispatch gv p verb)"
  unfolding wallet_dispatch_def deposit_def withdraw_def transfer_def
  by (intro confined_intros) (auto simp: named_keys_def wallet_fields_def)

lemma wallet_confined: "confined (txn_keys C wallet_fields t) (wallet_process C gv t)"
  unfolding wallet_process_def by (rule confined_process_txn) (rule confined_wallet_dispatch)

end
