(* ===== verification/Voting.thy ===== *)
theory Voting
  imports Wallet
begin

text \<open>
  \<open>VotingProcessor\<close> of \<open>smartContracts/voting/votingProcessor.h\<close>, in its three versions: the
  cluster one (no suffix), the single-node serial one, which differs in \<open>registerVoter\<close>, and the
  single-node parallel one, which catches malformed counts and checks that the keys are there.
\<close>

section \<open>The cluster version\<close>

definition getOrLoadVoteCount :: "(string \<Rightarrow> string) \<Rightarrow> string \<Rightarrow> (kvmap, int) op" where
  "getOrLoadVoteCount gv name =
     and_then (lookup_op name) (\<lambda>found.
       case found of
         Some v \<Rightarrow> lift (stoi v)
       | None \<Rightarrow>
           and_then (lift (if gv name = [] then Ret 0 else stoi (gv name))) (\<lambda>votes.
           and_then (insert_op name) (\<lambda>_.
           and_then (store_op name (to_string votes)) (\<lambda>_.
           ret votes))))"

definition registerVoter :: "string \<Rightarrow> (kvmap, bool) op" where
  "registerVoter name =
     and_then (insert_op name) (\<lambda>isnew.
       if isnew then and_then (store_op name ''10000'') (\<lambda>_. ret True) else ret False)"

definition registerCandidate :: "string \<Rightarrow> (kvmap, bool) op" where
  "registerCandidate name =
     and_then (insert_op name) (\<lambda>isnew.
       if isnew then and_then (store_op name ''0'') (\<lambda>_. ret True) else ret False)"

definition transferVote :: "(string \<Rightarrow> string) \<Rightarrow> string \<Rightarrow> string \<Rightarrow> string \<Rightarrow> (kvmap, bool) op" where
  "transferVote gv src dst val =
     and_then (lift (stoi val)) (\<lambda>amount.
     and_then (getOrLoadVoteCount gv src) (\<lambda>fromVotes.
     and_then (getOrLoadVoteCount gv dst) (\<lambda>toVotes.
       if fromVotes \<ge> amount then
         and_then (insert_op src) (\<lambda>_.
         and_then (lift (sub_int fromVotes amount)) (\<lambda>a.
         and_then (store_op src (to_string a)) (\<lambda>_.
         and_then (insert_op dst) (\<lambda>_.
         and_then (lift (add_int toVotes amount)) (\<lambda>b.
         and_then (store_op dst (to_string b)) (\<lambda>_.
         ret True))))))
       else ret False)))"

definition castVote :: "(string \<Rightarrow> string) \<Rightarrow> string \<Rightarrow> string \<Rightarrow> (kvmap, bool) op" where
  "castVote gv voter candidate =
     and_then (getOrLoadVoteCount gv voter) (\<lambda>voterVotes.
     and_then (getOrLoadVoteCount gv candidate) (\<lambda>candidateVotes.
       if voterVotes \<ge> 1 then
         and_then (insert_op voter) (\<lambda>_.
         and_then (lift (sub_int voterVotes 1)) (\<lambda>a.
         and_then (store_op voter (to_string a)) (\<lambda>_.
         and_then (insert_op candidate) (\<lambda>_.
         and_then (lift (add_int candidateVotes 1)) (\<lambda>b.
         and_then (store_op candidate (to_string b)) (\<lambda>_.
         ret True))))))
       else ret False))"

text \<open>The dispatch on the verb, over the four handlers of a version.\<close>

definition voting_dispatch ::
    "(string \<Rightarrow> (kvmap, bool) op) \<Rightarrow> (string \<Rightarrow> (kvmap, bool) op) \<Rightarrow>
     (string \<Rightarrow> string \<Rightarrow> string \<Rightarrow> (kvmap, bool) op) \<Rightarrow>
     (string \<Rightarrow> string \<Rightarrow> (kvmap, bool) op) \<Rightarrow> json \<Rightarrow> string \<Rightarrow> (kvmap, bool) op" where
  "voting_dispatch reg_voter reg_candidate transfer_vote cast_vote p verb =
     (if verb = ''registerVoter'' then
        and_then (lift (jfield p ''Name'')) (\<lambda>n. reg_voter n)
      else if verb = ''registerCandidate'' then
        and_then (lift (jfield p ''Name'')) (\<lambda>n. reg_candidate n)
      else if verb = ''transferVote'' then
        and_then (lift (jfield p ''From'')) (\<lambda>a.
        and_then (lift (jfield p ''To'')) (\<lambda>b.
        and_then (lift (jfield p ''Count'')) (\<lambda>c. transfer_vote a b c)))
      else if verb = ''castVote'' then
        and_then (lift (jfield p ''Voter'')) (\<lambda>a.
        and_then (lift (jfield p ''Candidate'')) (\<lambda>b. cast_vote a b))
      else ret False)"

definition voting_process :: "codec \<Rightarrow> (string \<Rightarrow> string) \<Rightarrow> transaction \<Rightarrow> (kvmap, bool) op" where
  "voting_process C gv t =
     process_txn C (voting_dispatch registerVoter registerCandidate (transferVote gv) (castVote gv)) t"

section \<open>The single-node serial version\<close>

definition registerVoter_serial :: "string \<Rightarrow> (kvmap, bool) op" where
  "registerVoter_serial name =
     and_then (insert_op name) (\<lambda>isnew.
       if isnew then and_then (store_op name ''1'') (\<lambda>_. ret True) else ret True)"

definition voting_process_serial :: "codec \<Rightarrow> (string \<Rightarrow> string) \<Rightarrow> transaction \<Rightarrow> (kvmap, bool) op" where
  "voting_process_serial C gv t =
     process_txn C
       (voting_dispatch registerVoter_serial registerCandidate (transferVote gv) (castVote gv)) t"

section \<open>The single-node parallel version\<close>

definition stoi_or_zero :: "string \<Rightarrow> int outcome" where
  "stoi_or_zero s = (case stoi s of Throw e \<Rightarrow> Ret 0 | r \<Rightarrow> r)"

definition getOrLoadVoteCount_parallel :: "(string \<Rightarrow> string) \<Rightarrow> string \<Rightarrow> (kvmap, int) op" where
  "getOrLoadVoteCount_parallel gv name =
     and_then (lookup_op name) (\<lambda>found.
       case found of
         Some v \<Rightarrow> lift (stoi_or_zero v)
       | None \<Rightarrow>
           and_then (lift (if gv name \<noteq> [] then stoi_or_zero (gv name) else Ret 0)) (\<lambda>votes.
           and_then (insert_op name) (\<lambda>isnew.
           and_then (if isnew then store_op name (to_string votes) else ret ()) (\<lambda>_.
           ret votes))))"

definition registerVoter_parallel :: "string \<Rightarrow> (kvmap, bool) op" where
  "registerVoter_parallel name =
     and_then (insert_op name) (\<lambda>isnew.
       if isnew then and_then (store_op name ''1'') (\<lambda>_. ret True) else ret False)"

definition transferVote_parallel ::
    "(string \<Rightarrow> string) \<Rightarrow> string \<Rightarrow> string \<Rightarrow> string \<Rightarrow> (kvmap, bool) op" where
  "transferVote_parallel gv src dst val =
     (case stoi val of
        Ret amount \<Rightarrow>
          and_then (getOrLoadVoteCount_parallel gv src) (\<lambda>fromVotes.
          and_then (getOrLoadVoteCount_parallel gv dst) (\<lambda>toVotes.
            if fromVotes \<ge> amount then
              and_then (find_op src) (\<lambda>found.
                if \<not> found then ret False else
                and_then (lift (sub_int fromVotes amount)) (\<lambda>a.
                and_then (store_op src (to_string a)) (\<lambda>_.
                and_then (find_op dst) (\<lambda>found'.
                  if \<not> found' then ret False else
                  and_then (lift (add_int toVotes amount)) (\<lambda>b.
                  and_then (store_op dst (to_string b)) (\<lambda>_.
                  ret True))))))
            else ret False))
      | _ \<Rightarrow> ret False)"

definition castVote_parallel :: "(string \<Rightarrow> string) \<Rightarrow> string \<Rightarrow> string \<Rightarrow> (kvmap, bool) op" where
  "castVote_parallel gv voter candidate =
     and_then (getOrLoadVoteCount_parallel gv voter) (\<lambda>voterVotes.
     and_then (getOrLoadVoteCount_parallel gv candidate) (\<lambda>candidateVotes.
       if voterVotes \<ge> 1 then
         and_then (find_op voter) (\<lambda>found.
           if \<not> found then ret False else
           and_then (lift (sub_int voterVotes 1)) (\<lambda>a.
           and_then (store_op voter (to_string a)) (\<lambda>_.
           and_then (find_op candidate) (\<lambda>found'.
             if \<not> found' then ret False else
             and_then (lift (add_int candidateVotes 1)) (\<lambda>b.
             and_then (store_op candidate (to_string b)) (\<lambda>_.
             ret True))))))
       else ret False))"

definition voting_process_parallel ::
    "codec \<Rightarrow> (string \<Rightarrow> string) \<Rightarrow> transaction \<Rightarrow> (kvmap, bool) op" where
  "voting_process_parallel C gv t =
     process_txn C
       (voting_dispatch registerVoter_parallel registerCandidate (transferVote_parallel gv)
         (castVote_parallel gv)) t"

section \<open>What the handlers do\<close>

text \<open>Loading a vote count is loading a balance, and so a count is a balance.\<close>

lemma getOrLoadVoteCount_eq: "getOrLoadVoteCount gv name = getOrLoadBalance gv name"
proof
  fix m
  show "getOrLoadVoteCount gv name m = getOrLoadBalance gv name m"
    by (cases "m name"; cases "gv name = []"; cases "stoi (gv name)")
      (simp_all add: getOrLoadVoteCount_def getOrLoadBalance_def)
qed

lemma load_parallel_eq:
  assumes "balance_of gv m n = Ret b"
  shows "getOrLoadVoteCount_parallel gv n m = getOrLoadBalance gv n m"
proof (cases "m n")
  case None
  have "(if gv n \<noteq> [] then stoi_or_zero (gv n) else Ret 0) = Ret b"
    and "(if gv n = [] then Ret 0 else stoi (gv n)) = Ret b"
    using assms None by (auto simp: balance_of_def stoi_or_zero_def)
  then show ?thesis
    by (simp add: getOrLoadVoteCount_parallel_def getOrLoadBalance_def None)
next
  case (Some v)
  then show ?thesis using assms
    by (simp add: getOrLoadVoteCount_parallel_def getOrLoadBalance_def stoi_or_zero_def balance_of_def)
qed

text \<open>Both counts loaded: the map after it, for the handlers that load two names.\<close>

lemma load_two:
  assumes b1: "balance_of gv m n1 = Ret b1" and b2: "balance_of gv m n2 = Ret b2"
  obtains m1 m2 where "getOrLoadBalance gv n1 m = (Ret b1, m1)"
    "getOrLoadBalance gv n2 m1 = (Ret b2, m2)" "balance_of gv m1 = balance_of gv m"
    "balance_of gv m2 = balance_of gv m" "m2 n1 \<noteq> None" "m2 n2 \<noteq> None"
proof -
  obtain m1 where m1: "getOrLoadBalance gv n1 m = (Ret b1, m1)" "m1 n1 \<noteq> None"
      "balance_of gv m1 = balance_of gv m"
    using load_Ret [OF b1] by blast
  have b2': "balance_of gv m1 n2 = Ret b2" using b2 m1(3) by simp
  obtain m2 where m2: "getOrLoadBalance gv n2 m1 = (Ret b2, m2)" "m2 n2 \<noteq> None"
      "\<forall>k. k \<noteq> n2 \<longrightarrow> m2 k = m1 k" "balance_of gv m2 = balance_of gv m1"
    using load_Ret [OF b2'] by blast
  have "m2 n1 \<noteq> None" using m2(2,3) m1(2) by (cases "n1 = n2") auto
  then show thesis using that [OF m1(1) m2(1)] m1(3) m2(2,4) by simp
qed

lemma transferVote_run:
  assumes b1: "balance_of gv m n1 = Ret b1" and b2: "balance_of gv m n2 = Ret b2"
    and v: "stoi val = Ret v"
  obtains m2 where "balance_of gv m2 = balance_of gv m"
    "transferVote gv n1 n2 val m =
       (if \<not> v \<le> b1 then (Ret False, m2)
        else if \<not> in_int (b1 - v) then (Undef, m2)
        else if \<not> in_int (b2 + v) then (Undef, m2(n1 \<mapsto> to_string (b1 - v)))
        else (Ret True, m2(n1 \<mapsto> to_string (b1 - v), n2 \<mapsto> to_string (b2 + v))))"
    "transferVote_parallel gv n1 n2 val m = transferVote gv n1 n2 val m"
proof -
  obtain m1 m2 where m: "getOrLoadBalance gv n1 m = (Ret b1, m1)"
    "getOrLoadBalance gv n2 m1 = (Ret b2, m2)" "balance_of gv m1 = balance_of gv m"
    "balance_of gv m2 = balance_of gv m" "m2 n1 \<noteq> None" "m2 n2 \<noteq> None"
    using load_two [OF b1 b2] by blast
  have b2': "balance_of gv m1 n2 = Ret b2" using b2 m(3) by simp
  note r1 = and_then_run [of "getOrLoadBalance gv n1" m b1 m1, OF m(1)]
  note r2 = and_then_run [of "getOrLoadBalance gv n2" m1 b2 m2, OF m(2)]
  note p1 = and_then_run [of "getOrLoadVoteCount_parallel gv n1" m b1 m1]
  note p2 = and_then_run [of "getOrLoadVoteCount_parallel gv n2" m1 b2 m2]
  have q: "getOrLoadVoteCount_parallel gv n1 m = (Ret b1, m1)"
      "getOrLoadVoteCount_parallel gv n2 m1 = (Ret b2, m2)"
    using load_parallel_eq [OF b1] load_parallel_eq [OF b2'] m(1,2) by simp_all
  have t: "transferVote gv n1 n2 val m =
       (if \<not> v \<le> b1 then (Ret False, m2)
        else if \<not> in_int (b1 - v) then (Undef, m2)
        else if \<not> in_int (b2 + v) then (Undef, m2(n1 \<mapsto> to_string (b1 - v)))
        else (Ret True, m2(n1 \<mapsto> to_string (b1 - v), n2 \<mapsto> to_string (b2 + v))))"
    by (simp add: m(5,6) transferVote_def v getOrLoadVoteCount_eq r1 r2 sub_int_def add_int_def)
  have "transferVote_parallel gv n1 n2 val m = transferVote gv n1 n2 val m"
    unfolding t
    by (simp add: m(5,6) transferVote_parallel_def v p1 [OF q(1)] p2 [OF q(2)] sub_int_def add_int_def)
  with that m(4) t show thesis by blast
qed

lemma castVote_run:
  assumes b1: "balance_of gv m n1 = Ret b1" and b2: "balance_of gv m n2 = Ret b2"
  obtains m2 where "balance_of gv m2 = balance_of gv m"
    "castVote gv n1 n2 m =
       (if \<not> 1 \<le> b1 then (Ret False, m2)
        else if \<not> in_int (b2 + 1) then (Undef, m2(n1 \<mapsto> to_string (b1 - 1)))
        else (Ret True, m2(n1 \<mapsto> to_string (b1 - 1), n2 \<mapsto> to_string (b2 + 1))))"
    "castVote_parallel gv n1 n2 m = castVote gv n1 n2 m"
proof -
  obtain m1 m2 where m: "getOrLoadBalance gv n1 m = (Ret b1, m1)"
    "getOrLoadBalance gv n2 m1 = (Ret b2, m2)" "balance_of gv m1 = balance_of gv m"
    "balance_of gv m2 = balance_of gv m" "m2 n1 \<noteq> None" "m2 n2 \<noteq> None"
    using load_two [OF b1 b2] by blast
  have b2': "balance_of gv m1 n2 = Ret b2" using b2 m(3) by simp
  have i: "in_int (b1 - 1)" if "1 \<le> b1" using that balance_of_in_int [OF b1] by (simp add: in_int_def)
  note r1 = and_then_run [of "getOrLoadBalance gv n1" m b1 m1, OF m(1)]
  note r2 = and_then_run [of "getOrLoadBalance gv n2" m1 b2 m2, OF m(2)]
  note p1 = and_then_run [of "getOrLoadVoteCount_parallel gv n1" m b1 m1]
  note p2 = and_then_run [of "getOrLoadVoteCount_parallel gv n2" m1 b2 m2]
  have q: "getOrLoadVoteCount_parallel gv n1 m = (Ret b1, m1)"
      "getOrLoadVoteCount_parallel gv n2 m1 = (Ret b2, m2)"
    using load_parallel_eq [OF b1] load_parallel_eq [OF b2'] m(1,2) by simp_all
  have t: "castVote gv n1 n2 m =
       (if \<not> 1 \<le> b1 then (Ret False, m2)
        else if \<not> in_int (b2 + 1) then (Undef, m2(n1 \<mapsto> to_string (b1 - 1)))
        else (Ret True, m2(n1 \<mapsto> to_string (b1 - 1), n2 \<mapsto> to_string (b2 + 1))))"
    using i by (simp add: m(5,6) castVote_def getOrLoadVoteCount_eq r1 r2 sub_int_def add_int_def)
  have "castVote_parallel gv n1 n2 m = castVote gv n1 n2 m"
    unfolding t using i
    by (simp add: m(5,6) castVote_parallel_def p1 [OF q(1)] p2 [OF q(2)] sub_int_def add_int_def)
  with that m(4) t show thesis by blast
qed

section \<open>Footprint\<close>

definition voting_fields :: "string list" where
  "voting_fields = [''Name'', ''From'', ''To'', ''Voter'', ''Candidate'']"

lemma confined_load_votes [confined_intros]: "n \<in> F \<Longrightarrow> confined F (getOrLoadVoteCount gv n)"
  unfolding getOrLoadVoteCount_def by (intro confined_intros)

lemma confined_load_votes_parallel [confined_intros]:
  "n \<in> F \<Longrightarrow> confined F (getOrLoadVoteCount_parallel gv n)"
  unfolding getOrLoadVoteCount_parallel_def by (intro confined_intros)

lemmas vote_handlers = registerVoter_def registerCandidate_def transferVote_def castVote_def
  registerVoter_serial_def registerVoter_parallel_def transferVote_parallel_def castVote_parallel_def

lemma voting_confined: "confined (txn_keys C voting_fields t) (voting_process C gv t)"
  unfolding voting_process_def
  by (rule confined_process_txn, unfold voting_dispatch_def vote_handlers, intro confined_intros)
    (auto simp: named_keys_def voting_fields_def)

lemma voting_serial_confined: "confined (txn_keys C voting_fields t) (voting_process_serial C gv t)"
  unfolding voting_process_serial_def
  by (rule confined_process_txn, unfold voting_dispatch_def vote_handlers, intro confined_intros)
    (auto simp: named_keys_def voting_fields_def)

lemma voting_parallel_confined: "confined (txn_keys C voting_fields t) (voting_process_parallel C gv t)"
  unfolding voting_process_parallel_def
  by (rule confined_process_txn, unfold voting_dispatch_def vote_handlers, intro confined_intros)
    (auto simp: named_keys_def voting_fields_def)

end
