(* ===== verification/ECommerce.thy ===== *)
theory ECommerce
  imports Payload
begin

text \<open>
  \<open>eCommProcessor\<close> of \<open>smartContracts/eCommerce/eCommProcessor.h\<close>.  A cart is the text
  \<open>item quantity item quantity ...\<close>; the handlers tokenise it, rebuild it and store it.  The
  abstract cart is a list of items with integer quantities, and the handlers refine the two
  operations on it.
\<close>

section \<open>The handlers\<close>

definition getOrLoadValue :: "(string \<Rightarrow> string) \<Rightarrow> string \<Rightarrow> (kvmap, string) op" where
  "getOrLoadValue gv key =
     and_then (lookup_op key) (\<lambda>found.
       case found of
         Some v \<Rightarrow> ret v
       | None \<Rightarrow>
           and_then (insert_op key) (\<lambda>_.
           and_then (store_op key (gv key)) (\<lambda>_.
           ret (gv key))))"

definition updateValue :: "string \<Rightarrow> string \<Rightarrow> (kvmap, unit) op" where
  "updateValue key val = and_then (insert_op key) (\<lambda>_. store_op key val)"

definition checkout :: "(string \<Rightarrow> string) \<Rightarrow> json \<Rightarrow> (kvmap, bool) op" where
  "checkout gv p =
     and_then (lift (jfield_const p ''Name1'')) (\<lambda>cartAddress.
     and_then (getOrLoadValue gv cartAddress) (\<lambda>cartContents.
       if cartContents = [] then ret True
       else and_then (updateValue cartAddress []) (\<lambda>_. ret True)))"

text \<open>The loops over the tokens: an item without a quantity at the end is dropped.\<close>

definition cart_entry :: "string \<Rightarrow> string \<Rightarrow> string" where
  "cart_entry name quantity = name @ '' '' @ quantity @ '' ''"

fun add_loop :: "string \<Rightarrow> string \<Rightarrow> string list \<Rightarrow> bool \<Rightarrow> string \<Rightarrow> (bool \<times> string) outcome" where
  "add_loop item quantity (itemName # itemQuantity # ts) found updatedCart =
     (if itemName = item then
        bind_outcome (stoi itemQuantity) (\<lambda>a.
        bind_outcome (stoi quantity) (\<lambda>b.
        bind_outcome (add_int a b) (\<lambda>newQuantity.
        add_loop item quantity ts True (updatedCart @ cart_entry itemName (to_string newQuantity)))))
      else add_loop item quantity ts found (updatedCart @ cart_entry itemName itemQuantity))"
| "add_loop item quantity ts found updatedCart = Ret (found, updatedCart)"

definition addToCart :: "(string \<Rightarrow> string) \<Rightarrow> json \<Rightarrow> (kvmap, bool) op" where
  "addToCart gv p =
     and_then (lift (jfield_const p ''Name'')) (\<lambda>cartAddress.
     and_then (lift (jfield_const p ''Item'')) (\<lambda>item.
     and_then (lift (jfield_const p ''Value'')) (\<lambda>quantity.
     and_then (getOrLoadValue gv cartAddress) (\<lambda>cartContents.
     and_then (lift (add_loop item quantity (words_of cartContents) False [])) (\<lambda>(found, updatedCart).
     and_then (updateValue cartAddress
        (if found then updatedCart else updatedCart @ cart_entry item quantity)) (\<lambda>_.
     ret True))))))"

fun remove_loop :: "string \<Rightarrow> string \<Rightarrow> string list \<Rightarrow> bool \<Rightarrow> string \<Rightarrow> (bool \<times> string) outcome" where
  "remove_loop item quantity (itemName # itemQuantity # ts) found updatedCart =
     (if itemName = item then
        bind_outcome (stoi itemQuantity) (\<lambda>a.
        bind_outcome (stoi quantity) (\<lambda>b.
        bind_outcome (sub_int a b) (\<lambda>newQuantity.
        remove_loop item quantity ts True
          (if newQuantity > 0 then updatedCart @ cart_entry itemName (to_string newQuantity)
           else updatedCart))))
      else remove_loop item quantity ts found (updatedCart @ cart_entry itemName itemQuantity))"
| "remove_loop item quantity ts found updatedCart = Ret (found, updatedCart)"

definition removeFromCart :: "(string \<Rightarrow> string) \<Rightarrow> json \<Rightarrow> (kvmap, bool) op" where
  "removeFromCart gv p =
     and_then (lift (jfield_const p ''Name'')) (\<lambda>cartAddress.
     and_then (lift (jfield_const p ''Item'')) (\<lambda>item.
     and_then (lift (jfield_const p ''Value'')) (\<lambda>quantity.
     and_then (getOrLoadValue gv cartAddress) (\<lambda>cartContents.
     and_then (lift (remove_loop item quantity (words_of cartContents) False [])) (\<lambda>(found, updatedCart).
       if \<not> found then ret False
       else and_then (updateValue cartAddress updatedCart) (\<lambda>_. ret True))))))"

definition refillItem :: "(string \<Rightarrow> string) \<Rightarrow> json \<Rightarrow> (kvmap, bool) op" where
  "refillItem gv p =
     and_then (lift (jfield_const p ''Name'')) (\<lambda>itemAddress.
     and_then (lift (jfield_const p ''Value'')) (\<lambda>quantity.
     and_then (getOrLoadValue gv itemAddress) (\<lambda>existingQuantity.
     and_then (lift (stoi (if existingQuantity = [] then ''0'' else existingQuantity))) (\<lambda>a.
     and_then (lift (stoi quantity)) (\<lambda>b.
     and_then (lift (add_int a b)) (\<lambda>newQuantity.
     and_then (updateValue itemAddress (to_string newQuantity)) (\<lambda>_.
     ret True)))))))"

definition ecomm_dispatch :: "(string \<Rightarrow> string) \<Rightarrow> json \<Rightarrow> string \<Rightarrow> (kvmap, bool) op" where
  "ecomm_dispatch gv p verb =
     (if verb = ''checkout'' then checkout gv p
      else if verb = ''addToCart'' then addToCart gv p
      else if verb = ''removeFromCart'' then removeFromCart gv p
      else if verb = ''refillItem'' then refillItem gv p
      else ret False)"

definition ecomm_process :: "codec \<Rightarrow> (string \<Rightarrow> string) \<Rightarrow> transaction \<Rightarrow> (kvmap, bool) op" where
  "ecomm_process C gv t = process_txn C (ecomm_dispatch gv) t"

section \<open>The text form of a cart\<close>

definition clean :: "string \<Rightarrow> bool" where
  "clean w \<longleftrightarrow> w \<noteq> [] \<and> list_all (\<lambda>c. \<not> isspace c) w"

lemma isspace_blank [simp]: "isspace (CHR '' '')"
  by (simp add: isspace_def)

lemma clean_show_nat: "clean (show_nat n)"
  using show_nat_digits [of n] isdigit_not_isspace by (auto simp: clean_def list_all_iff)

lemma clean_to_string [simp]: "clean (to_string i)"
  using clean_show_nat by (simp add: clean_def to_string_def isspace_def)

lemma words_of_word:
  assumes "clean w"
  shows "words_of (w @ CHR '' '' # s) = w # words_of s"
proof -
  obtain c cs where w: "w = c # cs" "\<not> isspace c" "list_all (\<lambda>c. \<not> isspace c) cs"
    using assms by (cases w) (auto simp: clean_def)
  have "dropWhile isspace (w @ CHR '' '' # s) = c # cs @ CHR '' '' # s" using w by simp
  moreover have "takeWhile (\<lambda>x. \<not> isspace x) (cs @ CHR '' '' # s) = cs"
    using w(3) by (induction cs) auto
  moreover have "dropWhile (\<lambda>x. \<not> isspace x) (cs @ CHR '' '' # s) = CHR '' '' # s"
    using w(3) by (induction cs) auto
  moreover have "words_of (CHR '' '' # s) = words_of s"
    by (subst (1 2) words_of.simps) simp
  ultimately show ?thesis using w(1) by (subst words_of.simps) simp
qed

text \<open>An abstract cart, its text, and the quantity it holds of an item.\<close>

type_synonym cart = "(string \<times> int) list"

definition print_cart :: "cart \<Rightarrow> string" where
  "print_cart c = concat (map (\<lambda>(n, q). cart_entry n (to_string q)) c)"

definition cart_ok :: "cart \<Rightarrow> bool" where
  "cart_ok c \<longleftrightarrow> distinct (map fst c) \<and> (\<forall>(n, q)\<in>set c. clean n \<and> in_int q)"

definition cart_tokens :: "cart \<Rightarrow> string list" where
  "cart_tokens c = concat (map (\<lambda>(n, q). [n, to_string q]) c)"

lemma words_of_cart:
  assumes "\<forall>(n, q)\<in>set c. clean n"
  shows "words_of (print_cart c) = cart_tokens c"
  using assms
proof (induction c)
  case Nil
  then show ?case by (simp add: print_cart_def cart_tokens_def)
next
  case (Cons x c)
  obtain n q where x: "x = (n, q)" by fastforce
  have "words_of (print_cart (x # c)) =
      words_of (n @ CHR '' '' # (to_string q @ CHR '' '' # print_cart c))"
    by (simp add: print_cart_def cart_entry_def x)
  also have "\<dots> = n # to_string q # words_of (print_cart c)"
    using Cons.prems x by (simp add: words_of_word)
  finally show ?case using Cons by (simp add: cart_tokens_def x)
qed

text \<open>The two operations on abstract carts.\<close>

fun add_item :: "string \<Rightarrow> int \<Rightarrow> cart \<Rightarrow> cart" where
  "add_item item v [] = [(item, v)]"
| "add_item item v ((n, q) # c) = (if n = item then (n, q + v) # c else (n, q) # add_item item v c)"

fun drop_item :: "string \<Rightarrow> int \<Rightarrow> cart \<Rightarrow> cart" where
  "drop_item item v [] = []"
| "drop_item item v ((n, q) # c) =
     (if n = item then (if q - v > 0 then (n, q - v) # c else c) else (n, q) # drop_item item v c)"

lemma print_cart_simps [simp]:
  "print_cart [] = []"
  "print_cart ((n, q) # c) = cart_entry n (to_string q) @ print_cart c"
  "print_cart (c @ d) = print_cart c @ print_cart d"
  by (simp_all add: print_cart_def)

lemma cart_tokens_simps [simp]:
  "cart_tokens [] = []"
  "cart_tokens ((n, q) # c) = n # to_string q # cart_tokens c"
  by (simp_all add: cart_tokens_def)

lemma cart_ok_Cons:
  "cart_ok ((n, q) # c) \<longleftrightarrow> n \<notin> fst ` set c \<and> clean n \<and> in_int q \<and> cart_ok c"
  by (auto simp: cart_ok_def)

lemma cart_ok_Nil [simp]: "cart_ok []"
  by (simp add: cart_ok_def)

lemma add_item_names: "fst ` set (add_item item v c) = insert item (fst ` set c)"
  by (induction item v c rule: add_item.induct) auto

lemma drop_item_names: "fst ` set (drop_item item v c) \<subseteq> fst ` set c"
  by (induction item v c rule: drop_item.induct) auto

lemma add_item_ok:
  "cart_ok c \<Longrightarrow> clean item \<Longrightarrow> in_int v \<Longrightarrow> (\<And>q. (item, q) \<in> set c \<Longrightarrow> in_int (q + v)) \<Longrightarrow>
   cart_ok (add_item item v c)"
  by (induction item v c rule: add_item.induct) (auto simp: cart_ok_Cons add_item_names)

lemma drop_item_ok:
  "cart_ok c \<Longrightarrow> (\<And>q. (item, q) \<in> set c \<Longrightarrow> in_int (q - v)) \<Longrightarrow> cart_ok (drop_item item v c)"
proof (induction item v c rule: drop_item.induct)
  case (2 item v n q c)
  then show ?case using drop_item_names [of item v c] by (auto simp: cart_ok_Cons)
qed simp

section \<open>The loops refine the operations\<close>

lemma add_loop_absent:
  "item \<notin> fst ` set c \<Longrightarrow>
   add_loop item quantity (cart_tokens c) found acc = Ret (found, acc @ print_cart c)"
  by (induction c arbitrary: acc) auto

lemma add_loop_cart:
  assumes "cart_ok c" "stoi quantity = Ret v" "\<And>q. (item, q) \<in> set c \<Longrightarrow> in_int (q + v)"
  shows "\<exists>r. add_loop item quantity (cart_tokens c) False acc = Ret r \<and>
    (fst r \<longleftrightarrow> item \<in> fst ` set c) \<and>
    (fst r \<longrightarrow> snd r = acc @ print_cart (add_item item v c)) \<and> (\<not> fst r \<longrightarrow> snd r = acc @ print_cart c)"
  using assms
proof (induction c arbitrary: acc)
  case (Cons x c)
  obtain n q where x: "x = (n, q)" by fastforce
  show ?case
  proof (cases "n = item")
    case True
    have q: "in_int q" "item \<notin> fst ` set c" using Cons.prems(1) x True by (auto simp: cart_ok_Cons)
    have "in_int (q + v)" using Cons.prems(3) [of q] x True by simp
    then show ?thesis using q Cons.prems(2)
      by (simp add: x True add_int_def add_loop_absent)
  next
    case False
    have IH: "\<exists>r. add_loop item quantity (cart_tokens c) False (acc @ cart_entry n (to_string q)) = Ret r \<and>
      (fst r \<longleftrightarrow> item \<in> fst ` set c) \<and>
      (fst r \<longrightarrow> snd r = (acc @ cart_entry n (to_string q)) @ print_cart (add_item item v c)) \<and>
      (\<not> fst r \<longrightarrow> snd r = (acc @ cart_entry n (to_string q)) @ print_cart c)"
      using Cons.prems x by (intro Cons.IH) (auto simp: cart_ok_Cons)
    then show ?thesis using False x by auto
  qed
qed simp

lemma remove_loop_absent:
  "item \<notin> fst ` set c \<Longrightarrow>
   remove_loop item quantity (cart_tokens c) found acc = Ret (found, acc @ print_cart c)"
  by (induction c arbitrary: acc) auto

lemma remove_loop_cart:
  assumes "cart_ok c" "stoi quantity = Ret v" "\<And>q. (item, q) \<in> set c \<Longrightarrow> in_int (q - v)"
  shows "remove_loop item quantity (cart_tokens c) False acc =
    Ret (item \<in> fst ` set c, acc @ print_cart (drop_item item v c))"
  using assms
proof (induction c arbitrary: acc)
  case (Cons x c)
  obtain n q where x: "x = (n, q)" by fastforce
  show ?case
  proof (cases "n = item")
    case True
    have q: "in_int q" "item \<notin> fst ` set c" using Cons.prems(1) x True by (auto simp: cart_ok_Cons)
    have "in_int (q - v)" using Cons.prems(3) [of q] x True by simp
    then show ?thesis using q Cons.prems(2)
      by (simp add: x True sub_int_def remove_loop_absent)
  next
    case False
    have "remove_loop item quantity (cart_tokens c) False (acc @ cart_entry n (to_string q)) =
      Ret (item \<in> fst ` set c, (acc @ cart_entry n (to_string q)) @ print_cart (drop_item item v c))"
      using Cons.prems x by (intro Cons.IH) (auto simp: cart_ok_Cons)
    then show ?thesis using False x by auto
  qed
qed simp

section \<open>What the handlers do\<close>

text \<open>The text a cart address holds: its entry in the map, else the committed value.\<close>

definition held :: "(string \<Rightarrow> string) \<Rightarrow> kvmap \<Rightarrow> string \<Rightarrow> string" where
  "held gv m k = (case m k of Some v \<Rightarrow> v | None \<Rightarrow> gv k)"

lemma load_value: "getOrLoadValue gv k m = (Ret (held gv m k), m(k \<mapsto> held gv m k))"
  by (cases "m k") (auto simp: getOrLoadValue_def held_def)

lemma and_then_load_value [simp]:
  "and_then (getOrLoadValue gv k) f m = f (held gv m k) (m(k \<mapsto> held gv m k))"
  by (simp add: and_then_def load_value)

lemma and_then_updateValue [simp]: "and_then (updateValue k v) f m = f () (m(k \<mapsto> v))"
  by (auto simp: updateValue_def and_then_def insert_op_def split: option.splits)

lemma addToCart_refines:
  assumes f: "jfield_const p ''Name'' = Ret k" "jfield_const p ''Item'' = Ret item"
      "jfield_const p ''Value'' = Ret (to_string v)"
    and c: "held gv m k = print_cart c" "cart_ok c"
    and v: "in_int v" "\<And>q. (item, q) \<in> set c \<Longrightarrow> in_int (q + v)"
  shows "addToCart gv p m = (Ret True, m(k \<mapsto> print_cart (add_item item v c)))"
proof -
  have w: "words_of (print_cart c) = cart_tokens c"
    using c(2) by (intro words_of_cart) (auto simp: cart_ok_def)
  have app: "add_item item v c = c @ [(item, v)]" if "item \<notin> fst ` set c"
    using that by (induction item v c rule: add_item.induct) auto
  have s: "stoi (to_string v) = Ret v" using v(1) by simp
  obtain found upd where l: "add_loop item (to_string v) (cart_tokens c) False [] = Ret (found, upd)"
      "found \<longleftrightarrow> item \<in> fst ` set c" "found \<Longrightarrow> upd = print_cart (add_item item v c)"
      "\<not> found \<Longrightarrow> upd = print_cart c"
    using add_loop_cart [OF c(2) s v(2), of item "[]"] by auto
  show ?thesis
    using l(2-4) app by (cases found) (simp_all add: addToCart_def f c(1) w l(1))
qed

lemma removeFromCart_refines:
  assumes f: "jfield_const p ''Name'' = Ret k" "jfield_const p ''Item'' = Ret item"
      "jfield_const p ''Value'' = Ret (to_string v)"
    and c: "held gv m k = print_cart c" "cart_ok c"
    and v: "in_int v" "\<And>q. (item, q) \<in> set c \<Longrightarrow> in_int (q - v)"
  shows "removeFromCart gv p m =
    (Ret (item \<in> fst ` set c),
     m(k \<mapsto> print_cart (if item \<in> fst ` set c then drop_item item v c else c)))"
proof -
  have w: "words_of (print_cart c) = cart_tokens c"
    using c(2) by (intro words_of_cart) (auto simp: cart_ok_def)
  have s: "stoi (to_string v) = Ret v" using v(1) by simp
  show ?thesis
    using remove_loop_cart [OF c(2) s v(2), of item "[]"]
    by (simp add: removeFromCart_def f c(1) w)
qed

section \<open>Footprint\<close>

definition ecomm_fields :: "string list" where
  "ecomm_fields = [''Name'', ''Name1'']"

lemma jfield_const_Ret: "jfield_const p k = Ret s \<Longrightarrow> jfield p k = Ret s"
  by (auto simp: jfield_const_def jfield_def split: json.splits option.splits)

lemma confined_load_value [confined_intros]: "k \<in> F \<Longrightarrow> confined F (getOrLoadValue gv k)"
  unfolding getOrLoadValue_def by (intro confined_intros)

lemma confined_updateValue [confined_intros]: "k \<in> F \<Longrightarrow> confined F (updateValue k v)"
  unfolding updateValue_def by (intro confined_intros)

lemma confined_case_prod [confined_intros]:
  "(\<And>a b. confined F (f a b)) \<Longrightarrow> confined F (case x of (a, b) \<Rightarrow> f a b)"
  by (cases x) simp

lemma ecomm_confined: "confined (txn_keys C ecomm_fields t) (ecomm_process C gv t)"
  unfolding ecomm_process_def
  by (rule confined_process_txn,
      unfold ecomm_dispatch_def checkout_def addToCart_def removeFromCart_def refillItem_def,
      intro confined_intros)
    (auto simp: named_keys_def ecomm_fields_def dest: jfield_const_Ret)

end
