(* ===== verification/Merkle_Tree.thy ===== *)
theory Merkle_Tree
  imports Cxx_Text "HOL-Library.Word"
begin

text \<open>
  The Merkle tree over RocksDB: \<open>GlobalState\<close> of \<open>merkleTree/globalState.h\<close>, with the two variants
  of the experiments directory.  The content of the database is a map from keys to serialised nodes;
  the SHA-256 digest and the effect of \<open>DB::Put\<close> are parameters, gathered in the record \<open>env\<close>.
  This theory holds the definitions; \<open>Merkle_Facts\<close> proves what they do.
\<close>

section \<open>What the code takes from its libraries\<close>

type_synonym db = "string \<Rightarrow> string option"

record env =
  sha256 :: "string \<Rightarrow> 8 word list"
  put :: "db \<Rightarrow> string \<Rightarrow> string \<Rightarrow> bool \<times> db"

text \<open>
  The documented behaviour the code relies on: a SHA-256 digest has 32 bytes, and a write that
  succeeds stores the value under the key and changes nothing else.
\<close>

definition sha256_len :: "env \<Rightarrow> bool" where
  "sha256_len E \<longleftrightarrow> (\<forall>s. length (sha256 E s) = 32)"

definition put_ok :: "env \<Rightarrow> bool" where
  "put_ok E \<longleftrightarrow> (\<forall>m k v. put E m k v = (True, m(k \<mapsto> v)))"

definition lawful :: "env \<Rightarrow> bool" where
  "lawful E \<longleftrightarrow> sha256_len E \<and> put_ok E"

section \<open>Nodes and their text form\<close>

record node =
  nvalue :: string
  nhash :: string
  nchildren :: "string list"

definition no_node :: node where
  "no_node = \<lparr>nvalue = [], nhash = [], nchildren = []\<rparr>"

text \<open>\<open>computeHash\<close>: the digest in lower-case hexadecimal, two characters for each byte.\<close>

definition hex_digit :: "nat \<Rightarrow> char" where
  "hex_digit d = (if d < 10 then digit_char d else char_of (87 + d))"

definition hex_byte :: "8 word \<Rightarrow> string" where
  "hex_byte b = [hex_digit (unat b div 16), hex_digit (unat b mod 16)]"

definition computeHash :: "env \<Rightarrow> string \<Rightarrow> string" where
  "computeHash E input = concat (map hex_byte (sha256 E input))"

definition serializeNode :: "node \<Rightarrow> string" where
  "serializeNode n =
     foldl (\<lambda>s c. s @ CHR '','' # c) (nhash n @ CHR '','' # nvalue n) (nchildren n)"

text \<open>
  \<open>data.find(',', pos)\<close>, with \<open>npos\<close> as \<open>None\<close>; \<open>nextPos + 1\<close>, where \<open>npos + 1\<close> wraps around to 0;
  and \<open>data.substr(pos, nextPos - pos)\<close>, where a count of \<open>npos - pos\<close> takes the rest.
\<close>

definition find_from :: "string \<Rightarrow> char \<Rightarrow> nat \<Rightarrow> nat option" where
  "find_from data c pos =
     (let rest = drop pos data
      in if c \<in> set rest then Some (pos + length (takeWhile (\<lambda>x. x \<noteq> c) rest)) else None)"

definition pos_after :: "nat option \<Rightarrow> nat" where
  "pos_after nextPos = (case nextPos of None \<Rightarrow> 0 | Some q \<Rightarrow> Suc q)"

definition substr_to :: "string \<Rightarrow> nat \<Rightarrow> nat option \<Rightarrow> string" where
  "substr_to data pos nextPos =
     (case nextPos of None \<Rightarrow> drop pos data | Some q \<Rightarrow> take (q - pos) (drop pos data))"

lemma find_from_bounds: "find_from data c pos = Some q \<Longrightarrow> pos \<le> q \<and> q < length data"
proof -
  assume a: "find_from data c pos = Some q"
  then have c: "c \<in> set (drop pos data)"
    and q: "q = pos + length (takeWhile (\<lambda>x. x \<noteq> c) (drop pos data))"
    by (auto simp: find_from_def Let_def split: if_splits)
  have "length (takeWhile (\<lambda>x. x \<noteq> c) (drop pos data)) < length (drop pos data)"
  proof (rule ccontr)
    assume "\<not> ?thesis"
    then have "takeWhile (\<lambda>x. x \<noteq> c) (drop pos data) = drop pos data"
      by (metis length_takeWhile_le linorder_not_less le_antisym takeWhile_eq_take take_all)
    then show False using c by (metis (mono_tags, lifting) set_takeWhileD)
  qed
  then show ?thesis using q by simp
qed

text \<open>The loop that reads the children, and the last child after it.\<close>

function children_loop :: "string \<Rightarrow> nat \<Rightarrow> string list \<Rightarrow> string list" where
  "children_loop data pos acc =
     (case find_from data (CHR '','') pos of
        Some q \<Rightarrow> children_loop data (Suc q) (acc @ [substr_to data pos (Some q)])
      | None \<Rightarrow> if pos < length data then acc @ [drop pos data] else acc)"
  by pat_completeness auto
termination
  by (relation "measure (\<lambda>(data, pos, acc). length data - pos)") (auto dest: find_from_bounds)

declare children_loop.simps [simp del]

definition deserializeNode :: "string \<Rightarrow> node" where
  "deserializeNode data =
     (let nextPos = find_from data (CHR '','') 0;
          h = substr_to data 0 nextPos;
          pos = pos_after nextPos;
          nextPos2 = find_from data (CHR '','') pos;
          v = substr_to data pos nextPos2;
          pos2 = pos_after nextPos2
      in \<lparr>nvalue = v, nhash = h, nchildren = children_loop data pos2 []\<rparr>)"

section \<open>Reading and writing the tree\<close>

definition getNode :: "db \<Rightarrow> string \<Rightarrow> node" where
  "getNode m key = (case m key of Some data \<Rightarrow> deserializeNode data | None \<Rightarrow> no_node)"

definition root_key :: string where
  "root_key = ''rootNode''"

definition getRootHash :: "db \<Rightarrow> string" where
  "getRootHash m = nhash (getNode m root_key)"

definition getValue :: "env \<Rightarrow> db \<Rightarrow> string \<Rightarrow> string" where
  "getValue E m key = nvalue (getNode m (computeHash E key))"

text \<open>The constructor: the database on disk, emptied when \<open>fresh\<close>, gets a root node if it has none.\<close>

definition open_state :: "env \<Rightarrow> bool \<Rightarrow> db \<Rightarrow> db outcome" where
  "open_state E fresh disk =
     (let m = (if fresh then Map.empty else disk);
          rootNode = \<lparr>nvalue = [], nhash = computeHash E [], nchildren = []\<rparr>
      in case m root_key of
           Some existing \<Rightarrow> Ret m
         | None \<Rightarrow>
             (case put E m root_key (serializeNode rootNode) of
                (True, m') \<Rightarrow> Ret m'
              | (False, m') \<Rightarrow> Throw Runtime_error))"

text \<open>
  \<open>insert\<close>: the leaf under the hash of the key, then one link for each longer prefix of that hash.
  \<open>keyHash[0]\<close> of an empty string is the terminating zero byte.
\<close>

definition first_char :: "string \<Rightarrow> char" where
  "first_char s = (case s of [] \<Rightarrow> CHR 0x00 | c # cs \<Rightarrow> c)"

definition add_child :: "env \<Rightarrow> db \<Rightarrow> string \<Rightarrow> string \<Rightarrow> db" where
  "add_child E m parentKey child =
     (let parentNode = getNode m parentKey
      in if child \<in> set (nchildren parentNode) then m
         else snd (put E m parentKey
                (serializeNode (parentNode\<lparr>nchildren := nchildren parentNode @ [child]\<rparr>))))"

fun link_path :: "env \<Rightarrow> string \<Rightarrow> string \<Rightarrow> db \<Rightarrow> db" where
  "link_path E [] currentHash m = m"
| "link_path E (c # cs) currentHash m =
     link_path E cs (currentHash @ [c]) (add_child E m currentHash (currentHash @ [c]))"

definition insert_kv :: "env \<Rightarrow> string \<Rightarrow> string \<Rightarrow> db \<Rightarrow> bool \<times> db" where
  "insert_kv E key val m =
     (let keyHash = computeHash E key;
          newNode = \<lparr>nvalue = val, nhash = computeHash E val, nchildren = []\<rparr>;
          (ok, m1) = put E m keyHash (serializeNode newNode)
      in if \<not> ok then (False, m1)
         else let currentHash = [first_char keyHash];
                  m2 = add_child E m1 root_key currentHash
              in (True, link_path E (tl keyHash) currentHash m2))"

section \<open>Recomputing hashes\<close>

definition child_hashes :: "db \<Rightarrow> string list \<Rightarrow> string" where
  "child_hashes m cs = concat (map (\<lambda>c. nhash (getNode m c)) cs)"

definition rehash_node :: "env \<Rightarrow> db \<Rightarrow> string \<Rightarrow> db" where
  "rehash_node E m key =
     (let currentNode = getNode m key;
          combinedHash = child_hashes m (nchildren currentNode) @ nvalue currentNode
      in snd (put E m key (serializeNode (currentNode\<lparr>nhash := computeHash E combinedHash\<rparr>))))"

definition rehash_root :: "env \<Rightarrow> db \<Rightarrow> db" where
  "rehash_root E m =
     (let currentNode = getNode m root_key;
          combinedHash = child_hashes m (nchildren currentNode)
      in snd (put E m root_key (serializeNode (currentNode\<lparr>nhash := computeHash E combinedHash\<rparr>))))"

function climb_hashes :: "env \<Rightarrow> string \<Rightarrow> db \<Rightarrow> db" where
  "climb_hashes E currentHashKey m =
     (if currentHashKey = [] then m
      else climb_hashes E (butlast currentHashKey) (rehash_node E m currentHashKey))"
  by pat_completeness auto
termination
  by (relation "measure (\<lambda>(E, k, m). length k)") auto

declare climb_hashes.simps [simp del]

text \<open>\<open>pop_back\<close> of an empty string is undefined.\<close>

definition updateParentHashes :: "env \<Rightarrow> string \<Rightarrow> db \<Rightarrow> db outcome" where
  "updateParentHashes E keyHash m =
     (if keyHash = [] then Undef
      else Ret (rehash_root E (climb_hashes E (butlast keyHash) m)))"

text \<open>\<open>serialMerkleTree::insert\<close> differs in one line: it recomputes the hashes of the path.\<close>

definition serial_insert :: "env \<Rightarrow> string \<Rightarrow> string \<Rightarrow> db \<Rightarrow> (bool \<times> db) outcome" where
  "serial_insert E key val m =
     (case insert_kv E key val m of
        (False, m') \<Rightarrow> Ret (False, m')
      | (True, m') \<Rightarrow>
          bind_outcome (updateParentHashes E (computeHash E key) m') (\<lambda>m''. Ret (True, m'')))"

section \<open>\<open>updateTree\<close> and its node cache\<close>

record gstate =
  gs_db :: db
  nodeCache :: "string \<Rightarrow> node option"

definition getCachedNode :: "gstate \<Rightarrow> string \<Rightarrow> node \<times> gstate" where
  "getCachedNode g key =
     (case nodeCache g key of
        Some n \<Rightarrow> (n, g)
      | None \<Rightarrow> let n = getNode (gs_db g) key in (n, g\<lparr>nodeCache := (nodeCache g)(key \<mapsto> n)\<rparr>))"

fun cached_child_hashes :: "string list \<Rightarrow> gstate \<Rightarrow> string \<times> gstate" where
  "cached_child_hashes [] g = ([], g)"
| "cached_child_hashes (c # cs) g =
     (let (child, g1) = getCachedNode g c;
          (rest, g2) = cached_child_hashes cs g1
      in (nhash child @ rest, g2))"

definition update_node :: "env \<Rightarrow> string \<Rightarrow> gstate \<Rightarrow> gstate" where
  "update_node E currentKey g =
     (let (nd, g1) = getCachedNode g currentKey;
          (hs, g2) = cached_child_hashes (nchildren nd) g1;
          newHash = computeHash E (hs @ nvalue nd)
      in if nhash nd \<noteq> newHash
         then g2\<lparr>gs_db := snd (put E (gs_db g2) currentKey (serializeNode (nd\<lparr>nhash := newHash\<rparr>)))\<rparr>
         else g2)"

function climb_tree :: "env \<Rightarrow> string \<Rightarrow> string set \<times> gstate \<Rightarrow> string set \<times> gstate" where
  "climb_tree E currentKey (visited, g) =
     (if currentKey = [] \<or> currentKey \<in> visited then (visited, g)
      else climb_tree E (butlast currentKey)
             (insert currentKey visited, update_node E currentKey g))"
  by pat_completeness auto
termination
  by (relation "measure (\<lambda>(E, k, s). length k)") auto

declare climb_tree.simps [simp del]

definition updateTree :: "env \<Rightarrow> string \<Rightarrow> gstate \<Rightarrow> gstate" where
  "updateTree E spaceSeparatedKeys g =
     (let (visited, g1) =
            foldl (\<lambda>s key. climb_tree E (computeHash E key) s) ({}, g) (words_of spaceSeparatedKeys)
      in g1\<lparr>gs_db := rehash_root E (gs_db g1)\<rparr>)"

end
