(* ===== verification/Merkle_Facts.thy ===== *)
theory Merkle_Facts
  imports Merkle_Tree
begin

text \<open>
  What the operations of \<open>Merkle_Tree\<close> do: the text format of nodes, reading back what was
  inserted, the shape of the tree, and the Merkle invariant of the serial tree.
\<close>

section \<open>The digest in hexadecimal\<close>

definition is_hex :: "char \<Rightarrow> bool" where
  "is_hex c \<longleftrightarrow> isdigit c \<or> (97 \<le> (of_char c :: nat) \<and> (of_char c :: nat) \<le> 102)"

lemma is_hex_hex_digit: "d < 16 \<Longrightarrow> is_hex (hex_digit d)"
  by (auto simp: hex_digit_def is_hex_def of_char_of)

lemma unat_byte_div: "unat (b :: 8 word) div 16 < 16"
  using unsigned_less [of b, where ?'a = nat] by simp

lemma hex_byte_hex: "list_all is_hex (hex_byte b)"
  by (simp add: hex_byte_def is_hex_hex_digit unat_byte_div)

lemma computeHash_hex: "c \<in> set (computeHash E s) \<Longrightarrow> is_hex c"
  using hex_byte_hex by (auto simp: computeHash_def list_all_iff)

lemma length_concat_hex: "length (concat (map hex_byte bs)) = 2 * length bs"
  by (induction bs) (simp_all add: hex_byte_def)

lemma computeHash_length: "sha256_len E \<Longrightarrow> length (computeHash E s) = 64"
  by (simp add: computeHash_def length_concat_hex sha256_len_def)

lemma not_hex_comma [simp]: "\<not> is_hex (CHR '','')"
  by (simp add: is_hex_def isdigit_def)

lemma computeHash_no_comma [simp]: "CHR '','' \<notin> set (computeHash E s)"
  using computeHash_hex not_hex_comma by blast

lemma computeHash_nonempty: "sha256_len E \<Longrightarrow> computeHash E s \<noteq> []"
  using computeHash_length [of E s] by auto

section \<open>The text form of a node\<close>

lemma serializeNode_eq:
  "serializeNode n =
     nhash n @ CHR '','' # nvalue n @ concat (map (\<lambda>c. CHR '','' # c) (nchildren n))"
proof -
  have "foldl (\<lambda>s c. s @ CHR '','' # c) s cs = s @ concat (map (\<lambda>c. CHR '','' # c) cs)" for s cs
    by (induction cs arbitrary: s) simp_all
  then show ?thesis by (simp add: serializeNode_def)
qed

lemma find_from_eq:
  "find_from (pre @ s) c (length pre) =
     (if c \<in> set s then Some (length pre + length (takeWhile (\<lambda>x. x \<noteq> c) s)) else None)"
  by (simp add: find_from_def)

lemma takeWhile_segment:
  "d \<notin> set a \<Longrightarrow> takeWhile (\<lambda>x. x \<noteq> d) (a @ d # s) = a"
  by (auto simp: takeWhile_append)

lemma find_from_segment:
  "CHR '','' \<notin> set a \<Longrightarrow>
   find_from (pre @ a @ CHR '','' # s) (CHR '','') (length pre) = Some (length pre + length a)"
  by (simp add: find_from_eq takeWhile_segment)

lemma find_from_none: "CHR '','' \<notin> set a \<Longrightarrow> find_from (pre @ a) (CHR '','') (length pre) = None"
  by (simp add: find_from_eq)

lemma substr_to_segment: "substr_to (pre @ a @ s) (length pre) (Some (length pre + length a)) = a"
  by (simp add: substr_to_def)

lemma substr_to_find:
  "substr_to (pre @ s) (length pre) (find_from (pre @ s) c (length pre)) = takeWhile (\<lambda>x. x \<noteq> c) s"
proof (cases "c \<in> set s")
  case True
  then show ?thesis by (simp add: find_from_eq substr_to_def takeWhile_eq_take [symmetric])
next
  case False
  then show ?thesis by (simp add: find_from_eq substr_to_def)
qed

text \<open>The loop over the children is \<open>getline\<close> splitting of what is left.\<close>

lemma children_loop_getline:
  "children_loop (pre @ s) (length pre) acc = acc @ getline_all (CHR '','') s"
proof (induction "length s" arbitrary: pre s acc rule: less_induct)
  case less
  show ?case
  proof (cases "CHR '','' \<in> set s")
    case False
    then show ?thesis
      by (subst children_loop.simps) (auto simp: find_from_none getline_all_last)
  next
    case True
    then obtain a r where s: "s = a @ CHR '','' # r" and a: "CHR '','' \<notin> set a"
      using split_list_first by fastforce
    have "children_loop (pre @ s) (length pre) acc =
            children_loop (pre @ s) (Suc (length pre + length a)) (acc @ [a])"
      unfolding s using find_from_segment [OF a, of pre r]
      by (subst children_loop.simps) (simp add: substr_to_def)
    also have "\<dots> = children_loop ((pre @ a @ [CHR '','']) @ r) (length (pre @ a @ [CHR '','']))
                     (acc @ [a])"
      by (simp add: s)
    also have "\<dots> = (acc @ [a]) @ getline_all (CHR '','') r"
      by (rule less) (simp add: s)
    also have "\<dots> = acc @ getline_all (CHR '','') s"
      by (simp add: s getline_all_segment [OF a])
    finally show ?thesis .
  qed
qed

lemma children_loop_getline0: "children_loop s 0 [] = getline_all (CHR '','') s"
  using children_loop_getline [of "[]" s "[]"] by simp

lemma getline_children:
  assumes "\<forall>c\<in>set cs. CHR '','' \<notin> set c" "cs \<noteq> []" "last cs \<noteq> []"
  shows "getline_all (CHR '','') (tl (concat (map (\<lambda>c. CHR '','' # c) cs))) = cs"
  using assms
proof (induction cs)
  case (Cons c cs)
  show ?case
  proof (cases cs)
    case Nil
    with Cons.prems show ?thesis by (simp add: getline_all_last)
  next
    case (Cons d ds)
    let ?r = "tl (concat (map (\<lambda>c. CHR '','' # c) cs))"
    have r: "concat (map (\<lambda>c. CHR '','' # c) cs) = CHR '','' # ?r"
      using Cons by simp
    have "getline_all (CHR '','') ?r = cs"
      using Cons.IH Cons.prems Cons by simp
    moreover have "tl (concat (map (\<lambda>c. CHR '','' # c) (c # cs))) = c @ CHR '','' # ?r"
      using r by simp
    moreover have c: "CHR '','' \<notin> set c" using Cons.prems by simp
    ultimately show ?thesis by (simp only: getline_all_segment [OF c])
  qed
qed simp

definition tidy :: "node \<Rightarrow> bool" where
  "tidy n \<longleftrightarrow> CHR '','' \<notin> set (nhash n) \<and> CHR '','' \<notin> set (nvalue n) \<and>
     (\<forall>c\<in>set (nchildren n). CHR '','' \<notin> set c) \<and> nchildren n \<noteq> [] \<and> last (nchildren n) \<noteq> []"

lemma deserialize_serialize:
  assumes "tidy n"
  shows "deserializeNode (serializeNode n) = n"
proof -
  let ?cs = "concat (map (\<lambda>c. CHR '','' # c) (nchildren n))"
  obtain r where r: "?cs = CHR '','' # r" using assms by (cases "nchildren n") (auto simp: tidy_def)
  have r_tl: "r = tl ?cs" using r by simp
  let ?s = "nhash n @ CHR '','' # nvalue n @ CHR '','' # r"
  have s: "serializeNode n = ?s" by (simp add: serializeNode_eq r)
  have f1: "find_from ?s (CHR '','') 0 = Some (length (nhash n))"
    using find_from_segment [of "nhash n" "[]"] assms by (simp add: tidy_def)
  have f2: "find_from ?s (CHR '','') (Suc (length (nhash n))) =
      Some (Suc (length (nhash n)) + length (nvalue n))"
    using find_from_segment [of "nvalue n" "nhash n @ [CHR '','']" r] assms by (simp add: tidy_def)
  have cl: "children_loop ?s (Suc (Suc (length (nhash n)) + length (nvalue n))) [] =
      getline_all (CHR '','') r"
    using children_loop_getline [of "nhash n @ CHR '','' # nvalue n @ [CHR '','']" r "[]"] by simp
  have "getline_all (CHR '','') r = nchildren n"
    unfolding r_tl using assms by (intro getline_children) (auto simp: tidy_def)
  then show ?thesis
    by (simp add: s deserializeNode_def Let_def f1 f2 pos_after_def cl [simplified] substr_to_def)
qed

text \<open>
  A node without children comes back with two children that were never there: the position after
  the value wraps around to 0, and the loop reads the text again from its start.
\<close>

lemma deserialize_leaf:
  assumes "CHR '','' \<notin> set h" "CHR '','' \<notin> set v"
  shows "deserializeNode (serializeNode \<lparr>nvalue = v, nhash = h, nchildren = []\<rparr>) =
     \<lparr>nvalue = v, nhash = h, nchildren = h # (if v = [] then [] else [v])\<rparr>"
proof -
  have s: "serializeNode \<lparr>nvalue = v, nhash = h, nchildren = []\<rparr> = h @ CHR '','' # v"
    by (simp add: serializeNode_eq)
  have f1: "find_from (h @ CHR '','' # v) (CHR '','') 0 = Some (length h)"
    using find_from_segment [OF assms(1), of "[]"] by simp
  have f2: "find_from (h @ CHR '','' # v) (CHR '','') (Suc (length h)) = None"
    using find_from_none [OF assms(2), of "h @ [CHR '','']"] by simp
  have "getline_all (CHR '','') (h @ CHR '','' # v) = h # (if v = [] then [] else [v])"
    using getline_all_segment [OF assms(1)] getline_all_last [OF assms(2)] by simp
  then show ?thesis
    by (simp add: s deserializeNode_def Let_def f1 f2 pos_after_def children_loop_getline0
        substr_to_def)
qed

text \<open>The value read back stops at its first comma.\<close>

lemma deserialize_value:
  assumes "CHR '','' \<notin> set h"
  shows "nvalue (deserializeNode (serializeNode \<lparr>nvalue = v, nhash = h, nchildren = cs\<rparr>)) =
    takeWhile (\<lambda>x. x \<noteq> CHR '','') v"
proof -
  let ?r = "v @ concat (map (\<lambda>c. CHR '','' # c) cs)"
  let ?s = "h @ CHR '','' # ?r"
  have s: "serializeNode \<lparr>nvalue = v, nhash = h, nchildren = cs\<rparr> = ?s"
    by (simp add: serializeNode_eq)
  have f1: "find_from ?s (CHR '','') 0 = Some (length h)"
    using find_from_segment [OF assms, of "[]"] by simp
  have v: "substr_to ?s (Suc (length h)) (find_from ?s (CHR '','') (Suc (length h))) =
      takeWhile (\<lambda>x. x \<noteq> CHR '','') ?r"
    using substr_to_find [of "h @ [CHR '','']" ?r] by simp
  have "takeWhile (\<lambda>x. x \<noteq> CHR '','') ?r = takeWhile (\<lambda>x. x \<noteq> CHR '','') v"
  proof (cases "CHR '','' \<in> set v")
    case True
    then show ?thesis by (intro takeWhile_append1) auto
  next
    case False
    then show ?thesis
      by (cases cs) (simp_all add: takeWhile_segment)
  qed
  with v show ?thesis by (simp add: s deserializeNode_def Let_def f1 pos_after_def)
qed

end
