(* ===== verification/Nft.thy ===== *)
theory Nft
  imports Payload Merkle_Facts "HOL-Library.Multiset"
begin

text \<open>
  \<open>NFTProcessor\<close> of \<open>smartContracts/nft/nftProcessor.h\<close> in the cluster version (no suffix) and the
  single-node version (suffix \<open>_single\<close>, the same code in the serial and parallel trees).  An owner's
  entry is the JSON array of the hashes of the images they own.
\<close>

section \<open>Image hashes\<close>

text \<open>The file system, and the SHA-512 digest of OpenSSL.\<close>

record image_env =
  files :: "string \<Rightarrow> string option"
  sha512_raw :: "string \<Rightarrow> 8 word list"

definition sha512 :: "image_env \<Rightarrow> string \<Rightarrow> string" where
  "sha512 I data = concat (map hex_byte (sha512_raw I data))"

definition computeImageHash :: "image_env \<Rightarrow> string \<Rightarrow> string" where
  "computeImageHash I imagePath =
     (case files I imagePath of None \<Rightarrow> [] | Some content \<Rightarrow> sha512 I content)"

section \<open>The cluster version\<close>

definition getOrLoadOwnerNFTList :: "codec \<Rightarrow> (string \<Rightarrow> string) \<Rightarrow> string \<Rightarrow> (kvmap, json) op" where
  "getOrLoadOwnerNFTList C gv owner =
     and_then (lookup_op owner) (\<lambda>found.
       case found of
         Some v \<Rightarrow> lift (json_parse C v)
       | None \<Rightarrow>
           and_then (lift (if gv owner = [] then Ret (JArr []) else json_parse C (gv owner))) (\<lambda>nftList.
           and_then (insert_op owner) (\<lambda>_.
           and_then (lift (json_dump C nftList)) (\<lambda>s.
           and_then (store_op owner s) (\<lambda>_.
           ret nftList)))))"

definition createNFT ::
    "codec \<Rightarrow> image_env \<Rightarrow> (string \<Rightarrow> string) \<Rightarrow> string \<Rightarrow> string \<Rightarrow> (kvmap, bool) op" where
  "createNFT C I gv imagePath owner =
     (let h = computeImageHash I imagePath
      in if h = [] then ret False
         else
           and_then (getOrLoadOwnerNFTList C gv owner) (\<lambda>imageList.
             if jfind imageList h = None then
               and_then (lift (jpush imageList (JStr h))) (\<lambda>imageList'.
               and_then (lift (json_dump C imageList')) (\<lambda>s.
               and_then (store_op owner s) (\<lambda>_.
               ret True)))
             else ret True))"

text \<open>
  \<open>oldAcc\<close>, a write lock on the old owner's entry, is still held when the new owner's list is
  loaded, so with equal owners the call waits for its own lock.
\<close>

definition transferNFT ::
    "codec \<Rightarrow> image_env \<Rightarrow> (string \<Rightarrow> string) \<Rightarrow> string \<Rightarrow> string \<Rightarrow> string \<Rightarrow> (kvmap, bool) op" where
  "transferNFT C I gv imagePath oldOwner newOwner =
     (let h = computeImageHash I imagePath
      in if h = [] then ret False
         else
           and_then (getOrLoadOwnerNFTList C gv oldOwner) (\<lambda>oldOwnerList.
             case jfind oldOwnerList h of
               None \<Rightarrow> ret False
             | Some pos \<Rightarrow>
                 and_then (lift (json_dump C (jerase pos oldOwnerList))) (\<lambda>s.
                 and_then (store_op oldOwner s) (\<lambda>_.
                   if newOwner = oldOwner then lift Stuck
                   else
                     and_then (getOrLoadOwnerNFTList C gv newOwner) (\<lambda>newOwnerList.
                     and_then (lift (jpush newOwnerList (JStr h))) (\<lambda>newOwnerList'.
                     and_then (lift (json_dump C newOwnerList')) (\<lambda>s'.
                     and_then (store_op newOwner s') (\<lambda>_.
                     ret True))))))))"

definition nft_dispatch ::
    "(string \<Rightarrow> string \<Rightarrow> (kvmap, bool) op) \<Rightarrow> (string \<Rightarrow> string \<Rightarrow> string \<Rightarrow> (kvmap, bool) op) \<Rightarrow>
     json \<Rightarrow> string \<Rightarrow> (kvmap, bool) op" where
  "nft_dispatch create_nft transfer_nft p verb =
     (if verb = ''nft_create'' then
        and_then (lift (jfield p ''ImagePath'')) (\<lambda>i.
        and_then (lift (jfield p ''Owner'')) (\<lambda>k. create_nft i k))
      else if verb = ''nft_transfer'' then
        and_then (lift (jfield p ''ImagePath'')) (\<lambda>i.
        and_then (lift (jfield p ''OldOwner'')) (\<lambda>k1.
        and_then (lift (jfield p ''NewOwner'')) (\<lambda>k2. transfer_nft i k1 k2)))
      else ret False)"

definition nft_process ::
    "codec \<Rightarrow> image_env \<Rightarrow> (string \<Rightarrow> string) \<Rightarrow> transaction \<Rightarrow> (kvmap, bool) op" where
  "nft_process C I gv t = process_txn C (nft_dispatch (createNFT C I gv) (transferNFT C I gv)) t"

section \<open>The single-node version\<close>

definition getOrLoadOwnerNFTList_single ::
    "codec \<Rightarrow> (string \<Rightarrow> string) \<Rightarrow> string \<Rightarrow> (kvmap, json) op" where
  "getOrLoadOwnerNFTList_single C gv owner =
     and_then (lookup_op owner) (\<lambda>found.
       case found of
         Some v \<Rightarrow>
           (case json_parse C v of
              Ret j \<Rightarrow> ret j
            | _ \<Rightarrow>
                and_then (lift (json_dump C (JArr []))) (\<lambda>s.
                and_then (store_op owner s) (\<lambda>_.
                ret (JArr []))))
       | None \<Rightarrow>
           and_then (lift (if gv owner = [] then Ret (JArr []) else json_parse C (gv owner))) (\<lambda>nftList.
           and_then (insert_op owner) (\<lambda>isnew.
             if isnew then
               and_then (lift (json_dump C nftList)) (\<lambda>s.
               and_then (store_op owner s) (\<lambda>_.
               ret nftList))
             else ret nftList)))"

definition createNFT_single ::
    "codec \<Rightarrow> image_env \<Rightarrow> (string \<Rightarrow> string) \<Rightarrow> string \<Rightarrow> string \<Rightarrow> (kvmap, bool) op" where
  "createNFT_single C I gv imagePath owner =
     (let h = computeImageHash I imagePath
      in if h = [] then ret False
         else
           and_then (getOrLoadOwnerNFTList_single C gv owner) (\<lambda>imageList.
             if jfind imageList h = None then
               and_then (lift (jpush imageList (JStr h))) (\<lambda>imageList'.
               and_then (lift (json_dump C imageList')) (\<lambda>s.
               and_then (store_op owner s) (\<lambda>_.
               ret True)))
             else ret True))"

text \<open>Here the old owner must already have an entry in the map; the committed state is not asked.\<close>

definition transferNFT_single ::
    "codec \<Rightarrow> image_env \<Rightarrow> (string \<Rightarrow> string) \<Rightarrow> string \<Rightarrow> string \<Rightarrow> string \<Rightarrow> (kvmap, bool) op" where
  "transferNFT_single C I gv imagePath oldOwner newOwner =
     (let h = computeImageHash I imagePath
      in if h = [] then ret False
         else
           and_then (lookup_op oldOwner) (\<lambda>found.
             case found of
               None \<Rightarrow> ret False
             | Some v \<Rightarrow>
                 and_then (lift (json_parse C v)) (\<lambda>oldList.
                   case jfind oldList h of
                     None \<Rightarrow> ret False
                   | Some pos \<Rightarrow>
                       and_then (lift (json_dump C (jerase pos oldList))) (\<lambda>s.
                       and_then (store_op oldOwner s) (\<lambda>_.
                       and_then (getOrLoadOwnerNFTList_single C gv newOwner) (\<lambda>newList.
                       and_then (lift (jpush newList (JStr h))) (\<lambda>newList'.
                       and_then (lift (json_dump C newList')) (\<lambda>s'.
                       and_then (store_op newOwner s') (\<lambda>_.
                       ret True)))))))))"

definition nft_process_single ::
    "codec \<Rightarrow> image_env \<Rightarrow> (string \<Rightarrow> string) \<Rightarrow> transaction \<Rightarrow> (kvmap, bool) op" where
  "nft_process_single C I gv t =
     process_txn C (nft_dispatch (createNFT_single C I gv) (transferNFT_single C I gv)) t"

section \<open>Ownership\<close>

text \<open>What the code relies on of the JSON library: lists of hashes survive a dump and a parse.\<close>

definition hash_codec :: "codec \<Rightarrow> bool" where
  "hash_codec C \<longleftrightarrow>
     (\<forall>hs. (\<forall>h\<in>set hs. list_all is_hex h) \<longrightarrow>
        (\<exists>s. jdump C (JArr (map JStr hs)) = Some s \<and> jparse C s = Some (JArr (map JStr hs))))"

text \<open>An owner holds a list of hashes: their entry in the map, else the committed value.\<close>

definition owned :: "codec \<Rightarrow> (string \<Rightarrow> string) \<Rightarrow> kvmap \<Rightarrow> string \<Rightarrow> json option" where
  "owned C gv m k =
     (case m k of
        Some v \<Rightarrow> jparse C v
      | None \<Rightarrow> if gv k = [] then Some (JArr []) else jparse C (gv k))"

definition holds :: "codec \<Rightarrow> (string \<Rightarrow> string) \<Rightarrow> kvmap \<Rightarrow> string \<Rightarrow> string list \<Rightarrow> bool" where
  "holds C gv m k hs \<longleftrightarrow> owned C gv m k = Some (JArr (map JStr hs)) \<and> (\<forall>h\<in>set hs. list_all is_hex h)"

lemma sha512_hex: "list_all is_hex (sha512 I s)"
  using hex_byte_hex by (auto simp: sha512_def list_all_iff)

lemma imageHash_hex: "list_all is_hex (computeImageHash I path)"
  by (simp add: computeImageHash_def sha512_hex split: option.splits)

lemma dump_list:
  assumes "hash_codec C" "\<forall>h\<in>set hs. list_all is_hex h"
  obtains s where "json_dump C (JArr (map JStr hs)) = Ret s" "jparse C s = Some (JArr (map JStr hs))"
  using assms by (force simp: hash_codec_def json_dump_def)

lemma jfind_list:
  "jfind (JArr (map JStr hs)) h =
     (if h \<in> set hs then Some (length (takeWhile (\<lambda>x. x \<noteq> h) hs)) else None)"
proof -
  have t: "takeWhile (\<lambda>x. x \<noteq> JStr h) (map JStr hs) = map JStr (takeWhile (\<lambda>x. x \<noteq> h) hs)"
    by (induction hs) auto
  have "length (takeWhile (\<lambda>x. x \<noteq> h) hs) < length hs \<longleftrightarrow> h \<in> set hs"
    by (induction hs) auto
  then show ?thesis by (simp add: jfind_def jitems_def t)
qed

lemma remove_first: "h \<in> set hs \<Longrightarrow> remove_nth (length (takeWhile (\<lambda>x. x \<noteq> h) hs)) hs = remove1 h hs"
  by (induction hs) (auto simp: remove_nth_def)

lemma jerase_list:
  "h \<in> set hs \<Longrightarrow> jerase (length (takeWhile (\<lambda>x. x \<noteq> h) hs)) (JArr (map JStr hs)) =
     JArr (map JStr (remove1 h hs))"
  using remove_first [of h hs] by (simp add: jerase_def remove_nth_def take_map drop_map flip: map_append)

lemma jpush_list: "jpush (JArr (map JStr hs)) (JStr h) = Ret (JArr (map JStr (hs @ [h])))"
  by (simp add: jpush_def)

lemma holds_store:
  assumes "jparse C s = Some (JArr (map JStr hs))" "\<forall>h\<in>set hs. list_all is_hex h"
  shows "holds C gv (m(k \<mapsto> s)) k' hs' \<longleftrightarrow> (if k' = k then hs' = hs else holds C gv m k' hs')"
  using assms by (auto simp: holds_def owned_def inj_map_eq_map inj_def)

lemma holds_fun: "holds C gv m k hs \<Longrightarrow> holds C gv m k hs' \<Longrightarrow> hs' = hs"
  by (auto simp: holds_def inj_map_eq_map inj_def)

text \<open>Loading an owner's list changes nobody's holdings.\<close>

lemma load_list:
  assumes C: "hash_codec C" and h: "holds C gv m k hs"
  obtains m' where "getOrLoadOwnerNFTList C gv k m = (Ret (JArr (map JStr hs)), m')"
    "getOrLoadOwnerNFTList_single C gv k m = (Ret (JArr (map JStr hs)), m')"
    "\<And>k' hs'. holds C gv m' k' hs' \<longleftrightarrow> holds C gv m k' hs'"
    "m' k \<noteq> None" "\<And>k'. k' \<noteq> k \<Longrightarrow> m' k' = m k'"
proof (cases "m k")
  case (Some v)
  then have "json_parse C v = Ret (JArr (map JStr hs))"
    using h by (simp add: holds_def owned_def json_parse_def)
  with Some show thesis
    by (intro that [of m]) (simp_all add: getOrLoadOwnerNFTList_def getOrLoadOwnerNFTList_single_def)
next
  case None
  have hex: "\<forall>h\<in>set hs. list_all is_hex h" using h by (simp add: holds_def)
  obtain s where s: "json_dump C (JArr (map JStr hs)) = Ret s" "jparse C s = Some (JArr (map JStr hs))"
    using dump_list [OF C hex] .
  have p: "(if gv k = [] then Ret (JArr []) else json_parse C (gv k)) = Ret (JArr (map JStr hs))"
    using h None by (auto simp: holds_def owned_def json_parse_def split: if_splits)
  show thesis
  proof (rule that [of "m(k \<mapsto> s)"])
    show "getOrLoadOwnerNFTList C gv k m = (Ret (JArr (map JStr hs)), m(k \<mapsto> s))"
      by (simp add: getOrLoadOwnerNFTList_def None p s(1))
    show "getOrLoadOwnerNFTList_single C gv k m = (Ret (JArr (map JStr hs)), m(k \<mapsto> s))"
      by (simp add: getOrLoadOwnerNFTList_single_def None p s(1))
    show "holds C gv (m(k \<mapsto> s)) k' hs' \<longleftrightarrow> holds C gv m k' hs'" for k' hs'
    proof (cases "k' = k")
      case True
      have "hs' = hs" if "holds C gv m k hs'" using holds_fun [OF h that] .
      then have "holds C gv m k hs' \<longleftrightarrow> hs' = hs" using h by blast
      then show ?thesis by (simp add: holds_store [OF s(2) hex] True)
    qed (simp add: holds_store [OF s(2) hex])
  qed simp_all
qed

lemma createNFT_effect:
  assumes C: "hash_codec C" and h: "holds C gv m k hs" and i: "computeImageHash I path = x" "x \<noteq> []"
  obtains m' where "createNFT C I gv path k m = (Ret True, m')"
    "createNFT_single C I gv path k m = (Ret True, m')"
    "holds C gv m' k (if x \<in> set hs then hs else hs @ [x])"
    "\<And>k' hs'. k' \<noteq> k \<Longrightarrow> holds C gv m' k' hs' \<longleftrightarrow> holds C gv m k' hs'"
proof -
  obtain m1 where m1: "getOrLoadOwnerNFTList C gv k m = (Ret (JArr (map JStr hs)), m1)"
    "getOrLoadOwnerNFTList_single C gv k m = (Ret (JArr (map JStr hs)), m1)"
    "\<And>k' hs'. holds C gv m1 k' hs' \<longleftrightarrow> holds C gv m k' hs'"
    using load_list [OF C h] by metis
  note r = and_then_run [of "getOrLoadOwnerNFTList C gv k" m _ m1, OF m1(1)]
  note rs = and_then_run [of "getOrLoadOwnerNFTList_single C gv k" m _ m1, OF m1(2)]
  show thesis
  proof (cases "x \<in> set hs")
    case True
    then show thesis using i m1(3) h
      by (intro that [of m1]) (simp_all add: createNFT_def createNFT_single_def r rs jfind_list)
  next
    case False
    have hex: "\<forall>h\<in>set (hs @ [x]). list_all is_hex h"
      using h i(1) imageHash_hex by (auto simp: holds_def)
    obtain s where s: "json_dump C (JArr (map JStr (hs @ [x]))) = Ret s"
        "jparse C s = Some (JArr (map JStr (hs @ [x])))"
      using dump_list [OF C hex] .
    show thesis
    proof (rule that [of "m1(k \<mapsto> s)"])
      show "createNFT C I gv path k m = (Ret True, m1(k \<mapsto> s))"
        using False i s(1) by (simp add: createNFT_def r jfind_list jpush_def)
      show "createNFT_single C I gv path k m = (Ret True, m1(k \<mapsto> s))"
        using False i s(1) by (simp add: createNFT_single_def rs jfind_list jpush_def)
      show "holds C gv (m1(k \<mapsto> s)) k (if x \<in> set hs then hs else hs @ [x])"
        using holds_store [OF s(2) hex] False by simp
      show "holds C gv (m1(k \<mapsto> s)) k' hs' \<longleftrightarrow> holds C gv m k' hs'" if "k' \<noteq> k" for k' hs'
        using holds_store [OF s(2) hex] that m1(3) by simp
    qed
  qed
qed

lemma transferNFT_effect:
  assumes C: "hash_codec C" and h1: "holds C gv m k1 hs1" and h2: "holds C gv m k2 hs2"
    and k: "k1 \<noteq> k2" and i: "computeImageHash I path = x" "x \<noteq> []" and x: "x \<in> set hs1"
  obtains m' where "transferNFT C I gv path k1 k2 m = (Ret True, m')"
    "holds C gv m' k1 (remove1 x hs1)" "holds C gv m' k2 (hs2 @ [x])"
    "\<And>k' hs'. k' \<noteq> k1 \<Longrightarrow> k' \<noteq> k2 \<Longrightarrow> holds C gv m' k' hs' \<longleftrightarrow> holds C gv m k' hs'"
proof -
  obtain m1 where m1: "getOrLoadOwnerNFTList C gv k1 m = (Ret (JArr (map JStr hs1)), m1)"
    "\<And>k' hs'. holds C gv m1 k' hs' \<longleftrightarrow> holds C gv m k' hs'"
    using load_list [OF C h1] by metis
  have hexr: "\<forall>h\<in>set (remove1 x hs1). list_all is_hex h"
    using h1 set_remove1_subset [of x hs1] by (auto simp: holds_def)
  obtain s where s: "json_dump C (JArr (map JStr (remove1 x hs1))) = Ret s"
      "jparse C s = Some (JArr (map JStr (remove1 x hs1)))"
    using dump_list [OF C hexr] .
  let ?m2 = "m1(k1 \<mapsto> s)"
  have "holds C gv ?m2 k2 hs2" using holds_store [OF s(2) hexr] k m1(2) h2 by simp
  from load_list [OF C this] obtain m3 where
      m3: "getOrLoadOwnerNFTList C gv k2 ?m2 = (Ret (JArr (map JStr hs2)), m3)"
      "\<And>k' hs'. holds C gv m3 k' hs' \<longleftrightarrow> holds C gv ?m2 k' hs'" by metis
  have hexp: "\<forall>h\<in>set (hs2 @ [x]). list_all is_hex h"
    using h2 i(1) imageHash_hex by (auto simp: holds_def)
  obtain s' where s': "json_dump C (JArr (map JStr (hs2 @ [x]))) = Ret s'"
      "jparse C s' = Some (JArr (map JStr (hs2 @ [x])))"
    using dump_list [OF C hexp] .
  note r1 = and_then_run [of "getOrLoadOwnerNFTList C gv k1" m _ m1, OF m1(1)]
  note r3 = and_then_run [of "getOrLoadOwnerNFTList C gv k2" ?m2 _ m3, OF m3(1)]
  show thesis
  proof (rule that [of "m3(k2 \<mapsto> s')"])
    show "transferNFT C I gv path k1 k2 m = (Ret True, m3(k2 \<mapsto> s'))"
      using k x i s(1) s'(1)
      by (simp add: transferNFT_def r1 jfind_list jerase_list r3 jpush_def)
    show "holds C gv (m3(k2 \<mapsto> s')) k1 (remove1 x hs1)"
      using holds_store [OF s'(2) hexp] k m3(2) holds_store [OF s(2) hexr] by simp
    show "holds C gv (m3(k2 \<mapsto> s')) k2 (hs2 @ [x])"
      using holds_store [OF s'(2) hexp] by simp
    show "holds C gv (m3(k2 \<mapsto> s')) k' hs' \<longleftrightarrow> holds C gv m k' hs'"
      if "k' \<noteq> k1" "k' \<noteq> k2" for k' hs'
      using holds_store [OF s'(2) hexp] holds_store [OF s(2) hexr] that m1(2) m3(2) by simp
  qed
qed

section \<open>Footprint\<close>

definition nft_fields :: "string list" where
  "nft_fields = [''Owner'', ''OldOwner'', ''NewOwner'']"

lemma confined_load_list [confined_intros]: "k \<in> F \<Longrightarrow> confined F (getOrLoadOwnerNFTList C gv k)"
  unfolding getOrLoadOwnerNFTList_def by (intro confined_intros)

lemma confined_load_list_single [confined_intros]:
  "k \<in> F \<Longrightarrow> confined F (getOrLoadOwnerNFTList_single C gv k)"
  unfolding getOrLoadOwnerNFTList_single_def by (intro confined_intros)

lemma nft_confined: "confined (txn_keys C nft_fields t) (nft_process C I gv t)"
  unfolding nft_process_def
  by (rule confined_process_txn,
      unfold nft_dispatch_def createNFT_def transferNFT_def Let_def, intro confined_intros)
    (auto simp: named_keys_def nft_fields_def)

lemma nft_single_confined: "confined (txn_keys C nft_fields t) (nft_process_single C I gv t)"
  unfolding nft_process_single_def
  by (rule confined_process_txn,
      unfold nft_dispatch_def createNFT_single_def transferNFT_single_def Let_def, intro confined_intros)
    (auto simp: named_keys_def nft_fields_def)

end
