(* ===== verification/Execution.thy ===== *)
theory Execution
  imports Voting ECommerce Nft
begin

text \<open>
  Executing a block: the dispatch on the transaction family, which the three schedulers share, the
  serial execution that serves as specification, and the contract between processors and
  schedulers.  A scheduler only relies on each transaction staying within its footprint; from that
  follows that every order that keeps conflicting transactions apart is equivalent to the serial one.
\<close>

section \<open>The dispatch on the family\<close>

definition run_family ::
    "(kvmap, bool) op \<Rightarrow> (kvmap, bool) op \<Rightarrow> (kvmap, bool) op \<Rightarrow> (kvmap, bool) op \<Rightarrow> string \<Rightarrow> (kvmap, bool) op" where
  "run_family wallet ecomm voting nft fam =
     (if fam = ''wallet'' then wallet
      else if fam = ''eComm'' then ecomm
      else if fam = ''voting'' then voting
      else if fam = ''nft'' then nft
      else ret False)"

definition execute_parallel ::
    "codec \<Rightarrow> image_env \<Rightarrow> (string \<Rightarrow> string) \<Rightarrow> txn_header \<Rightarrow> transaction \<Rightarrow> (kvmap, bool) op" where
  "execute_parallel C I gv h t =
     run_family (wallet_process C gv t) (ecomm_process C gv t) (voting_process_parallel C gv t)
       (nft_process_single C I gv t) (family_name h)"

definition execute_serial ::
    "codec \<Rightarrow> image_env \<Rightarrow> (string \<Rightarrow> string) \<Rightarrow> txn_header \<Rightarrow> transaction \<Rightarrow> (kvmap, bool) op" where
  "execute_serial C I gv h t =
     run_family (wallet_process C gv t) (ecomm_process C gv t) (voting_process_serial C gv t)
       (nft_process_single C I gv t) (family_name h)"

definition execute_cluster ::
    "codec \<Rightarrow> image_env \<Rightarrow> (string \<Rightarrow> string) \<Rightarrow> txn_header \<Rightarrow> transaction \<Rightarrow> (kvmap, bool) op" where
  "execute_cluster C I gv h t =
     run_family (wallet_process C gv t) (ecomm_process C gv t) (voting_process C gv t)
       (nft_process C I gv t) (family_name h)"

text \<open>The keys a transaction may touch, whatever its family.\<close>

definition all_fields :: "string list" where
  "all_fields = wallet_fields @ voting_fields @ ecomm_fields @ nft_fields"

lemma txn_keys_mono: "set fs \<subseteq> set gs \<Longrightarrow> txn_keys C fs t \<subseteq> txn_keys C gs t"
  by (auto simp: txn_keys_def named_keys_def split: option.split)

lemma confined_run_family:
  "confined F w \<Longrightarrow> confined F e \<Longrightarrow> confined F v \<Longrightarrow> confined F f \<Longrightarrow> confined F (run_family w e v f fam)"
  by (simp add: run_family_def confined_ret)

lemmas widen = confined_mono [OF _ txn_keys_mono]

lemma execute_parallel_confined:
  "confined (txn_keys C all_fields t) (execute_parallel C I gv h t)"
  unfolding execute_parallel_def
  by (intro confined_run_family widen [OF wallet_confined] widen [OF ecomm_confined]
      widen [OF voting_parallel_confined] widen [OF nft_single_confined])
    (auto simp: all_fields_def)

lemma execute_serial_confined:
  "confined (txn_keys C all_fields t) (execute_serial C I gv h t)"
  unfolding execute_serial_def
  by (intro confined_run_family widen [OF wallet_confined] widen [OF ecomm_confined]
      widen [OF voting_serial_confined] widen [OF nft_single_confined])
    (auto simp: all_fields_def)

lemma execute_cluster_confined:
  "confined (txn_keys C all_fields t) (execute_cluster C I gv h t)"
  unfolding execute_cluster_def
  by (intro confined_run_family widen [OF wallet_confined] widen [OF ecomm_confined]
      widen [OF voting_confined] widen [OF nft_confined])
    (auto simp: all_fields_def)

section \<open>Serial execution\<close>

text \<open>One transaction after another, up to the first that does not succeed.\<close>

fun serial_run :: "('t \<Rightarrow> (kvmap, bool) op) \<Rightarrow> 't list \<Rightarrow> (kvmap, bool) op" where
  "serial_run run [] = ret True"
| "serial_run run (t # ts) =
     and_then (run t) (\<lambda>ok. if ok then serial_run run ts else ret False)"

text \<open>The map after all transactions of a list, and the outcome each of them had.\<close>

definition map_after :: "('t \<Rightarrow> (kvmap, bool) op) \<Rightarrow> 't list \<Rightarrow> kvmap \<Rightarrow> kvmap" where
  "map_after run ts m = fold (\<lambda>t m. snd (run t m)) ts m"

fun outcomes :: "('t \<Rightarrow> (kvmap, bool) op) \<Rightarrow> 't list \<Rightarrow> kvmap \<Rightarrow> ('t \<times> bool outcome) list" where
  "outcomes run [] m = []"
| "outcomes run (t # ts) m = (t, fst (run t m)) # outcomes run ts (snd (run t m))"

lemma map_after_simps [simp]:
  "map_after run [] m = m"
  "map_after run (t # ts) m = map_after run ts (snd (run t m))"
  "map_after run (ts @ us) m = map_after run us (map_after run ts m)"
  by (simp_all add: map_after_def)

lemma outcomes_append: "outcomes run (ts @ us) m = outcomes run ts m @ outcomes run us (map_after run ts m)"
  by (induction ts arbitrary: m) simp_all

lemma serial_run_True:
  "serial_run run ts m = (Ret True, m') \<longleftrightarrow>
     (\<forall>(t, r)\<in>set (outcomes run ts m). r = Ret True) \<and> m' = map_after run ts m"
proof (induction ts arbitrary: m)
  case (Cons t ts)
  obtain r m1 where r: "run t m = (r, m1)" by fastforce
  show ?case using Cons by (cases r) (auto simp: and_then_def r)
qed auto

section \<open>The contract and what follows from it\<close>

text \<open>An order that runs \<open>y\<close> after a larger \<open>x\<close> only when they touch different keys.\<close>

definition keeps_order :: "(nat \<Rightarrow> string set) \<Rightarrow> nat list \<Rightarrow> bool" where
  "keeps_order foot xs \<longleftrightarrow> sorted_wrt (\<lambda>x y. x < y \<or> foot x \<inter> foot y = {}) xs"

locale confined_handlers =
  fixes run :: "nat \<Rightarrow> (kvmap, bool) op" and foot :: "nat \<Rightarrow> string set"
  assumes confined_run: "confined (foot t) (run t)"
begin

lemma commute_past:
  assumes "\<forall>y\<in>set ys. foot x \<inter> foot y = {}"
  shows "map_after run ys (snd (run x m)) = snd (run x (map_after run ys m))"
    and "outcomes run ys (snd (run x m)) = outcomes run ys m"
    and "fst (run x (map_after run ys m)) = fst (run x m)"
  using assms
proof (induction ys arbitrary: m)
  case Nil
  { case 1 show ?case by simp next case 2 show ?case by simp next case 3 show ?case by simp }
next
  case (Cons y ys)
  have xy: "foot x \<inter> foot y = {}" and yx: "foot y \<inter> foot x = {}" if "\<forall>z\<in>set (y # ys). foot x \<inter> foot z = {}"
    using that by auto
  { case 1
    note c = confined_commute [OF confined_run confined_run xy [OF 1]]
    show ?case using 1 Cons(1) [of "snd (run y m)"] c(1) [of m] by simp
  next
    case 2
    note c = confined_commute [OF confined_run confined_run xy [OF 2]]
    show ?case using 2 Cons(2) [of "snd (run y m)"] c [of m] by simp
  next
    case 3
    note c = confined_commute [OF confined_run confined_run yx [OF 3]]
    show ?case using 3 Cons(3) [of "snd (run y m)"] c(2) [of m] by simp }
qed

text \<open>Every order that keeps conflicts has the effect of the increasing one, with the same outcomes.\<close>

lemma serializable:
  assumes "distinct xs" "keeps_order foot xs"
  shows "map_after run xs m = map_after run (sorted_list_of_set (set xs)) m \<and>
    set (outcomes run xs m) = set (outcomes run (sorted_list_of_set (set xs)) m)"
  using assms
proof (induction "length xs" arbitrary: xs)
  case 0
  then show ?case by simp
next
  case (Suc l)
  then have ne: "set xs \<noteq> {}" by auto
  define x where "x = Max (set xs)"
  have x: "x \<in> set xs" using ne by (simp add: x_def)
  have max: "y \<le> x" if "y \<in> set xs" for y using that by (simp add: x_def)
  obtain as bs where xs: "xs = as @ x # bs" using split_list [OF x] by blast
  have dj: "\<forall>y\<in>set bs. foot x \<inter> foot y = {}"
  proof
    fix y assume y: "y \<in> set bs"
    then have "y \<le> x" using max xs by simp
    then show "foot x \<inter> foot y = {}"
      using Suc.prems y by (auto simp: keeps_order_def xs sorted_wrt_append)
  qed
  have IH: "map_after run (as @ bs) m = map_after run (sorted_list_of_set (set (as @ bs))) m \<and>
      set (outcomes run (as @ bs) m) = set (outcomes run (sorted_list_of_set (set (as @ bs))) m)"
    using Suc.hyps(2) Suc.prems
    by (intro Suc.hyps(1) [of "as @ bs"]) (auto simp: xs keeps_order_def sorted_wrt_append)
  have less: "\<forall>y\<in>set (as @ bs). y < x"
  proof
    fix y assume y: "y \<in> set (as @ bs)"
    then have "y \<in> set xs" "y \<noteq> x" using Suc.prems(1) by (auto simp: xs)
    then have "y \<le> x" "y \<noteq> x" using max by blast+
    then show "y < x" by simp
  qed
  have srt: "sorted_list_of_set (set xs) = sorted_list_of_set (set (as @ bs)) @ [x]"
  proof (rule sorted_distinct_set_unique)
    show "sorted (sorted_list_of_set (set xs))" "distinct (sorted_list_of_set (set xs))" by simp_all
    show "set (sorted_list_of_set (set xs)) = set (sorted_list_of_set (set (as @ bs)) @ [x])"
      by (simp only: set_append set_sorted_list_of_set [OF finite_set]) (auto simp: xs)
    show "sorted (sorted_list_of_set (set (as @ bs)) @ [x])"
      using less by (auto simp: sorted_append intro: less_imp_le)
    show "distinct (sorted_list_of_set (set (as @ bs)) @ [x])" using less by auto
  qed
  note c = commute_past [OF dj, of "map_after run as m"]
  have "map_after run xs m = map_after run (sorted_list_of_set (set xs)) m"
    using IH c(1) unfolding srt by (simp add: xs)
  moreover have "set (outcomes run xs m) = set (outcomes run (sorted_list_of_set (set xs)) m)"
  proof -
    have "set (outcomes run xs m) = insert (x, fst (run x (map_after run (as @ bs) m)))
        (set (outcomes run (as @ bs) m))"
      using c(2,3) by (auto simp: xs outcomes_append)
    then show ?thesis using IH unfolding srt by (auto simp: outcomes_append)
  qed
  ultimately show ?case by simp
qed

end

end
