(* ===== verification/Dag.thy ===== *)
theory Dag
  imports Payload
begin

text \<open>
  The dependency graph of a block: \<open>DAGmodule\<close> of \<open>dagModule/DAGmodule.h\<close> in its four versions.  The
  unsuffixed definitions are shared or belong to the single-node parallel version; \<open>_cluster\<close>,
  \<open>_serial\<close> and \<open>_pool\<close> mark the others.  A null \<open>inDegree\<close> pointer is \<open>None\<close>, an access
  outside a vector is undefined.
\<close>

section \<open>State\<close>

text \<open>The two counts are uninitialised when the header of the transaction does not parse.\<close>

record TransactionStruct =
  txn_no :: nat
  inputscount :: "nat option"
  ts_inputs :: "string list"
  outputcount :: "nat option"
  ts_outputs :: "string list"

record dag =
  CurrentTransactions :: "TransactionStruct list"
  adjacencyMatrix :: "int list list"
  inDegree :: "int list option"
  completedTxns :: int
  lastTxn :: nat
  totalTxns :: nat
  threadCount :: nat

definition extractTransaction :: "codec \<Rightarrow> transaction \<Rightarrow> nat \<Rightarrow> TransactionStruct" where
  "extractTransaction C tx position =
     (case parse_header C (t_header tx) of
        None \<Rightarrow> \<lparr>txn_no = position, inputscount = None, ts_inputs = [], outputcount = None, ts_outputs = []\<rparr>
      | Some h \<Rightarrow>
          \<lparr>txn_no = position, inputscount = Some (length (inputs h)), ts_inputs = inputs h,
           outputcount = Some (length (outputs h)), ts_outputs = outputs h\<rparr>)"

fun extract_all :: "codec \<Rightarrow> transaction list \<Rightarrow> nat \<Rightarrow> TransactionStruct list" where
  "extract_all C [] position = []"
| "extract_all C (tx # txs) position = extractTransaction C tx position # extract_all C txs (Suc position)"

section \<open>Which transactions depend on each other\<close>

text \<open>Input-output, output-input and output-output, in the loops' order.\<close>

definition depends :: "TransactionStruct \<Rightarrow> TransactionStruct \<Rightarrow> bool" where
  "depends a b \<longleftrightarrow>
     list_ex (\<lambda>i. i \<in> set (ts_outputs b)) (ts_inputs a) \<or>
     list_ex (\<lambda>out. out \<in> set (ts_inputs b)) (ts_outputs a) \<or>
     list_ex (\<lambda>out. out \<in> set (ts_outputs b)) (ts_outputs a)"

text \<open>The versions that loop up to the stored counts.\<close>

definition match_upto :: "string list \<Rightarrow> nat \<Rightarrow> string list \<Rightarrow> nat \<Rightarrow> bool" where
  "match_upto xs n ys m \<longleftrightarrow> list_ex (\<lambda>j. list_ex (\<lambda>k. xs ! j = ys ! k) [0..<m]) [0..<n]"

definition depends_counted :: "TransactionStruct \<Rightarrow> TransactionStruct \<Rightarrow> bool outcome" where
  "depends_counted a b =
     (case (inputscount a, outputcount a, inputscount b, outputcount b) of
        (Some ia, Some oa, Some ib, Some ob) \<Rightarrow>
          Ret (match_upto (ts_inputs a) ia (ts_outputs b) ob \<or>
               match_upto (ts_outputs a) oa (ts_inputs b) ib \<or>
               match_upto (ts_outputs a) oa (ts_outputs b) ob)
      | _ \<Rightarrow> Undef)"

section \<open>Filling the matrix\<close>

definition set_cell :: "nat \<Rightarrow> nat \<Rightarrow> int list list \<Rightarrow> int list list outcome" where
  "set_cell i j a = (if i < length a \<and> j < length (a ! i) then Ret (a[i := (a ! i)[j := 1]]) else Undef)"

definition fetch_add :: "nat \<Rightarrow> int \<Rightarrow> int list option \<Rightarrow> int list option outcome" where
  "fetch_add j v d =
     (case d of
        Some xs \<Rightarrow> if j < length xs then Ret (Some (xs[j := xs ! j + v])) else Undef
      | None \<Rightarrow> Undef)"

text \<open>What the loop body does for a pair of positions.\<close>

definition mark_cell :: "nat \<times> nat \<Rightarrow> dag \<Rightarrow> dag outcome" where
  "mark_cell = (\<lambda>(i, j) d.
     if depends (CurrentTransactions d ! i) (CurrentTransactions d ! j) then
       bind_outcome (set_cell i j (adjacencyMatrix d)) (\<lambda>a.
       bind_outcome (fetch_add j 1 (inDegree d)) (\<lambda>g.
       Ret (d\<lparr>adjacencyMatrix := a, inDegree := g\<rparr>)))
     else Ret d)"

definition mark_cell_cluster :: "nat \<times> nat \<Rightarrow> dag \<Rightarrow> dag outcome" where
  "mark_cell_cluster = (\<lambda>(i, j) d.
     if depends (CurrentTransactions d ! i) (CurrentTransactions d ! j) then
       bind_outcome (set_cell i j (adjacencyMatrix d)) (\<lambda>a. Ret (d\<lparr>adjacencyMatrix := a\<rparr>))
     else Ret d)"

definition mark_cell_counted :: "nat \<times> nat \<Rightarrow> dag \<Rightarrow> dag outcome" where
  "mark_cell_counted = (\<lambda>(i, j) d.
     bind_outcome (depends_counted (CurrentTransactions d ! i) (CurrentTransactions d ! j)) (\<lambda>flag.
       if flag then
         bind_outcome (set_cell i j (adjacencyMatrix d)) (\<lambda>a.
         bind_outcome (fetch_add j 1 (inDegree d)) (\<lambda>g.
         Ret (d\<lparr>adjacencyMatrix := a, inDegree := g\<rparr>)))
       else Ret d))"

text \<open>The rows a thread is responsible for, and the pairs its two loops visit.\<close>

definition row_range :: "nat \<Rightarrow> nat \<Rightarrow> nat \<Rightarrow> nat list" where
  "row_range txncount tc pid =
     (let chunk = txncount div tc;
          rem = txncount mod tc;
          start = pid * chunk + min pid rem;
          stop = start + chunk + (if pid < rem then 1 else 0)
      in [start..<stop])"

definition row_range_cluster :: "nat \<Rightarrow> nat \<Rightarrow> nat \<Rightarrow> nat list" where
  "row_range_cluster txncount tc pid =
     (let baseChunk = txncount div tc;
          extra = txncount mod tc;
          start = pid * baseChunk + min pid extra;
          stop = start + baseChunk + (if pid < extra then 1 else 0)
      in [start..<min stop txncount])"

definition row_range_pool :: "nat \<Rightarrow> nat \<Rightarrow> nat \<Rightarrow> nat list" where
  "row_range_pool txncount tc pid =
     (let chunk = txncount div tc;
          start = pid * (chunk + 1)
      in [start..<min (start + chunk + 1) txncount])"

definition pairs_of :: "nat \<Rightarrow> nat list \<Rightarrow> (nat \<times> nat) list" where
  "pairs_of txncount rows = concat (map (\<lambda>i. map (Pair i) [Suc i..<txncount]) rows)"

definition dependencyMatrix :: "nat \<Rightarrow> dag \<Rightarrow> dag outcome" where
  "dependencyMatrix pid d =
     each mark_cell (pairs_of (totalTxns d) (row_range (totalTxns d) (threadCount d) pid)) d"

definition dependencyMatrix_cluster :: "nat \<Rightarrow> dag \<Rightarrow> dag outcome" where
  "dependencyMatrix_cluster pid d =
     each mark_cell_cluster
       (pairs_of (totalTxns d) (row_range_cluster (totalTxns d) (threadCount d) pid)) d"

definition dependencyMatrix_serial :: "dag \<Rightarrow> dag outcome" where
  "dependencyMatrix_serial d = each mark_cell_counted (pairs_of (totalTxns d) [0..<totalTxns d]) d"

definition dependencyMatrix_pool :: "nat \<Rightarrow> dag \<Rightarrow> dag outcome" where
  "dependencyMatrix_pool pid d =
     each mark_cell_counted
       (pairs_of (totalTxns d) (row_range_pool (totalTxns d) (threadCount d) pid)) d"

section \<open>Creating the graph\<close>

text \<open>\<open>vector::resize\<close>: keeps the elements there are, drops the surplus, adds copies of the new one.\<close>

definition resize :: "nat \<Rightarrow> 'a \<Rightarrow> 'a list \<Rightarrow> 'a list" where
  "resize n x xs = take n xs @ replicate (n - length xs) x"

text \<open>
  The threads run one after another here; \<open>mark_cells_any_order\<close> below shows that every
  interleaving of their steps gives the same graph.
\<close>

definition create_dag :: "codec \<Rightarrow> block \<Rightarrow> nat \<Rightarrow> dag \<Rightarrow> dag outcome" where
  "create_dag C b thCount d =
     (let txns = extract_all C (b_transactions b) 0;
          n = length txns
      in each dependencyMatrix [0..<thCount]
           (d\<lparr>threadCount := thCount, CurrentTransactions := txns, totalTxns := n,
              adjacencyMatrix := replicate n (replicate n 0), inDegree := Some (replicate n 0)\<rparr>))"

definition create_cluster :: "codec \<Rightarrow> block \<Rightarrow> nat \<Rightarrow> dag \<Rightarrow> dag outcome" where
  "create_cluster C b thCount d =
     (let txns = extract_all C (b_transactions b) 0;
          n = length txns
      in each dependencyMatrix_cluster [0..<thCount]
           (d\<lparr>threadCount := thCount, CurrentTransactions := CurrentTransactions d @ txns,
              totalTxns := n, adjacencyMatrix := resize n (replicate n 0) (adjacencyMatrix d)\<rparr>))"

definition createfollower :: "codec \<Rightarrow> block \<Rightarrow> nat \<Rightarrow> dag \<Rightarrow> dag outcome" where
  "createfollower C b thCount d =
     (let txns = extract_all C (b_transactions b) 0;
          n = length txns
      in each dependencyMatrix_cluster [0..<thCount]
           (d\<lparr>threadCount := thCount, CurrentTransactions := CurrentTransactions d @ txns,
              totalTxns := n, completedTxns := int n,
              adjacencyMatrix := resize n (replicate n 0) (adjacencyMatrix d),
              inDegree := Some (replicate n (- 1))\<rparr>))"

definition create_serial :: "codec \<Rightarrow> block \<Rightarrow> dag \<Rightarrow> dag outcome" where
  "create_serial C b d =
     (let txns = extract_all C (b_transactions b) 0;
          n = length txns
      in dependencyMatrix_serial
           (d\<lparr>CurrentTransactions := CurrentTransactions d @ txns, totalTxns := n,
              adjacencyMatrix := resize n (replicate n 0) (adjacencyMatrix d),
              inDegree := Some (replicate n 0)\<rparr>))"

text \<open>
  The pool version pads each row to a multiple of 16 columns; a block that does not parse leaves
  everything as it is, and the answer is \<open>true\<close> either way.
\<close>

definition create_pool :: "codec \<Rightarrow> (string \<Rightarrow> block option) \<Rightarrow> string \<Rightarrow> dag \<Rightarrow> dag outcome" where
  "create_pool C parse_block blockData d =
     (case parse_block blockData of
        None \<Rightarrow> Ret d
      | Some b \<Rightarrow>
          (let txns = extract_all C (b_transactions b) 0;
               n = length txns;
               paddedColumns = (n + 15) div 16 * 16
           in each dependencyMatrix_pool [0..<threadCount d]
                (d\<lparr>CurrentTransactions := CurrentTransactions d @ txns, totalTxns := n,
                   adjacencyMatrix := resize n (replicate paddedColumns 0) (adjacencyMatrix d),
                   inDegree := Some (replicate n 0)\<rparr>)))"

definition dagClean :: "dag \<Rightarrow> dag" where
  "dagClean d =
     d\<lparr>CurrentTransactions := [], adjacencyMatrix := [], inDegree := None, completedTxns := 0,
       lastTxn := 0, totalTxns := 0\<rparr>"

section \<open>Selecting and completing\<close>

text \<open>
  \<open>selectTxn\<close> run without interference: a scan for an in-degree of zero, which becomes -1.  The
  cluster and pool versions first scan from behind the last selection.
\<close>

definition scan_zero :: "int list \<Rightarrow> nat list \<Rightarrow> nat option" where
  "scan_zero deg idxs = List.find (\<lambda>i. deg ! i = 0) idxs"

definition take_txn :: "nat \<Rightarrow> int list \<Rightarrow> dag \<Rightarrow> dag" where
  "take_txn i deg d = d\<lparr>inDegree := Some (deg[i := - 1]), lastTxn := i\<rparr>"

definition selectTxn :: "dag \<Rightarrow> (nat option \<times> dag) outcome" where
  "selectTxn d =
     (case inDegree d of
        None \<Rightarrow> if totalTxns d = 0 then Ret (None, d) else Undef
      | Some deg \<Rightarrow>
          (case scan_zero deg [0..<totalTxns d] of
             Some i \<Rightarrow> Ret (Some i, take_txn i deg d)
           | None \<Rightarrow> Ret (None, d)))"

definition selectTxn_cluster :: "dag \<Rightarrow> (nat option \<times> dag) outcome" where
  "selectTxn_cluster d =
     (case inDegree d of
        None \<Rightarrow> if totalTxns d = 0 then Ret (None, d) else Undef
      | Some deg \<Rightarrow>
          (case scan_zero deg [lastTxn d + 1..<totalTxns d] of
             Some i \<Rightarrow> Ret (Some i, take_txn i deg d)
           | None \<Rightarrow>
               (case scan_zero deg [0..<totalTxns d] of
                  Some i \<Rightarrow> Ret (Some i, take_txn i deg d)
                | None \<Rightarrow> Ret (None, d))))"

definition selectTxn_serial :: "dag \<Rightarrow> (nat option \<times> dag) outcome" where
  "selectTxn_serial d =
     (case inDegree d of
        None \<Rightarrow> if totalTxns d = 0 then Ret (None, d) else Undef
      | Some deg \<Rightarrow>
          (case scan_zero deg [0..<totalTxns d] of
             Some i \<Rightarrow> Ret (Some i, take_txn i deg d)
           | None \<Rightarrow>
               (case scan_zero deg [0..<totalTxns d] of
                  Some i \<Rightarrow> Ret (Some i, take_txn i deg d)
                | None \<Rightarrow> Ret (None, d))))"

definition cell :: "int list list \<Rightarrow> nat \<Rightarrow> nat \<Rightarrow> int" where
  "cell a i j = a ! i ! j"

definition release :: "nat \<Rightarrow> nat \<Rightarrow> dag \<Rightarrow> dag outcome" where
  "release txnID i d =
     (if cell (adjacencyMatrix d) txnID i = 1 then
        bind_outcome (fetch_add i (- 1) (inDegree d)) (\<lambda>g. Ret (d\<lparr>inDegree := g\<rparr>))
      else Ret d)"

definition complete_txn :: "int \<Rightarrow> dag \<Rightarrow> dag outcome" where
  "complete_txn txnID d =
     (if txnID < 0 \<or> txnID \<ge> int (totalTxns d) then Ret d
      else
        bind_outcome (fetch_add (nat txnID) (- 1) (inDegree d)) (\<lambda>g.
        each (release (nat txnID)) [Suc (nat txnID)..<totalTxns d]
          (d\<lparr>inDegree := g, completedTxns := completedTxns d + 1\<rparr>)))"

definition release_pool :: "nat \<Rightarrow> nat \<Rightarrow> dag \<Rightarrow> dag outcome" where
  "release_pool txnID i d =
     (if cell (adjacencyMatrix d) txnID i = 1 then
        (case inDegree d of
           Some deg \<Rightarrow>
             if i < length deg then
               Ret (if deg ! i > 0 then d\<lparr>inDegree := Some (deg[i := deg ! i - 1])\<rparr> else d)
             else Undef
         | None \<Rightarrow> Undef)
      else Ret d)"

definition complete_pool :: "nat \<Rightarrow> dag \<Rightarrow> dag outcome" where
  "complete_pool txnID d = each (release_pool txnID) [txnID..<totalTxns d] d"

end
