(* ===== verification/Dag_Facts.thy ===== *)
theory Dag_Facts
  imports Dag "HOL-Library.Multiset"
begin

text \<open>
  What the dependency graph is, whatever the number of threads and the order of their steps: the
  strictly upper triangular matrix of the relation \<open>depends\<close>, with the column sums as in-degrees.
\<close>

section \<open>Extraction\<close>

lemma length_extract_all [simp]: "length (extract_all C txs p) = length txs"
  by (induction txs arbitrary: p) auto

lemma nth_extract_all: "i < length txs \<Longrightarrow> extract_all C txs p ! i = extractTransaction C (txs ! i) (p + i)"
proof (induction txs arbitrary: p i)
  case (Cons tx txs)
  then show ?case by (cases i) auto
qed simp

lemma depends_sym: "depends a b \<longleftrightarrow> depends b a"
  unfolding depends_def list_ex_iff by blast

lemma match_upto_all: "match_upto xs (length xs) ys (length ys) \<longleftrightarrow> set xs \<inter> set ys \<noteq> {}"
proof -
  have "match_upto xs (length xs) ys (length ys) \<longleftrightarrow> (\<exists>j<length xs. \<exists>k<length ys. xs ! j = ys ! k)"
    by (simp add: match_upto_def list_ex_iff Bex_def)
  also have "\<dots> \<longleftrightarrow> (\<exists>x. x \<in> set xs \<and> x \<in> set ys)" by (metis in_set_conv_nth)
  finally show ?thesis by blast
qed

lemma depends_iff:
  "depends a b \<longleftrightarrow> set (ts_inputs a) \<inter> set (ts_outputs b) \<noteq> {} \<or>
     set (ts_outputs a) \<inter> set (ts_inputs b) \<noteq> {} \<or> set (ts_outputs a) \<inter> set (ts_outputs b) \<noteq> {}"
  unfolding depends_def list_ex_iff by blast

text \<open>With both headers parsed the counted loops compute the same relation.\<close>

definition counted :: "TransactionStruct \<Rightarrow> bool" where
  "counted t \<longleftrightarrow> inputscount t = Some (length (ts_inputs t)) \<and> outputcount t = Some (length (ts_outputs t))"

lemma extract_counted: "parse_header C (t_header tx) = Some h \<Longrightarrow> counted (extractTransaction C tx p)"
  by (simp add: counted_def extractTransaction_def)

lemma extract_all_counted:
  "\<forall>t\<in>set txs. parse_header C (t_header t) \<noteq> None \<Longrightarrow> \<forall>t\<in>set (extract_all C txs p). counted t"
  by (induction txs arbitrary: p) (auto intro: extract_counted)

lemma depends_counted_eq: "counted a \<Longrightarrow> counted b \<Longrightarrow> depends_counted a b = Ret (depends a b)"
  by (simp add: depends_counted_def counted_def match_upto_all depends_iff)

section \<open>The rows of the threads\<close>

lemma concat_upt:
  assumes "\<And>p. p < k \<Longrightarrow> s p \<le> s (Suc p)"
  shows "concat (map (\<lambda>p. [s p..<s (Suc p)]) [0..<k]) = [s 0..<s k]"
  using assms
proof (induction k)
  case (Suc k)
  have "s 0 \<le> s j" if "j \<le> k" for j
    using that Suc.prems by (induction j) (auto intro: order_trans)
  then show ?case using Suc upt_add_eq_append [of "s 0" "s k" "s (Suc k) - s k"] by simp
qed simp

lemma chunk_start_step:
  fixes pid chunk rem :: nat
  shows "pid * chunk + min pid rem + chunk + (if pid < rem then 1 else 0) =
    Suc pid * chunk + min (Suc pid) rem"
  by (cases "pid < rem") (auto simp: min_def)

lemma row_range_eq:
  "row_range n tc pid =
     [pid * (n div tc) + min pid (n mod tc)..<Suc pid * (n div tc) + min (Suc pid) (n mod tc)]"
  unfolding row_range_def Let_def chunk_start_step ..

lemma chunks_end: "0 < tc \<Longrightarrow> tc * (n div tc) + min tc (n mod tc) = n"
  for n tc :: nat
  using mod_less_divisor [of tc n] by (simp add: min_absorb2)

lemma threads_cover:
  assumes "0 < tc"
  shows "concat (map (row_range n tc) [0..<tc]) = [0..<n]"
proof -
  have "concat (map (\<lambda>p. [p * (n div tc) + min p (n mod tc)..<Suc p * (n div tc) + min (Suc p) (n mod tc)])
      [0..<tc]) = [0 * (n div tc) + min 0 (n mod tc)..<tc * (n div tc) + min tc (n mod tc)]"
    by (rule concat_upt) auto
  then show ?thesis using chunks_end [OF assms] by (simp add: row_range_eq [abs_def])
qed

lemma row_range_cluster_eq:
  assumes "pid < tc"
  shows "row_range_cluster n tc pid = row_range n tc pid"
proof -
  have "Suc pid * (n div tc) \<le> tc * (n div tc)" using assms by (intro mult_le_mono1) simp
  moreover have "min (Suc pid) (n mod tc) \<le> min tc (n mod tc)" using assms by simp
  ultimately have "Suc pid * (n div tc) + min (Suc pid) (n mod tc) \<le> n"
    using chunks_end [of tc n] assms by linarith
  then show ?thesis
    unfolding row_range_cluster_def row_range_eq Let_def chunk_start_step by (simp add: min_def)
qed

lemma threads_cover_cluster:
  assumes "0 < tc"
  shows "concat (map (row_range_cluster n tc) [0..<tc]) = [0..<n]"
proof -
  have "map (row_range_cluster n tc) [0..<tc] = map (row_range n tc) [0..<tc]"
    by (rule map_cong) (simp_all add: row_range_cluster_eq)
  then show ?thesis using threads_cover [OF assms] by metis
qed

lemma row_range_pool_eq:
  "row_range_pool n tc pid = [min (pid * (n div tc + 1)) n..<min (Suc pid * (n div tc + 1)) n]"
  by (auto simp: row_range_pool_def Let_def min_def algebra_simps)

lemma threads_cover_pool:
  assumes "0 < tc"
  shows "concat (map (row_range_pool n tc) [0..<tc]) = [0..<n]"
proof -
  have "n = tc * (n div tc) + n mod tc" "n mod tc < tc" using assms by simp_all
  moreover have "tc * (n div tc + 1) = tc * (n div tc) + tc" by simp
  ultimately have n: "n \<le> tc * (n div tc + 1)" by linarith
  have "concat (map (\<lambda>p. [min (p * (n div tc + 1)) n..<min (Suc p * (n div tc + 1)) n]) [0..<tc]) =
      [min (0 * (n div tc + 1)) n..<min (tc * (n div tc + 1)) n]"
    by (rule concat_upt) (auto simp: min_def)
  then show ?thesis using n by (simp add: row_range_pool_eq [abs_def] min_absorb2)
qed

section \<open>What the steps add up to\<close>

definition fill :: "(nat \<Rightarrow> nat \<Rightarrow> bool) \<Rightarrow> nat \<times> nat \<Rightarrow> int list list \<Rightarrow> int list list" where
  "fill D = (\<lambda>(i, j) a. if D i j then a[i := (a ! i)[j := 1]] else a)"

definition tally :: "(nat \<Rightarrow> nat \<Rightarrow> bool) \<Rightarrow> nat \<times> nat \<Rightarrow> int list \<Rightarrow> int list" where
  "tally D = (\<lambda>(i, j) deg. if D i j then deg[j := deg ! j + 1] else deg)"

definition dep_rel :: "TransactionStruct list \<Rightarrow> nat \<Rightarrow> nat \<Rightarrow> bool" where
  "dep_rel ts i j = depends (ts ! i) (ts ! j)"

definition shaped :: "nat \<Rightarrow> nat \<Rightarrow> int list list \<Rightarrow> bool" where
  "shaped n w a \<longleftrightarrow> length a = n \<and> (\<forall>i<n. length (a ! i) = w)"

lemma shaped_fill: "shaped n w a \<Longrightarrow> shaped n w (fill D x a)"
proof -
  assume a: "shaped n w a"
  obtain p q where x: "x = (p, q)" by fastforce
  have "length (a[p := (a ! p)[q := 1]] ! i) = w" if "i < n" for i
    using a that by (cases "p = i") (simp_all add: shaped_def)
  then show "shaped n w (fill D x a)" using a by (simp add: shaped_def fill_def x)
qed

lemma shaped_fold: "shaped n w a \<Longrightarrow> shaped n w (fold (fill D) cs a)"
  by (induction cs arbitrary: a) (simp_all add: shaped_fill)

lemma shaped_eqI:
  assumes "shaped n w a" "shaped n w b" "\<And>i j. i < n \<Longrightarrow> j < w \<Longrightarrow> cell a i j = cell b i j"
  shows "a = b"
  using assms by (intro nth_equalityI) (auto simp: shaped_def cell_def)

lemma length_tally [simp]: "length (tally D x deg) = length deg"
  by (simp add: tally_def split: prod.split)

lemma length_fold_tally [simp]: "length (fold (tally D) cs deg) = length deg"
  by (induction cs arbitrary: deg) simp_all

lemma cell_fill:
  "shaped n w a \<Longrightarrow> i < n \<Longrightarrow> j < w \<Longrightarrow> x < n \<Longrightarrow> y < w \<Longrightarrow>
   cell (fill D (x, y) a) i j = (if (x, y) = (i, j) \<and> D i j then 1 else cell a i j)"
  by (auto simp: fill_def cell_def shaped_def nth_list_update)

lemma cell_fold_fill:
  assumes "shaped n w a" "i < n" "j < w" "\<forall>(x, y)\<in>set cs. x < n \<and> y < w"
  shows "cell (fold (fill D) cs a) i j = (if (i, j) \<in> set cs \<and> D i j then 1 else cell a i j)"
  using assms
proof (induction cs arbitrary: a)
  case (Cons c cs)
  obtain x y where c: "c = (x, y)" by fastforce
  then show ?case
    using Cons.IH [OF shaped_fill [OF Cons.prems(1), of D c] Cons.prems(2,3)] Cons.prems
      cell_fill [OF Cons.prems(1-3), of x y D] by auto
qed simp

definition hits :: "(nat \<Rightarrow> nat \<Rightarrow> bool) \<Rightarrow> nat \<Rightarrow> nat \<times> nat \<Rightarrow> bool" where
  "hits D j = (\<lambda>(x, y). y = j \<and> D x y)"

lemma nth_fold_tally:
  "j < length deg \<Longrightarrow> \<forall>(x, y)\<in>set cs. y < length deg \<Longrightarrow>
   fold (tally D) cs deg ! j = deg ! j + int (length (filter (hits D j) cs))"
proof (induction cs arbitrary: deg)
  case (Cons c cs)
  obtain x y where c: "c = (x, y)" by fastforce
  have y: "y < length deg" using Cons.prems(2) c by simp
  have "tally D c deg ! j = deg ! j + (if hits D j c then 1 else 0)"
    using Cons.prems(1) y by (simp add: tally_def hits_def c nth_list_update)
  then show ?case using Cons.IH [of "tally D c deg"] Cons.prems by simp
qed simp

definition marked :: "TransactionStruct list \<Rightarrow> (nat \<times> nat) list \<Rightarrow> int list \<Rightarrow> dag \<Rightarrow> dag" where
  "marked ts cs deg d =
     d\<lparr>adjacencyMatrix := fold (fill (dep_rel ts)) cs (adjacencyMatrix d),
       inDegree := Some (fold (tally (dep_rel ts)) cs deg)\<rparr>"

lemma each_mark_cell:
  assumes "shaped n w (adjacencyMatrix d)" "inDegree d = Some deg" "length deg = n" "n \<le> w"
    and "\<forall>(x, y)\<in>set cs. x < n \<and> y < n"
  shows "each mark_cell cs d = Ret (marked (CurrentTransactions d) cs deg d)"
  using assms
proof (induction cs arbitrary: d deg)
  case Nil
  then show ?case by (simp add: marked_def)
next
  case (Cons c cs)
  obtain x y where c: "c = (x, y)" by fastforce
  then have xy: "x < n" "y < n" using Cons.prems(5) by auto
  let ?D = "dep_rel (CurrentTransactions d)"
  let ?d = "d\<lparr>adjacencyMatrix := fill ?D c (adjacencyMatrix d), inDegree := Some (tally ?D c deg)\<rparr>"
  have m: "mark_cell c d = Ret ?d"
    using Cons.prems(1-4) xy
    by (auto simp: mark_cell_def c dep_rel_def fill_def tally_def set_cell_def fetch_add_def shaped_def)
  have "each mark_cell cs ?d = Ret (marked (CurrentTransactions ?d) cs (tally ?D c deg) ?d)"
    using Cons.prems shaped_fill [OF Cons.prems(1), of ?D c] by (intro Cons.IH) auto
  then show ?case using m by (simp add: marked_def)
qed

lemma each_mark_cell_counted:
  assumes "\<forall>t\<in>set (CurrentTransactions d). counted t" "n \<le> length (CurrentTransactions d)"
    and "\<forall>(x, y)\<in>set cs. x < n \<and> y < n"
  shows "each mark_cell_counted cs d = each mark_cell cs d"
  using assms
proof (induction cs arbitrary: d)
  case (Cons c cs)
  obtain x y where c: "c = (x, y)" by fastforce
  have e: "depends_counted (CurrentTransactions d ! x) (CurrentTransactions d ! y) =
      Ret (depends (CurrentTransactions d ! x) (CurrentTransactions d ! y))"
    using Cons.prems c by (intro depends_counted_eq) auto
  have m: "mark_cell_counted c d = mark_cell c d"
    by (simp add: mark_cell_counted_def mark_cell_def c e)
  show ?case
  proof (cases "mark_cell c d")
    case (Ret d')
    then have "CurrentTransactions d' = CurrentTransactions d"
      by (auto simp: mark_cell_def c bind_outcome_Ret_iff split: if_splits)
    then show ?thesis using Cons m Ret by simp
  qed (simp_all add: m)
qed simp

lemma each_mark_cell_cluster:
  assumes "shaped n w (adjacencyMatrix d)" "n \<le> w" "\<forall>(x, y)\<in>set cs. x < n \<and> y < n"
  shows "each mark_cell_cluster cs d =
    Ret (d\<lparr>adjacencyMatrix := fold (fill (dep_rel (CurrentTransactions d))) cs (adjacencyMatrix d)\<rparr>)"
  using assms
proof (induction cs arbitrary: d)
  case (Cons c cs)
  obtain x y where c: "c = (x, y)" by fastforce
  then have xy: "x < n" "y < n" using Cons.prems(3) by auto
  let ?D = "dep_rel (CurrentTransactions d)"
  let ?d = "d\<lparr>adjacencyMatrix := fill ?D c (adjacencyMatrix d)\<rparr>"
  have m: "mark_cell_cluster c d = Ret ?d"
    using Cons.prems(1,2) xy
    by (auto simp: mark_cell_cluster_def c dep_rel_def fill_def set_cell_def shaped_def)
  have "each mark_cell_cluster cs ?d =
      Ret (?d\<lparr>adjacencyMatrix := fold (fill (dep_rel (CurrentTransactions ?d))) cs (adjacencyMatrix ?d)\<rparr>)"
    using Cons.prems shaped_fill [OF Cons.prems(1), of ?D c] by (intro Cons.IH) auto
  then show ?case using m by simp
qed simp

text \<open>Steps in any order: only the multiset of the pairs counts.\<close>

lemma marked_perm:
  assumes cs: "mset cs = mset cs'" and sh: "shaped n w (adjacencyMatrix d)" "n \<le> w" "length deg = n"
    and b: "\<forall>(x, y)\<in>set cs. x < n \<and> y < n"
  shows "marked ts cs deg d = marked ts cs' deg d"
proof -
  let ?D = "dep_rel ts" and ?a = "adjacencyMatrix d"
  have s: "set cs' = set cs" using cs by (metis set_mset_mset)
  have w: "\<forall>(x, y)\<in>set cs. x < n \<and> y < w" using b sh(2) by auto
  have "fold (fill ?D) cs ?a = fold (fill ?D) cs' ?a"
  proof (rule shaped_eqI)
    show "shaped n w (fold (fill ?D) cs ?a)" "shaped n w (fold (fill ?D) cs' ?a)"
      using shaped_fold sh(1) by blast+
    show "cell (fold (fill ?D) cs ?a) i j = cell (fold (fill ?D) cs' ?a) i j" if "i < n" "j < w" for i j
      using that cell_fold_fill [OF sh(1) that w] cell_fold_fill [OF sh(1) that, of cs'] w s by simp
  qed
  moreover have "fold (tally ?D) cs deg = fold (tally ?D) cs' deg"
  proof (rule nth_equalityI)
    fix j assume j: "j < length (fold (tally ?D) cs deg)"
    have "length (filter (hits ?D j) cs) = length (filter (hits ?D j) cs')"
      using cs by (metis mset_filter size_mset)
    moreover have "\<forall>(x, y)\<in>set cs. y < length deg" using b sh(3) by auto
    ultimately show "fold (tally ?D) cs deg ! j = fold (tally ?D) cs' deg ! j"
      using j s nth_fold_tally [of j deg cs ?D] nth_fold_tally [of j deg cs' ?D] by simp
  qed simp
  ultimately show ?thesis by (simp add: marked_def)
qed

section \<open>The graph of a block\<close>

definition dep_matrix :: "(nat \<Rightarrow> nat \<Rightarrow> bool) \<Rightarrow> nat \<Rightarrow> int list list" where
  "dep_matrix D n = map (\<lambda>i. map (\<lambda>j. if i < j \<and> D i j then 1 else 0) [0..<n]) [0..<n]"

definition in_degrees :: "(nat \<Rightarrow> nat \<Rightarrow> bool) \<Rightarrow> nat \<Rightarrow> int list" where
  "in_degrees D n = map (\<lambda>j. int (length (filter (\<lambda>i. i < j \<and> D i j) [0..<n]))) [0..<n]"

lemma set_pairs_of: "set (pairs_of n rows) = {(i, j). i \<in> set rows \<and> i < j \<and> j < n}"
  by (auto simp: pairs_of_def)

lemma pairs_of_concat: "concat (map (pairs_of n) rss) = pairs_of n (concat rss)"
  by (induction rss) (simp_all add: pairs_of_def)

lemma hits_row:
  "j < n \<Longrightarrow> length (filter (hits D j) (map (Pair i) [Suc i..<n])) = (if i < j \<and> D i j then 1 else 0)"
proof -
  assume j: "j < n"
  have "filter (hits D j) (map (Pair i) [Suc i..<n]) = map (Pair i) (filter (\<lambda>k. k = j \<and> D i k) [Suc i..<n])"
    by (simp add: filter_map hits_def o_def)
  moreover have "filter (\<lambda>k. k = j \<and> D i k) [Suc i..<n] = (if i < j \<and> D i j then [j] else [])"
  proof -
    have "filter (\<lambda>k. k = j) [Suc i..<n] = (if i < j then [j] else [])"
      using j by (induction n) auto
    moreover have "filter (\<lambda>k. k = j \<and> D i k) [Suc i..<n] = filter (\<lambda>k. D i k) (filter (\<lambda>k. k = j) [Suc i..<n])"
      by (simp add: conj_commute)
    ultimately show ?thesis by auto
  qed
  ultimately show ?thesis by simp
qed

lemma hits_pairs:
  assumes "j < n"
  shows "length (filter (hits D j) (pairs_of n rows)) = length (filter (\<lambda>i. i < j \<and> D i j) rows)"
  using hits_row [OF assms, of D] by (induction rows) (simp_all add: pairs_of_def)

lemma shaped_zero [simp]: "shaped n w (replicate n (replicate w 0))"
  by (simp add: shaped_def)

lemma shaped_dep_matrix [simp]: "shaped n n (dep_matrix D n)"
  by (simp add: shaped_def dep_matrix_def)

lemma cell_dep_matrix [simp]:
  "i < n \<Longrightarrow> j < n \<Longrightarrow> cell (dep_matrix D n) i j = (if i < j \<and> D i j then 1 else 0)"
  by (simp add: cell_def dep_matrix_def)

lemma fill_all:
  assumes rows: "set rows = {0..<n}"
  shows "fold (fill D) (pairs_of n rows) (replicate n (replicate n 0)) = dep_matrix D n"
proof (rule shaped_eqI [OF shaped_fold [OF shaped_zero] shaped_dep_matrix])
  fix i j assume ij: "i < n" "j < n"
  have "\<forall>(x, y)\<in>set (pairs_of n rows). x < n \<and> y < n" using rows by (auto simp: set_pairs_of)
  from cell_fold_fill [OF shaped_zero ij this]
  show "cell (fold (fill D) (pairs_of n rows) (replicate n (replicate n 0))) i j = cell (dep_matrix D n) i j"
    using ij rows by (auto simp: set_pairs_of cell_def dep_matrix_def)
qed

lemma tally_all:
  assumes rows: "rows = [0..<n]"
  shows "fold (tally D) (pairs_of n rows) (replicate n 0) = in_degrees D n"
proof (rule nth_equalityI)
  fix j assume "j < length (fold (tally D) (pairs_of n rows) (replicate n 0))"
  then have j: "j < n" by simp
  have "\<forall>(x, y)\<in>set (pairs_of n rows). y < length (replicate n (0 :: int))"
    by (auto simp: set_pairs_of)
  then show "fold (tally D) (pairs_of n rows) (replicate n 0) ! j = in_degrees D n ! j"
    using j nth_fold_tally [of j "replicate n 0" "pairs_of n rows" D] hits_pairs [OF j, of D rows]
    by (simp add: in_degrees_def rows)
qed (simp add: in_degrees_def)

text \<open>The graph a version ends with, from whatever graph it started with.\<close>

definition built :: "codec \<Rightarrow> block \<Rightarrow> dag \<Rightarrow> dag" where
  "built C b d =
     (let txns = extract_all C (b_transactions b) 0; n = length txns
      in d\<lparr>CurrentTransactions := txns, totalTxns := n,
           adjacencyMatrix := dep_matrix (dep_rel txns) n,
           inDegree := Some (in_degrees (dep_rel txns) n)\<rparr>)"

lemma each_threads:
  assumes "\<And>pid d'. pid \<in> set pids \<Longrightarrow> P d' \<Longrightarrow> f pid d' = each g (pairs_of n (rows pid)) d'"
    and "\<And>c d' d''. P d' \<Longrightarrow> g c d' = Ret d'' \<Longrightarrow> P d''" "P d"
  shows "each f pids d = each g (pairs_of n (concat (map rows pids))) d"
proof -
  have keep: "P d2" if "each g cs d1 = Ret d2" "P d1" for cs d1 d2
    using that by (induction cs arbitrary: d1) (auto simp: bind_outcome_Ret_iff intro: assms(2))
  show ?thesis using assms(1,3)
  proof (induction pids arbitrary: d)
    case (Cons pid pids)
    have "each g (pairs_of n (concat (map rows (pid # pids)))) d =
        bind_outcome (each g (pairs_of n (rows pid)) d) (each g (pairs_of n (concat (map rows pids))))"
      by (simp add: pairs_of_def each_append)
    moreover have "f pid d = each g (pairs_of n (rows pid)) d" using Cons.prems by simp
    ultimately show ?case
      using Cons keep by (cases "each g (pairs_of n (rows pid)) d") auto
  qed (simp add: pairs_of_def)
qed

text \<open>A step changes the matrix and the degrees only.\<close>

definition same_frame :: "dag \<Rightarrow> dag \<Rightarrow> bool" where
  "same_frame d d' \<longleftrightarrow> totalTxns d' = totalTxns d \<and> threadCount d' = threadCount d"

lemma mark_cell_frame: "mark_cell c d = Ret d' \<Longrightarrow> same_frame d d'"
  by (cases c) (auto simp: mark_cell_def same_frame_def bind_outcome_Ret_iff split: if_splits)

lemma mark_cell_cluster_frame: "mark_cell_cluster c d = Ret d' \<Longrightarrow> same_frame d d'"
  by (cases c) (auto simp: mark_cell_cluster_def same_frame_def bind_outcome_Ret_iff split: if_splits)

lemma create_dag_eq:
  assumes "0 < thCount"
  shows "create_dag C b thCount d = Ret ((built C b d)\<lparr>threadCount := thCount\<rparr>)"
proof -
  let ?t = "extract_all C (b_transactions b) 0"
  let ?n = "length ?t"
  let ?d = "d\<lparr>threadCount := thCount, CurrentTransactions := ?t, totalTxns := ?n,
              adjacencyMatrix := replicate ?n (replicate ?n 0), inDegree := Some (replicate ?n 0)\<rparr>"
  have "each dependencyMatrix [0..<thCount] ?d =
      each mark_cell (pairs_of ?n (concat (map (row_range ?n thCount) [0..<thCount]))) ?d"
    by (rule each_threads [where P = "same_frame ?d"])
      (auto simp: dependencyMatrix_def same_frame_def dest: mark_cell_frame)
  also have "\<dots> = each mark_cell (pairs_of ?n [0..<?n]) ?d"
    by (simp only: threads_cover [OF assms])
  also have "\<dots> = Ret (marked ?t (pairs_of ?n [0..<?n]) (replicate ?n 0) ?d)"
    using each_mark_cell [of ?n ?n ?d "replicate ?n 0" "pairs_of ?n [0..<?n]"]
    by (simp add: set_pairs_of)
  finally show ?thesis
    using fill_all [of "[0..<?n]" ?n "dep_rel ?t"] tally_all [of "[0..<?n]" ?n "dep_rel ?t"]
    by (simp add: create_dag_def built_def marked_def Let_def)
qed

text \<open>Any interleaving of the threads' steps, not only one thread after another.\<close>

lemma mark_cells_any_order:
  assumes "0 < thCount"
    and cs: "mset cs = mset (concat (map (\<lambda>pid. pairs_of (length ts) (row_range (length ts) thCount pid))
                    [0..<thCount]))"
    and d: "CurrentTransactions d = ts" "adjacencyMatrix d = replicate (length ts) (replicate (length ts) 0)"
      "inDegree d = Some (replicate (length ts) 0)"
  shows "each mark_cell cs d =
    Ret (d\<lparr>adjacencyMatrix := dep_matrix (dep_rel ts) (length ts),
           inDegree := Some (in_degrees (dep_rel ts) (length ts))\<rparr>)"
proof -
  let ?n = "length ts" and ?D = "dep_rel ts"
  have "concat (map (\<lambda>pid. pairs_of ?n (row_range ?n thCount pid)) [0..<thCount]) =
      concat (map (pairs_of ?n) (map (row_range ?n thCount) [0..<thCount]))"
    by (simp add: o_def)
  also have "\<dots> = pairs_of ?n [0..<?n]"
    unfolding pairs_of_concat by (simp only: threads_cover [OF assms(1)])
  finally have m: "mset cs = mset (pairs_of ?n [0..<?n])" using cs by simp
  then have s: "set cs = set (pairs_of ?n [0..<?n])" by (metis set_mset_mset)
  have b: "\<forall>(x, y)\<in>set cs. x < ?n \<and> y < ?n" unfolding s by (auto simp: set_pairs_of)
  have sh: "shaped ?n ?n (adjacencyMatrix d)" by (simp add: d(2))
  have "each mark_cell cs d = Ret (marked ts cs (replicate ?n 0) d)"
    using each_mark_cell [OF sh d(3) _ _ b] d(1) by simp
  also have "marked ts cs (replicate ?n 0) d = marked ts (pairs_of ?n [0..<?n]) (replicate ?n 0) d"
    by (rule marked_perm [OF m sh _ _ b]) simp_all
  finally show ?thesis
    using fill_all [of "[0..<?n]" ?n ?D] tally_all [of "[0..<?n]" ?n ?D] d(2)
    by (simp add: marked_def)
qed

text \<open>
  The other versions, each from a cleaned graph.  The cluster version of \<open>create\<close> leaves the
  in-degrees alone; the serial one needs every header to parse.
\<close>

definition cleaned :: "dag \<Rightarrow> bool" where
  "cleaned d \<longleftrightarrow> CurrentTransactions d = [] \<and> adjacencyMatrix d = []"

lemma cleaned_dagClean [simp]: "cleaned (dagClean d)"
  by (simp add: cleaned_def dagClean_def)

lemma resize_Nil [simp]: "resize n x [] = replicate n x"
  by (simp add: resize_def)

lemma create_cluster_eq:
  assumes "0 < thCount" "cleaned d"
  shows "create_cluster C b thCount d = Ret ((built C b d)\<lparr>threadCount := thCount, inDegree := inDegree d\<rparr>)"
proof -
  let ?t = "extract_all C (b_transactions b) 0"
  let ?n = "length ?t"
  let ?d = "d\<lparr>threadCount := thCount, CurrentTransactions := ?t, totalTxns := ?n,
              adjacencyMatrix := replicate ?n (replicate ?n 0)\<rparr>"
  have "each dependencyMatrix_cluster [0..<thCount] ?d =
      each mark_cell_cluster (pairs_of ?n (concat (map (row_range_cluster ?n thCount) [0..<thCount]))) ?d"
    by (rule each_threads [where P = "same_frame ?d"])
      (auto simp: dependencyMatrix_cluster_def same_frame_def dest: mark_cell_cluster_frame)
  also have "\<dots> = each mark_cell_cluster (pairs_of ?n [0..<?n]) ?d"
    by (simp only: threads_cover_cluster [OF assms(1)])
  also have "\<dots> = Ret (?d\<lparr>adjacencyMatrix :=
      fold (fill (dep_rel ?t)) (pairs_of ?n [0..<?n]) (adjacencyMatrix ?d)\<rparr>)"
    using each_mark_cell_cluster [of ?n ?n ?d "pairs_of ?n [0..<?n]"] by (simp add: set_pairs_of)
  finally show ?thesis
    using fill_all [of "[0..<?n]" ?n "dep_rel ?t"] assms(2)
    by (simp add: create_cluster_def built_def cleaned_def Let_def)
qed

lemma create_serial_eq:
  assumes "cleaned d" and h: "\<forall>t\<in>set (b_transactions b). parse_header C (t_header t) \<noteq> None"
  shows "create_serial C b d = Ret (built C b d)"
proof -
  let ?t = "extract_all C (b_transactions b) 0"
  let ?n = "length ?t"
  let ?d = "d\<lparr>CurrentTransactions := ?t, totalTxns := ?n,
              adjacencyMatrix := replicate ?n (replicate ?n 0), inDegree := Some (replicate ?n 0)\<rparr>"
  have "\<forall>t\<in>set ?t. counted t"
    by (rule extract_all_counted [OF h])
  then have "each mark_cell_counted (pairs_of ?n [0..<?n]) ?d = each mark_cell (pairs_of ?n [0..<?n]) ?d"
    by (intro each_mark_cell_counted [of _ ?n]) (auto simp: set_pairs_of)
  also have "\<dots> = Ret (marked ?t (pairs_of ?n [0..<?n]) (replicate ?n 0) ?d)"
    using each_mark_cell [of ?n ?n ?d "replicate ?n 0" "pairs_of ?n [0..<?n]"]
    by (simp add: set_pairs_of)
  finally show ?thesis
    using fill_all [of "[0..<?n]" ?n "dep_rel ?t"] tally_all [of "[0..<?n]" ?n "dep_rel ?t"] assms(1)
    by (simp add: create_serial_def dependencyMatrix_serial_def built_def marked_def cleaned_def Let_def)
qed

lemma each_threads_pool:
  "each dependencyMatrix_pool pids d =
     each mark_cell_counted (pairs_of (totalTxns d) (concat (map (row_range_pool (totalTxns d) (threadCount d)) pids))) d"
  by (rule each_threads [where P = "same_frame d"])
    (auto simp: dependencyMatrix_pool_def same_frame_def mark_cell_counted_def bind_outcome_Ret_iff
      split: if_splits)

text \<open>The pool version has the same cells and degrees; its extra columns stay zero.\<close>

lemma create_pool_eq:
  assumes "0 < threadCount d" "cleaned d" "parse_block s = Some b"
    and h: "\<forall>t\<in>set (b_transactions b). parse_header C (t_header t) \<noteq> None"
  obtains d' where "create_pool C parse_block s d = Ret d'"
    "inDegree d' = inDegree (built C b d)" "totalTxns d' = length (b_transactions b)"
    "\<And>i j. i < totalTxns d' \<Longrightarrow> j < totalTxns d' \<Longrightarrow>
       cell (adjacencyMatrix d') i j = cell (adjacencyMatrix (built C b d)) i j"
proof -
  let ?t = "extract_all C (b_transactions b) 0"
  let ?n = "length ?t"
  let ?w = "(?n + 15) div 16 * 16"
  let ?d = "d\<lparr>CurrentTransactions := ?t, totalTxns := ?n,
              adjacencyMatrix := replicate ?n (replicate ?w 0), inDegree := Some (replicate ?n 0)\<rparr>"
  let ?cs = "pairs_of ?n [0..<?n]"
  have w: "?n \<le> ?w" by presburger
  have b: "\<forall>(x, y)\<in>set ?cs. x < ?n \<and> y < ?n" by (auto simp: set_pairs_of)
  have "\<forall>t\<in>set ?t. counted t"
    by (rule extract_all_counted [OF h])
  then have "each mark_cell_counted ?cs ?d = each mark_cell ?cs ?d"
    by (intro each_mark_cell_counted [of _ ?n]) (auto simp: set_pairs_of)
  also have "\<dots> = Ret (marked ?t ?cs (replicate ?n 0) ?d)"
    using each_mark_cell [of ?n ?w ?d "replicate ?n 0" ?cs] w b by simp
  finally have e: "create_pool C parse_block s d = Ret (marked ?t ?cs (replicate ?n 0) ?d)"
    using assms(1-3) threads_cover_pool [of "threadCount d" ?n]
    by (simp add: create_pool_def cleaned_def each_threads_pool Let_def)
  show thesis
  proof (rule that [OF e])
    show "inDegree (marked ?t ?cs (replicate ?n 0) ?d) = inDegree (built C b d)"
      using tally_all [of "[0..<?n]" ?n "dep_rel ?t"] by (simp add: marked_def built_def Let_def)
    show "totalTxns (marked ?t ?cs (replicate ?n 0) ?d) = length (b_transactions b)"
      by (simp add: marked_def)
    fix i j assume ij: "i < totalTxns (marked ?t ?cs (replicate ?n 0) ?d)"
        "j < totalTxns (marked ?t ?cs (replicate ?n 0) ?d)"
    then have ij: "i < ?n" "j < ?n" by (simp_all add: marked_def)
    have bw: "\<forall>(x, y)\<in>set ?cs. x < ?n \<and> y < ?w" using b w by auto
    have "cell (fold (fill (dep_rel ?t)) ?cs (replicate ?n (replicate ?w 0))) i j =
        (if (i, j) \<in> set ?cs \<and> dep_rel ?t i j then 1 else cell (replicate ?n (replicate ?w 0)) i j)"
      using ij w by (intro cell_fold_fill [OF shaped_zero _ _ bw]) auto
    then show "cell (adjacencyMatrix (marked ?t ?cs (replicate ?n 0) ?d)) i j =
        cell (adjacencyMatrix (built C b d)) i j"
      using ij w by (simp add: marked_def built_def Let_def set_pairs_of) (simp add: cell_def)
  qed
qed

section \<open>Selecting and completing\<close>

lemma scan_zero_Some: "scan_zero deg idxs = Some i \<Longrightarrow> i \<in> set idxs \<and> deg ! i = 0"
  by (auto simp: scan_zero_def find_Some_iff)

lemma scan_zero_None: "scan_zero deg idxs = None \<longleftrightarrow> (\<forall>i\<in>set idxs. deg ! i \<noteq> 0)"
  by (auto simp: scan_zero_def find_None_iff)

text \<open>Releasing the successors of a transaction, as the loop of \<open>complete\<close> does.\<close>

lemma release_each:
  assumes "adjacencyMatrix d = dep_matrix D n" "inDegree d = Some deg" "length deg = n" "i < n"
    and "\<forall>k\<in>set ks. i < k \<and> k < n" "distinct ks"
  shows "\<exists>deg'. each (release i) ks d = Ret (d\<lparr>inDegree := Some deg'\<rparr>) \<and> length deg' = n \<and>
    (\<forall>j<n. deg' ! j = deg ! j - (if j \<in> set ks \<and> D i j then 1 else 0))"
  using assms
proof (induction ks arbitrary: d deg)
  case Nil
  then have "d\<lparr>inDegree := Some deg\<rparr> = d" by simp
  then show ?case using Nil by (intro exI [of _ deg]) simp
next
  case (Cons k ks)
  let ?deg = "if D i k then deg[k := deg ! k - 1] else deg"
  have r: "release i k d = Ret (d\<lparr>inDegree := Some ?deg\<rparr>)"
  proof (cases "D i k")
    case True
    then show ?thesis using Cons.prems by (simp add: release_def fetch_add_def)
  next
    case False
    then have "d\<lparr>inDegree := Some deg\<rparr> = d" using Cons.prems by simp
    then show ?thesis using False Cons.prems by (simp add: release_def)
  qed
  let ?d = "d\<lparr>inDegree := Some ?deg\<rparr>"
  have "\<exists>deg'. each (release i) ks ?d = Ret (?d\<lparr>inDegree := Some deg'\<rparr>) \<and> length deg' = n \<and>
      (\<forall>j<n. deg' ! j = ?deg ! j - (if j \<in> set ks \<and> D i j then 1 else 0))"
    using Cons.prems by (intro Cons.IH) simp_all
  then obtain deg' where d': "each (release i) ks ?d = Ret (?d\<lparr>inDegree := Some deg'\<rparr>)" "length deg' = n"
      "\<forall>j<n. deg' ! j = ?deg ! j - (if j \<in> set ks \<and> D i j then 1 else 0)" by blast
  have "\<forall>j<n. deg' ! j = deg ! j - (if j \<in> set (k # ks) \<and> D i j then 1 else 0)"
    using d'(3) Cons.prems by (auto simp: nth_list_update)
  then show ?case using r d'(1,2) by (intro exI [of _ deg']) simp
qed

lemma complete_effect:
  assumes "totalTxns d = n" "adjacencyMatrix d = dep_matrix D n" "inDegree d = Some deg" "length deg = n" "i < n"
  shows "\<exists>deg'. complete_txn (int i) d = Ret (d\<lparr>inDegree := Some deg', completedTxns := completedTxns d + 1\<rparr>) \<and>
    length deg' = n \<and>
    (\<forall>j<n. deg' ! j = deg ! j - (if j = i then 1 else 0) - (if i < j \<and> D i j then 1 else 0))"
proof -
  let ?d = "d\<lparr>inDegree := Some (deg[i := deg ! i - 1]), completedTxns := completedTxns d + 1\<rparr>"
  obtain deg' where deg': "each (release i) [Suc i..<n] ?d = Ret (?d\<lparr>inDegree := Some deg'\<rparr>)" "length deg' = n"
    "\<forall>j<n. deg' ! j = deg[i := deg ! i - 1] ! j - (if j \<in> set [Suc i..<n] \<and> D i j then 1 else 0)"
    using release_each [of ?d D n "deg[i := deg ! i - 1]" i "[Suc i..<n]"] assms by auto
  have "complete_txn (int i) d = Ret (d\<lparr>inDegree := Some deg', completedTxns := completedTxns d + 1\<rparr>)"
    using assms(1,3-5) deg'(1) by (simp add: complete_txn_def fetch_add_def)
  moreover have "\<forall>j<n. deg' ! j = deg ! j - (if j = i then 1 else 0) - (if i < j \<and> D i j then 1 else 0)"
    using deg'(3) assms(4) by (auto simp: nth_list_update)
  ultimately show ?thesis using deg'(2) by blast
qed
end
