(* ===== verification/Scheduler_Parallel.thy ===== *)
theory Scheduler_Parallel
  imports Execution Dag_Facts
begin

text \<open>
  The multi-threaded scheduler of the single-node parallel tree: \<open>executeTxns\<close> of
  \<open>scheduler/scheduler.h\<close> with \<open>selectTxn\<close> and \<open>complete\<close> of \<open>dagModule/DAGmodule.h\<close>, as a step relation over
  the shared in-degrees, counters and map and the position of each thread.  Every atomic access to
  shared data is a step of its own; processing a transaction is one step, which is justified by the
  disjoint footprints of the transactions in flight.
\<close>

section \<open>State and steps\<close>

text \<open>
  Where a thread is: at the loop test, inside \<open>selectTxn\<close>, holding a selected transaction, having
  processed it, inside the loop of \<open>complete\<close> at an index, or out of the loop.
\<close>

datatype phase = AtLoop | Scanning | Chosen nat | Executed nat | Releasing nat nat | Stopped

text \<open>What the threads work on: the number of transactions, the matrix, and the processing of one.\<close>

record job =
  j_txns :: nat
  j_edge :: "nat \<Rightarrow> nat \<Rightarrow> bool"
  j_parses :: "nat \<Rightarrow> bool"
  j_run :: "nat \<Rightarrow> (kvmap, bool) op"

text \<open>The last two fields record history: the order of processing, and the edges already released.\<close>

record sched =
  sc_deg :: "int list"
  sc_completed :: int
  sc_flag :: bool
  sc_map :: kvmap
  sc_phase :: "nat \<Rightarrow> phase"
  sc_log :: "nat list"
  sc_released :: "(nat \<times> nat) set"

definition goto :: "nat \<Rightarrow> phase \<Rightarrow> sched \<Rightarrow> sched" where
  "goto t p s = s\<lparr>sc_phase := (sc_phase s)(t := p)\<rparr>"

inductive sched_step :: "job \<Rightarrow> sched \<Rightarrow> sched \<Rightarrow> bool" for J where
  leave: "sc_phase s t = AtLoop \<Longrightarrow> \<not> (sc_completed s < int (j_txns J) \<and> sc_flag s) \<Longrightarrow>
    sched_step J s (goto t Stopped s)"
| enter: "sc_phase s t = AtLoop \<Longrightarrow> sc_completed s < int (j_txns J) \<Longrightarrow> sc_flag s \<Longrightarrow>
    sched_step J s (goto t Scanning s)"
| miss: "sc_phase s t = Scanning \<Longrightarrow> sched_step J s (goto t AtLoop s)"
| select: "sc_phase s t = Scanning \<Longrightarrow> i < j_txns J \<Longrightarrow> sc_deg s ! i = 0 \<Longrightarrow>
    sched_step J s (goto t (Chosen i) (s\<lparr>sc_deg := (sc_deg s)[i := - 1]\<rparr>))"
| skip: "sc_phase s t = Chosen i \<Longrightarrow> \<not> j_parses J i \<Longrightarrow> sched_step J s (goto t AtLoop s)"
| execute: "sc_phase s t = Chosen i \<Longrightarrow> j_parses J i \<Longrightarrow> j_run J i (sc_map s) = (Ret ok, m') \<Longrightarrow>
    sched_step J s (goto t (Executed i)
      (s\<lparr>sc_map := m', sc_flag := (sc_flag s \<and> ok), sc_log := sc_log s @ [i]\<rparr>))"
| finish: "sc_phase s t = Executed i \<Longrightarrow>
    sched_step J s (goto t (Releasing i (Suc i))
      (s\<lparr>sc_deg := (sc_deg s)[i := sc_deg s ! i - 1], sc_completed := sc_completed s + 1\<rparr>))"
| release: "sc_phase s t = Releasing i k \<Longrightarrow> k < j_txns J \<Longrightarrow>
    sched_step J s (goto t (Releasing i (Suc k))
      (s\<lparr>sc_deg := (if j_edge J i k then (sc_deg s)[k := sc_deg s ! k - 1] else sc_deg s),
         sc_released := insert (i, k) (sc_released s)\<rparr>))"
| again: "sc_phase s t = Releasing i k \<Longrightarrow> \<not> k < j_txns J \<Longrightarrow> sched_step J s (goto t AtLoop s)"

inductive sched_reach :: "job \<Rightarrow> sched \<Rightarrow> sched \<Rightarrow> bool" for J where
  refl: "sched_reach J s s"
| step: "sched_reach J s s' \<Longrightarrow> sched_step J s' s'' \<Longrightarrow> sched_reach J s s''"

text \<open>\<open>schedulTxns\<close> starts the threads: every one that exists is at the loop test.\<close>

definition sched_start :: "job \<Rightarrow> nat \<Rightarrow> kvmap \<Rightarrow> sched" where
  "sched_start J thCount m =
     \<lparr>sc_deg = in_degrees (j_edge J) (j_txns J), sc_completed = 0, sc_flag = True, sc_map = m,
      sc_phase = (\<lambda>t. if t < thCount then AtLoop else Stopped), sc_log = [], sc_released = {}\<rparr>"

section \<open>The invariant\<close>

definition on_txn :: "phase \<Rightarrow> nat \<Rightarrow> bool" where
  "on_txn p i \<longleftrightarrow> p = Chosen i \<or> p = Executed i \<or> (\<exists>k. p = Releasing i k)"

lemma on_txn_simps [simp]:
  "\<not> on_txn AtLoop i" "\<not> on_txn Scanning i" "\<not> on_txn Stopped i"
  "on_txn (Chosen j) i \<longleftrightarrow> i = j" "on_txn (Executed j) i \<longleftrightarrow> i = j" "on_txn (Releasing j k) i \<longleftrightarrow> i = j"
  by (auto simp: on_txn_def)

definition waiting_for :: "job \<Rightarrow> (nat \<times> nat) set \<Rightarrow> nat \<Rightarrow> nat set" where
  "waiting_for J rel k = {p. p < k \<and> j_edge J p k \<and> (p, k) \<notin> rel}"

text \<open>The in-degrees: what a transaction waits for while it is free, and nothing once it is taken.\<close>

definition deg_ok :: "job \<Rightarrow> sched \<Rightarrow> bool" where
  "deg_ok J s \<longleftrightarrow> length (sc_deg s) = j_txns J \<and>
     (\<forall>k<j_txns J. if sc_deg s ! k < 0 then waiting_for J (sc_released s) k = {}
                   else sc_deg s ! k = int (card (waiting_for J (sc_released s) k)))"

text \<open>The threads: a transaction belongs to one thread at most, and only once.\<close>

definition phase_ok :: "job \<Rightarrow> sched \<Rightarrow> bool" where
  "phase_ok J s \<longleftrightarrow>
     (\<forall>t i. on_txn (sc_phase s t) i \<longrightarrow> i < j_txns J \<and> sc_deg s ! i < 0) \<and>
     (\<forall>t u i. on_txn (sc_phase s t) i \<longrightarrow> on_txn (sc_phase s u) i \<longrightarrow> t = u) \<and>
     (\<forall>t i. sc_phase s t = Chosen i \<longrightarrow> i \<notin> set (sc_log s)) \<and>
     (\<forall>t i. sc_phase s t = Executed i \<longrightarrow> i \<in> set (sc_log s) \<and> (\<forall>k. (i, k) \<notin> sc_released s)) \<and>
     (\<forall>t i k. sc_phase s t = Releasing i k \<longrightarrow> i \<in> set (sc_log s) \<and> i < k \<and>
        (\<forall>j. (i, j) \<in> sc_released s \<longrightarrow> j < k))"

text \<open>The history: processed once, after everything it depends on.\<close>

definition preds_before :: "job \<Rightarrow> nat list \<Rightarrow> bool" where
  "preds_before J log \<longleftrightarrow>
     (\<forall>a<length log. \<forall>p<log ! a. j_edge J p (log ! a) \<longrightarrow> p \<in> set (take a log))"

definition log_ok :: "job \<Rightarrow> sched \<Rightarrow> bool" where
  "log_ok J s \<longleftrightarrow> distinct (sc_log s) \<and> preds_before J (sc_log s) \<and>
     (\<forall>i\<in>set (sc_log s). i < j_txns J \<and> sc_deg s ! i < 0) \<and>
     (\<forall>(p, k)\<in>sc_released s. p \<in> set (sc_log s))"

definition effect_ok :: "job \<Rightarrow> kvmap \<Rightarrow> sched \<Rightarrow> bool" where
  "effect_ok J m s \<longleftrightarrow> sc_map s = map_after (j_run J) (sc_log s) m \<and>
     (\<forall>(i, r)\<in>set (outcomes (j_run J) (sc_log s) m). \<exists>ok. r = Ret ok) \<and>
     (sc_flag s \<longleftrightarrow> (\<forall>(i, r)\<in>set (outcomes (j_run J) (sc_log s) m). r = Ret True))"

definition count_ok :: "job \<Rightarrow> sched \<Rightarrow> bool" where
  "count_ok J s \<longleftrightarrow>
     sc_completed s = int (card (set (sc_log s) - {i. \<exists>t. sc_phase s t = Executed i}))"

lemma goto_simps [simp]:
  "sc_deg (goto t p s) = sc_deg s" "sc_completed (goto t p s) = sc_completed s"
  "sc_flag (goto t p s) = sc_flag s" "sc_map (goto t p s) = sc_map s"
  "sc_phase (goto t p s) = (sc_phase s)(t := p)" "sc_log (goto t p s) = sc_log s"
  "sc_released (goto t p s) = sc_released s"
  by (simp_all add: goto_def)

lemma finite_waiting [simp]: "finite (waiting_for J rel k)"
  by (simp add: waiting_for_def)

lemma waiting_insert:
  "waiting_for J (insert (i, k) rel) j = (if j = k then waiting_for J rel j - {i} else waiting_for J rel j)"
  by (auto simp: waiting_for_def)

lemma preds_before_snoc:
  "preds_before J (log @ [i]) \<longleftrightarrow> preds_before J log \<and> (\<forall>p<i. j_edge J p i \<longrightarrow> p \<in> set log)"
  by (auto simp: preds_before_def less_Suc_eq nth_append)

lemma phase_ok_taken:
  "phase_ok J s \<Longrightarrow> on_txn (sc_phase s t) i \<Longrightarrow> i < j_txns J \<and> sc_deg s ! i < 0"
  unfolding phase_ok_def by blast

lemma phase_ok_unique:
  "phase_ok J s \<Longrightarrow> on_txn (sc_phase s t) i \<Longrightarrow> on_txn (sc_phase s u) i \<Longrightarrow> t = u"
  unfolding phase_ok_def by blast

lemma phase_ok_Chosen: "phase_ok J s \<Longrightarrow> sc_phase s t = Chosen i \<Longrightarrow> i \<notin> set (sc_log s)"
  unfolding phase_ok_def by blast

lemma phase_ok_Executed:
  "phase_ok J s \<Longrightarrow> sc_phase s t = Executed i \<Longrightarrow> i \<in> set (sc_log s) \<and> (i, k) \<notin> sc_released s"
  unfolding phase_ok_def by blast

lemma phase_ok_Releasing:
  "phase_ok J s \<Longrightarrow> sc_phase s t = Releasing i k \<Longrightarrow>
   i \<in> set (sc_log s) \<and> i < k \<and> (\<forall>j. (i, j) \<in> sc_released s \<longrightarrow> j < k)"
  unfolding phase_ok_def by blast

lemma deg_ok_step: "sched_step J s s' \<Longrightarrow> deg_ok J s \<Longrightarrow> phase_ok J s \<Longrightarrow> deg_ok J s'"
proof (induction rule: sched_step.induct)
  case (select s t i)
  then have "waiting_for J (sc_released s) i = {}" by (auto simp: deg_ok_def)
  then show ?case using select by (auto simp: deg_ok_def nth_list_update)
next
  case (finish s t i)
  then have "i < j_txns J" "sc_deg s ! i < 0" using phase_ok_taken [of J s t i] by simp_all
  then show ?case using finish by (auto simp: deg_ok_def nth_list_update)
next
  case (release s t i k)
  have ik: "i < k" "(i, k) \<notin> sc_released s"
    using phase_ok_Releasing [OF release(4) release(1)] by blast+
  show ?case
  proof (cases "j_edge J i k")
    case True
    then have i: "i \<in> waiting_for J (sc_released s) k" using ik by (simp add: waiting_for_def)
    then have pos: "0 < card (waiting_for J (sc_released s) k)" by (auto simp: card_gt_0_iff)
    have len: "length (sc_deg s) = j_txns J"
      and all: "if sc_deg s ! j < 0 then waiting_for J (sc_released s) j = {}
                else sc_deg s ! j = int (card (waiting_for J (sc_released s) j))" if "j < j_txns J" for j
      using release(3) that by (simp_all add: deg_ok_def)
    have k: "sc_deg s ! k = int (card (waiting_for J (sc_released s) k))"
      using all [OF release(2)] i by (auto split: if_splits)
    have c: "card (waiting_for J (insert (i, k) (sc_released s)) k) =
        card (waiting_for J (sc_released s) k) - 1"
      using i by (simp add: waiting_insert card_Diff_singleton)
    have "if (sc_deg s)[k := sc_deg s ! k - 1] ! j < 0
        then waiting_for J (insert (i, k) (sc_released s)) j = {}
        else (sc_deg s)[k := sc_deg s ! k - 1] ! j =
          int (card (waiting_for J (insert (i, k) (sc_released s)) j))" if j: "j < j_txns J" for j
    proof (cases "j = k")
      case True
      then show ?thesis using c k pos len [OF release(2)] release(2) by (simp add: waiting_insert)
    next
      case False
      then show ?thesis using all [OF j] by (simp add: waiting_insert)
    qed
    then show ?thesis using True release(3) by (simp add: deg_ok_def)
  next
    case False
    then have "waiting_for J (insert (i, k) (sc_released s)) j = waiting_for J (sc_released s) j" for j
      by (auto simp: waiting_for_def)
    then show ?thesis using release False by (simp add: deg_ok_def)
  qed
qed (simp_all add: deg_ok_def)


lemma phase_okI:
  assumes "\<And>t i. on_txn (sc_phase s t) i \<Longrightarrow> i < j_txns J \<and> sc_deg s ! i < 0"
    and "\<And>t u i. on_txn (sc_phase s t) i \<Longrightarrow> on_txn (sc_phase s u) i \<Longrightarrow> t = u"
    and "\<And>t i. sc_phase s t = Chosen i \<Longrightarrow> i \<notin> set (sc_log s)"
    and "\<And>t i k. sc_phase s t = Executed i \<Longrightarrow> i \<in> set (sc_log s) \<and> (i, k) \<notin> sc_released s"
    and "\<And>t i k. sc_phase s t = Releasing i k \<Longrightarrow>
      i \<in> set (sc_log s) \<and> i < k \<and> (\<forall>j. (i, j) \<in> sc_released s \<longrightarrow> j < k)"
  shows "phase_ok J s"
  using assms unfolding phase_ok_def by blast

text \<open>A thread that goes on with the transaction it has, or lets it go, keeps ownership intact.\<close>

lemma keeps_ownership:
  assumes p: "phase_ok J s" and q: "\<And>i. on_txn q i \<Longrightarrow> on_txn (sc_phase s t) i"
    and d: "\<And>i. i < j_txns J \<Longrightarrow> sc_deg s ! i < 0 \<Longrightarrow> deg ! i < 0"
  shows "on_txn (((sc_phase s)(t := q)) u) i \<Longrightarrow> i < j_txns J \<and> deg ! i < 0"
    and "on_txn (((sc_phase s)(t := q)) u) i \<Longrightarrow> on_txn (((sc_phase s)(t := q)) v) i \<Longrightarrow> u = v"
proof -
  have own: "on_txn (sc_phase s w) i" if "on_txn (((sc_phase s)(t := q)) w) i" for w
    using that q by (cases "w = t") simp_all
  show "on_txn (((sc_phase s)(t := q)) u) i \<Longrightarrow> i < j_txns J \<and> deg ! i < 0"
    using phase_ok_taken [OF p own] d by blast
  show "on_txn (((sc_phase s)(t := q)) u) i \<Longrightarrow> on_txn (((sc_phase s)(t := q)) v) i \<Longrightarrow> u = v"
    using phase_ok_unique [OF p own own] by blast
qed

lemma phase_ok_leave:
  assumes p: "phase_ok J s" and q: "q = AtLoop \<or> q = Scanning \<or> q = Stopped"
  shows "phase_ok J (goto t q s)"
proof -
  have off: "\<not> on_txn q i" for i using q by auto
  have same: "((sc_phase s)(t := q)) u = r \<Longrightarrow> on_txn r i \<Longrightarrow> sc_phase s u = r" for u r i
    using off by (cases "u = t") auto
  show ?thesis
  proof (rule phase_okI, unfold goto_simps)
    show "on_txn (((sc_phase s)(t := q)) u) i \<Longrightarrow> i < j_txns J \<and> sc_deg s ! i < 0" for u i
      using keeps_ownership(1) [OF p, of q t "sc_deg s" u i] off by blast
    show "on_txn (((sc_phase s)(t := q)) u) i \<Longrightarrow> on_txn (((sc_phase s)(t := q)) v) i \<Longrightarrow> u = v" for u v i
      using keeps_ownership(2) [OF p, of q t "sc_deg s" u i v] off by blast
    show "((sc_phase s)(t := q)) u = Chosen i \<Longrightarrow> i \<notin> set (sc_log s)" for u i
      using same [of u "Chosen i" i] phase_ok_Chosen [OF p] by simp
    show "((sc_phase s)(t := q)) u = Executed i \<Longrightarrow> i \<in> set (sc_log s) \<and> (i, k) \<notin> sc_released s" for u i k
      using same [of u "Executed i" i] phase_ok_Executed [OF p] by simp
    show "((sc_phase s)(t := q)) u = Releasing i k \<Longrightarrow>
        i \<in> set (sc_log s) \<and> i < k \<and> (\<forall>j. (i, j) \<in> sc_released s \<longrightarrow> j < k)" for u i k
      using same [of u "Releasing i k" i] phase_ok_Releasing [OF p] by simp
  qed
qed

lemma phase_ok_step:
  assumes st: "sched_step J s s'" and d: "deg_ok J s" and p: "phase_ok J s" and l: "log_ok J s"
  shows "phase_ok J s'"
  using st
proof cases
  case (select t i)
  have free: "\<not> on_txn (sc_phase s u) i" for u
    using phase_ok_taken [OF p, of u i] select by auto
  have nl: "i \<notin> set (sc_log s)" using l select by (auto simp: log_ok_def)
  have len: "length (sc_deg s) = j_txns J" using d by (simp add: deg_ok_def)
  show ?thesis using p select free nl len
    by (auto simp: phase_ok_def nth_list_update)
next
  case (execute t i ok m')
  have ti: "on_txn (sc_phase s t) i" using execute by simp
  have own: "on_txn (sc_phase s u) i \<Longrightarrow> u = t" for u
    using phase_ok_unique [OF p _ ti] by blast
  have nl: "i \<notin> set (sc_log s)" using phase_ok_Chosen [OF p] execute by blast
  have nr: "(i, k) \<notin> sc_released s" for k using l nl by (auto simp: log_ok_def)
  have eqs: "sc_deg s' = sc_deg s" "sc_phase s' = (sc_phase s)(t := Executed i)"
      "sc_log s' = sc_log s @ [i]" "sc_released s' = sc_released s"
    by (simp_all add: execute(1))
  show ?thesis
  proof (rule phase_okI, unfold eqs)
    show "on_txn (((sc_phase s)(t := Executed i)) u) j \<Longrightarrow> j < j_txns J \<and> sc_deg s ! j < 0" for u j
      using keeps_ownership(1) [OF p, of "Executed i" t "sc_deg s" u j] ti by auto
    show "on_txn (((sc_phase s)(t := Executed i)) u) j \<Longrightarrow>
        on_txn (((sc_phase s)(t := Executed i)) v) j \<Longrightarrow> u = v" for u v j
      using keeps_ownership(2) [OF p, of "Executed i" t "sc_deg s" u j v] ti by auto
    show "((sc_phase s)(t := Executed i)) u = Chosen j \<Longrightarrow> j \<notin> set (sc_log s @ [i])" for u j
      using phase_ok_Chosen [OF p, of u j] own [of u] by (auto split: if_splits)
    show "((sc_phase s)(t := Executed i)) u = Executed j \<Longrightarrow>
        j \<in> set (sc_log s @ [i]) \<and> (j, k) \<notin> sc_released s" for u j k
      using phase_ok_Executed [OF p, of u j k] nr by (auto split: if_splits)
    show "((sc_phase s)(t := Executed i)) u = Releasing j k \<Longrightarrow>
        j \<in> set (sc_log s @ [i]) \<and> j < k \<and> (\<forall>x. (j, x) \<in> sc_released s \<longrightarrow> x < k)" for u j k
      using phase_ok_Releasing [OF p, of u j k] by (auto split: if_splits)
  qed
next
  case (finish t i)
  have ti: "on_txn (sc_phase s t) i" using finish by simp
  have i: "i < j_txns J" "sc_deg s ! i < 0" using phase_ok_taken [OF p ti] by simp_all
  have len: "length (sc_deg s) = j_txns J" using d by (simp add: deg_ok_def)
  let ?deg = "(sc_deg s)[i := sc_deg s ! i - 1]" and ?q = "Releasing i (Suc i)"
  have neg: "j < j_txns J \<Longrightarrow> sc_deg s ! j < 0 \<Longrightarrow> ?deg ! j < 0" for j
    using i len by (simp add: nth_list_update)
  have eqs: "sc_deg s' = ?deg" "sc_phase s' = (sc_phase s)(t := ?q)"
      "sc_log s' = sc_log s" "sc_released s' = sc_released s"
    by (simp_all add: finish(1))
  show ?thesis
  proof (rule phase_okI, unfold eqs)
    show "on_txn (((sc_phase s)(t := ?q)) u) j \<Longrightarrow> j < j_txns J \<and> ?deg ! j < 0" for u j
      using keeps_ownership(1) [OF p, of ?q t ?deg u j] ti neg by auto
    show "on_txn (((sc_phase s)(t := ?q)) u) j \<Longrightarrow> on_txn (((sc_phase s)(t := ?q)) v) j \<Longrightarrow> u = v" for u v j
      using keeps_ownership(2) [OF p, of ?q t ?deg u j v] ti neg by auto
    show "((sc_phase s)(t := ?q)) u = Chosen j \<Longrightarrow> j \<notin> set (sc_log s)" for u j
      using phase_ok_Chosen [OF p, of u j] by (auto split: if_splits)
    show "((sc_phase s)(t := ?q)) u = Executed j \<Longrightarrow> j \<in> set (sc_log s) \<and> (j, k) \<notin> sc_released s" for u j k
      using phase_ok_Executed [OF p, of u j k] by (auto split: if_splits)
    show "((sc_phase s)(t := ?q)) u = Releasing j k \<Longrightarrow>
        j \<in> set (sc_log s) \<and> j < k \<and> (\<forall>x. (j, x) \<in> sc_released s \<longrightarrow> x < k)" for u j k
      using phase_ok_Releasing [OF p, of u j k] phase_ok_Executed [OF p, of t i] finish(2)
      by (auto split: if_splits)
  qed
next
  case (release t i k)
  have ti: "on_txn (sc_phase s t) i" using release by simp
  have own: "on_txn (sc_phase s u) i \<Longrightarrow> u = t" for u
    using phase_ok_unique [OF p _ ti] by blast
  have len: "length (sc_deg s) = j_txns J" using d by (simp add: deg_ok_def)
  let ?deg = "if j_edge J i k then (sc_deg s)[k := sc_deg s ! k - 1] else sc_deg s"
    and ?q = "Releasing i (Suc k)"
  have neg: "j < j_txns J \<Longrightarrow> sc_deg s ! j < 0 \<Longrightarrow> ?deg ! j < 0" for j
    using release(3) len by (simp add: nth_list_update)
  have eqs: "sc_deg s' = ?deg" "sc_phase s' = (sc_phase s)(t := ?q)"
      "sc_log s' = sc_log s" "sc_released s' = insert (i, k) (sc_released s)"
    by (simp_all add: release(1))
  show ?thesis
  proof (rule phase_okI, unfold eqs)
    show "on_txn (((sc_phase s)(t := ?q)) u) j \<Longrightarrow> j < j_txns J \<and> ?deg ! j < 0" for u j
      using keeps_ownership(1) [OF p, of ?q t ?deg u j] ti neg by auto
    show "on_txn (((sc_phase s)(t := ?q)) u) j \<Longrightarrow> on_txn (((sc_phase s)(t := ?q)) v) j \<Longrightarrow> u = v" for u v j
      using keeps_ownership(2) [OF p, of ?q t ?deg u j v] ti neg by auto
    show "((sc_phase s)(t := ?q)) u = Chosen j \<Longrightarrow> j \<notin> set (sc_log s)" for u j
      using phase_ok_Chosen [OF p, of u j] by (auto split: if_splits)
    show "((sc_phase s)(t := ?q)) u = Executed j \<Longrightarrow>
        j \<in> set (sc_log s) \<and> (j, x) \<notin> insert (i, k) (sc_released s)" for u j x
      using phase_ok_Executed [OF p, of u j x] own [of u] by (auto split: if_splits)
    show "((sc_phase s)(t := ?q)) u = Releasing j x \<Longrightarrow>
        j \<in> set (sc_log s) \<and> j < x \<and> (\<forall>y. (j, y) \<in> insert (i, k) (sc_released s) \<longrightarrow> y < x)" for u j x
      using phase_ok_Releasing [OF p, of u j x] phase_ok_Releasing [OF p release(2)] own [of u]
      by (auto split: if_splits)
  qed
qed (use p in \<open>auto intro!: phase_ok_leave\<close>)

lemma log_ok_step:
  assumes st: "sched_step J s s'" and d: "deg_ok J s" and p: "phase_ok J s" and l: "log_ok J s"
  shows "log_ok J s'"
  using st
proof cases
  case (select t i)
  have len: "length (sc_deg s) = j_txns J" using d by (simp add: deg_ok_def)
  show ?thesis using l select len by (auto simp: log_ok_def nth_list_update)
next
  case (execute t i ok m')
  have i: "i < j_txns J" "sc_deg s ! i < 0" "i \<notin> set (sc_log s)"
    using phase_ok_taken [OF p, of t i] phase_ok_Chosen [OF p] execute by auto
  then have "waiting_for J (sc_released s) i = {}" using d by (auto simp: deg_ok_def)
  then have "p \<in> set (sc_log s)" if "p < i" "j_edge J p i" for p
    using l that by (auto simp: waiting_for_def log_ok_def)
  then show ?thesis using l execute i by (auto simp: log_ok_def preds_before_snoc)
next
  case (finish t i)
  have len: "length (sc_deg s) = j_txns J" using d by (simp add: deg_ok_def)
  have "i < j_txns J" "sc_deg s ! i < 0" using phase_ok_taken [OF p, of t i] finish by simp_all
  then show ?thesis using l finish len by (auto simp: log_ok_def nth_list_update)
next
  case (release t i k)
  have len: "length (sc_deg s) = j_txns J" using d by (simp add: deg_ok_def)
  have "i \<in> set (sc_log s)" using phase_ok_Releasing [OF p] release by blast
  then show ?thesis using l release len by (auto simp: log_ok_def nth_list_update)
qed (use l in \<open>auto simp: log_ok_def\<close>)

lemma effect_ok_step:
  assumes st: "sched_step J s s'" and e: "effect_ok J m s"
  shows "effect_ok J m s'"
  using st
proof cases
  case (execute t i ok m')
  have o: "outcomes (j_run J) (sc_log s @ [i]) m = outcomes (j_run J) (sc_log s) m @ [(i, Ret ok)]"
    using e execute by (simp add: outcomes_append effect_ok_def)
  show ?thesis using e execute by (auto simp: effect_ok_def o)
qed (use e in \<open>simp_all add: effect_ok_def\<close>)

text \<open>The counter counts the processed transactions that no thread has still to count.\<close>

definition uncounted :: "sched \<Rightarrow> nat set" where
  "uncounted s = {i. \<exists>t. sc_phase s t = Executed i}"

lemma uncounted_upd:
  "{i. \<exists>u. (f(t := q)) u = Executed i} = {i. q = Executed i} \<union> {i. \<exists>u. u \<noteq> t \<and> f u = Executed i}"
  by (auto split: if_splits)

lemma uncounted_split:
  "uncounted s = {i. sc_phase s t = Executed i} \<union> {i. \<exists>u. u \<noteq> t \<and> sc_phase s u = Executed i}"
  by (auto simp: uncounted_def)

lemma count_ok_step:
  assumes st: "sched_step J s s'" and p: "phase_ok J s" and c: "count_ok J s"
  shows "count_ok J s'"
proof -
  have cc: "sc_completed s = int (card (set (sc_log s) - uncounted s))"
    using c by (simp add: count_ok_def uncounted_def)
  have other: "{i. \<exists>u. ((sc_phase s)(t := q)) u = Executed i} = uncounted s"
    if "\<And>i. sc_phase s t \<noteq> Executed i" "\<And>i. q \<noteq> Executed i" for t q
    unfolding uncounted_upd uncounted_split [of s t] using that by simp
  from st show ?thesis
  proof cases
    case (execute t i ok m')
    have nl: "i \<notin> set (sc_log s)" using phase_ok_Chosen [OF p] execute by blast
    have "{j. \<exists>u. ((sc_phase s)(t := Executed i)) u = Executed j} = insert i (uncounted s)"
      unfolding uncounted_upd uncounted_split [of s t] using execute(2) by auto
    then show ?thesis using cc nl execute(1) by (simp add: count_ok_def)
  next
    case (finish t i)
    have il: "i \<in> set (sc_log s)" "i \<in> uncounted s"
      using phase_ok_Executed [OF p finish(2)] finish(2) by (auto simp: uncounted_def)
    have own: "u \<noteq> t \<Longrightarrow> sc_phase s u \<noteq> Executed i" for u
      using phase_ok_unique [OF p, of u i t] finish(2) by auto
    have "{j. \<exists>u. ((sc_phase s)(t := Releasing i (Suc i))) u = Executed j} = uncounted s - {i}"
      unfolding uncounted_upd uncounted_split [of s t] using finish(2) own by auto
    moreover have "set (sc_log s) - (uncounted s - {i}) = insert i (set (sc_log s) - uncounted s)"
      using il by blast
    ultimately show ?thesis using cc il finish(1) by (simp add: count_ok_def)
  qed (simp_all add: count_ok_def cc other del: fun_upd_apply)
qed

text \<open>A stopped thread saw the work done or the flag down, and both last.\<close>

definition stop_ok :: "job \<Rightarrow> nat \<Rightarrow> sched \<Rightarrow> bool" where
  "stop_ok J thCount s \<longleftrightarrow>
     (\<forall>t<thCount. sc_phase s t = Stopped \<longrightarrow> int (j_txns J) \<le> sc_completed s \<or> \<not> sc_flag s)"

lemma stop_ok_step: "sched_step J s s' \<Longrightarrow> stop_ok J thCount s \<Longrightarrow> stop_ok J thCount s'"
  by (induction rule: sched_step.induct) (auto simp: stop_ok_def)

definition sched_inv :: "job \<Rightarrow> nat \<Rightarrow> kvmap \<Rightarrow> sched \<Rightarrow> bool" where
  "sched_inv J thCount m s \<longleftrightarrow> deg_ok J s \<and> phase_ok J s \<and> log_ok J s \<and> effect_ok J m s \<and> count_ok J s \<and>
     stop_ok J thCount s"

lemma sched_inv_start: "sched_inv J thCount m (sched_start J thCount m)"
proof -
  have "in_degrees (j_edge J) (j_txns J) ! k = int (card (waiting_for J {} k))" if "k < j_txns J" for k
  proof -
    have "waiting_for J {} k = set (filter (\<lambda>i. i < k \<and> j_edge J i k) [0..<j_txns J])"
      using that by (auto simp: waiting_for_def)
    moreover have "distinct (filter (\<lambda>i. i < k \<and> j_edge J i k) [0..<j_txns J])" by simp
    ultimately show ?thesis using that by (simp only: distinct_card) (simp add: in_degrees_def)
  qed
  then have "deg_ok J (sched_start J thCount m)"
    by (simp add: deg_ok_def sched_start_def) (simp add: in_degrees_def)
  then show ?thesis
    by (auto simp: sched_inv_def sched_start_def phase_ok_def log_ok_def effect_ok_def count_ok_def
        stop_ok_def preds_before_def split: if_splits)
qed

lemma sched_inv_step: "sched_step J s s' \<Longrightarrow> sched_inv J thCount m s \<Longrightarrow> sched_inv J thCount m s'"
  by (simp add: sched_inv_def deg_ok_step phase_ok_step log_ok_step effect_ok_step count_ok_step stop_ok_step)

lemma sched_inv_reach:
  "sched_reach J s s' \<Longrightarrow> s = sched_start J thCount m \<Longrightarrow> sched_inv J thCount m s'"
  by (induction rule: sched_reach.induct) (auto intro: sched_inv_start sched_inv_step)

section \<open>Every run is equivalent to the serial one\<close>

text \<open>Transactions without an edge touch different keys.\<close>

definition edges_cover :: "job \<Rightarrow> (nat \<Rightarrow> string set) \<Rightarrow> bool" where
  "edges_cover J foot \<longleftrightarrow>
     (\<forall>i j. i < j \<longrightarrow> j < j_txns J \<longrightarrow> \<not> j_edge J i j \<longrightarrow> foot i \<inter> foot j = {})"

definition rest_of :: "nat \<Rightarrow> nat list \<Rightarrow> nat list" where
  "rest_of n log = filter (\<lambda>i. i \<notin> set log) [0..<n]"

lemma preds_before_nth:
  assumes "preds_before J log" "distinct log" "a < b" "b < length log" "j_edge J (log ! b) (log ! a)"
  shows "\<not> log ! b < log ! a"
proof
  assume "log ! b < log ! a"
  moreover have "a < length log" using assms(3,4) by simp
  ultimately have "log ! b \<in> set (take a log)" using assms(1,5) by (auto simp: preds_before_def)
  then obtain c where "c < a" "log ! c = log ! b" by (auto simp: in_set_conv_nth)
  then show False using assms(2-4) by (auto simp: nth_eq_iff_index_eq)
qed

lemma log_keeps_order:
  assumes cov: "edges_cover J foot" and l: "distinct log" "preds_before J log"
      "\<forall>i\<in>set log. i < j_txns J"
  shows "keeps_order foot (log @ rest_of (j_txns J) log)"
proof -
  have free: "foot x \<inter> foot y = {}"
    if "y < x" "x < j_txns J" "\<not> j_edge J y x" for x y
    using cov that unfolding edges_cover_def by blast
  have 1: "sorted_wrt (\<lambda>x y. x < y \<or> foot x \<inter> foot y = {}) log"
  proof (unfold sorted_wrt_iff_nth_less, intro allI impI)
    fix a b assume ab: "a < b" "b < length log"
    show "log ! a < log ! b \<or> foot (log ! a) \<inter> foot (log ! b) = {}"
    proof (cases "log ! b < log ! a")
      case True
      then have "\<not> j_edge J (log ! b) (log ! a)" using preds_before_nth [OF l(2,1) ab] by blast
      moreover have "log ! a < j_txns J" using l(3) ab by simp
      ultimately show ?thesis using free True by blast
    next
      case False
      moreover have "log ! a \<noteq> log ! b" using l(1) ab by (simp add: nth_eq_iff_index_eq)
      ultimately show ?thesis by simp
    qed
  qed
  have 2: "sorted_wrt (\<lambda>x y. x < y \<or> foot x \<inter> foot y = {}) (rest_of (j_txns J) log)"
    unfolding rest_of_def
    by (rule sorted_wrt_mono_rel [of _ "(<)"]) (auto intro: sorted_wrt_filter)
  have 3: "x < y \<or> foot x \<inter> foot y = {}" if x: "x \<in> set log" and y: "y \<in> set (rest_of (j_txns J) log)" for x y
  proof (cases "y < x")
    case True
    obtain a where a: "a < length log" "log ! a = x" using x by (auto simp: in_set_conv_nth)
    have "\<not> j_edge J y x"
    proof
      assume "j_edge J y x"
      then have "y \<in> set (take a log)" using l(2) True a by (auto simp: preds_before_def)
      then have "y \<in> set log" by (rule in_set_takeD)
      then show False using y by (simp add: rest_of_def)
    qed
    moreover have "x < j_txns J" using l(3) x by simp
    ultimately show ?thesis using free True by blast
  next
    case False
    then show ?thesis using x y by (cases "x = y") (auto simp: rest_of_def)
  qed
  show ?thesis unfolding keeps_order_def sorted_wrt_append using 1 2 3 by blast
qed

lemma sorted_rest:
  assumes "distinct log" "\<forall>i\<in>set log. i < n"
  shows "sorted_list_of_set (set (log @ rest_of n log)) = [0..<n]"
proof -
  have "set (log @ rest_of n log) = {0..<n}" using assms(2) by (auto simp: rest_of_def)
  then show ?thesis by (simp only: sorted_list_of_set_range)
qed

text \<open>A state all of whose threads have stopped decides as the serial run does.\<close>

lemma stopped_serial:
  assumes inv: "sched_inv J thCount m s" and th: "0 < thCount" and stop: "\<And>t. sc_phase s t = Stopped"
    and conf: "\<And>i. confined (foot i) (j_run J i)" and cov: "edges_cover J foot"
  shows "if sc_flag s then serial_run (j_run J) [0..<j_txns J] m = (Ret True, sc_map s)
         else fst (serial_run (j_run J) [0..<j_txns J] m) \<noteq> Ret True"
proof -
  let ?n = "j_txns J" and ?log = "sc_log s" and ?run = "j_run J"
  let ?rest = "rest_of ?n ?log"
  have l: "distinct ?log" "preds_before J ?log" "\<forall>i\<in>set ?log. i < ?n"
    and e: "effect_ok J m s" and c: "count_ok J s" and so: "stop_ok J thCount s"
    using inv by (auto simp: sched_inv_def log_ok_def)
  have h: "confined_handlers ?run foot" by (rule confined_handlers.intro) (rule conf)
  have dist: "distinct (?log @ ?rest)" using l(1) by (auto simp: rest_of_def)
  have ser: "map_after ?run (?log @ ?rest) m = map_after ?run [0..<?n] m"
      "set (outcomes ?run (?log @ ?rest) m) = set (outcomes ?run [0..<?n] m)"
    using confined_handlers.serializable [OF h dist log_keeps_order [OF cov l], of m] by (simp_all only: sorted_rest [OF l(1,3)])
  show ?thesis
  proof (cases "sc_flag s")
    case True
    then have "int ?n \<le> sc_completed s" using so th stop by (auto simp: stop_ok_def)
    moreover have "sc_completed s = int (card (set ?log))"
      using c stop by (simp add: count_ok_def)
    ultimately have "card {0..<?n} \<le> card (set ?log)" by simp
    moreover have "set ?log \<subseteq> {0..<?n}" using l(3) by auto
    ultimately have "set ?log = {0..<?n}" by (intro card_seteq) simp_all
    then have "?rest = []" by (auto simp: rest_of_def filter_empty_conv)
    then show ?thesis using True e ser by (simp add: serial_run_True effect_ok_def)
  next
    case False
    then obtain i r where ir: "(i, r) \<in> set (outcomes ?run ?log m)" "r \<noteq> Ret True"
      using e by (auto simp: effect_ok_def)
    then have "(i, r) \<in> set (outcomes ?run [0..<?n] m)" using ser(2) by (auto simp: outcomes_append)
    then have "serial_run ?run [0..<?n] m \<noteq> (Ret True, m')" for m'
      using ir(2) by (auto simp: serial_run_True)
    then have "fst (serial_run ?run [0..<?n] m) \<noteq> Ret True"
      by (cases "serial_run ?run [0..<?n] m") auto
    then show ?thesis using False by simp
  qed
qed

section \<open>No run gets stuck\<close>

text \<open>A release never takes a free transaction below zero.\<close>

lemma release_stays_free:
  assumes d: "deg_ok J s" and p: "phase_ok J s" and r: "sc_phase s t = Releasing i k" "k < j_txns J"
    and neg: "(if j_edge J i k then (sc_deg s)[k := sc_deg s ! k - 1] else sc_deg s) ! k < 0"
  shows "sc_deg s ! k < 0"
proof (cases "j_edge J i k")
  case True
  have "i < k" "(i, k) \<notin> sc_released s" using phase_ok_Releasing [OF p r(1)] by blast+
  then have i: "i \<in> waiting_for J (sc_released s) k" using True by (simp add: waiting_for_def)
  then have "0 < card (waiting_for J (sc_released s) k)" by (auto simp: card_gt_0_iff)
  moreover have "length (sc_deg s) = j_txns J" using d by (simp add: deg_ok_def)
  moreover have "sc_deg s ! k = int (card (waiting_for J (sc_released s) k))"
    using d r(2) i by (auto simp: deg_ok_def split: if_splits)
  ultimately show ?thesis using neg True r(2) by simp
qed (use neg in simp)

text \<open>
  What a processed transaction that no thread holds any more has released, and that nothing gets
  lost while every header parses.
\<close>

definition released_ok :: "job \<Rightarrow> sched \<Rightarrow> bool" where
  "released_ok J s \<longleftrightarrow>
     (\<forall>i\<in>set (sc_log s). (\<forall>t. \<not> on_txn (sc_phase s t) i) \<longrightarrow>
        (\<forall>k. i < k \<longrightarrow> k < j_txns J \<longrightarrow> (i, k) \<in> sc_released s)) \<and>
     (\<forall>t i k. sc_phase s t = Releasing i k \<longrightarrow>
        (\<forall>j. i < j \<longrightarrow> j < k \<longrightarrow> (i, j) \<in> sc_released s)) \<and>
     (\<forall>k<j_txns J. sc_deg s ! k < 0 \<longrightarrow> k \<in> set (sc_log s) \<or> (\<exists>t. on_txn (sc_phase s t) k))"

lemma on_txn_upd:
  "(\<forall>u. \<not> on_txn ((f(t := q)) u) i) \<longleftrightarrow> \<not> on_txn q i \<and> (\<forall>u. u \<noteq> t \<longrightarrow> \<not> on_txn (f u) i)"
  by auto

lemma on_txn_split: "(\<forall>u. \<not> on_txn (f u) i) \<longleftrightarrow> \<not> on_txn (f t) i \<and> (\<forall>u. u \<noteq> t \<longrightarrow> \<not> on_txn (f u) i)"
  by auto

lemma released_okI:
  assumes "\<And>i k. i \<in> set (sc_log s) \<Longrightarrow> \<forall>t. \<not> on_txn (sc_phase s t) i \<Longrightarrow> i < k \<Longrightarrow> k < j_txns J \<Longrightarrow>
      (i, k) \<in> sc_released s"
    and "\<And>t i k j. sc_phase s t = Releasing i k \<Longrightarrow> i < j \<Longrightarrow> j < k \<Longrightarrow> (i, j) \<in> sc_released s"
    and "\<And>k. k < j_txns J \<Longrightarrow> sc_deg s ! k < 0 \<Longrightarrow> \<forall>t. \<not> on_txn (sc_phase s t) k \<Longrightarrow> k \<in> set (sc_log s)"
  shows "released_ok J s"
  using assms unfolding released_ok_def by blast

lemma released_okD:
  assumes "released_ok J s"
  shows "i \<in> set (sc_log s) \<Longrightarrow> \<forall>t. \<not> on_txn (sc_phase s t) i \<Longrightarrow> i < k \<Longrightarrow> k < j_txns J \<Longrightarrow>
      (i, k) \<in> sc_released s"
    and "sc_phase s t = Releasing i k \<Longrightarrow> i < j \<Longrightarrow> j < k \<Longrightarrow> (i, j) \<in> sc_released s"
    and "k < j_txns J \<Longrightarrow> sc_deg s ! k < 0 \<Longrightarrow> \<forall>t. \<not> on_txn (sc_phase s t) k \<Longrightarrow> k \<in> set (sc_log s)"
  using assms unfolding released_ok_def by blast+

lemma released_idle:
  assumes r: "released_ok J s" and p: "\<And>i. \<not> on_txn (sc_phase s t) i" and q: "\<And>i. \<not> on_txn q i"
  shows "released_ok J (goto t q s)"
proof (rule released_okI, unfold goto_simps)
  have same: "(\<forall>u. \<not> on_txn (((sc_phase s)(t := q)) u) i) \<longleftrightarrow> (\<forall>u. \<not> on_txn (sc_phase s u) i)" for i
    unfolding on_txn_upd on_txn_split [of "sc_phase s" i t] using p q by simp
  show "(i, k) \<in> sc_released s" if "i \<in> set (sc_log s)" "\<forall>u. \<not> on_txn (((sc_phase s)(t := q)) u) i"
      "i < k" "k < j_txns J" for i k
    using released_okD(1) [OF r that(1) _ that(3,4)] that(2) same by blast
  show "(i, j) \<in> sc_released s" if "((sc_phase s)(t := q)) u = Releasing i k" "i < j" "j < k" for u i k j
  proof -
    have "u \<noteq> t" using that(1) q [of i] by auto
    then show ?thesis using released_okD(2) [OF r _ that(2,3)] that(1) by simp
  qed
  show "k \<in> set (sc_log s)" if "k < j_txns J" "sc_deg s ! k < 0"
      "\<forall>u. \<not> on_txn (((sc_phase s)(t := q)) u) k" for k
    using released_okD(3) [OF r that(1,2)] that(3) same by blast
qed

lemma released_ok_step:
  assumes st: "sched_step J s s'" and d: "deg_ok J s" and p: "phase_ok J s" and r: "released_ok J s"
    and parses: "\<And>i. i < j_txns J \<Longrightarrow> j_parses J i"
  shows "released_ok J s'"
  using st
proof cases
  case (leave t)
  then show ?thesis using released_idle [OF r, of t Stopped] by simp
next
  case (enter t)
  then show ?thesis using released_idle [OF r, of t Scanning] by simp
next
  case (miss t)
  then show ?thesis using released_idle [OF r, of t AtLoop] by simp
next
  case (select t i)
  have len: "length (sc_deg s) = j_txns J" using d by (simp add: deg_ok_def)
  have eqs: "sc_deg s' = (sc_deg s)[i := - 1]" "sc_phase s' = (sc_phase s)(t := Chosen i)"
      "sc_log s' = sc_log s" "sc_released s' = sc_released s"
    by (simp_all add: select(1))
  have same: "(\<forall>u. \<not> on_txn (((sc_phase s)(t := Chosen i)) u) j) \<longleftrightarrow>
      j \<noteq> i \<and> (\<forall>u. \<not> on_txn (sc_phase s u) j)" for j
    unfolding on_txn_upd on_txn_split [of "sc_phase s" j t] using select(2) by simp
  show ?thesis
  proof (rule released_okI, unfold eqs same)
    show "(j, k) \<in> sc_released s"
      if "j \<in> set (sc_log s)" "j \<noteq> i \<and> (\<forall>u. \<not> on_txn (sc_phase s u) j)" "j < k" "k < j_txns J" for j k
      using released_okD(1) [OF r that(1) _ that(3,4)] that(2) by blast
    show "(x, j) \<in> sc_released s"
      if "((sc_phase s)(t := Chosen i)) u = Releasing x k" "x < j" "j < k" for u x k j
      using released_okD(2) [OF r _ that(2,3), of u] that(1) by (auto split: if_splits)
    show "k \<in> set (sc_log s)" if "k < j_txns J" "(sc_deg s)[i := - 1] ! k < 0"
        "k \<noteq> i \<and> (\<forall>u. \<not> on_txn (sc_phase s u) k)" for k
      using released_okD(3) [OF r that(1)] that(2,3) by simp
  qed
next
  case (skip t i)
  have "i < j_txns J" using phase_ok_taken [OF p, of t i] skip by simp
  then show ?thesis using skip parses by blast
next
  case (execute t i ok m')
  have eqs: "sc_deg s' = sc_deg s" "sc_phase s' = (sc_phase s)(t := Executed i)"
      "sc_log s' = sc_log s @ [i]" "sc_released s' = sc_released s"
    by (simp_all add: execute(1))
  have same: "(\<forall>u. \<not> on_txn (((sc_phase s)(t := Executed i)) u) j) \<longleftrightarrow> (\<forall>u. \<not> on_txn (sc_phase s u) j)" for j
    unfolding on_txn_upd on_txn_split [of "sc_phase s" j t] using execute(2) by simp
  have ti: "on_txn (sc_phase s t) i" using execute by simp
  show ?thesis
  proof (rule released_okI, unfold eqs same)
    show "(j, k) \<in> sc_released s"
      if "j \<in> set (sc_log s @ [i])" "\<forall>u. \<not> on_txn (sc_phase s u) j" "j < k" "k < j_txns J" for j k
    proof -
      have "j \<noteq> i" using that(2) ti by blast
      then show ?thesis using released_okD(1) [OF r _ that(2-4)] that(1) by simp
    qed
    show "(x, j) \<in> sc_released s"
      if "((sc_phase s)(t := Executed i)) u = Releasing x k" "x < j" "j < k" for u x k j
      using released_okD(2) [OF r _ that(2,3), of u] that(1) by (auto split: if_splits)
    show "k \<in> set (sc_log s @ [i])" if "k < j_txns J" "sc_deg s ! k < 0"
        "\<forall>u. \<not> on_txn (sc_phase s u) k" for k
      using released_okD(3) [OF r that] by simp
  qed
next
  case (finish t i)
  have len: "length (sc_deg s) = j_txns J" using d by (simp add: deg_ok_def)
  have i: "i < j_txns J" "sc_deg s ! i < 0" using phase_ok_taken [OF p, of t i] finish by simp_all
  have eqs: "sc_deg s' = (sc_deg s)[i := sc_deg s ! i - 1]"
      "sc_phase s' = (sc_phase s)(t := Releasing i (Suc i))"
      "sc_log s' = sc_log s" "sc_released s' = sc_released s"
    by (simp_all add: finish(1))
  have same: "(\<forall>u. \<not> on_txn (((sc_phase s)(t := Releasing i (Suc i))) u) j) \<longleftrightarrow>
      (\<forall>u. \<not> on_txn (sc_phase s u) j)" for j
    unfolding on_txn_upd on_txn_split [of "sc_phase s" j t] using finish(2) by simp
  show ?thesis
  proof (rule released_okI, unfold eqs same)
    show "(j, k) \<in> sc_released s"
      if "j \<in> set (sc_log s)" "\<forall>u. \<not> on_txn (sc_phase s u) j" "j < k" "k < j_txns J" for j k
      by (rule released_okD(1) [OF r that])
    show "(x, j) \<in> sc_released s"
      if "((sc_phase s)(t := Releasing i (Suc i))) u = Releasing x k" "x < j" "j < k" for u x k j
      using released_okD(2) [OF r _ that(2,3), of u] that by (auto split: if_splits)
    show "k \<in> set (sc_log s)" if "k < j_txns J" "(sc_deg s)[i := sc_deg s ! i - 1] ! k < 0"
        "\<forall>u. \<not> on_txn (sc_phase s u) k" for k
    proof -
      have "sc_deg s ! k < 0" using that(2) i len by (cases "k = i") simp_all
      then show ?thesis using released_okD(3) [OF r that(1) _ that(3)] by blast
    qed
  qed
next
  case (release t i k)
  have len: "length (sc_deg s) = j_txns J" using d by (simp add: deg_ok_def)
  let ?deg = "if j_edge J i k then (sc_deg s)[k := sc_deg s ! k - 1] else sc_deg s"
  have eqs: "sc_deg s' = ?deg" "sc_phase s' = (sc_phase s)(t := Releasing i (Suc k))"
      "sc_log s' = sc_log s" "sc_released s' = insert (i, k) (sc_released s)"
    by (simp_all add: release(1))
  have same: "(\<forall>u. \<not> on_txn (((sc_phase s)(t := Releasing i (Suc k))) u) j) \<longleftrightarrow>
      (\<forall>u. \<not> on_txn (sc_phase s u) j)" for j
    unfolding on_txn_upd on_txn_split [of "sc_phase s" j t] using release(2) by simp
  have nneg: "?deg ! k < 0 \<Longrightarrow> sc_deg s ! k < 0"
    by (rule release_stays_free [OF d p release(2,3)])
  show ?thesis
  proof (rule released_okI, unfold eqs same)
    show "(j, x) \<in> insert (i, k) (sc_released s)"
      if "j \<in> set (sc_log s)" "\<forall>u. \<not> on_txn (sc_phase s u) j" "j < x" "x < j_txns J" for j x
      using released_okD(1) [OF r that] by blast
    show "(x, j) \<in> insert (i, k) (sc_released s)"
      if "((sc_phase s)(t := Releasing i (Suc k))) u = Releasing x y" "x < j" "j < y" for u x y j
    proof (cases "u = t")
      case True
      then have "x = i" "y = Suc k" using that(1) by simp_all
      then show ?thesis using released_okD(2) [OF r release(2), of j] that(2,3) by (cases "j = k") auto
    next
      case False
      then show ?thesis using released_okD(2) [OF r _ that(2,3), of u] that(1) by simp
    qed
    show "x \<in> set (sc_log s)" if "x < j_txns J" "?deg ! x < 0" "\<forall>u. \<not> on_txn (sc_phase s u) x" for x
    proof -
      have "sc_deg s ! x < 0" using that(2) nneg by (cases "x = k") (auto split: if_splits)
      then show ?thesis using released_okD(3) [OF r that(1) _ that(3)] by blast
    qed
  qed
next
  case (again t i k)
  have eqs: "sc_deg s' = sc_deg s" "sc_phase s' = (sc_phase s)(t := AtLoop)"
      "sc_log s' = sc_log s" "sc_released s' = sc_released s"
    by (simp_all add: again(1))
  have same: "(\<forall>u. \<not> on_txn (((sc_phase s)(t := AtLoop)) u) j) \<Longrightarrow> j \<noteq> i \<Longrightarrow>
      (\<forall>u. \<not> on_txn (sc_phase s u) j)" for j
    unfolding on_txn_upd on_txn_split [of "sc_phase s" j t] using again(2) by simp
  have il: "i \<in> set (sc_log s)" using phase_ok_Releasing [OF p again(2)] by blast
  show ?thesis
  proof (rule released_okI, unfold eqs)
    show "(j, x) \<in> sc_released s" if "j \<in> set (sc_log s)"
        "\<forall>u. \<not> on_txn (((sc_phase s)(t := AtLoop)) u) j" "j < x" "x < j_txns J" for j x
    proof (cases "j = i")
      case True
      then show ?thesis using released_okD(2) [OF r again(2), of x] again(3) that by simp
    next
      case False
      then show ?thesis using released_okD(1) [OF r that(1) _ that(3,4)] same [OF that(2)] by blast
    qed
    show "(x, j) \<in> sc_released s"
      if "((sc_phase s)(t := AtLoop)) u = Releasing x y" "x < j" "j < y" for u x y j
      using released_okD(2) [OF r _ that(2,3), of u] that(1) by (auto split: if_splits)
    show "x \<in> set (sc_log s)" if "x < j_txns J" "sc_deg s ! x < 0"
        "\<forall>u. \<not> on_txn (((sc_phase s)(t := AtLoop)) u) x" for x
      using released_okD(3) [OF r that(1,2)] same [OF that(3)] il by blast
  qed
qed

lemma released_ok_start: "released_ok J (sched_start J thCount m)"
proof (rule released_okI)
  fix k assume "k < j_txns J" "sc_deg (sched_start J thCount m) ! k < 0"
  then show "k \<in> set (sc_log (sched_start J thCount m))"
    by (simp add: sched_start_def in_degrees_def)
qed (auto simp: sched_start_def split: if_splits)

lemma released_ok_reach:
  "sched_reach J s s' \<Longrightarrow> s = sched_start J thCount m \<Longrightarrow> (\<And>i. i < j_txns J \<Longrightarrow> j_parses J i) \<Longrightarrow>
   released_ok J s'"
proof (induction rule: sched_reach.induct)
  case (refl s)
  then show ?case by (simp add: released_ok_start)
next
  case (step s s' s'')
  then have "sched_inv J thCount m s'" by (auto intro: sched_inv_reach)
  then show ?case using step released_ok_step [of J s' s''] by (simp add: sched_inv_def)
qed

text \<open>With work left and nothing in flight, the smallest unprocessed transaction can be selected.\<close>

lemma some_ready:
  assumes inv: "sched_inv J thCount m s" and r: "released_ok J s"
    and idle: "\<And>t i. \<not> on_txn (sc_phase s t) i" and left: "sc_completed s < int (j_txns J)"
  shows "\<exists>i<j_txns J. sc_deg s ! i = 0"
proof -
  have d: "deg_ok J s" and l: "log_ok J s" and c: "count_ok J s" using inv by (auto simp: sched_inv_def)
  have "{i. \<exists>t. sc_phase s t = Executed i} = {}"
  proof (rule ccontr)
    assume "{i. \<exists>t. sc_phase s t = Executed i} \<noteq> {}"
    then obtain t i where "sc_phase s t = Executed i" by blast
    then show False using idle [of t i] by simp
  qed
  then have "sc_completed s = int (card (set (sc_log s)))" using c by (simp add: count_ok_def)
  then have "\<not> {0..<j_txns J} \<subseteq> set (sc_log s)"
    using left card_mono [of "set (sc_log s)" "{0..<j_txns J}"] by auto
  then have ex: "\<exists>i. i < j_txns J \<and> i \<notin> set (sc_log s)" by auto
  define i where "i = (LEAST i. i < j_txns J \<and> i \<notin> set (sc_log s))"
  have i: "i < j_txns J" "i \<notin> set (sc_log s)"
    using LeastI_ex [OF ex] unfolding i_def by blast+
  have before: "p \<in> set (sc_log s)" if "p < i" for p
    using not_less_Least [of p "\<lambda>i. i < j_txns J \<and> i \<notin> set (sc_log s)"] that i(1)
    unfolding i_def by auto
  have "waiting_for J (sc_released s) i = {}"
    using released_okD(1) [OF r before _ _ i(1)] idle by (auto simp: waiting_for_def)
  moreover have "\<not> sc_deg s ! i < 0" using released_okD(3) [OF r i(1)] i(2) idle by blast
  ultimately have "sc_deg s ! i = 0" using d i(1) by (auto simp: deg_ok_def)
  then show ?thesis using i(1) by blast
qed

section \<open>The job of a block\<close>

text \<open>
  \<open>schedulTxns\<close> on a block: the transactions of the block, the matrix \<open>create\<close> built, and the
  dispatch on the family.  A transaction declares its keys when each of them is among its outputs.
\<close>

definition block_run ::
    "(txn_header \<Rightarrow> transaction \<Rightarrow> (kvmap, bool) op) \<Rightarrow> codec \<Rightarrow> transaction list \<Rightarrow> nat \<Rightarrow> (kvmap, bool) op" where
  "block_run ex C txns i =
     (if i < length txns then
        (case parse_header C (t_header (txns ! i)) of
           None \<Rightarrow> ret False
         | Some h \<Rightarrow> ex h (txns ! i))
      else ret False)"

definition block_foot :: "codec \<Rightarrow> transaction list \<Rightarrow> nat \<Rightarrow> string set" where
  "block_foot C txns i = (if i < length txns then txn_keys C all_fields (txns ! i) else {})"

definition block_job ::
    "(txn_header \<Rightarrow> transaction \<Rightarrow> (kvmap, bool) op) \<Rightarrow> codec \<Rightarrow> dag \<Rightarrow> transaction list \<Rightarrow> job" where
  "block_job ex C d txns =
     \<lparr>j_txns = totalTxns d, j_edge = (\<lambda>i j. cell (adjacencyMatrix d) i j = 1),
      j_parses = (\<lambda>i. i < length txns \<and> parse_header C (t_header (txns ! i)) \<noteq> None),
      j_run = block_run ex C txns\<rparr>"

definition declares :: "codec \<Rightarrow> transaction \<Rightarrow> bool" where
  "declares C t \<longleftrightarrow>
     (case parse_header C (t_header t) of
        None \<Rightarrow> False
      | Some h \<Rightarrow> txn_keys C all_fields t \<subseteq> set (outputs h))"

lemma block_run_confined:
  assumes "\<And>h t. confined (txn_keys C all_fields t) (ex h t)"
  shows "confined (block_foot C txns i) (block_run ex C txns i)"
  using assms by (auto simp: block_run_def block_foot_def intro!: confined_intros)

interpretation par: confined_handlers "block_run (execute_parallel C I gv) C txns" "block_foot C txns"
  for C I gv txns
  by (rule confined_handlers.intro) (rule block_run_confined, rule execute_parallel_confined)

interpretation ser: confined_handlers "block_run (execute_serial C I gv) C txns" "block_foot C txns"
  for C I gv txns
  by (rule confined_handlers.intro) (rule block_run_confined, rule execute_serial_confined)

interpretation clu: confined_handlers "block_run (execute_cluster C I gv) C txns" "block_foot C txns"
  for C I gv txns
  by (rule confined_handlers.intro) (rule block_run_confined, rule execute_cluster_confined)

lemma edges_cover_built:
  assumes "\<forall>t\<in>set (b_transactions b). declares C t"
  shows "edges_cover (block_job ex C (built C b d) (b_transactions b)) (block_foot C (b_transactions b))"
proof -
  let ?txns = "b_transactions b" and ?t = "extract_all C (b_transactions b) 0"
  have out: "block_foot C ?txns i \<subseteq> set (ts_outputs (?t ! i))" if "i < length ?txns" for i
  proof -
    have "declares C (?txns ! i)" using assms that by simp
    then show ?thesis using that
      by (auto simp: block_foot_def declares_def nth_extract_all extractTransaction_def split: option.splits)
  qed
  have "block_foot C ?txns i \<inter> block_foot C ?txns j = {}"
    if ij: "i < j" "j < length ?txns" "cell (dep_matrix (dep_rel ?t) (length ?txns)) i j \<noteq> 1" for i j
  proof -
    have "\<not> depends (?t ! i) (?t ! j)" using ij by (simp add: dep_rel_def split: if_splits)
    then have "set (ts_outputs (?t ! i)) \<inter> set (ts_outputs (?t ! j)) = {}" by (simp add: depends_iff)
    then show ?thesis using out [of i] out [of j] ij by auto
  qed
  then show ?thesis by (simp add: edges_cover_def block_job_def built_def Let_def)
qed

end
