(* ===== verification/Merkle_Invariant.thy ===== *)
theory Merkle_Invariant
  imports Merkle_Facts "HOL-Library.Sublist"
begin

text \<open>
  The shape of the tree (inner nodes are the proper prefixes of key hashes, each linked to its
  extensions by one digit), its preservation by every operation, and the Merkle invariant: each
  inner node carries the hash of its children's hashes.
\<close>

section \<open>Shape\<close>

definition prefix_key :: "string \<Rightarrow> bool" where
  "prefix_key p \<longleftrightarrow> p \<noteq> [] \<and> length p < 64 \<and> list_all is_hex p"

definition inner_ok :: "db \<Rightarrow> string \<Rightarrow> bool" where
  "inner_ok m p \<longleftrightarrow> tidy (getNode m p) \<and> nvalue (getNode m p) = [] \<and>
     (\<forall>c\<in>set (nchildren (getNode m p)). \<exists>x. is_hex x \<and> c = p @ [x])"

definition root_ok :: "db \<Rightarrow> bool" where
  "root_ok m \<longleftrightarrow> m root_key \<noteq> None \<and> tidy (getNode m root_key) \<and>
     nvalue (getNode m root_key) = [] \<and> root_key \<notin> set (nchildren (getNode m root_key))"

definition tree_ok :: "db \<Rightarrow> bool" where
  "tree_ok m \<longleftrightarrow> root_ok m \<and> (\<forall>p. prefix_key p \<longrightarrow> m p \<noteq> None \<longrightarrow> inner_ok m p)"

lemma root_not_hex: "\<not> list_all is_hex root_key"
  by (simp add: root_key_def is_hex_def isdigit_def)

lemma root_not_prefix_key [simp]: "\<not> prefix_key root_key"
  using root_not_hex by (simp add: prefix_key_def)

lemma put_eq: "lawful E \<Longrightarrow> put E m k v = (True, m(k \<mapsto> v))"
  by (simp add: lawful_def put_ok_def)

lemma hash_length: "lawful E \<Longrightarrow> length (computeHash E s) = 64"
  by (simp add: lawful_def computeHash_length)

lemma hash_hex: "list_all is_hex (computeHash E s)"
  using computeHash_hex by (auto simp: list_all_iff)

lemma hash_not_root [simp]: "computeHash E s \<noteq> root_key"
  using hash_hex root_not_hex by metis

lemma getNode_tidy_upd [simp]:
  "tidy n \<Longrightarrow> getNode (m(k \<mapsto> serializeNode n)) k' = (if k' = k then n else getNode m k')"
  by (simp add: getNode_def deserialize_serialize)

lemma getNode_other: "m' k = m k \<Longrightarrow> getNode m' k = getNode m k"
  by (simp add: getNode_def)

lemma getNode_None: "m k = None \<Longrightarrow> getNode m k = no_node"
  by (simp add: getNode_def)

lemma hex_no_comma: "list_all is_hex p \<Longrightarrow> CHR '','' \<notin> set p"
  using not_hex_comma by (auto simp: list_all_iff)

lemma tidy_add:
  "tidy n \<or> n = no_node \<Longrightarrow> CHR '','' \<notin> set c \<Longrightarrow> c \<noteq> [] \<Longrightarrow>
   tidy (n\<lparr>nchildren := nchildren n @ [c]\<rparr>)"
  by (auto simp: tidy_def no_node_def)

lemma tidy_hash: "tidy n \<Longrightarrow> CHR '','' \<notin> set h \<Longrightarrow> tidy (n\<lparr>nhash := h\<rparr>)"
  by (simp add: tidy_def)

text \<open>The first root comes back from its text with a spurious child, and is well shaped.\<close>

lemma open_fresh:
  assumes "lawful E" "open_state E True disk = Ret m"
  shows "m = [root_key \<mapsto> serializeNode \<lparr>nvalue = [], nhash = computeHash E [], nchildren = []\<rparr>]"
    and "getNode m root_key =
      \<lparr>nvalue = [], nhash = computeHash E [], nchildren = [computeHash E []]\<rparr>"
    and "tree_ok m"
proof -
  let ?root = "\<lparr>nvalue = [], nhash = computeHash E [], nchildren = []\<rparr>"
  show m: "m = [root_key \<mapsto> serializeNode ?root]"
    using assms by (simp add: open_state_def put_eq)
  show root: "getNode m root_key =
      \<lparr>nvalue = [], nhash = computeHash E [], nchildren = [computeHash E []]\<rparr>"
    by (simp add: m getNode_def deserialize_leaf)
  have "computeHash E [] \<noteq> []" using hash_length [OF assms(1), of "[]"] by auto
  then have "root_ok m"
    unfolding root_ok_def root using hash_not_root [of E "[]", symmetric]
    by (auto simp: m tidy_def)
  then show "tree_ok m"
    using root_not_prefix_key by (auto simp: tree_ok_def m fun_upd_def split: if_splits)
qed

section \<open>Linking one child\<close>

lemma add_child_eq:
  "lawful E \<Longrightarrow> add_child E m p c =
     (if c \<in> set (nchildren (getNode m p)) then m
      else m(p \<mapsto> serializeNode ((getNode m p)\<lparr>nchildren := nchildren (getNode m p) @ [c]\<rparr>)))"
  by (simp add: add_child_def put_eq Let_def)

lemma add_child_frame: "lawful E \<Longrightarrow> k \<noteq> p \<Longrightarrow> add_child E m p c k = m k"
  by (simp add: add_child_eq)

lemma add_child_node:
  assumes "lawful E" "tidy (getNode m p) \<or> m p = None" "CHR '','' \<notin> set c" "c \<noteq> []"
  shows "getNode (add_child E m p c) p = (getNode m p)\<lparr>nchildren :=
     (if c \<in> set (nchildren (getNode m p)) then nchildren (getNode m p)
      else nchildren (getNode m p) @ [c])\<rparr>"
    and "tidy (getNode (add_child E m p c) p)"
    and "add_child E m p c p \<noteq> None"
proof -
  have t: "tidy (getNode m p) \<or> getNode m p = no_node"
    using assms(2) getNode_None by blast
  have in_t: "tidy (getNode m p) \<and> m p \<noteq> None" if "c \<in> set (nchildren (getNode m p))"
    using that assms(2) getNode_None [of m p] by (cases "m p") (auto simp: no_node_def)
  show "getNode (add_child E m p c) p = (getNode m p)\<lparr>nchildren :=
     (if c \<in> set (nchildren (getNode m p)) then nchildren (getNode m p)
      else nchildren (getNode m p) @ [c])\<rparr>"
    and "tidy (getNode (add_child E m p c) p)"
    and "add_child E m p c p \<noteq> None"
    using tidy_add [OF t assms(3,4)] in_t by (simp_all add: add_child_eq assms(1))
qed

lemma add_child_inner:
  assumes E: "lawful E" and m: "tree_ok m" and p: "prefix_key p" and x: "is_hex x"
  shows "tree_ok (add_child E m p (p @ [x]))"
proof -
  let ?m = "add_child E m p (p @ [x])"
  have pc: "CHR '','' \<notin> set (p @ [x])"
    using p x not_hex_comma hex_no_comma [of p] by (auto simp: prefix_key_def)
  have absent: "tidy (getNode m p) \<or> m p = None"
    using m p by (auto simp: tree_ok_def inner_ok_def)
  note new = add_child_node [OF E absent pc]
  have old: "getNode m p = no_node \<or> inner_ok m p"
    using m p getNode_None by (auto simp: tree_ok_def)
  have "inner_ok ?m p"
    unfolding inner_ok_def using new old x by (auto simp: no_node_def inner_ok_def)
  moreover have other: "?m k = m k" if "k \<noteq> p" for k
    using E that by (rule add_child_frame)
  moreover have "root_ok ?m"
  proof -
    have "root_key \<noteq> p" using p root_not_prefix_key by metis
    then have "?m root_key = m root_key" by (rule other)
    then show ?thesis using m getNode_other [of ?m root_key m] by (simp add: tree_ok_def root_ok_def)
  qed
  ultimately show ?thesis
    using m unfolding tree_ok_def inner_ok_def by (metis getNode_other)
qed

lemma add_child_root:
  assumes E: "lawful E" and m: "tree_ok m" and x: "is_hex x"
  shows "tree_ok (add_child E m root_key [x])"
proof -
  let ?m = "add_child E m root_key [x]"
  have c: "CHR '','' \<notin> set [x]" using x not_hex_comma by auto
  have t: "tidy (getNode m root_key) \<or> m root_key = None"
    using m by (simp add: tree_ok_def root_ok_def)
  note new = add_child_node [OF E t c]
  have r1: "[x] \<noteq> root_key" by (simp add: root_key_def)
  have "root_ok ?m"
    unfolding root_ok_def using new r1 m by (auto simp: tree_ok_def root_ok_def)
  moreover have other: "?m k = m k" if "k \<noteq> root_key" for k
    using E that by (rule add_child_frame)
  ultimately show ?thesis
    using m root_not_prefix_key unfolding tree_ok_def inner_ok_def by (metis getNode_other)
qed

section \<open>Linking a path\<close>

lemma link_path_frame:
  assumes "lawful E" "\<forall>i<length cs. k \<noteq> cur @ take i cs"
  shows "link_path E cs cur m k = m k"
  using assms(2)
proof (induction cs arbitrary: cur m)
  case (Cons c cs)
  have "\<forall>i<length cs. k \<noteq> (cur @ [c]) @ take i cs"
    using Cons.prems by (metis Suc_less_eq append.assoc append_Cons append_Nil length_Cons
        take_Suc_Cons)
  then have "link_path E (c # cs) cur m k = add_child E m cur (cur @ [c]) k"
    using Cons.IH by simp
  moreover have "k \<noteq> cur" using Cons.prems by (metis append_Nil2 length_Cons take0 zero_less_Suc)
  ultimately show ?case using add_child_frame assms(1) by simp
qed simp

lemma link_path_frame_length:
  assumes "lawful E" "length k < length cur \<or> length cur + length cs \<le> length k"
  shows "link_path E cs cur m k = m k"
proof (rule link_path_frame [OF assms(1)], intro allI impI)
  fix i assume "i < length cs"
  then have "length (cur @ take i cs) = length cur + i" by simp
  then show "k \<noteq> cur @ take i cs" using assms(2) \<open>i < length cs\<close> by auto
qed

lemma prefix_key_extend:
  "prefix_key cur \<Longrightarrow> is_hex c \<Longrightarrow> length cur + 1 < 64 \<Longrightarrow> prefix_key (cur @ [c])"
  by (simp add: prefix_key_def)

lemma link_path_tree:
  assumes E: "lawful E"
  shows "tree_ok m \<Longrightarrow> prefix_key cur \<Longrightarrow> list_all is_hex cs \<Longrightarrow> length cur + length cs \<le> 64 \<Longrightarrow>
    tree_ok (link_path E cs cur m)"
proof (induction cs arbitrary: cur m)
  case (Cons c cs)
  have t: "tree_ok (add_child E m cur (cur @ [c]))"
    using add_child_inner [OF E] Cons.prems by simp
  show ?case
  proof (cases cs)
    case Nil
    with t show ?thesis by simp
  next
    case (Cons d ds)
    then have "prefix_key (cur @ [c])"
      using Cons.prems prefix_key_extend by simp
    then show ?thesis using Cons.IH [OF t] Cons.prems by simp
  qed
qed simp

lemma link_path_present: "lawful E \<Longrightarrow> m k \<noteq> None \<Longrightarrow> link_path E cs cur m k \<noteq> None"
proof (induction cs arbitrary: cur m)
  case (Cons c cs)
  have "add_child E m cur (cur @ [c]) k \<noteq> None"
    using Cons.prems by (simp add: add_child_eq)
  then show ?case using Cons by simp
qed simp

text \<open>Every node of the path is there and linked to the next one.\<close>

lemma link_path_linked:
  assumes E: "lawful E"
  shows "tree_ok m \<Longrightarrow> prefix_key cur \<Longrightarrow> list_all is_hex cs \<Longrightarrow> length cur + length cs \<le> 64 \<Longrightarrow>
    i < length cs \<Longrightarrow>
    link_path E cs cur m (cur @ take i cs) \<noteq> None \<and>
    cur @ take (Suc i) cs \<in> set (nchildren (getNode (link_path E cs cur m) (cur @ take i cs)))"
proof (induction cs arbitrary: cur m i)
  case (Cons c cs)
  let ?m = "add_child E m cur (cur @ [c])"
  have t: "tree_ok ?m" using add_child_inner [OF E] Cons.prems by simp
  have pc: "CHR '','' \<notin> set (cur @ [c])"
    using Cons.prems(2,3) not_hex_comma hex_no_comma [of cur] by (auto simp: prefix_key_def)
  have absent: "tidy (getNode m cur) \<or> m cur = None"
    using Cons.prems(1,2) by (auto simp: tree_ok_def inner_ok_def)
  note new = add_child_node [OF E absent pc]
  show ?case
  proof (cases i)
    case 0
    have "link_path E cs (cur @ [c]) ?m cur = ?m cur"
      using link_path_frame_length [OF E] by simp
    with new 0 getNode_other [of "link_path E cs (cur @ [c]) ?m" cur ?m] show ?thesis by auto
  next
    case (Suc j)
    then have j: "j < length cs" using Cons.prems by simp
    then have "prefix_key (cur @ [c])"
      using Cons.prems prefix_key_extend by (cases cs) simp_all
    then show ?thesis using Cons.IH [OF t, of "cur @ [c]" j] Cons.prems j Suc by simp
  qed
qed simp

section \<open>\<open>insert\<close>\<close>

definition inserted :: "env \<Rightarrow> string \<Rightarrow> string \<Rightarrow> db \<Rightarrow> db" where
  "inserted E key v m = snd (insert_kv E key v m)"

text \<open>A hash has a first digit and a tail of 63 digits.\<close>

lemma hash_cons:
  assumes "lawful E"
  obtains x xs where "computeHash E key = x # xs" "length xs = 63" "is_hex x" "list_all is_hex xs"
    "prefix_key [x]"
proof -
  obtain x xs where h: "computeHash E key = x # xs" "length xs = 63"
    using hash_length [OF assms, of key] by (metis length_Suc_conv numeral_eq_Suc pred_numeral_simps(2)
        eval_nat_numeral(2) BitM.simps semiring_norm(26,27,28))
  moreover have "is_hex x" "list_all is_hex xs" using hash_hex [of E key] h by simp_all
  moreover have "prefix_key [x]" using \<open>is_hex x\<close> by (simp add: prefix_key_def)
  ultimately show ?thesis using that by blast
qed

lemma insert_kv_eq:
  assumes "lawful E"
  shows "insert_kv E key v m = (True, link_path E (tl (computeHash E key)) [hd (computeHash E key)]
     (add_child E (m(computeHash E key \<mapsto>
        serializeNode \<lparr>nvalue = v, nhash = computeHash E v, nchildren = []\<rparr>))
      root_key [hd (computeHash E key)]))"
  using hash_length [OF assms, of key]
  by (cases "computeHash E key") (simp_all add: insert_kv_def put_eq [OF assms] first_char_def Let_def)

text \<open>What \<open>insert\<close> leaves alone: everything but the leaf, the root and the inner nodes above it.\<close>

lemma inserted_frame:
  assumes E: "lawful E" and k: "k \<noteq> computeHash E key" "k \<noteq> root_key"
    and np: "\<not> (prefix_key k \<and> prefix k (computeHash E key))"
  shows "inserted E key v m k = m k"
proof -
  obtain x xs where h0: "computeHash E key = x # xs" "length xs = 63" "is_hex x" "list_all is_hex xs"
    using hash_cons [OF E, of key] by metis
  then have h: "computeHash E key = x # xs" "length xs = 63" "list_all is_hex (x # xs)" by simp_all
  have "\<forall>i<length xs. k \<noteq> [x] @ take i xs"
  proof (intro allI impI notI)
    fix i assume i: "i < length xs" and eq: "k = [x] @ take i xs"
    have "list_all is_hex (take i xs)" using h(3) set_take_subset [of i xs] by (auto simp: list_all_iff)
    then have "prefix_key k" using eq i h by (simp add: prefix_key_def)
    moreover have "prefix k (computeHash E key)" using eq h(1) take_is_prefix [of i xs] by simp
    ultimately show False using np by blast
  qed
  then show ?thesis
    using k by (simp add: inserted_def insert_kv_eq [OF E] link_path_frame [OF E] h(1)
        add_child_frame [OF E])
qed

lemma inserted_leaf:
  assumes E: "lawful E"
  shows "inserted E key v m (computeHash E key) =
    Some (serializeNode \<lparr>nvalue = v, nhash = computeHash E v, nchildren = []\<rparr>)"
proof -
  obtain x xs where h: "computeHash E key = x # xs" "length xs = 63"
    using hash_cons [OF E, of key] by metis
  have "link_path E xs [x] m' (x # xs) = m' (x # xs)" for m'
    using link_path_frame_length [OF E] h(2) by simp
  then show ?thesis
    using hash_not_root [of E key]
    by (simp add: inserted_def insert_kv_eq [OF E] h(1) add_child_frame [OF E])
qed

text \<open>Reading any key after an insertion; a value stops at its first comma.\<close>

lemma getValue_inserted:
  assumes E: "lawful E"
  shows "getValue E (inserted E key v m) key' =
    (if computeHash E key' = computeHash E key then takeWhile (\<lambda>x. x \<noteq> CHR '','') v
     else getValue E m key')"
proof (cases "computeHash E key' = computeHash E key")
  case True
  then show ?thesis
    by (simp add: getValue_def getNode_def inserted_leaf [OF E] deserialize_value)
next
  case False
  have "\<not> prefix_key (computeHash E key')"
    using hash_length [OF E, of key'] by (simp add: prefix_key_def)
  then have "inserted E key v m (computeHash E key') = m (computeHash E key')"
    using inserted_frame [OF E] False hash_not_root by blast
  with False show ?thesis by (simp add: getValue_def getNode_def)
qed

lemma leaf_tree_ok:
  assumes E: "lawful E" and m: "tree_ok m"
  shows "tree_ok (m(computeHash E key \<mapsto> d))"
proof -
  let ?m = "m(computeHash E key \<mapsto> d)"
  have np: "\<not> prefix_key (computeHash E key)"
    using hash_length [OF E, of key] by (simp add: prefix_key_def)
  have other: "?m k = m k \<and> getNode ?m k = getNode m k" if "k \<noteq> computeHash E key" for k
    using that by (simp add: getNode_def)
  have "root_ok ?m"
    using m other [OF hash_not_root [symmetric]] by (simp add: tree_ok_def root_ok_def)
  moreover have "inner_ok ?m p" if "prefix_key p" "?m p \<noteq> None" for p
  proof -
    have "p \<noteq> computeHash E key" using np that by blast
    then show ?thesis using other [of p] that m by (simp add: tree_ok_def inner_ok_def)
  qed
  ultimately show ?thesis by (simp add: tree_ok_def)
qed

lemma inserted_tree_ok:
  assumes E: "lawful E" and m: "tree_ok m"
  shows "tree_ok (inserted E key v m)"
proof -
  obtain x xs where h: "computeHash E key = x # xs" "length xs = 63" "is_hex x"
      "list_all is_hex xs" "prefix_key [x]"
    using hash_cons [OF E] by metis
  let ?m = "m(computeHash E key \<mapsto> serializeNode \<lparr>nvalue = v, nhash = computeHash E v, nchildren = []\<rparr>)"
  have "tree_ok ?m" by (rule leaf_tree_ok [OF E m])
  then have "tree_ok (add_child E ?m root_key [x])"
    by (rule add_child_root [OF E _ h(3)])
  then have "tree_ok (link_path E xs [x] (add_child E ?m root_key [x]))"
    using link_path_tree [OF E _ h(5,4)] h(2) by simp
  then show ?thesis by (simp add: inserted_def insert_kv_eq [OF E] h(1))
qed

end
