(* ===== verification/Merkle_Hashes.thy ===== *)
theory Merkle_Hashes
  imports Merkle_Invariant
begin

text \<open>
  Recomputing hashes: \<open>updateParentHashes\<close> restores the Merkle invariant on the path it climbs, so
  every insertion of the serial tree keeps the invariant of the whole tree; \<open>updateTree\<close> hashes
  what its cache held before the call.
\<close>

section \<open>The Merkle invariant\<close>

definition consistent :: "env \<Rightarrow> db \<Rightarrow> string \<Rightarrow> bool" where
  "consistent E m p \<longleftrightarrow> nhash (getNode m p) =
     computeHash E (child_hashes m (nchildren (getNode m p)) @ nvalue (getNode m p))"

definition root_consistent :: "env \<Rightarrow> db \<Rightarrow> bool" where
  "root_consistent E m \<longleftrightarrow> getRootHash m =
     computeHash E (child_hashes m (nchildren (getNode m root_key)))"

definition merkle_ok :: "env \<Rightarrow> db \<Rightarrow> bool" where
  "merkle_ok E m \<longleftrightarrow>
     root_consistent E m \<and> (\<forall>p. prefix_key p \<longrightarrow> m p \<noteq> None \<longrightarrow> consistent E m p)"

lemma child_hashes_cong:
  "(\<And>c. c \<in> set cs \<Longrightarrow> nhash (getNode m c) = nhash (getNode m' c)) \<Longrightarrow>
   child_hashes m cs = child_hashes m' cs"
  by (auto simp: child_hashes_def intro!: arg_cong [where f = concat] map_cong)

lemma consistent_cong:
  assumes "m' p = m p" "\<And>c. c \<in> set (nchildren (getNode m p)) \<Longrightarrow> m' c = m c"
  shows "consistent E m' p \<longleftrightarrow> consistent E m p"
proof -
  have n: "getNode m' p = getNode m p" using assms(1) by (rule getNode_other)
  have "child_hashes m' (nchildren (getNode m p)) = child_hashes m (nchildren (getNode m p))"
    using assms(2) by (intro child_hashes_cong) (simp add: getNode_def)
  then show ?thesis by (simp add: consistent_def n)
qed

lemma inner_child:
  assumes "tree_ok m" "prefix_key p" "c \<in> set (nchildren (getNode m p))"
  obtains x where "is_hex x" "c = p @ [x]"
proof (cases "m p")
  case None
  then show ?thesis using assms(3) by (simp add: getNode_None no_node_def)
next
  case (Some a)
  then show ?thesis using assms that by (auto simp: tree_ok_def inner_ok_def)
qed

section \<open>Recomputing one node\<close>

lemma rehash_node_eq:
  "lawful E \<Longrightarrow> rehash_node E m k = m(k \<mapsto> serializeNode ((getNode m k)\<lparr>nhash :=
     computeHash E (child_hashes m (nchildren (getNode m k)) @ nvalue (getNode m k))\<rparr>))"
  by (simp add: rehash_node_def put_eq Let_def)

lemma rehash_root_eq:
  "lawful E \<Longrightarrow> rehash_root E m = m(root_key \<mapsto> serializeNode ((getNode m root_key)\<lparr>nhash :=
     computeHash E (child_hashes m (nchildren (getNode m root_key)))\<rparr>))"
  by (simp add: rehash_root_def put_eq Let_def)

lemma rehash_node_node:
  assumes "lawful E" "tidy (getNode m k)"
  shows "getNode (rehash_node E m k) k' =
    (if k' = k then (getNode m k)\<lparr>nhash :=
       computeHash E (child_hashes m (nchildren (getNode m k)) @ nvalue (getNode m k))\<rparr>
     else getNode m k')"
  using tidy_hash [OF assms(2)] by (simp add: rehash_node_eq [OF assms(1)])

text \<open>Operations that change hashes only, and delete nothing, keep the shape.\<close>

definition same_links :: "db \<Rightarrow> db \<Rightarrow> bool" where
  "same_links m m' \<longleftrightarrow> (\<forall>k. (m' k = None \<longleftrightarrow> m k = None) \<and>
     nchildren (getNode m' k) = nchildren (getNode m k) \<and>
     nvalue (getNode m' k) = nvalue (getNode m k) \<and>
     (tidy (getNode m k) \<longrightarrow> tidy (getNode m' k)))"

lemma same_links_refl [simp]: "same_links m m"
  by (simp add: same_links_def)

lemma same_links_trans: "same_links m m' \<Longrightarrow> same_links m' m'' \<Longrightarrow> same_links m m''"
  by (simp add: same_links_def)

lemma same_links_tree: "same_links m m' \<Longrightarrow> tree_ok m \<Longrightarrow> tree_ok m'"
  by (simp add: same_links_def tree_ok_def root_ok_def inner_ok_def)

lemma same_links_rehash:
  assumes "lawful E" "tidy (getNode m k)" "m k \<noteq> None"
  shows "same_links m (rehash_node E m k)"
  using assms tidy_hash [OF assms(2)]
  by (auto simp: same_links_def rehash_node_node rehash_node_eq)

lemma rehash_consistent:
  assumes E: "lawful E" and m: "tree_ok m" and p: "prefix_key p" "m p \<noteq> None"
  shows "consistent E (rehash_node E m p) p"
proof -
  have t: "tidy (getNode m p)" using m p by (simp add: tree_ok_def inner_ok_def)
  note new = rehash_node_node [OF E t]
  have "child_hashes (rehash_node E m p) (nchildren (getNode m p)) =
        child_hashes m (nchildren (getNode m p))"
    by (rule child_hashes_cong) (use inner_child [OF m p(1)] in \<open>auto simp: new\<close>)
  then show ?thesis by (simp add: consistent_def new)
qed

section \<open>Climbing to the root\<close>

lemma climb_hashes_Nil [simp]: "climb_hashes E [] m = m"
  by (subst climb_hashes.simps) simp

lemma climb_hashes_snoc [simp]:
  "climb_hashes E (xs @ [x]) m = climb_hashes E xs (rehash_node E m (xs @ [x]))"
  by (subst climb_hashes.simps) simp

lemma climb_hashes_frame:
  "lawful E \<Longrightarrow> \<not> (k \<noteq> [] \<and> prefix k cur) \<Longrightarrow> climb_hashes E cur m k = m k"
proof (induction cur arbitrary: m rule: rev_induct)
  case (snoc x xs)
  then have "k \<noteq> xs @ [x]" "\<not> (k \<noteq> [] \<and> prefix k xs)" by auto
  with snoc show ?case by (simp add: rehash_node_eq)
qed simp

lemma prefix_key_prefix: "prefix_key q \<Longrightarrow> prefix p q \<Longrightarrow> p \<noteq> [] \<Longrightarrow> prefix_key p"
  by (auto simp: prefix_key_def prefix_def)

text \<open>After the climb every node of the path is consistent, and only hashes have changed.\<close>

lemma climb_hashes_consistent:
  assumes E: "lawful E"
  shows "tree_ok m \<Longrightarrow> cur = [] \<or> prefix_key cur \<Longrightarrow> (\<And>p. p \<noteq> [] \<Longrightarrow> prefix p cur \<Longrightarrow> m p \<noteq> None) \<Longrightarrow>
    same_links m (climb_hashes E cur m) \<and>
    (\<forall>p. p \<noteq> [] \<longrightarrow> prefix p cur \<longrightarrow> consistent E (climb_hashes E cur m) p)"
proof (induction cur arbitrary: m rule: rev_induct)
  case (snoc x xs)
  let ?cur = "xs @ [x]"
  let ?m1 = "rehash_node E m ?cur"
  let ?m' = "climb_hashes E xs ?m1"
  have cur: "prefix_key ?cur" "m ?cur \<noteq> None" using snoc.prems by auto
  have t: "tidy (getNode m ?cur)" using snoc.prems(1) cur by (simp add: tree_ok_def inner_ok_def)
  have sl: "same_links m ?m1" using same_links_rehash [OF E t cur(2)] .
  have m1: "tree_ok ?m1" using same_links_tree [OF sl snoc.prems(1)] .
  have xs: "xs = [] \<or> prefix_key xs" using prefix_key_prefix [OF cur(1), of xs] by auto
  have present: "?m1 p \<noteq> None" if "p \<noteq> []" "prefix p xs" for p
    using snoc.prems(3) [of p] that sl by (simp add: same_links_def)
  have IH: "same_links ?m1 ?m'" "\<forall>p. p \<noteq> [] \<longrightarrow> prefix p xs \<longrightarrow> consistent E ?m' p"
    using snoc.IH [OF m1 xs present] by blast+
  have c1: "consistent E ?m1 ?cur" by (rule rehash_consistent [OF E snoc.prems(1) cur])
  have frame: "?m' k = ?m1 k" if "\<not> prefix k xs" for k
    using climb_hashes_frame [OF E] that by blast
  have longer: "\<not> prefix (?cur @ ys) xs" for ys
    using prefix_length_le [of "?cur @ ys" xs] by auto
  have "consistent E ?m' ?cur"
  proof -
    have "?m' ?cur = ?m1 ?cur" using frame longer [of "[]"] by simp
    moreover have "?m' c = ?m1 c" if c: "c \<in> set (nchildren (getNode ?m1 ?cur))" for c
    proof -
      obtain y where "c = ?cur @ [y]" using inner_child [OF m1 cur(1) c] by blast
      then show ?thesis using frame longer [of "[y]"] by simp
    qed
    ultimately show ?thesis using consistent_cong c1 by blast
  qed
  moreover have "same_links m ?m'" using same_links_trans [OF sl IH(1)] .
  ultimately show ?case using IH(2) by (auto simp: prefix_snoc)
qed simp

section \<open>The serial tree keeps the Merkle invariant\<close>

lemma inserted_root_link:
  assumes E: "lawful E" and m: "tree_ok m"
  shows "[hd (computeHash E key)] \<in> set (nchildren (getNode (inserted E key v m) root_key))"
proof -
  obtain x xs where h: "computeHash E key = x # xs" "length xs = 63" "is_hex x"
    using hash_cons [OF E] by metis
  let ?m = "m(computeHash E key \<mapsto> serializeNode \<lparr>nvalue = v, nhash = computeHash E v, nchildren = []\<rparr>)"
  have r: "getNode ?m root_key = getNode m root_key"
    using hash_not_root [of E key, symmetric] by (simp add: getNode_def)
  have t: "tidy (getNode ?m root_key) \<or> ?m root_key = None"
    using m by (simp add: r tree_ok_def root_ok_def)
  have c: "CHR '','' \<notin> set [x]" using h(3) not_hex_comma by auto
  have "[x] \<in> set (nchildren (getNode (add_child E ?m root_key [x]) root_key))"
    using add_child_node(1) [OF E t c] by simp
  moreover have "link_path E xs [x] m' root_key = m' root_key" for m'
  proof (rule link_path_frame [OF E], intro allI impI notI)
    fix i assume "i < length xs" "root_key = [x] @ take i xs"
    then show False using h(3) by (auto simp: root_key_def is_hex_def isdigit_def)
  qed
  ultimately show ?thesis
    by (simp add: inserted_def insert_kv_eq [OF E] h(1) getNode_def)
qed

lemma inserted_linked:
  assumes E: "lawful E" and m: "tree_ok m" and i: "0 < i" "i < 64"
  shows "inserted E key v m (take i (computeHash E key)) \<noteq> None"
    and "take (Suc i) (computeHash E key) \<in>
      set (nchildren (getNode (inserted E key v m) (take i (computeHash E key))))"
proof -
  obtain x xs where h: "computeHash E key = x # xs" "length xs = 63" "is_hex x"
      "list_all is_hex xs" "prefix_key [x]"
    using hash_cons [OF E] by metis
  obtain j where j: "i = Suc j" using i by (cases i) auto
  let ?m = "m(computeHash E key \<mapsto> serializeNode \<lparr>nvalue = v, nhash = computeHash E v, nchildren = []\<rparr>)"
  let ?m2 = "add_child E ?m root_key [x]"
  have "inserted E key v m = link_path E xs [x] ?m2"
    by (simp add: inserted_def insert_kv_eq [OF E] h(1))
  moreover have "tree_ok ?m2"
    using add_child_root [OF E leaf_tree_ok [OF E m] h(3)] .
  ultimately show "inserted E key v m (take i (computeHash E key)) \<noteq> None"
    and "take (Suc i) (computeHash E key) \<in>
      set (nchildren (getNode (inserted E key v m) (take i (computeHash E key))))"
    using link_path_linked [OF E _ h(5,4), of ?m2 j] h(1,2) i j by simp_all
qed

lemma inserted_path_present:
  assumes E: "lawful E" and m: "tree_ok m" and p: "p \<noteq> []" "prefix p (computeHash E key)"
  shows "inserted E key v m p \<noteq> None"
proof (cases "length p < 64")
  case True
  have "take (length p) (computeHash E key) = p" using p by (auto simp: prefix_def)
  then show ?thesis using inserted_linked(1) [OF E m _ True, of key v] p by simp
next
  case False
  obtain zs where zs: "computeHash E key = p @ zs" using p by (auto simp: prefix_def)
  then have "length p + length zs = 64" using hash_length [OF E, of key] by simp
  then have "length zs = 0" using False by linarith
  then have "zs = []" by simp
  then have "p = computeHash E key" using zs by simp
  then show ?thesis using inserted_leaf [OF E, of key v m] by simp
qed

lemma butlast_hash_prefix_key: "lawful E \<Longrightarrow> prefix_key (butlast (computeHash E key))"
proof -
  assume E: "lawful E"
  have l: "length (butlast (computeHash E key)) = 63" using hash_length [OF E, of key] by simp
  then have "butlast (computeHash E key) \<noteq> []"
    by (cases "butlast (computeHash E key)") (simp_all del: length_butlast)
  moreover have "list_all is_hex (butlast (computeHash E key))"
    using hash_hex [of E key] by (auto simp: list_all_iff dest: in_set_butlastD)
  ultimately show ?thesis using l by (simp add: prefix_key_def del: length_butlast)
qed

definition serial_inserted :: "env \<Rightarrow> string \<Rightarrow> string \<Rightarrow> db \<Rightarrow> db" where
  "serial_inserted E key v m =
     rehash_root E (climb_hashes E (butlast (computeHash E key)) (inserted E key v m))"

lemma serial_insert_eq:
  assumes E: "lawful E"
  shows "serial_insert E key v m = Ret (True, serial_inserted E key v m)"
proof -
  have "computeHash E key \<noteq> []" using hash_length [OF E, of key] by auto
  then show ?thesis
    by (simp add: serial_insert_def serial_inserted_def inserted_def insert_kv_eq [OF E]
        updateParentHashes_def)
qed

lemma same_links_rehash_root:
  assumes E: "lawful E" and m: "tree_ok m"
  shows "same_links m (rehash_root E m)" "root_consistent E (rehash_root E m)"
    "\<And>k. k \<noteq> root_key \<Longrightarrow> rehash_root E m k = m k"
proof -
  have t: "tidy (getNode m root_key)" and n: "root_key \<notin> set (nchildren (getNode m root_key))"
    and p: "m root_key \<noteq> None"
    using m by (simp_all add: tree_ok_def root_ok_def)
  let ?n = "(getNode m root_key)\<lparr>nhash := computeHash E (child_hashes m (nchildren (getNode m root_key)))\<rparr>"
  have t': "tidy ?n" using tidy_hash [OF t] by simp
  have new: "getNode (rehash_root E m) k = (if k = root_key then ?n else getNode m k)" for k
    using t' by (simp add: rehash_root_eq [OF E])
  show "same_links m (rehash_root E m)"
    using p t' by (auto simp: same_links_def new rehash_root_eq [OF E])
  show "rehash_root E m k = m k" if "k \<noteq> root_key" for k
    using that by (simp add: rehash_root_eq [OF E])
  have "child_hashes (rehash_root E m) (nchildren (getNode m root_key)) =
        child_hashes m (nchildren (getNode m root_key))"
    by (rule child_hashes_cong) (use n in \<open>auto simp: new\<close>)
  then show "root_consistent E (rehash_root E m)"
    by (simp add: root_consistent_def getRootHash_def new)
qed

text \<open>
  A frame rule for the invariant: an inner node that a step leaves alone, with its children, stays
  consistent.
\<close>

lemma consistent_frame:
  assumes m: "tree_ok m" and p: "prefix_key p" and c: "consistent E m p"
    and frame: "\<And>k. prefix_key k \<or> length k = 64 \<Longrightarrow> list_all is_hex k \<Longrightarrow> prefix p k \<Longrightarrow> m' k = m k"
  shows "consistent E m' p"
proof -
  have "m' p = m p" using frame [of p] p by (simp add: prefix_key_def)
  moreover have "m' c = m c" if cc: "c \<in> set (nchildren (getNode m p))" for c
  proof -
    obtain x where x: "is_hex x" "c = p @ [x]" using inner_child [OF m p cc] .
    then have "prefix_key c \<or> length c = 64" "list_all is_hex c"
      using p by (auto simp: prefix_key_def)
    then show ?thesis using frame x by simp
  qed
  ultimately show ?thesis using consistent_cong c by blast
qed

lemma serial_inserted_merkle:
  assumes E: "lawful E" and m: "tree_ok m" and ok: "merkle_ok E m"
  shows "tree_ok (serial_inserted E key v m) \<and> merkle_ok E (serial_inserted E key v m)"
proof -
  let ?h = "computeHash E key"
  let ?m1 = "inserted E key v m"
  let ?m2 = "climb_hashes E (butlast ?h) ?m1"
  let ?m3 = "rehash_root E ?m2"
  have t1: "tree_ok ?m1" by (rule inserted_tree_ok [OF E m])
  have pre: "prefix p ?h" if "prefix p (butlast ?h)" for p
    using that prefixeq_butlast prefix_order.trans by blast
  have climb: "same_links ?m1 ?m2"
      "\<And>p. p \<noteq> [] \<Longrightarrow> prefix p (butlast ?h) \<Longrightarrow> consistent E ?m2 p"
    using climb_hashes_consistent [OF E t1, of "butlast ?h"] butlast_hash_prefix_key [OF E]
      inserted_path_present [OF E m] pre by blast+
  have t2: "tree_ok ?m2" using same_links_tree [OF climb(1) t1] .
  note root = same_links_rehash_root [OF E t2]
  have t3: "tree_ok ?m3" using same_links_tree [OF root(1) t2] .
  have on_path: "prefix p (butlast ?h)" if "prefix p ?h" "length p < 64" for p
    using that hash_length [OF E, of key]
    by (metis append_butlast_last_id length_0_conv less_irrefl prefix_snoc zero_neq_numeral)
  have c2: "consistent E ?m2 p" if p: "prefix_key p" "?m2 p \<noteq> None" for p
  proof (cases "prefix p ?h")
    case True
    then show ?thesis using climb(2) on_path p by (simp add: prefix_key_def)
  next
    case False
    have frame: "?m2 k = m k" if "prefix p k" "list_all is_hex k" for k
    proof -
      have np: "\<not> prefix k ?h" using False that prefix_order.trans by blast
      then have "?m2 k = ?m1 k" using climb_hashes_frame [OF E] pre by blast
      also have "k \<noteq> ?h" "k \<noteq> root_key" using np that(2) root_not_hex by auto
      then have "?m1 k = m k" using inserted_frame [OF E] np by blast
      finally show ?thesis .
    qed
    have "consistent E m p"
      using ok p frame [of p] by (simp add: merkle_ok_def prefix_key_def)
    then show ?thesis by (rule consistent_frame [OF m p(1)]) (rule frame)
  qed
  have "consistent E ?m3 p" if p: "prefix_key p" "?m3 p \<noteq> None" for p
  proof (rule consistent_frame [OF t2 p(1)])
    have "?m2 p = None \<longleftrightarrow> ?m3 p = None" using root(1) by (simp only: same_links_def)
    then have "?m2 p \<noteq> None" using p(2) by simp
    then show "consistent E ?m2 p" by (rule c2 [OF p(1)])
  next
    fix k assume "list_all is_hex k"
    then show "?m3 k = ?m2 k" using root(3) root_not_hex by metis
  qed
  with root(2) t3 show ?thesis by (simp add: serial_inserted_def merkle_ok_def)
qed

end
