(* ===== verification/Commit.thy ===== *)
theory Commit
  imports Merkle_Hashes
begin

text \<open>
  Committing a block on a single node: \<open>flushMapToState\<close> of \<open>scheduler/scheduler.h\<close> inserts every
  entry of the block's map into the state and then calls \<open>updateParentHashes\<close> with the key of every
  entry.  The values arrive; the root hash does not see them, because the keys are not hashed first.
\<close>

section \<open>The flush\<close>

text \<open>\<open>entries\<close> is the order in which the iterator visits the map.\<close>

definition flush_inserts :: "env \<Rightarrow> (string \<times> string) list \<Rightarrow> db \<Rightarrow> db" where
  "flush_inserts E entries m = fold (\<lambda>(k, v) m. snd (insert_kv E k v m)) entries m"

definition flushMapToState :: "env \<Rightarrow> (string \<times> string) list \<Rightarrow> db \<Rightarrow> db outcome" where
  "flushMapToState E entries m =
     each (\<lambda>(key, val) m. updateParentHashes E key m) entries (flush_inserts E entries m)"

section \<open>Values arrive\<close>

lemma substr_to_takeWhile:
  "substr_to data pos (find_from data c pos) = takeWhile (\<lambda>x. x \<noteq> c) (drop pos data)"
  by (auto simp: substr_to_def find_from_def takeWhile_eq_take [symmetric] Let_def)

lemma nvalue_no_comma: "CHR '','' \<notin> set (nvalue (deserializeNode data))"
  by (auto simp: deserializeNode_def Let_def substr_to_takeWhile dest: set_takeWhileD)

lemma nvalue_getNode: "CHR '','' \<notin> set (nvalue (getNode m k))"
  by (auto simp: getNode_def no_node_def nvalue_no_comma split: option.split)

lemma nvalue_store_hash:
  "nvalue (deserializeNode (serializeNode ((getNode m k)\<lparr>nhash := computeHash E s\<rparr>))) = nvalue (getNode m k)"
proof -
  obtain v h cs where n: "getNode m k = \<lparr>nvalue = v, nhash = h, nchildren = cs\<rparr>"
    by (metis node.surjective unit.exhaust)
  have v: "CHR '','' \<notin> set v" using nvalue_getNode [of m k] by (simp add: n)
  show ?thesis
    unfolding n node.simps deserialize_value [OF computeHash_no_comma] by (rule takeWhile_neq_id [OF v])
qed

lemma nvalue_rehash_node:
  "lawful E \<Longrightarrow> nvalue (getNode (rehash_node E m k) k') = nvalue (getNode m k')"
  by (cases "k' = k") (simp_all add: rehash_node_eq getNode_def [of "_(_ \<mapsto> _)"] nvalue_store_hash,
      simp add: getNode_def)

lemma nvalue_rehash_root:
  "lawful E \<Longrightarrow> nvalue (getNode (rehash_root E m) k') = nvalue (getNode m k')"
  by (cases "k' = root_key") (simp_all add: rehash_root_eq getNode_def [of "_(_ \<mapsto> _)"] nvalue_store_hash,
      simp add: getNode_def)

lemma nvalue_climb: "lawful E \<Longrightarrow> nvalue (getNode (climb_hashes E cur m) k) = nvalue (getNode m k)"
proof (induction cur arbitrary: m rule: rev_induct)
  case (snoc x xs)
  then show ?case by (simp add: nvalue_rehash_node)
qed simp

definition parents_updated :: "env \<Rightarrow> string \<Rightarrow> db \<Rightarrow> db" where
  "parents_updated E key m = rehash_root E (climb_hashes E (butlast key) m)"

lemma updateParentHashes_eq: "key \<noteq> [] \<Longrightarrow> updateParentHashes E key m = Ret (parents_updated E key m)"
  by (simp add: updateParentHashes_def parents_updated_def)

lemma getValue_parents: "lawful E \<Longrightarrow> getValue E (parents_updated E key m) k = getValue E m k"
  by (simp add: getValue_def parents_updated_def nvalue_rehash_root nvalue_climb)

lemma each_parents:
  "\<forall>(k, v)\<in>set es. k \<noteq> [] \<Longrightarrow>
   each (\<lambda>(key, val). updateParentHashes E key) es d = Ret (fold (\<lambda>(k, v). parents_updated E k) es d)"
  by (induction es arbitrary: d) (auto simp: updateParentHashes_eq)

lemma getValue_parents_fold:
  "lawful E \<Longrightarrow> getValue E (fold (\<lambda>(k, v). parents_updated E k) es d) key = getValue E d key"
  by (induction es arbitrary: d) (auto simp: getValue_parents)

lemma flush_eq:
  assumes "\<forall>(k, v)\<in>set entries. k \<noteq> []"
  shows "flushMapToState E entries m =
    Ret (fold (\<lambda>(k, v). parents_updated E k) entries (flush_inserts E entries m))"
  using each_parents [OF assms] by (simp add: flushMapToState_def)

lemma each_Ret: "each f xs s = Ret r \<Longrightarrow> x \<in> set xs \<Longrightarrow> \<exists>s1 s2. f x s1 = Ret s2"
  by (induction xs arbitrary: s) (auto simp: bind_outcome_Ret_iff)

lemma each_parents_keys:
  "each (\<lambda>(key, val). updateParentHashes E key) es m = Ret m' \<Longrightarrow> (k, v) \<in> set es \<Longrightarrow> k \<noteq> []"
  by (auto simp: updateParentHashes_def dest!: each_Ret)

lemma flush_keys: "flushMapToState E es m = Ret m' \<Longrightarrow> (k, v) \<in> set es \<Longrightarrow> k \<noteq> []"
  unfolding flushMapToState_def by (rule each_parents_keys)

lemma flush_inserts_simps [simp]:
  "flush_inserts E [] m = m"
  "flush_inserts E ((k, v) # es) m = flush_inserts E es (inserted E k v m)"
  by (simp_all add: flush_inserts_def inserted_def)

lemma getValue_flush_inserts:
  assumes E: "lawful E" and d: "distinct (map fst es)" and inj: "inj_on (computeHash E) (insert key (fst ` set es))"
  shows "getValue E (flush_inserts E es m) key =
    (case map_of es key of Some v \<Rightarrow> takeWhile (\<lambda>x. x \<noteq> CHR '','') v | None \<Rightarrow> getValue E m key)"
  using d inj
proof (induction es arbitrary: m)
  case (Cons e es)
  obtain k v where e: "e = (k, v)" by fastforce
  have "inj_on (computeHash E) (insert key (fst ` set es))"
    using Cons.prems(2) by (auto simp: e inj_on_def)
  then have IH: "getValue E (flush_inserts E es (inserted E k v m)) key =
      (case map_of es key of Some v \<Rightarrow> takeWhile (\<lambda>x. x \<noteq> CHR '','') v
       | None \<Rightarrow> getValue E (inserted E k v m) key)"
    using Cons by simp
  have eq: "computeHash E key = computeHash E k \<longleftrightarrow> key = k"
    using Cons.prems(2) by (auto simp: e inj_on_def)
  show ?case
  proof (cases "key = k")
    case True
    then have "map_of es key = None" using Cons.prems(1) by (auto simp: e map_of_eq_None_iff)
    then show ?thesis using IH True by (simp add: e getValue_inserted [OF E])
  next
    case False
    then show ?thesis using IH eq by (simp add: e getValue_inserted [OF E] split: option.split)
  qed
qed simp

lemma getValue_flush:
  assumes E: "lawful E" and d: "distinct (map fst es)" and ne: "\<forall>(k, v)\<in>set es. k \<noteq> []"
    and inj: "inj_on (computeHash E) (insert key (fst ` set es))"
  obtains m' where "flushMapToState E es m = Ret m'"
    "getValue E m' key = (case map_of es key of Some v \<Rightarrow> takeWhile (\<lambda>x. x \<noteq> CHR '','') v
                          | None \<Rightarrow> getValue E m key)"
  by (rule that [OF flush_eq [OF ne]]) (simp add: getValue_parents_fold [OF E] getValue_flush_inserts [OF E d inj])

section \<open>The root hash does not see them\<close>

text \<open>
  \<open>L\<close> is the set of leaf keys a flush writes.  Off the leaves, a node is well formed, and only nodes
  one level above the leaves have leaves as children; the flush recomputes no such node, because
  its keys are shorter.
\<close>

definition off_leaves :: "string set \<Rightarrow> db \<Rightarrow> bool" where
  "off_leaves L m \<longleftrightarrow>
     (\<forall>p. p \<notin> L \<longrightarrow> m p = None \<or> (tidy (getNode m p) \<and>
        (length p = 63 \<or> set (nchildren (getNode m p)) \<inter> L = {})))"

definition same_off :: "string set \<Rightarrow> db \<Rightarrow> db \<Rightarrow> bool" where
  "same_off L m m' \<longleftrightarrow> (\<forall>p. p \<notin> L \<longrightarrow> m' p = m p)"

definition leaf_set :: "env \<Rightarrow> string set \<Rightarrow> bool" where
  "leaf_set E L \<longleftrightarrow> (\<forall>p\<in>L. length p = 64 \<and> list_all is_hex p) \<and> computeHash E [] \<notin> L"

lemma leaf_set_short: "leaf_set E L \<Longrightarrow> length p < 64 \<Longrightarrow> p \<notin> L"
  by (auto simp: leaf_set_def)

lemma leaf_set_root [simp]: "leaf_set E L \<Longrightarrow> root_key \<notin> L"
  using root_not_hex by (auto simp: leaf_set_def)

lemma same_off_node: "same_off L m m' \<Longrightarrow> p \<notin> L \<Longrightarrow> getNode m' p = getNode m p"
  by (rule getNode_other) (simp add: same_off_def)

lemma off_leaves_store:
  assumes "off_leaves L m" "tidy n" "length p = 63 \<or> set (nchildren n) \<inter> L = {}"
  shows "off_leaves L (m(p \<mapsto> serializeNode n))"
  using assms by (auto simp: off_leaves_def getNode_def deserialize_serialize)

lemma same_off_store: "same_off L m m' \<Longrightarrow> same_off L (m(p \<mapsto> d)) (m'(p \<mapsto> d))"
  by (simp add: same_off_def)

lemma add_child_same:
  assumes E: "lawful E" and s: "same_off L m m'" and p: "p \<notin> L"
  shows "same_off L (add_child E m p c) (add_child E m' p c)"
  using same_off_node [OF s p] same_off_store [OF s] s by (simp add: add_child_eq [OF E])

lemma add_child_off:
  assumes E: "lawful E" and L: "leaf_set E L" and o: "off_leaves L m" and p: "p \<notin> L"
    and c: "CHR '','' \<notin> set c" "c \<noteq> []" "length p = 63 \<or> c \<notin> L"
  shows "off_leaves L (add_child E m p c)"
proof (cases "c \<in> set (nchildren (getNode m p))")
  case True
  then show ?thesis using o by (simp add: add_child_eq [OF E])
next
  case False
  let ?n = "(getNode m p)\<lparr>nchildren := nchildren (getNode m p) @ [c]\<rparr>"
  have t: "tidy (getNode m p) \<or> getNode m p = no_node"
    using o p getNode_None by (auto simp: off_leaves_def)
  have "length p = 63 \<or> set (nchildren (getNode m p)) \<inter> L = {}"
    using o p by (cases "m p") (auto simp: off_leaves_def getNode_None no_node_def)
  then have "length p = 63 \<or> set (nchildren ?n) \<inter> L = {}" using c(3) by auto
  then show ?thesis
    using off_leaves_store [OF o tidy_add [OF t c(1,2)]] False by (simp add: add_child_eq [OF E])
qed

lemma link_path_same:
  assumes E: "lawful E" and L: "leaf_set E L"
  shows "same_off L m m' \<Longrightarrow> length cur + length cs \<le> 64 \<Longrightarrow>
    same_off L (link_path E cs cur m) (link_path E cs cur m')"
proof (induction cs arbitrary: cur m m')
  case (Cons c cs)
  have "cur \<notin> L" using Cons.prems(2) by (intro leaf_set_short [OF L]) simp
  then show ?case using Cons add_child_same [OF E Cons.prems(1)] by simp
qed simp

lemma link_path_off:
  assumes E: "lawful E" and L: "leaf_set E L"
  shows "off_leaves L m \<Longrightarrow> length cur + length cs \<le> 64 \<Longrightarrow> CHR '','' \<notin> set cur \<Longrightarrow>
    CHR '','' \<notin> set cs \<Longrightarrow> off_leaves L (link_path E cs cur m)"
proof (induction cs arbitrary: cur m)
  case (Cons c cs)
  have "length cur = 63 \<or> cur @ [c] \<notin> L"
    using Cons.prems(2) leaf_set_short [OF L, of "cur @ [c]"] by (cases "length cur = 63") auto
  then have "off_leaves L (add_child E m cur (cur @ [c]))"
    using Cons.prems leaf_set_short [OF L, of cur] by (intro add_child_off [OF E L]) auto
  then show ?case using Cons by simp
qed simp

lemma inserted_off:
  assumes E: "lawful E" and L: "leaf_set E L" and k: "computeHash E key \<in> L" and o: "off_leaves L m"
  shows "off_leaves L (inserted E key v m)"
    and "same_off L m m' \<Longrightarrow> same_off L (inserted E key v m) (inserted E key v' m')"
proof -
  let ?h = "computeHash E key"
  note h = hash_cons [OF E, of key]
  let ?m1 = "\<lambda>w x. x(?h \<mapsto> serializeNode \<lparr>nvalue = w, nhash = computeHash E w, nchildren = []\<rparr>)"
  have ins: "inserted E key w x =
      link_path E (tl ?h) [hd ?h] (add_child E (?m1 w x) root_key [hd ?h])" for w x
    by (simp add: inserted_def insert_kv_eq [OF E])
  have len: "length [hd ?h] + length (tl ?h) \<le> 64" using hash_length [OF E, of key] by simp
  have hx: "list_all is_hex ?h" by (rule hash_hex)
  then have c: "CHR '','' \<notin> set [hd ?h]" "CHR '','' \<notin> set (tl ?h)"
    using hex_no_comma [OF hx] hash_length [OF E, of key]
    by (cases ?h; simp)+
  have o1: "off_leaves L (?m1 v m)" using o k by (auto simp: off_leaves_def getNode_def)
  have "off_leaves L (add_child E (?m1 v m) root_key [hd ?h])"
    using c(1) leaf_set_short [OF L, of "[hd ?h]"] by (intro add_child_off [OF E L o1]) (simp_all add: leaf_set_root [OF L])
  then show "off_leaves L (inserted E key v m)"
    unfolding ins by (rule link_path_off [OF E L _ len c])
  show "same_off L (inserted E key v m) (inserted E key v' m')" if s: "same_off L m m'"
  proof -
    have "same_off L (?m1 v m) (?m1 v' m')" using s k by (auto simp: same_off_def)
    from add_child_same [OF E this, of root_key "[hd ?h]"]
    have "same_off L (add_child E (?m1 v m) root_key [hd ?h]) (add_child E (?m1 v' m') root_key [hd ?h])"
      by (simp add: leaf_set_root [OF L])
    then show ?thesis unfolding ins by (rule link_path_same [OF E L _ len])
  qed
qed

text \<open>Rehashing a short key reads and writes off the leaves only.\<close>

lemma child_hashes_same:
  assumes "same_off L m m'" "set cs \<inter> L = {}"
  shows "child_hashes m' cs = child_hashes m cs"
  using assms by (intro child_hashes_cong arg_cong [of _ _ nhash] same_off_node) auto

lemma rehash_node_off:
  assumes E: "lawful E" and L: "leaf_set E L" and o: "off_leaves L m" and p: "length p < 63"
  shows "off_leaves L (rehash_node E m p)"
    and "same_off L m m' \<Longrightarrow> same_off L (rehash_node E m p) (rehash_node E m' p)"
proof -
  have pL: "p \<notin> L" using leaf_set_short [OF L] p by simp
  have ch: "set (nchildren (getNode m p)) \<inter> L = {}"
    using o pL p by (cases "m p") (auto simp: off_leaves_def getNode_None no_node_def)
  let ?h = "computeHash E (child_hashes m (nchildren (getNode m p)) @ nvalue (getNode m p))"
  show "off_leaves L (rehash_node E m p)"
  proof (cases "m p")
    case None
    then have n: "getNode m p = no_node" by (rule getNode_None)
    let ?e = "computeHash E []"
    let ?n = "\<lparr>nvalue = [], nhash = ?e, nchildren = [?e]\<rparr>"
    have "serializeNode (no_node\<lparr>nhash := ?e\<rparr>) = ?e @ CHR '','' # []"
      by (simp add: serializeNode_eq no_node_def)
    have r: "rehash_node E m p = m(p \<mapsto> serializeNode \<lparr>nvalue = [], nhash = ?e, nchildren = []\<rparr>)"
      by (simp add: rehash_node_eq [OF E] n) (simp add: no_node_def child_hashes_def)
    have g: "deserializeNode (serializeNode \<lparr>nvalue = [], nhash = ?e, nchildren = []\<rparr>) = ?n"
      using deserialize_leaf [of ?e "[]"] by simp
    have "tidy ?n" using hash_length [OF E, of "[]"] by (auto simp: tidy_def)
    then show ?thesis using o L by (auto simp: off_leaves_def r getNode_def g leaf_set_def)
  next
    case (Some d)
    then have "tidy (getNode m p)" using o pL by (auto simp: off_leaves_def)
    then have "tidy ((getNode m p)\<lparr>nhash := ?h\<rparr>)" by (rule tidy_hash) simp
    then show ?thesis unfolding rehash_node_eq [OF E] by (rule off_leaves_store [OF o]) (simp add: ch)
  qed
  show "same_off L (rehash_node E m p) (rehash_node E m' p)" if s: "same_off L m m'"
    using same_off_node [OF s pL] child_hashes_same [OF s ch] same_off_store [OF s]
    by (simp add: rehash_node_eq [OF E])
qed

lemma rehash_root_off:
  assumes E: "lawful E" and L: "leaf_set E L" and o: "off_leaves L m" and r: "m root_key \<noteq> None"
  shows "off_leaves L (rehash_root E m)"
    and "same_off L m m' \<Longrightarrow> same_off L (rehash_root E m) (rehash_root E m')"
proof -
  have pL: "root_key \<notin> L" by (rule leaf_set_root [OF L])
  have ch: "set (nchildren (getNode m root_key)) \<inter> L = {}" and t: "tidy (getNode m root_key)"
    using o pL r by (auto simp: off_leaves_def root_key_def)
  have "tidy ((getNode m root_key)\<lparr>nhash := computeHash E (child_hashes m (nchildren (getNode m root_key)))\<rparr>)"
    by (rule tidy_hash [OF t]) simp
  then show "off_leaves L (rehash_root E m)"
    unfolding rehash_root_eq [OF E] by (rule off_leaves_store [OF o]) (simp add: ch)
  show "same_off L (rehash_root E m) (rehash_root E m')" if s: "same_off L m m'"
    using same_off_node [OF s pL] child_hashes_same [OF s ch] same_off_store [OF s]
    by (simp add: rehash_root_eq [OF E])
qed

lemma climb_off:
  assumes E: "lawful E" and L: "leaf_set E L"
  shows "off_leaves L m \<Longrightarrow> length cur < 63 \<Longrightarrow>
    off_leaves L (climb_hashes E cur m) \<and>
    (same_off L m m' \<longrightarrow> same_off L (climb_hashes E cur m) (climb_hashes E cur m'))"
proof (induction cur arbitrary: m m' rule: rev_induct)
  case (snoc x xs)
  then show ?case using rehash_node_off [OF E L snoc.prems(1), of "xs @ [x]"] by simp
qed simp

text \<open>Two flushes of the same keys from states that agree off the leaves agree off the leaves.\<close>

definition twin :: "string set \<Rightarrow> db \<Rightarrow> db \<Rightarrow> bool" where
  "twin L m m' \<longleftrightarrow> off_leaves L m \<and> same_off L m m' \<and> m root_key \<noteq> None"

lemma climb_present: "lawful E \<Longrightarrow> m k \<noteq> None \<Longrightarrow> climb_hashes E cur m k \<noteq> None"
proof (induction cur arbitrary: m rule: rev_induct)
  case (snoc x xs)
  then have "rehash_node E m (xs @ [x]) k \<noteq> None" by (simp add: rehash_node_eq)
  then show ?case using snoc by (metis climb_hashes_snoc)
qed simp

lemma inserted_present: "lawful E \<Longrightarrow> m k \<noteq> None \<Longrightarrow> inserted E key v m k \<noteq> None"
  unfolding inserted_def insert_kv_eq snd_conv
  by (rule link_path_present) (auto simp: add_child_eq)

lemma parents_twin:
  assumes E: "lawful E" and L: "leaf_set E L" and t: "twin L m m'" and k: "length key \<le> 63"
  shows "twin L (parents_updated E key m) (parents_updated E key m')"
proof -
  have b: "length (butlast key) < 63" using k by simp
  note c = climb_off [OF E L _ b, of m m']
  have "climb_hashes E (butlast key) m root_key \<noteq> None"
    using t climb_present [OF E, of m root_key] by (simp add: twin_def)
  then show ?thesis
    using c t rehash_root_off [OF E L, of "climb_hashes E (butlast key) m"]
    by (simp add: twin_def parents_updated_def) (simp add: rehash_root_eq [OF E])
qed

lemma inserts_twin:
  assumes E: "lawful E" and L: "leaf_set E L"
  shows "twin L m m' \<Longrightarrow> map fst es = map fst es' \<Longrightarrow> \<forall>k\<in>fst ` set es. computeHash E k \<in> L \<Longrightarrow>
    twin L (flush_inserts E es m) (flush_inserts E es' m')"
proof (induction es arbitrary: es' m m')
  case (Cons e es)
  obtain k v where e: "e = (k, v)" by fastforce
  obtain v' es2 where es': "es' = (k, v') # es2" "map fst es = map fst es2"
    using Cons.prems(2) e by (cases es') auto
  have "twin L (inserted E k v m) (inserted E k v' m')"
    using Cons.prems(1,3) inserted_off [OF E L, of k m] inserted_present [OF E] by (simp add: twin_def e)
  then show ?case using Cons.IH [OF _ es'(2)] Cons.prems(3) by (simp add: e es'(1))
qed simp

lemma flush_twin:
  assumes E: "lawful E" and L: "leaf_set E L" and t: "twin L m m'"
    and ks: "map fst es = map fst es'" "\<forall>k\<in>fst ` set es. computeHash E k \<in> L \<and> k \<noteq> [] \<and> length k \<le> 63"
  shows "\<exists>r r'. flushMapToState E es m = Ret r \<and> flushMapToState E es' m' = Ret r' \<and> twin L r r'"
proof -
  have ks': "\<forall>k\<in>fst ` set es'. k \<noteq> [] \<and> length k \<le> 63" using ks by (metis image_set)
  have up: "twin L (fold (\<lambda>(k, v). parents_updated E k) xs d) (fold (\<lambda>(k, v). parents_updated E k) xs' d')"
    if "twin L d d'" "map fst xs = map fst xs'" "\<forall>k\<in>fst ` set xs. length k \<le> 63"
    for xs xs' :: "(string \<times> string) list" and d d'
    using that
  proof (induction xs arbitrary: xs' d d')
    case (Cons x xs)
    then show ?case
      using parents_twin [OF E L Cons.prems(1), of "fst x"] by (cases xs') (auto split: prod.split)
  qed simp
  have "flushMapToState E es m = Ret (fold (\<lambda>(k, v). parents_updated E k) es (flush_inserts E es m))"
      "flushMapToState E es' m' = Ret (fold (\<lambda>(k, v). parents_updated E k) es' (flush_inserts E es' m'))"
    using ks(2) ks' by (auto intro!: flush_eq)
  moreover have "twin L (flush_inserts E es m) (flush_inserts E es' m')"
    using inserts_twin [OF E L t ks(1)] ks(2) by blast
  ultimately show ?thesis using up ks by blast
qed

lemma twin_root: "leaf_set E L \<Longrightarrow> twin L m m' \<Longrightarrow> getRootHash m' = getRootHash m"
  using same_off_node [of L m m' root_key] by (simp add: twin_def getRootHash_def)

end
