(* ===== verification/Scheduler_Serial.thy ===== *)
theory Scheduler_Serial
  imports Scheduler_Parallel Commit
begin

text \<open>
  The scheduler of the single-node serial tree: \<open>scheduler/scheduler.h\<close> with \<open>dagModule/DAGmodule.h\<close>.
  Its loop may run forever, so it is a partial function into an option: \<open>None\<close> is a run that never
  returns.  It processes the block in order, and its verdict is the verdict of the serial run.
\<close>

section \<open>The loop of \<open>executeTxns\<close>\<close>

record serial_state =
  ss_dag :: dag
  ss_flag :: bool
  ss_map :: kvmap

partial_function (option) executeTxns ::
    "(txn_header \<Rightarrow> transaction \<Rightarrow> (kvmap, bool) op) \<Rightarrow> codec \<Rightarrow> transaction list \<Rightarrow> serial_state \<Rightarrow>
     serial_state outcome option" where
  "executeTxns ex C txns s =
     (if completedTxns (ss_dag s) < int (totalTxns (ss_dag s)) \<and> ss_flag s then
        (case selectTxn_serial (ss_dag s) of
           Ret (None, d) \<Rightarrow> executeTxns ex C txns (s\<lparr>ss_dag := d\<rparr>)
         | Ret (Some i, d) \<Rightarrow>
             if i \<ge> length txns then Some Undef else
             (case parse_header C (t_header (txns ! i)) of
                None \<Rightarrow> executeTxns ex C txns (s\<lparr>ss_dag := d\<rparr>)
              | Some h \<Rightarrow>
                  (case ex h (txns ! i) (ss_map s) of
                     (Ret ok, m') \<Rightarrow>
                       (case complete_txn (int i) d of
                          Ret d' \<Rightarrow> executeTxns ex C txns \<lparr>ss_dag = d', ss_flag = ok, ss_map = m'\<rparr>
                        | Throw e \<Rightarrow> Some (Throw e)
                        | Undef \<Rightarrow> Some Undef
                        | Stuck \<Rightarrow> Some Stuck)
                   | (Throw e, m') \<Rightarrow> Some (Throw e)
                   | (Undef, m') \<Rightarrow> Some Undef
                   | (Stuck, m') \<Rightarrow> Some Stuck))
         | Throw e \<Rightarrow> Some (Throw e)
         | Undef \<Rightarrow> Some Undef
         | Stuck \<Rightarrow> Some Stuck)
      else Some (Ret s))"

text \<open>\<open>extractBlock\<close> and \<open>schedulTxns\<close>; \<open>order\<close> is the order in which the map is iterated.\<close>

definition extractBlock_serial :: "codec \<Rightarrow> block \<Rightarrow> dag \<Rightarrow> (transaction list \<times> dag) outcome" where
  "extractBlock_serial C b d = bind_outcome (create_serial C b d) (\<lambda>d'. Ret (b_transactions b, d'))"

definition map_entries :: "(kvmap \<Rightarrow> string list) \<Rightarrow> kvmap \<Rightarrow> (string \<times> string) list" where
  "map_entries order m = map (\<lambda>k. (k, the (m k))) (order m)"

definition schedulTxns_serial ::
    "env \<Rightarrow> codec \<Rightarrow> image_env \<Rightarrow> (kvmap \<Rightarrow> string list) \<Rightarrow> transaction list \<Rightarrow> dag \<Rightarrow> kvmap \<Rightarrow> db \<Rightarrow>
     (bool \<times> kvmap \<times> db) outcome option" where
  "schedulTxns_serial E C I order txns d m st =
     (case executeTxns (execute_serial C I (getValue E st)) C txns \<lparr>ss_dag = d, ss_flag = True, ss_map = m\<rparr> of
        None \<Rightarrow> None
      | Some r \<Rightarrow> Some (bind_outcome r (\<lambda>s.
          if ss_flag s then
            bind_outcome (flushMapToState E (map_entries order (ss_map s)) st) (\<lambda>st'.
            Ret (True, ss_map s, st'))
          else Ret (False, ss_map s, st))))"

text \<open>\<open>clear\<close> of the parallel scheduler: between two blocks.\<close>

definition clear_sched :: "dag \<Rightarrow> dag \<times> kvmap" where
  "clear_sched d = (dagClean d, Map.empty)"

section \<open>The graph after the first transactions\<close>

definition ready_at :: "(nat \<Rightarrow> nat \<Rightarrow> bool) \<Rightarrow> nat \<Rightarrow> nat \<Rightarrow> dag \<Rightarrow> bool" where
  "ready_at D n k d \<longleftrightarrow> totalTxns d = n \<and> completedTxns d = int k \<and> adjacencyMatrix d = dep_matrix D n \<and>
     (\<exists>deg. inDegree d = Some deg \<and> length deg = n \<and>
        (\<forall>j<n. deg ! j = (if j < k then - 2 else int (card {p. k \<le> p \<and> p < j \<and> D p j}))))"

lemma ready_select:
  assumes r: "ready_at D n k d" and k: "k < n"
  obtains d' deg where "selectTxn_serial d = Ret (Some k, d')" "totalTxns d' = n" "completedTxns d' = int k"
    "adjacencyMatrix d' = dep_matrix D n" "inDegree d' = Some deg" "length deg = n"
    "\<And>j. j < n \<Longrightarrow> deg ! j = (if j < k then - 2 else if j = k then - 1
        else int (card {p. k \<le> p \<and> p < j \<and> D p j}))"
proof -
  obtain deg where deg: "inDegree d = Some deg" "length deg = n"
      "\<And>j. j < n \<Longrightarrow> deg ! j = (if j < k then - 2 else int (card {p. k \<le> p \<and> p < j \<and> D p j}))"
    using r by (auto simp: ready_at_def)
  have z: "deg ! k = 0"
  proof -
    have "{p. k \<le> p \<and> p < k \<and> D p k} = {}" by auto
    then show ?thesis using deg(3) [OF k] by simp
  qed
  have "scan_zero deg [0..<n] = Some k"
    unfolding scan_zero_def find_Some_iff using k z deg(3) by (intro exI [of _ k]) auto
  then have "selectTxn_serial d = Ret (Some k, take_txn k deg d)"
    using r deg(1) by (simp add: selectTxn_serial_def ready_at_def)
  then show thesis
    using that [of "take_txn k deg d" "deg[k := - 1]"] r deg(2,3) k
    by (simp add: take_txn_def ready_at_def nth_list_update)
qed

lemma ready_complete:
  assumes d: "totalTxns d = n" "completedTxns d = int k" "adjacencyMatrix d = dep_matrix D n"
      "inDegree d = Some deg" "length deg = n"
      "\<And>j. j < n \<Longrightarrow> deg ! j = (if j < k then - 2 else if j = k then - 1
          else int (card {p. k \<le> p \<and> p < j \<and> D p j}))"
    and k: "k < n"
  obtains d' where "complete_txn (int k) d = Ret d'" "ready_at D n (Suc k) d'"
proof -
  let ?deg = "deg[k := deg ! k + - 1]"
  let ?d = "d\<lparr>inDegree := Some ?deg, completedTxns := completedTxns d + 1\<rparr>"
  obtain deg' where r: "each (release k) [Suc k..<n] ?d = Ret (?d\<lparr>inDegree := Some deg'\<rparr>)" "length deg' = n"
      "\<forall>j<n. deg' ! j = ?deg ! j - (if j \<in> set [Suc k..<n] \<and> D k j then 1 else 0)"
    using release_each [of ?d D n ?deg k "[Suc k..<n]"] d k by auto
  have c: "complete_txn (int k) d = Ret (?d\<lparr>inDegree := Some deg'\<rparr>)"
    using d k r(1) by (simp add: complete_txn_def fetch_add_def)
  have "deg' ! j = (if j < Suc k then - 2 else int (card {p. Suc k \<le> p \<and> p < j \<and> D p j}))" if j: "j < n" for j
  proof (cases "j \<le> k")
    case True
    then show ?thesis using r(3) d(5,6) j k by (auto simp: nth_list_update)
  next
    case False
    have split: "{p. k \<le> p \<and> p < j \<and> D p j} =
        (if D k j then insert k {p. Suc k \<le> p \<and> p < j \<and> D p j} else {p. Suc k \<le> p \<and> p < j \<and> D p j})"
      using False by (auto simp: Suc_le_eq le_less)
    have "card {p. k \<le> p \<and> p < j \<and> D p j} =
        card {p. Suc k \<le> p \<and> p < j \<and> D p j} + (if D k j then 1 else 0)"
      unfolding split by simp
    then show ?thesis using r(3) d(5,6) j False by (simp add: nth_list_update)
  qed
  then have "ready_at D n (Suc k) (?d\<lparr>inDegree := Some deg'\<rparr>)"
    using d r(2) by (simp add: ready_at_def)
  with c show thesis by (rule that)
qed

lemma ready_built:
  assumes "completedTxns d = 0"
  shows "ready_at (dep_rel (extract_all C (b_transactions b) 0)) (length (b_transactions b)) 0 (built C b d)"
proof -
  have "int (length (filter (\<lambda>i. i < j \<and> P i j) [0..<n])) = int (card {p. p < j \<and> P p j})"
    if "j < n" for P :: "nat \<Rightarrow> nat \<Rightarrow> bool" and j n
  proof -
    have "{p. p < j \<and> P p j} = set (filter (\<lambda>i. i < j \<and> P i j) [0..<n])" using that by auto
    moreover have "distinct (filter (\<lambda>i. i < j \<and> P i j) [0..<n])" by simp
    ultimately show ?thesis by (simp only: distinct_card)
  qed
  then show ?thesis using assms by (simp add: ready_at_def built_def Let_def in_degrees_def)
qed

section \<open>The loop processes the block in order\<close>

text \<open>
  From the graph in which the first \<open>k\<close> transactions are complete, the loop runs the others one
  after another up to the first that does not succeed.
\<close>

lemma executeTxns_runs:
  assumes h: "\<forall>t\<in>set txns. parse_header C (t_header t) \<noteq> None" and n: "n = length txns"
  shows "ready_at D n k d \<Longrightarrow> k \<le> n \<Longrightarrow>
    serial_run (block_run ex C txns) [k..<n] m = (Ret ok, m') \<Longrightarrow>
    \<exists>s'. executeTxns ex C txns \<lparr>ss_dag = d, ss_flag = True, ss_map = m\<rparr> = Some (Ret s') \<and>
      ss_flag s' = ok \<and> ss_map s' = m'"
proof (induction "n - k" arbitrary: k d m)
  case 0
  then have "\<not> completedTxns d < int (totalTxns d)" by (simp add: ready_at_def)
  then show ?case using 0 by (subst executeTxns.simps) simp
next
  case (Suc l)
  then have k: "k < n" by simp
  then have go: "completedTxns d < int (totalTxns d)" using Suc.prems(1) by (simp add: ready_at_def)
  obtain d1 deg where d1: "selectTxn_serial d = Ret (Some k, d1)" "totalTxns d1 = n" "completedTxns d1 = int k"
      "adjacencyMatrix d1 = dep_matrix D n" "inDegree d1 = Some deg" "length deg = n"
      "\<And>j. j < n \<Longrightarrow> deg ! j = (if j < k then - 2 else if j = k then - 1
        else int (card {p. k \<le> p \<and> p < j \<and> D p j}))"
    using ready_select [OF Suc.prems(1) k] by blast
  obtain d2 where d2: "complete_txn (int k) d1 = Ret d2" "ready_at D n (Suc k) d2"
    using ready_complete [OF d1(2-7) k] .
  obtain hd where hd: "parse_header C (t_header (txns ! k)) = Some hd" using h k n by fastforce
  have run: "block_run ex C txns k = ex hd (txns ! k)" using k n hd by (simp add: block_run_def)
  have upt: "[k..<n] = k # [Suc k..<n]" using k by (simp add: upt_conv_Cons)
  obtain b m1 where r: "ex hd (txns ! k) m = (Ret b, m1)"
      "(if b then serial_run (block_run ex C txns) [Suc k..<n] m1 else (Ret False, m1)) = (Ret ok, m')"
    using Suc.prems(3) unfolding upt
    by (auto simp: and_then_Ret_iff run split: if_splits)
  have step: "executeTxns ex C txns \<lparr>ss_dag = d, ss_flag = True, ss_map = m\<rparr> =
      executeTxns ex C txns \<lparr>ss_dag = d2, ss_flag = b, ss_map = m1\<rparr>"
    using go k n by (subst executeTxns.simps) (simp add: d1(1) hd r(1) d2(1))
  show ?case
  proof (cases b)
    case True
    then show ?thesis unfolding step using Suc.hyps(1) [OF _ d2(2)] Suc.hyps(2) k r(2) by simp
  next
    case False
    then show ?thesis unfolding step using r(2) by (subst executeTxns.simps) simp
  qed
qed

text \<open>
  A transaction whose header does not parse is selected and then dropped without being completed:
  once no in-degree is zero any more, the loop goes round for ever.
\<close>

definition spinning :: "serial_state \<Rightarrow> bool" where
  "spinning s \<longleftrightarrow> ss_flag s \<and> completedTxns (ss_dag s) < int (totalTxns (ss_dag s)) \<and>
     (\<exists>deg. inDegree (ss_dag s) = Some deg \<and> (\<forall>i<totalTxns (ss_dag s). deg ! i \<noteq> 0))"

lemma spinning_select: "spinning s \<Longrightarrow> selectTxn_serial (ss_dag s) = Ret (None, ss_dag s)"
proof -
  assume "spinning s"
  then obtain deg where d: "inDegree (ss_dag s) = Some deg" "\<forall>i<totalTxns (ss_dag s). deg ! i \<noteq> 0"
    by (auto simp: spinning_def)
  then have "scan_zero deg [0..<totalTxns (ss_dag s)] = None" by (simp add: scan_zero_None)
  then show ?thesis by (simp add: selectTxn_serial_def d(1))
qed

lemma executeTxns_returns_not_spinning: "executeTxns ex C txns s = Some r \<Longrightarrow> \<not> spinning s"
proof (induction rule: executeTxns.raw_induct [rotated, consumes 1, case_names 1])
  case (1 f ex C txns s r)
  show ?case
  proof
    assume sp: "spinning s"
    then have "completedTxns (ss_dag s) < int (totalTxns (ss_dag s)) \<and> ss_flag s" by (simp add: spinning_def)
    then have "f ex C txns s = Some r" using 1(2) by (simp add: spinning_select [OF sp])
    then show False using 1(1) sp by blast
  qed
qed

lemma executeTxns_spins: "spinning s \<Longrightarrow> executeTxns ex C txns s = None"
  using executeTxns_returns_not_spinning [of ex C txns s] by (cases "executeTxns ex C txns s") auto

end
