(* ===== verification/Scheduler_Progress.thy ===== *)
theory Scheduler_Progress
  imports Scheduler_Parallel
begin

text \<open>
  Progress of the parallel scheduler.  A measure on its states shows that from every reachable state
  the threads can be run on until all of them have left the loop, provided every header parses and
  the handlers return; and a transaction whose header does not parse keeps every thread in the loop
  for as long as no transaction fails.
\<close>

section \<open>Threads\<close>

lemma sched_reach_trans: "sched_reach J s' s'' \<Longrightarrow> sched_reach J s s' \<Longrightarrow> sched_reach J s s''"
  by (induction rule: sched_reach.induct) (auto intro: sched_reach.step)

lemma sched_reach_step1: "sched_step J s s' \<Longrightarrow> sched_reach J s s'"
  by (rule sched_reach.step [OF sched_reach.refl])

lemma others_stopped:
  "sched_reach J s s' \<Longrightarrow> s = sched_start J thCount m \<Longrightarrow> thCount \<le> t \<Longrightarrow> sc_phase s' t = Stopped"
proof (induction rule: sched_reach.induct)
  case (step s s' s'')
  then have "sc_phase s' t = Stopped" by simp
  with step(2) show ?case by cases auto
qed (simp add: sched_start_def)

lemma logged_parse:
  "sched_reach J s s' \<Longrightarrow> s = sched_start J thCount m \<Longrightarrow> i \<in> set (sc_log s') \<Longrightarrow> j_parses J i"
proof (induction rule: sched_reach.induct)
  case (step s s' s'')
  from step(2) show ?case using step by cases auto
qed (simp add: sched_start_def)

section \<open>A transaction whose header does not parse\<close>

lemma bad_header_holds:
  assumes s: "sched_reach J (sched_start J thCount m) s" and i: "i < j_txns J" "\<not> j_parses J i"
    and t: "t < thCount" "sc_phase s t = Stopped"
  shows "\<not> sc_flag s"
proof
  assume flag: "sc_flag s"
  have inv: "sched_inv J thCount m s" by (rule sched_inv_reach [OF s]) simp
  then have "int (j_txns J) \<le> sc_completed s"
    using t flag by (auto simp: sched_inv_def stop_ok_def)
  moreover have "sc_completed s \<le> int (card (set (sc_log s)))"
    using inv by (simp add: sched_inv_def count_ok_def card_mono)
  moreover have "i \<notin> set (sc_log s)" using logged_parse [OF s HOL.refl] i by blast
  then have "set (sc_log s) \<subseteq> {0..<j_txns J} - {i}"
    using inv by (auto simp: sched_inv_def log_ok_def)
  then have "card (set (sc_log s)) \<le> card ({0..<j_txns J} - {i})" by (intro card_mono) auto
  ultimately show False using i by simp
qed

section \<open>The measure\<close>

definition phase_cost :: "nat \<Rightarrow> phase \<Rightarrow> nat" where
  "phase_cost n p =
     (case p of
        AtLoop \<Rightarrow> 2 | Scanning \<Rightarrow> 1 | Chosen i \<Rightarrow> n + 5 | Executed i \<Rightarrow> n + 4
      | Releasing i k \<Rightarrow> 3 + (n - k) | Stopped \<Rightarrow> 0)"

definition unclaimed :: "job \<Rightarrow> sched \<Rightarrow> nat set" where
  "unclaimed J s = {k. k < j_txns J \<and> 0 \<le> sc_deg s ! k}"

definition work_left :: "job \<Rightarrow> nat \<Rightarrow> sched \<Rightarrow> nat" where
  "work_left J thCount s =
     (j_txns J + 6) * card (unclaimed J s) + (\<Sum>t<thCount. phase_cost (j_txns J) (sc_phase s t))"

lemma finite_unclaimed [simp]: "finite (unclaimed J s)"
  by (simp add: unclaimed_def)

lemma cost_upd:
  fixes t thCount :: nat
  assumes "t < thCount"
  shows "(\<Sum>u<thCount. phase_cost n ((f(t := q)) u)) + phase_cost n (f t) =
    (\<Sum>u<thCount. phase_cost n (f u)) + phase_cost n q"
proof -
  have "(\<Sum>u\<in>{..<thCount} - {t}. phase_cost n ((f(t := q)) u)) = (\<Sum>u\<in>{..<thCount} - {t}. phase_cost n (f u))"
    by (intro sum.cong) auto
  then have "(\<Sum>u<thCount. phase_cost n ((f(t := q)) u)) =
      phase_cost n q + (\<Sum>u\<in>{..<thCount} - {t}. phase_cost n (f u))"
    using sum.remove [of "{..<thCount}" t "\<lambda>u. phase_cost n ((f(t := q)) u)", OF finite_lessThan] assms by simp
  moreover have "(\<Sum>u<thCount. phase_cost n (f u)) = phase_cost n (f t) + (\<Sum>u\<in>{..<thCount} - {t}. phase_cost n (f u))"
    using sum.remove [of "{..<thCount}" t "\<lambda>u. phase_cost n (f u)", OF finite_lessThan] assms by simp
  ultimately show ?thesis by simp
qed

lemma work_less:
  assumes "t < thCount" "sc_phase s' = (sc_phase s)(t := q)" "unclaimed J s' \<subseteq> unclaimed J s"
    and "phase_cost (j_txns J) q < phase_cost (j_txns J) (sc_phase s t)"
  shows "work_left J thCount s' < work_left J thCount s"
proof -
  have "card (unclaimed J s') \<le> card (unclaimed J s)" using assms(3) by (simp add: card_mono)
  then have "(j_txns J + 6) * card (unclaimed J s') \<le> (j_txns J + 6) * card (unclaimed J s)" by simp
  then show ?thesis
    using cost_upd [OF assms(1), of "j_txns J" "sc_phase s" q] assms(4)
    unfolding work_left_def assms(2) by linarith
qed

text \<open>A thread that holds a transaction can always go on with it.\<close>

lemma holder_moves:
  assumes inv: "sched_inv J thCount m s" and t: "t < thCount" "on_txn (sc_phase s t) i"
    and parses: "\<And>i. i < j_txns J \<Longrightarrow> j_parses J i"
    and runs: "\<And>i. i < j_txns J \<Longrightarrow> i \<notin> set (sc_log s) \<Longrightarrow> \<exists>ok m'. j_run J i (sc_map s) = (Ret ok, m')"
  shows "\<exists>s'. sched_step J s s' \<and> work_left J thCount s' < work_left J thCount s"
proof -
  have d: "deg_ok J s" and p: "phase_ok J s" using inv by (simp_all add: sched_inv_def)
  have i: "i < j_txns J" "sc_deg s ! i < 0" using phase_ok_taken [OF p t(2)] by simp_all
  have len: "length (sc_deg s) = j_txns J" using d by (simp add: deg_ok_def)
  consider "sc_phase s t = Chosen i" | "sc_phase s t = Executed i" | k where "sc_phase s t = Releasing i k"
    using t(2) by (auto simp: on_txn_def)
  then show ?thesis
  proof cases
    case 1
    obtain ok m' where "j_run J i (sc_map s) = (Ret ok, m')"
      using runs [OF i(1) phase_ok_Chosen [OF p 1]] by blast
    note run = sched_step.execute [OF 1 parses [OF i(1)] this]
    show ?thesis
      by (intro exI conjI, rule run, rule work_less [OF t(1), of _ _ "Executed i"]) (simp_all add: 1 phase_cost_def unclaimed_def)
  next
    case 2
    have sub: "unclaimed J (goto t (Releasing i (Suc i)) (s\<lparr>sc_deg := (sc_deg s)[i := sc_deg s ! i - 1],
        sc_completed := sc_completed s + 1\<rparr>)) \<subseteq> unclaimed J s"
      using i len by (auto simp: unclaimed_def nth_list_update split: if_splits)
    show ?thesis
      by (intro exI conjI, rule sched_step.finish [OF 2], rule work_less [OF t(1) _ sub, of "Releasing i (Suc i)"])
        (simp_all add: 2 phase_cost_def)
  next
    case (3 k)
    show ?thesis
    proof (cases "k < j_txns J")
      case True
      let ?deg = "if j_edge J i k then (sc_deg s)[k := sc_deg s ! k - 1] else sc_deg s"
      have sub: "unclaimed J (goto t (Releasing i (Suc k)) (s\<lparr>sc_deg := ?deg, sc_released := insert (i, k) (sc_released s)\<rparr>))
          \<subseteq> unclaimed J s"
        using True len by (auto simp: unclaimed_def nth_list_update split: if_splits)
      show ?thesis
        by (intro exI conjI, rule sched_step.release [OF 3 True], rule work_less [OF t(1) _ sub, of "Releasing i (Suc k)"])
          (simp_all add: 3 True phase_cost_def diff_less_mono2)
    next
      case False
      show ?thesis
        by (intro exI conjI, rule sched_step.again [OF 3 False], rule work_less [OF t(1), of _ _ AtLoop])
          (simp_all add: 3 phase_cost_def unclaimed_def)
    qed
  qed
qed

text \<open>Unless all threads have left the loop, some thread can be run on until there is less to do.\<close>

lemma claim_less:
  assumes d: "deg_ok J s" and t: "t < thCount" "sc_phase s t = Scanning" and i: "i < j_txns J" "sc_deg s ! i = 0"
  shows "work_left J thCount (goto t (Chosen i) (s\<lparr>sc_deg := (sc_deg s)[i := - 1]\<rparr>)) < work_left J thCount s"
proof -
  let ?s' = "goto t (Chosen i) (s\<lparr>sc_deg := (sc_deg s)[i := - 1]\<rparr>)"
  have "unclaimed J ?s' = unclaimed J s - {i}" "i \<in> unclaimed J s"
    using d i by (auto simp: unclaimed_def deg_ok_def nth_list_update split: if_splits)
  then have "card (unclaimed J s) = Suc (card (unclaimed J ?s'))"
    by (metis card_Suc_Diff1 finite_unclaimed)
  then show ?thesis
    using cost_upd [OF t(1), of "j_txns J" "sc_phase s" "Chosen i"] t(2)
    by (simp add: work_left_def phase_cost_def algebra_simps del: fun_upd_apply)
qed

lemma work_moves:
  assumes reach: "sched_reach J (sched_start J thCount m) s"
    and parses: "\<And>i. i < j_txns J \<Longrightarrow> j_parses J i"
    and runs: "\<And>i. i < j_txns J \<Longrightarrow> i \<notin> set (sc_log s) \<Longrightarrow> \<exists>ok m'. j_run J i (sc_map s) = (Ret ok, m')"
    and more: "\<exists>t. sc_phase s t \<noteq> Stopped"
  shows "\<exists>s'. sched_reach J s s' \<and> work_left J thCount s' < work_left J thCount s"
proof -
  have inv: "sched_inv J thCount m s" by (rule sched_inv_reach [OF reach]) simp
  have rel: "released_ok J s" by (rule released_ok_reach [OF reach]) (simp_all add: parses)
  have th: "t < thCount" if "sc_phase s t \<noteq> Stopped" for t
    using others_stopped [OF reach HOL.refl, of t] that by (meson not_le)
  show ?thesis
  proof (cases "\<exists>t i. on_txn (sc_phase s t) i")
    case True
    then obtain t i where t: "on_txn (sc_phase s t) i" by blast
    then have "t < thCount" using th [of t] by (cases "sc_phase s t") auto
    then show ?thesis using holder_moves [OF inv _ t parses runs] sched_reach_step1 by blast
  next
    case idle: False
    then have idle': "\<And>t i. \<not> on_txn (sc_phase s t) i" by blast
    obtain t where t: "sc_phase s t \<noteq> Stopped" using more by blast
    consider "sc_phase s t = AtLoop" "sc_completed s < int (j_txns J) \<and> sc_flag s"
      | "sc_phase s t = AtLoop" "\<not> (sc_completed s < int (j_txns J) \<and> sc_flag s)"
      | "sc_phase s t = Scanning" "sc_completed s < int (j_txns J)"
      | "sc_phase s t = Scanning" "\<not> sc_completed s < int (j_txns J)"
      using t idle' [of t] by (cases "sc_phase s t") auto
    then show ?thesis
    proof cases
      case 1
      have "work_left J thCount (goto t Scanning s) < work_left J thCount s"
        by (rule work_less [OF th [OF t], of _ _ Scanning]) (simp_all add: 1 phase_cost_def unclaimed_def)
      then show ?thesis using sched_reach_step1 [OF sched_step.enter [OF 1(1)]] 1(2) by blast
    next
      case 2
      have "work_left J thCount (goto t Stopped s) < work_left J thCount s"
        by (rule work_less [OF th [OF t], of _ _ Stopped]) (simp_all add: 2(1) phase_cost_def unclaimed_def)
      then show ?thesis using sched_reach_step1 [OF sched_step.leave [OF 2]] by blast
    next
      case 3
      obtain i where i: "i < j_txns J" "sc_deg s ! i = 0"
        using some_ready [OF inv rel idle' 3(2)] by blast
      have "deg_ok J s" using inv by (simp add: sched_inv_def)
      from claim_less [OF this th [OF t] 3(1) i] show ?thesis
        using sched_reach_step1 [OF sched_step.select [OF 3(1) i]] by blast
    next
      case 4
      let ?s1 = "goto t AtLoop s"
      have "sched_step J s ?s1" "sched_step J ?s1 (goto t Stopped ?s1)"
        using 4 by (auto intro: sched_step.miss sched_step.leave)
      then have "sched_reach J s (goto t Stopped ?s1)"
        by (rule sched_reach.step [OF sched_reach_step1])
      moreover have "work_left J thCount (goto t Stopped ?s1) < work_left J thCount s"
        by (rule work_less [OF th [OF t], of _ _ Stopped]) (simp_all add: 4(1) phase_cost_def unclaimed_def)
      ultimately show ?thesis by blast
    qed
  qed
qed

lemma can_finish:
  assumes reach: "sched_reach J (sched_start J thCount m) s"
    and parses: "\<And>i. i < j_txns J \<Longrightarrow> j_parses J i"
    and runs: "\<And>s i. sched_reach J (sched_start J thCount m) s \<Longrightarrow> i < j_txns J \<Longrightarrow> i \<notin> set (sc_log s) \<Longrightarrow>
      \<exists>ok m'. j_run J i (sc_map s) = (Ret ok, m')"
  shows "\<exists>s'. sched_reach J s s' \<and> (\<forall>t. sc_phase s' t = Stopped)"
  using reach
proof (induction "work_left J thCount s" arbitrary: s rule: less_induct)
  case less
  show ?case
  proof (cases "\<exists>t. sc_phase s t \<noteq> Stopped")
    case True
    obtain s' where s': "sched_reach J s s'" "work_left J thCount s' < work_left J thCount s"
      using work_moves [OF less(2) parses runs [OF less(2)] True] by blast
    then obtain s'' where "sched_reach J s' s''" "\<forall>t. sc_phase s'' t = Stopped"
      using less(1) [OF s'(2)] sched_reach_trans [OF s'(1) less(2)] by blast
    then show ?thesis using sched_reach_trans [OF _ s'(1)] by blast
  qed (blast intro: sched_reach.refl)
qed
end
