(* ===== verification/Dag_Components.thy ===== *)
theory Dag_Components
  imports Dag_Facts
begin

text \<open>
  The components of the dependency graph, which the leader hands out to the followers: the
  depth-first search \<open>DFSUtil\<close> of the single-node trees and the union-find of the cluster, both
  against one specification.
\<close>

section \<open>Specification\<close>

record component =
  transactionList :: "nat list"
  assignedFollower :: int
  compid :: int

record componentsTable =
  totalComponents :: nat
  componentsList :: "component list"

text \<open>Two transactions are adjacent when either depends on the other.\<close>

definition adjacent :: "int list list \<Rightarrow> nat \<Rightarrow> nat \<Rightarrow> bool" where
  "adjacent a i j \<longleftrightarrow> cell a i j \<noteq> 0 \<or> cell a j i \<noteq> 0"

definition links :: "(nat \<Rightarrow> nat \<Rightarrow> bool) \<Rightarrow> nat \<Rightarrow> (nat \<times> nat) set" where
  "links E n = {(x, y). x < n \<and> y < n \<and> E x y}"

definition are_components :: "(nat \<Rightarrow> nat \<Rightarrow> bool) \<Rightarrow> nat \<Rightarrow> nat list list \<Rightarrow> bool" where
  "are_components E n cs \<longleftrightarrow> distinct (concat cs) \<and> set (concat cs) = {0..<n} \<and> [] \<notin> set cs \<and>
     (\<forall>c\<in>set cs. \<forall>x\<in>set c. set c = (links E n)\<^sup>* `` {x})"

section \<open>Depth-first search\<close>

definition visit :: "nat \<Rightarrow> bool list \<times> nat list \<Rightarrow> bool list \<times> nat list" where
  "visit v = (\<lambda>(visited, txns). (visited[v := True], txns @ [v]))"

text \<open>The loop of \<open>DFSUtil\<close> over the columns, from column \<open>i\<close>.\<close>

partial_function (option) dfs_for ::
    "(nat \<Rightarrow> nat \<Rightarrow> bool) \<Rightarrow> nat \<Rightarrow> nat \<Rightarrow> nat \<Rightarrow> bool list \<times> nat list \<Rightarrow> (bool list \<times> nat list) option" where
  "dfs_for E n v i st =
     (if i < n then
        (if E v i \<and> \<not> fst st ! i
         then Option.bind (dfs_for E n i 0 (visit i st)) (\<lambda>st'. dfs_for E n v (Suc i) st')
         else dfs_for E n v (Suc i) st)
      else Some st)"

definition DFSUtil ::
    "(nat \<Rightarrow> nat \<Rightarrow> bool) \<Rightarrow> nat \<Rightarrow> nat \<Rightarrow> bool list \<times> nat list \<Rightarrow> (bool list \<times> nat list) option" where
  "DFSUtil E n v st = dfs_for E n v 0 (visit v st)"

fun components_loop ::
    "(nat \<Rightarrow> nat \<Rightarrow> bool) \<Rightarrow> nat \<Rightarrow> nat list \<Rightarrow> bool list \<Rightarrow> nat list list option" where
  "components_loop E n [] visited = Some []"
| "components_loop E n (i # is') visited =
     (if visited ! i then components_loop E n is' visited
      else
        Option.bind (DFSUtil E n i (visited, [])) (\<lambda>(visited', c).
        Option.bind (components_loop E n is' visited') (\<lambda>cs. Some (c # cs))))"

text \<open>The table starts with what it held before; \<open>connectedComponents\<close> appends to it.\<close>

definition connectedComponents :: "int list list \<Rightarrow> componentsTable \<Rightarrow> componentsTable option" where
  "connectedComponents a table =
     Option.bind (components_loop (adjacent a) (length a) [0..<length a] (replicate (length a) False)) (\<lambda>cs.
     Some \<lparr>totalComponents = length cs,
           componentsList = componentsList table @
             map (\<lambda>c. \<lparr>transactionList = c, assignedFollower = 0, compid = 0\<rparr>) cs\<rparr>)"

lemma length_visit [simp]: "length (fst (visit v st)) = length (fst st)"
  by (simp add: visit_def split: prod.split)

definition unvisited :: "nat \<Rightarrow> bool list \<Rightarrow> nat set" where
  "unvisited n vis = {x. x < n \<and> \<not> vis ! x}"

lemma finite_unvisited [simp]: "finite (unvisited n vis)"
  by (simp add: unvisited_def)

text \<open>What a call adds: \<open>new\<close>, reached from \<open>v\<close>, and every neighbour of what it adds is visited.\<close>

definition dfs_result ::
    "(nat \<Rightarrow> nat \<Rightarrow> bool) \<Rightarrow> nat \<Rightarrow> nat \<Rightarrow> nat \<Rightarrow> bool list \<Rightarrow> bool list \<Rightarrow> nat list \<Rightarrow> bool" where
  "dfs_result E n v i vis vis' new \<longleftrightarrow> length vis' = n \<and> distinct new \<and>
     (\<forall>x<n. vis' ! x \<longleftrightarrow> vis ! x \<or> x \<in> set new) \<and> (\<forall>x\<in>set new. x < n \<and> \<not> vis ! x \<and> (v, x) \<in> (links E n)\<^sup>*) \<and>
     (\<forall>j. i \<le> j \<longrightarrow> j < n \<longrightarrow> E v j \<longrightarrow> vis' ! j) \<and> (\<forall>x\<in>set new. \<forall>j<n. E x j \<longrightarrow> vis' ! j)"

lemma dfs_resultD:
  assumes "dfs_result E n v i vis vis' new"
  shows "length vis' = n" "distinct new" "x < n \<Longrightarrow> vis' ! x \<longleftrightarrow> vis ! x \<or> x \<in> set new"
    and "x \<in> set new \<Longrightarrow> x < n" "x \<in> set new \<Longrightarrow> \<not> vis ! x" "x \<in> set new \<Longrightarrow> (v, x) \<in> (links E n)\<^sup>*"
    and "i \<le> j \<Longrightarrow> j < n \<Longrightarrow> E v j \<Longrightarrow> vis' ! j" "x \<in> set new \<Longrightarrow> j < n \<Longrightarrow> E x j \<Longrightarrow> vis' ! j"
  using assms unfolding dfs_result_def by blast+

lemma dfs_result_skip:
  assumes "dfs_result E n v (Suc i) vis vis' new" "i < n" "E v i \<Longrightarrow> vis ! i"
  shows "dfs_result E n v i vis vis' new"
proof -
  have "vis' ! j" if "i \<le> j" "j < n" "E v j" for j
  proof (cases "j = i")
    case True
    then show ?thesis using assms that by (simp add: dfs_result_def)
  next
    case False
    then show ?thesis using dfs_resultD(7) [OF assms(1)] that by simp
  qed
  then show ?thesis using assms(1) unfolding dfs_result_def by blast
qed

lemma dfs_result_call:
  assumes vis: "length vis = n" and i: "i < n" "E v i" "\<not> vis ! i" and v: "v < n"
    and r1: "dfs_result E n i 0 (vis[i := True]) vis1 new1"
    and r2: "dfs_result E n v (Suc i) vis1 vis2 new2"
  shows "dfs_result E n v i vis vis2 (i # new1 @ new2)"
proof -
  have l: "(v, i) \<in> links E n" using i v by (simp add: links_def)
  have v1: "vis1 ! x \<longleftrightarrow> x = i \<or> vis ! x \<or> x \<in> set new1" if "x < n" for x
    using r1 that i(1) vis by (auto simp: dfs_result_def nth_list_update)
  have v2: "vis2 ! x \<longleftrightarrow> vis1 ! x \<or> x \<in> set new2" if "x < n" for x
    using r2 that by (auto simp: dfs_result_def)
  have n1: "x < n \<and> x \<noteq> i \<and> \<not> vis ! x \<and> (i, x) \<in> (links E n)\<^sup>*" if "x \<in> set new1" for x
    using r1 that i(1) vis by (auto simp: dfs_result_def nth_list_update split: if_splits)
  have n2: "x < n \<and> \<not> vis1 ! x \<and> (v, x) \<in> (links E n)\<^sup>*" if "x \<in> set new2" for x
    using r2 that by (auto simp: dfs_result_def)
  have d: "distinct new1" "distinct new2" "length vis2 = n" using r1 r2 by (auto simp: dfs_result_def)
  have c1: "vis1 ! j" if "x = i \<or> x \<in> set new1" "j < n" "E x j" for x j
    using r1 that by (auto simp: dfs_result_def)
  have c2: "vis2 ! j" if "x \<in> set new2" "j < n" "E x j" for x j
    using r2 that by (auto simp: dfs_result_def)
  have c3: "vis2 ! j" if "i \<le> j" "j < n" "E v j" for j
    using r2 that v1 [OF i(1)] v2 [OF i(1)] by (cases "j = i") (auto simp: dfs_result_def)
  have reach: "(v, x) \<in> (links E n)\<^sup>*" if "x = i \<or> x \<in> set new1" for x
    using that n1 l by (auto intro: converse_rtrancl_into_rtrancl)
  have disj: "x \<notin> set new2" if "x = i \<or> x \<in> set new1" for x
    using that n1 n2 v1 i(1) by blast
  show ?thesis
    unfolding dfs_result_def
  proof (intro conjI)
    show "length vis2 = n" by (rule d(3))
    show "distinct (i # new1 @ new2)" using d n1 disj by auto
    show "\<forall>x<n. vis2 ! x \<longleftrightarrow> vis ! x \<or> x \<in> set (i # new1 @ new2)" using v1 v2 by auto
    show "\<forall>x\<in>set (i # new1 @ new2). x < n \<and> \<not> vis ! x \<and> (v, x) \<in> (links E n)\<^sup>*"
      using n1 n2 v1 i reach by auto
    show "\<forall>j. i \<le> j \<longrightarrow> j < n \<longrightarrow> E v j \<longrightarrow> vis2 ! j" using c3 by blast
    show "\<forall>x\<in>set (i # new1 @ new2). \<forall>j<n. E x j \<longrightarrow> vis2 ! j" using c1 c2 v2 by auto
  qed
qed

lemma unvisited_less:
  assumes "i < n" "\<not> vis ! i" "length vis = n"
  shows "card (unvisited n (vis[i := True])) < card (unvisited n vis)"
proof (rule psubset_card_mono)
  show "unvisited n (vis[i := True]) \<subset> unvisited n vis"
    using assms by (auto simp: unvisited_def nth_list_update)
qed simp

lemma unvisited_mono:
  assumes "dfs_result E n v i vis vis' new"
  shows "card (unvisited n vis') \<le> card (unvisited n vis)"
  using assms by (intro card_mono) (auto simp: unvisited_def dfs_result_def)

lemma dfs_for_terminates:
  assumes "length vis = n" "v < n"
  shows "\<exists>vis' new. dfs_for E n v i (vis, out) = Some (vis', out @ new) \<and> dfs_result E n v i vis vis' new"
  using assms
proof (induction "card (unvisited n vis) * Suc n + (n - i)" arbitrary: v i vis out rule: less_induct)
  case less
  show ?case
  proof (cases "i < n")
    case False
    then show ?thesis using less.prems
      by (subst dfs_for.simps) (auto simp: dfs_result_def intro!: exI [of _ "[]"])
  next
    case i: True
    show ?thesis
    proof (cases "E v i \<and> \<not> vis ! i")
      case False
      have "\<exists>vis' new. dfs_for E n v (Suc i) (vis, out) = Some (vis', out @ new) \<and>
          dfs_result E n v (Suc i) vis vis' new"
        using i less.prems by (intro less.hyps) auto
      then show ?thesis using False i
        by (subst dfs_for.simps) (auto intro: dfs_result_skip)
    next
      case True
      have u1: "card (unvisited n (vis[i := True])) < card (unvisited n vis)"
        using True i less.prems(1) by (intro unvisited_less) auto
      then have m1: "card (unvisited n (vis[i := True])) * Suc n + (n - 0) <
          card (unvisited n vis) * Suc n + (n - i)"
      proof -
        have "Suc (card (unvisited n (vis[i := True]))) * Suc n \<le> card (unvisited n vis) * Suc n"
          using u1 by (intro mult_le_mono1) simp
        then show ?thesis by simp
      qed
      obtain vis1 new1 where r1: "dfs_for E n i 0 (vis[i := True], out @ [i]) = Some (vis1, (out @ [i]) @ new1)"
          "dfs_result E n i 0 (vis[i := True]) vis1 new1"
        using less.hyps [OF m1, of i "out @ [i]"] less.prems(1) i by auto
      have u2: "card (unvisited n vis1) < card (unvisited n vis)"
        using unvisited_mono [OF r1(2)] u1 by simp
      have m2: "card (unvisited n vis1) * Suc n + (n - Suc i) < card (unvisited n vis) * Suc n + (n - i)"
        using u2 i by (intro add_le_less_mono mult_le_mono1) auto
      have l1: "length vis1 = n" using r1(2) by (simp add: dfs_result_def)
      obtain vis2 new2 where r2: "dfs_for E n v (Suc i) (vis1, (out @ [i]) @ new1) =
            Some (vis2, ((out @ [i]) @ new1) @ new2)" "dfs_result E n v (Suc i) vis1 vis2 new2"
        using less.hyps [OF m2 l1 less.prems(2)] by blast
      have "dfs_for E n v i (vis, out) = Some (vis2, out @ i # new1 @ new2)"
        using True i r1(1) r2(1) by (subst dfs_for.simps) (simp add: visit_def)
      moreover have "dfs_result E n v i vis vis2 (i # new1 @ new2)"
        using dfs_result_call [OF less.prems(1) i _ _ less.prems(2) r1(2) r2(2)] True by blast
      ultimately show ?thesis by blast
    qed
  qed
qed

section \<open>The search finds the components\<close>

text \<open>A visited set no edge leaves, and symmetric edges: the search adds exactly one class.\<close>

definition closed_visited :: "(nat \<Rightarrow> nat \<Rightarrow> bool) \<Rightarrow> nat \<Rightarrow> bool list \<Rightarrow> bool" where
  "closed_visited E n vis \<longleftrightarrow> length vis = n \<and> (\<forall>x<n. \<forall>y<n. vis ! x \<longrightarrow> E x y \<longrightarrow> vis ! y)"

lemma links_stay: "(x, y) \<in> (links E n)\<^sup>* \<Longrightarrow> x < n \<Longrightarrow> y < n"
  by (induction rule: rtrancl_induct) (auto simp: links_def)

lemma links_sym: "(\<And>x y. E x y \<Longrightarrow> E y x) \<Longrightarrow> (x, y) \<in> (links E n)\<^sup>* \<Longrightarrow> (y, x) \<in> (links E n)\<^sup>*"
  using symD [OF sym_rtrancl [of "links E n"]] by (auto simp: sym_def links_def)

lemma closed_reach:
  assumes "closed_visited E n vis" "(x, y) \<in> (links E n)\<^sup>*" "x < n" "vis ! x"
  shows "vis ! y"
  using assms(2,4)
proof (induction rule: rtrancl_induct)
  case (step y z)
  then show ?case using assms(1) by (auto simp: closed_visited_def links_def)
qed

lemma DFSUtil_class:
  assumes sym: "\<And>x y. E x y \<Longrightarrow> E y x" and c: "closed_visited E n vis" and i: "i < n" "\<not> vis ! i"
  obtains vis' cs where "DFSUtil E n i (vis, []) = Some (vis', cs)" "closed_visited E n vis'" "distinct cs"
    "i \<in> set cs" "set cs = (links E n)\<^sup>* `` {i}" "\<And>x. x < n \<Longrightarrow> vis' ! x \<longleftrightarrow> vis ! x \<or> x \<in> set cs"
    "\<And>x. x \<in> set cs \<Longrightarrow> x < n \<and> \<not> vis ! x"
proof -
  have len: "length (vis[i := True]) = n" using c by (simp add: closed_visited_def)
  obtain vis' new where r: "dfs_for E n i 0 (vis[i := True], [i]) = Some (vis', [i] @ new)"
      "dfs_result E n i 0 (vis[i := True]) vis' new"
    using dfs_for_terminates [OF len i(1)] by blast
  let ?cs = "i # new"
  have run: "DFSUtil E n i (vis, []) = Some (vis', ?cs)" using r(1) by (simp add: DFSUtil_def visit_def)
  note D = dfs_resultD [OF r(2)]
  have lv: "length vis = n" using c by (simp add: closed_visited_def)
  have iff: "vis' ! x \<longleftrightarrow> vis ! x \<or> x \<in> set ?cs" if "x < n" for x
    using D(3) [OF that] i lv by (auto simp: nth_list_update)
  have fresh: "x < n \<and> x \<noteq> i \<and> \<not> vis ! x" if "x \<in> set new" for x
    using D(4,5) [OF that] i lv by (auto simp: nth_list_update split: if_splits)
  have mem: "x < n \<and> \<not> vis ! x \<and> (i, x) \<in> (links E n)\<^sup>*" if "x \<in> set ?cs" for x
    using fresh [of x] D(6) [of x] i that by auto
  have d: "distinct ?cs" using fresh D(2) by auto
  have out: "vis' ! y" if "x \<in> set ?cs" "y < n" "E x y" for x y
    using D(7) [of y] D(8) [of x y] that by auto
  have cl: "closed_visited E n vis'"
    unfolding closed_visited_def
  proof (intro conjI allI impI)
    show "length vis' = n" by (rule D(1))
    fix x y assume xy: "x < n" "y < n" "vis' ! x" "E x y"
    then consider "vis ! x" | "x \<in> set ?cs" using iff by blast
    then show "vis' ! y"
    proof cases
      case 1
      then have "vis ! y" using c xy unfolding closed_visited_def by blast
      then show ?thesis using iff [OF xy(2)] by blast
    next
      case 2
      then show ?thesis using out xy by blast
    qed
  qed
  have "x \<in> set ?cs" if "(i, x) \<in> (links E n)\<^sup>*" for x
  proof -
    have x: "x < n" using links_stay [OF that i(1)] .
    have "vis' ! x" using closed_reach [OF cl that i(1)] iff [OF i(1)] by simp
    moreover have "\<not> vis ! x"
    proof -
      have "(x, i) \<in> (links E n)\<^sup>*" using that by (rule links_sym [rotated]) (rule sym)
      then show ?thesis using closed_reach [OF c _ x] i(2) by blast
    qed
    ultimately show ?thesis using iff [OF x] by blast
  qed
  then have cs: "set ?cs = (links E n)\<^sup>* `` {i}" using mem by blast
  show thesis by (rule that [OF run cl d _ cs iff]) (use mem in simp_all)
qed

lemma class_same:
  assumes sym: "\<And>x y. E x y \<Longrightarrow> E y x" and "y \<in> (links E n)\<^sup>* `` {x}"
  shows "(links E n)\<^sup>* `` {y} = (links E n)\<^sup>* `` {x}"
proof -
  have xy: "(x, y) \<in> (links E n)\<^sup>*" using assms(2) by simp
  then have yx: "(y, x) \<in> (links E n)\<^sup>*" by (rule links_sym [rotated]) (rule sym)
  show ?thesis using rtrancl_trans [OF xy] rtrancl_trans [OF yx] by blast
qed

lemma components_loop_classes:
  assumes sym: "\<And>x y. E x y \<Longrightarrow> E y x"
  shows "closed_visited E n vis \<Longrightarrow> set idxs \<subseteq> {0..<n} \<Longrightarrow>
    \<exists>cs. components_loop E n idxs vis = Some cs \<and> distinct (concat cs) \<and> [] \<notin> set cs \<and>
      (\<forall>x\<in>set (concat cs). x < n \<and> \<not> vis ! x) \<and> (\<forall>i\<in>set idxs. vis ! i \<or> i \<in> set (concat cs)) \<and>
      (\<forall>c\<in>set cs. \<forall>x\<in>set c. set c = (links E n)\<^sup>* `` {x})"
proof (induction idxs arbitrary: vis)
  case (Cons i idxs)
  show ?case
  proof (cases "vis ! i")
    case True
    then show ?thesis using Cons by auto
  next
    case False
    have i: "i < n" using Cons.prems(2) by simp
    obtain vis' c where c: "DFSUtil E n i (vis, []) = Some (vis', c)" "closed_visited E n vis'" "distinct c"
        "i \<in> set c" "set c = (links E n)\<^sup>* `` {i}" "\<And>x. x < n \<Longrightarrow> vis' ! x \<longleftrightarrow> vis ! x \<or> x \<in> set c"
        "\<And>x. x \<in> set c \<Longrightarrow> x < n \<and> \<not> vis ! x"
      using DFSUtil_class [OF sym Cons.prems(1) i False] by blast
    obtain cs where cs: "components_loop E n idxs vis' = Some cs" "distinct (concat cs)" "[] \<notin> set cs"
        "\<forall>x\<in>set (concat cs). x < n \<and> \<not> vis' ! x" "\<forall>i\<in>set idxs. vis' ! i \<or> i \<in> set (concat cs)"
        "\<forall>c\<in>set cs. \<forall>x\<in>set c. set c = (links E n)\<^sup>* `` {x}"
      using Cons.IH [OF c(2)] Cons.prems(2) by auto
    have dj: "set c \<inter> set (concat cs) = {}" using cs(4) c(6,7) by blast
    have cl: "set c = (links E n)\<^sup>* `` {x}" if "x \<in> set c" for x
    proof -
      have "x \<in> (links E n)\<^sup>* `` {i}" using that c(5) by simp
      from class_same [OF sym this] show ?thesis using c(5) by simp
    qed
    show ?thesis
    proof (intro exI [of _ "c # cs"] conjI)
      show "components_loop E n (i # idxs) vis = Some (c # cs)" using False c(1) cs(1) by simp
      show "distinct (concat (c # cs))" using c(3) cs(2) dj by simp
      show "[] \<notin> set (c # cs)" using cs(3) c(4) by auto
      show "\<forall>x\<in>set (concat (c # cs)). x < n \<and> \<not> vis ! x" using cs(4) c(6,7) by auto
      show "\<forall>j\<in>set (i # idxs). vis ! j \<or> j \<in> set (concat (c # cs))"
      proof
        fix j assume j: "j \<in> set (i # idxs)"
        then have "j < n" using Cons.prems(2) by auto
        then show "vis ! j \<or> j \<in> set (concat (c # cs))" using j cs(5) c(4,6) by auto
      qed
      show "\<forall>d\<in>set (c # cs). \<forall>x\<in>set d. set d = (links E n)\<^sup>* `` {x}" using cs(6) cl by auto
    qed
  qed
qed simp

lemma adjacent_sym: "adjacent a x y \<Longrightarrow> adjacent a y x"
  by (auto simp: adjacent_def)

lemma components_loop_correct:
  "\<exists>cs. components_loop (adjacent a) n [0..<n] (replicate n False) = Some cs \<and> are_components (adjacent a) n cs"
proof -
  have "closed_visited (adjacent a) n (replicate n False)" by (simp add: closed_visited_def)
  from components_loop_classes [OF adjacent_sym this, of "[0..<n]"]
  show ?thesis by (auto simp: are_components_def) 
qed

end
