(* ===== verification/Dag_Union_Find.thy ===== *)
theory Dag_Union_Find
  imports Dag_Components "HOL-Library.Multiset"
begin

text \<open>
  \<open>connectedComponents\<close> of the cluster's \<open>dagModule/DAGmodule.h\<close>: a union-find structure with path
  compression and union by rank.  It computes the same components as the depth-first search; that
  the ranks grow along the parents is what makes \<open>find\<close> terminate.
\<close>

section \<open>The structure\<close>

partial_function (option) dsu_find :: "nat list \<Rightarrow> nat \<Rightarrow> (nat \<times> nat list) option" where
  "dsu_find parent x =
     (if parent ! x \<noteq> x then
        Option.bind (dsu_find parent (parent ! x)) (\<lambda>(r, parent'). Some (r, parent'[x := r]))
      else Some (parent ! x, parent))"

definition dsu_unite :: "nat \<Rightarrow> nat \<Rightarrow> nat list \<times> nat list \<Rightarrow> (nat list \<times> nat list) option" where
  "dsu_unite x y = (\<lambda>(parent, rank).
     Option.bind (dsu_find parent x) (\<lambda>(rootX, parent1).
     Option.bind (dsu_find parent1 y) (\<lambda>(rootY, parent2).
       if rootX = rootY then Some (parent2, rank)
       else if rank ! rootX < rank ! rootY then Some (parent2[rootX := rootY], rank)
       else if rank ! rootX > rank ! rootY then Some (parent2[rootY := rootX], rank)
       else Some (parent2[rootY := rootX], rank[rootX := rank ! rootX + 1]))))"

fun unite_pairs :: "(nat \<Rightarrow> nat \<Rightarrow> bool) \<Rightarrow> (nat \<times> nat) list \<Rightarrow> nat list \<times> nat list \<Rightarrow> (nat list \<times> nat list) option" where
  "unite_pairs E [] st = Some st"
| "unite_pairs E ((i, j) # ps) st =
     (if E i j then Option.bind (dsu_unite i j st) (unite_pairs E ps) else unite_pairs E ps st)"

fun find_all :: "nat list \<Rightarrow> nat list \<Rightarrow> nat list option" where
  "find_all parent [] = Some []"
| "find_all parent (i # is') =
     Option.bind (dsu_find parent i) (\<lambda>(r, parent').
     Option.bind (find_all parent' is') (\<lambda>rs. Some (r # rs)))"

text \<open>
  \<open>order\<close> is the order in which the \<open>unordered_map\<close> from roots to members is iterated; the members
  of a root come in increasing order.
\<close>

definition connectedComponents_cluster ::
    "(nat list \<Rightarrow> nat list) \<Rightarrow> int list list \<Rightarrow> componentsTable option" where
  "connectedComponents_cluster order a =
     (let n = length a in
      Option.bind (unite_pairs (adjacent a) (pairs_of n [0..<n]) ([0..<n], replicate n 0)) (\<lambda>(parent, rank).
      Option.bind (find_all parent [0..<n]) (\<lambda>roots.
        let keys = order (remdups roots);
            groups = map (\<lambda>r. filter (\<lambda>i. roots ! i = r) [0..<n]) keys
        in Some \<lparr>totalComponents = length keys,
                 componentsList = map (\<lambda>(c, k). \<lparr>transactionList = c, assignedFollower = 0, compid = int k\<rparr>)
                   (zip groups [0..<length keys])\<rparr>)))"

section \<open>Representatives\<close>

inductive root_of :: "nat list \<Rightarrow> nat \<Rightarrow> nat \<Rightarrow> bool" for p where
  here: "p ! x = x \<Longrightarrow> root_of p x x"
| up: "p ! x \<noteq> x \<Longrightarrow> root_of p (p ! x) r \<Longrightarrow> root_of p x r"

lemma root_of_root: "root_of p x r \<Longrightarrow> p ! r = r"
  by (induction rule: root_of.induct) auto

lemma root_of_det: "root_of p x r \<Longrightarrow> root_of p x s \<Longrightarrow> s = r"
proof (induction rule: root_of.induct)
  case (here x)
  from here(2,1) show ?case by cases auto
next
  case (up x r)
  from up(4,1) show ?case by cases (auto dest: up.IH)
qed

lemma root_of_self: "p ! x = x \<Longrightarrow> root_of p x s \<longleftrightarrow> s = x"
  using root_of_det [OF root_of.here] root_of.here by blast

definition dsu_ok :: "nat \<Rightarrow> nat list \<Rightarrow> nat list \<Rightarrow> bool" where
  "dsu_ok n p rk \<longleftrightarrow> length p = n \<and> length rk = n \<and>
     (\<forall>x<n. p ! x < n \<and> (p ! x \<noteq> x \<longrightarrow> rk ! x < rk ! (p ! x)))"

definition above :: "nat \<Rightarrow> nat list \<Rightarrow> nat \<Rightarrow> nat set" where
  "above n rk x = {y. y < n \<and> rk ! x < rk ! y}"

lemma above_less: "dsu_ok n p rk \<Longrightarrow> x < n \<Longrightarrow> p ! x \<noteq> x \<Longrightarrow> card (above n rk (p ! x)) < card (above n rk x)"
proof -
  assume a: "dsu_ok n p rk" "x < n" "p ! x \<noteq> x"
  then have px: "p ! x < n" "rk ! x < rk ! (p ! x)" by (auto simp: dsu_ok_def)
  then have "p ! x \<in> above n rk x" "p ! x \<notin> above n rk (p ! x)" by (simp_all add: above_def)
  moreover have "above n rk (p ! x) \<subseteq> above n rk x" using px(2) by (auto simp: above_def)
  ultimately have "above n rk (p ! x) \<subset> above n rk x" by blast
  then show "card (above n rk (p ! x)) < card (above n rk x)"
    by (rule psubset_card_mono [rotated]) (simp add: above_def)
qed

lemma root_exists: "dsu_ok n p rk \<Longrightarrow> x < n \<Longrightarrow> \<exists>r<n. root_of p x r \<and> rk ! x \<le> rk ! r"
proof (induction "card (above n rk x)" arbitrary: x rule: less_induct)
  case less
  show ?case
  proof (cases "p ! x = x")
    case True
    then show ?thesis using less.prems(2) root_of.here by blast
  next
    case False
    have "p ! x < n" "rk ! x < rk ! (p ! x)" using less.prems False by (auto simp: dsu_ok_def)
    then obtain r where "r < n" "root_of p (p ! x) r" "rk ! (p ! x) \<le> rk ! r"
      using less.hyps [OF above_less [OF less.prems False] less.prems(1)] by blast
    then show ?thesis using root_of.up [OF False] \<open>rk ! x < rk ! (p ! x)\<close> by fastforce
  qed
qed

text \<open>Pointing a node straight at its root changes no representative.\<close>

lemma compress_root:
  assumes x: "x < length p" and r: "root_of p x r" "r \<noteq> x"
  shows "root_of (p[x := r]) y s \<longleftrightarrow> root_of p y s"
proof -
  have rr: "p ! r = r" using root_of_root [OF r(1)] .
  have fwd: "root_of (p[x := r]) y s" if "root_of p y s" for y s
    using that
  proof (induction rule: root_of.induct)
    case (here z)
    show ?case
    proof (cases "z = x")
      case True
      then have "r = x" using here r(1) root_of_self by blast
      then show ?thesis using r(2) by simp
    next
      case False
      then show ?thesis using here by (intro root_of.here) simp
    qed
  next
    case (up z t)
    show ?case
    proof (cases "z = x")
      case True
      have "root_of p x t" using root_of.up [OF up(1,2)] True by simp
      then have t: "t = r" using root_of_det [OF r(1)] by blast
      have "root_of (p[x := r]) r r" using rr r(2) x by (intro root_of.here) simp
      then show ?thesis using root_of.up [of "p[x := r]" x r] True t r(2) x by simp
    next
      case False
      then show ?thesis using root_of.up [of "p[x := r]" z t] up by simp
    qed
  qed
  have "root_of p y s" if "root_of (p[x := r]) y s" for y s
    using that
  proof (induction rule: root_of.induct)
    case (here z)
    then show ?case using x r(2) by (cases "z = x") (auto intro: root_of.here)
  next
    case (up z t)
    show ?case
    proof (cases "z = x")
      case True
      then have "root_of p r t" using up.IH x by simp
      then have "t = r" using root_of_self [OF rr] by blast
      then show ?thesis using True r(1) by simp
    next
      case False
      then show ?thesis using root_of.up [of p z t] up by simp
    qed
  qed
  with fwd show ?thesis by blast
qed

lemma dsu_find_spec:
  "dsu_ok n p rk \<Longrightarrow> x < n \<Longrightarrow>
   \<exists>r p'. dsu_find p x = Some (r, p') \<and> root_of p x r \<and> r < n \<and> dsu_ok n p' rk \<and>
     (\<forall>y s. root_of p' y s \<longleftrightarrow> root_of p y s)"
proof (induction "card (above n rk x)" arbitrary: x rule: less_induct)
  case less
  show ?case
  proof (cases "p ! x = x")
    case True
    then show ?thesis using less.prems root_of.here by (subst dsu_find.simps) auto
  next
    case False
    have px: "p ! x < n" "rk ! x < rk ! (p ! x)" using less.prems False by (auto simp: dsu_ok_def)
    obtain r p' where r: "dsu_find p (p ! x) = Some (r, p')" "root_of p (p ! x) r" "r < n" "dsu_ok n p' rk"
        "\<And>y s. root_of p' y s \<longleftrightarrow> root_of p y s"
      using less.hyps [OF above_less [OF less.prems False] less.prems(1) px(1)] by blast
    obtain r' where "root_of p (p ! x) r'" "rk ! (p ! x) \<le> rk ! r'"
      using root_exists [OF less.prems(1) px(1)] by blast
    then have rk: "rk ! x < rk ! r" using px(2) root_of_det [OF r(2)] by fastforce
    have xr: "root_of p x r" using root_of.up [OF False r(2)] .
    have x': "root_of p' x r" using r(5) xr by blast
    have len: "x < length p'" using r(4) less.prems(2) by (simp add: dsu_ok_def)
    have "dsu_find p x = Some (r, p'[x := r])" using False r(1) by (subst dsu_find.simps) simp
    moreover have "dsu_ok n (p'[x := r]) rk"
      using r(3,4) rk less.prems(2) by (auto simp: dsu_ok_def nth_list_update)
    moreover have "root_of (p'[x := r]) y s \<longleftrightarrow> root_of p y s" for y s
      using compress_root [OF len x'] rk r(5) by (metis less_irrefl)
    ultimately show ?thesis using xr r(3) by blast
  qed
qed

section \<open>Uniting\<close>

text \<open>Hanging one root under another: its class moves over.\<close>

lemma link_root:
  assumes a: "p ! a = a" "a < length p" and b: "p ! b = b" "b \<noteq> a"
  shows "root_of p y s \<Longrightarrow> root_of (p[a := b]) y (if s = a then b else s)"
proof (induction rule: root_of.induct)
  case (here z)
  have bb: "root_of (p[a := b]) b b" using b by (intro root_of.here) simp
  show ?case
  proof (cases "z = a")
    case True
    then show ?thesis using root_of.up [of "p[a := b]" a b] bb a(2) b(2) by simp
  next
    case False
    then show ?thesis using here root_of.here [of "p[a := b]" z] by simp
  qed
next
  case (up z t)
  have "z \<noteq> a" using up(1) a(1) by auto
  then have "(p[a := b]) ! z = p ! z" by simp
  then show ?case using root_of.up [of "p[a := b]" z] up by simp
qed

definition same_class :: "nat list \<Rightarrow> nat \<Rightarrow> nat \<Rightarrow> bool" where
  "same_class p x y \<longleftrightarrow> (\<exists>r. root_of p x r \<and> root_of p y r)"

lemma same_class_iff: "root_of p x r \<Longrightarrow> root_of p y s \<Longrightarrow> same_class p x y \<longleftrightarrow> r = s"
  unfolding same_class_def using root_of_det by blast

lemma link_class:
  assumes ok: "dsu_ok n p rk" and a: "p ! a = a" "a < n" and b: "p ! b = b" "b \<noteq> a"
    and xy: "x < n" "y < n" "root_of p x rx" "root_of p y ry"
  shows "same_class (p[a := b]) x y \<longleftrightarrow> rx = ry \<or> {rx, ry} = {a, b}"
proof -
  have len: "a < length p" using ok a(2) by (simp add: dsu_ok_def)
  have "same_class (p[a := b]) x y \<longleftrightarrow> (if rx = a then b else rx) = (if ry = a then b else ry)"
    by (rule same_class_iff; rule link_root [OF a(1) len b]) (rule xy)+
  then show ?thesis using b(2) by auto
qed

lemma dsu_ok_link:
  assumes "dsu_ok n p rk" "a < n" "b < n" "rk ! a < rk ! b"
  shows "dsu_ok n (p[a := b]) rk"
proof -
  have "p[a := b] ! x < n \<and> (p[a := b] ! x \<noteq> x \<longrightarrow> rk ! x < rk ! (p[a := b] ! x))" if "x < n" for x
    using assms that by (cases "x = a") (simp_all add: dsu_ok_def)
  then show ?thesis using assms(1) by (simp add: dsu_ok_def)
qed

text \<open>With equal ranks the surviving root's rank grows; its old children stay below it.\<close>

lemma dsu_ok_bump:
  assumes ok: "dsu_ok n p rk" and a: "a < n" "p ! a = a" and b: "b < n" "b \<noteq> a" "rk ! a = rk ! b"
  shows "dsu_ok n (p[b := a]) (rk[a := rk ! a + 1])"
proof -
  have len: "length p = n" "length rk = n" using ok by (simp_all add: dsu_ok_def)
  have "p[b := a] ! x < n \<and> (p[b := a] ! x \<noteq> x \<longrightarrow>
      rk[a := rk ! a + 1] ! x < rk[a := rk ! a + 1] ! (p[b := a] ! x))" if x: "x < n" for x
  proof (cases "x = b")
    case True
    then show ?thesis using a b len by simp
  next
    case False
    have px: "p ! x < n" "p ! x \<noteq> x \<longrightarrow> rk ! x < rk ! (p ! x)" using ok x by (auto simp: dsu_ok_def)
    show ?thesis
    proof (cases "x = a")
      case True
      then show ?thesis using False a by simp
    next
      case xa: False
      then show ?thesis using False px len a(1) by (cases "p ! x = a") auto
    qed
  qed
  then show ?thesis using len by (simp add: dsu_ok_def)
qed

lemma dsu_unite_spec:
  assumes ok: "dsu_ok n p rk" and x: "x < n" and y: "y < n"
  obtains p' rk' where "dsu_unite x y (p, rk) = Some (p', rk')" "dsu_ok n p' rk'"
    "\<And>u v. u < n \<Longrightarrow> v < n \<Longrightarrow> same_class p' u v \<longleftrightarrow>
       same_class p u v \<or> (same_class p u x \<and> same_class p v y) \<or> (same_class p u y \<and> same_class p v x)"
proof -
  note goal = that
  obtain rx p1 where f1: "dsu_find p x = Some (rx, p1)" "root_of p x rx" "rx < n" "dsu_ok n p1 rk"
      "\<forall>u s. root_of p1 u s \<longleftrightarrow> root_of p u s"
    using dsu_find_spec [OF ok x] by blast
  obtain ry p2 where f2: "dsu_find p1 y = Some (ry, p2)" "root_of p1 y ry" "ry < n" "dsu_ok n p2 rk"
      "\<forall>u s. root_of p2 u s \<longleftrightarrow> root_of p1 u s"
    using dsu_find_spec [OF f1(4) y] by blast
  have same: "root_of p2 u s \<longleftrightarrow> root_of p u s" for u s using f1(5) f2(5) by blast
  have rts: "p2 ! rx = rx" "p2 ! ry = ry"
    using root_of_root [of p2] same f1(2) f2(2,5) by blast+
  have ry: "root_of p y ry" using f1(5) f2(2) by blast
  define merged where "merged u v \<longleftrightarrow> same_class p u v \<or> (same_class p u x \<and> same_class p v y) \<or>
      (same_class p u y \<and> same_class p v x)" for u v
  have rhs: "merged u v \<longleftrightarrow> ru = rv \<or> (ru = rx \<and> rv = ry) \<or> (ru = ry \<and> rv = rx)"
    if "root_of p u ru" "root_of p v rv" for u v ru rv
    unfolding merged_def same_class_iff [OF that] same_class_iff [OF that(1) f1(2)]
      same_class_iff [OF that(2) f1(2)] same_class_iff [OF that(1) ry] same_class_iff [OF that(2) ry] ..
  have spec: "same_class (p2[a := b]) u v \<longleftrightarrow> merged u v"
    if ab: "(a = rx \<and> b = ry) \<or> (a = ry \<and> b = rx)" "rx \<noteq> ry" and uv: "u < n" "v < n" for a b u v
  proof -
    obtain ru where ru: "root_of p u ru" using root_exists [OF ok uv(1)] by blast
    obtain rv where rv: "root_of p v rv" using root_exists [OF ok uv(2)] by blast
    have a: "a < n" "p2 ! a = a" "p2 ! b = b" "b \<noteq> a" using ab f1(3) f2(3) rts by auto
    have "same_class (p2[a := b]) u v \<longleftrightarrow> ru = rv \<or> {ru, rv} = {a, b}"
      using link_class [OF f2(4) a(2,1,3,4) uv] ru rv same by blast
    also have "\<dots> \<longleftrightarrow> merged u v" unfolding rhs [OF ru rv] using ab(1) by (auto simp: doubleton_eq_iff)
    finally show ?thesis .
  qed
  have result: thesis if "dsu_unite x y (p, rk) = Some (p', rk')" "dsu_ok n p' rk'"
      "\<And>u v. u < n \<Longrightarrow> v < n \<Longrightarrow> same_class p' u v \<longleftrightarrow> merged u v" for p' rk'
    by (rule goal [OF that(1,2)]) (use that(3) in \<open>simp add: merged_def\<close>)
  consider "rx = ry" | "rx \<noteq> ry" "rk ! rx < rk ! ry" | "rx \<noteq> ry" "rk ! ry < rk ! rx"
    | "rx \<noteq> ry" "rk ! rx = rk ! ry" by linarith
  then show thesis
  proof cases
    case 1
    have "same_class p2 u v \<longleftrightarrow> merged u v" if uv: "u < n" "v < n" for u v
    proof -
      obtain ru where ru: "root_of p u ru" using root_exists [OF ok uv(1)] by blast
      obtain rv where rv: "root_of p v rv" using root_exists [OF ok uv(2)] by blast
      have "same_class p2 u v \<longleftrightarrow> ru = rv" by (rule same_class_iff) (simp_all add: same ru rv)
      then show ?thesis unfolding rhs [OF ru rv] using 1 by blast
    qed
    then show ?thesis using result [of p2 rk] f1(1) f2(1,4) 1 by (simp add: dsu_unite_def)
  next
    case 2
    have "dsu_ok n (p2[rx := ry]) rk" using dsu_ok_link [OF f2(4) f1(3) f2(3)] 2 by simp
    then show ?thesis using result [of "p2[rx := ry]" rk] f1(1) f2(1) 2 spec [of rx ry]
      by (simp add: dsu_unite_def)
  next
    case 3
    have "dsu_ok n (p2[ry := rx]) rk" using dsu_ok_link [OF f2(4) f2(3) f1(3)] 3 by simp
    then show ?thesis using result [of "p2[ry := rx]" rk] f1(1) f2(1) 3 spec [of ry rx]
      by (simp add: dsu_unite_def)
  next
    case 4
    have "dsu_ok n (p2[ry := rx]) (rk[rx := rk ! rx + 1])"
      using dsu_ok_bump [OF f2(4) f1(3) rts(1) f2(3)] 4 by simp
    then show ?thesis using result [of "p2[ry := rx]" "rk[rx := rk ! rx + 1]"] f1(1) f2(1) 4 spec [of ry rx]
      by (simp add: dsu_unite_def)
  qed
qed

section \<open>The classes after all pairs\<close>

lemma sym_closure_insert:
  assumes sym: "sym R" and S: "S = insert (i, j) (insert (j, i) R)"
  shows "(u, v) \<in> S\<^sup>* \<longleftrightarrow>
     (u, v) \<in> R\<^sup>* \<or> ((u, i) \<in> R\<^sup>* \<and> (v, j) \<in> R\<^sup>*) \<or> ((u, j) \<in> R\<^sup>* \<and> (v, i) \<in> R\<^sup>*)"
proof -
  have sub: "(a, b) \<in> S\<^sup>*" if "(a, b) \<in> R\<^sup>*" for a b
    using rtrancl_mono [of R S] that S by blast
  have ij: "(i, j) \<in> S\<^sup>*" "(j, i) \<in> S\<^sup>*" by (rule r_into_rtrancl, simp add: S)+
  have symR: "(b, a) \<in> R\<^sup>*" if "(a, b) \<in> R\<^sup>*" for a b
    using symD [OF sym_rtrancl [OF sym] that] .
  have 1: "(u, v) \<in> S\<^sup>*" if "(u, i) \<in> R\<^sup>*" "(v, j) \<in> R\<^sup>*"
    by (rule rtrancl_trans [OF sub [OF that(1)] rtrancl_trans [OF ij(1) sub [OF symR [OF that(2)]]]])
  have 2: "(u, v) \<in> S\<^sup>*" if "(u, j) \<in> R\<^sup>*" "(v, i) \<in> R\<^sup>*"
    by (rule rtrancl_trans [OF sub [OF that(1)] rtrancl_trans [OF ij(2) sub [OF symR [OF that(2)]]]])
  have 3: "(u, v) \<in> R\<^sup>* \<or> ((u, i) \<in> R\<^sup>* \<and> (v, j) \<in> R\<^sup>*) \<or> ((u, j) \<in> R\<^sup>* \<and> (v, i) \<in> R\<^sup>*)"
    if "(u, v) \<in> S\<^sup>*"
    using that
  proof (induction rule: rtrancl_induct)
    case (step y z)
    consider "(y, z) \<in> R" | "y = i" "z = j" | "y = j" "z = i" using step(2) S by blast
    then show ?case
    proof cases
      case 1
      then have yz: "(a, z) \<in> R\<^sup>*" if "(a, y) \<in> R\<^sup>*" for a by (rule rtrancl_into_rtrancl [OF that])
      have "(z, y) \<in> R\<^sup>*" using 1 symD [OF sym] by blast
      then have zy: "(z, a) \<in> R\<^sup>*" if "(y, a) \<in> R\<^sup>*" for a by (rule rtrancl_trans) (rule that)
      show ?thesis using step.IH yz zy by blast
    next
      case 2
      then have "(u, i) \<in> R\<^sup>* \<or> (u, i) \<in> R\<^sup>* \<and> (i, j) \<in> R\<^sup>* \<or> (u, j) \<in> R\<^sup>*" using step.IH by blast
      then show ?thesis using 2 by blast
    next
      case 3
      then have "(u, j) \<in> R\<^sup>* \<or> (u, i) \<in> R\<^sup>*" using step.IH by blast
      then show ?thesis using 3 by blast
    qed
  qed simp
  show ?thesis using sub 1 2 3 by blast
qed

lemma equiv_insert:
  "(u, v) \<in> (insert (i, j) F \<union> (insert (i, j) F)\<inverse>)\<^sup>* \<longleftrightarrow>
     (u, v) \<in> (F \<union> F\<inverse>)\<^sup>* \<or>
     ((u, i) \<in> (F \<union> F\<inverse>)\<^sup>* \<and> (v, j) \<in> (F \<union> F\<inverse>)\<^sup>*) \<or>
     ((u, j) \<in> (F \<union> F\<inverse>)\<^sup>* \<and> (v, i) \<in> (F \<union> F\<inverse>)\<^sup>*)"
  by (rule sym_closure_insert [OF sym_Un_converse]) auto

lemma unite_pairs_spec:
  assumes ps: "\<forall>(i, j)\<in>set ps. i < n \<and> j < n"
  shows "dsu_ok n p rk \<Longrightarrow>
    (\<And>u v. u < n \<Longrightarrow> v < n \<Longrightarrow> same_class p u v \<longleftrightarrow> (u, v) \<in> (F \<union> F\<inverse>)\<^sup>*) \<Longrightarrow> F \<subseteq> {0..<n} \<times> {0..<n} \<Longrightarrow>
    \<exists>p' rk'. unite_pairs E ps (p, rk) = Some (p', rk') \<and> dsu_ok n p' rk' \<and>
      (\<forall>u<n. \<forall>v<n. same_class p' u v \<longleftrightarrow>
         (u, v) \<in> ((F \<union> {(i, j)\<in>set ps. E i j}) \<union> (F \<union> {(i, j)\<in>set ps. E i j})\<inverse>)\<^sup>*)"
  using ps
proof (induction ps arbitrary: p rk F)
  case Nil
  then show ?case by simp
next
  case (Cons e ps)
  obtain i j where e: "e = (i, j)" by fastforce
  then have ij: "i < n" "j < n" using Cons.prems(4) by auto
  show ?case
  proof (cases "E i j")
    case False
    then have "{(i, j)\<in>set (e # ps). E i j} = {(i, j)\<in>set ps. E i j}" by (auto simp: e)
    then show ?thesis using False Cons.IH [OF Cons.prems(1-3)] Cons.prems(4) by (simp add: e)
  next
    case True
    obtain p1 rk1 where u: "dsu_unite i j (p, rk) = Some (p1, rk1)" "dsu_ok n p1 rk1"
        "\<And>u v. u < n \<Longrightarrow> v < n \<Longrightarrow> same_class p1 u v \<longleftrightarrow>
           same_class p u v \<or> (same_class p u i \<and> same_class p v j) \<or> (same_class p u j \<and> same_class p v i)"
      using dsu_unite_spec [OF Cons.prems(1) ij] by blast
    let ?F = "insert (i, j) F"
    have cl: "same_class p1 u v \<longleftrightarrow> (u, v) \<in> (?F \<union> ?F\<inverse>)\<^sup>*" if uv: "u < n" "v < n" for u v
      unfolding u(3) [OF uv] Cons.prems(2) [OF uv] Cons.prems(2) [OF uv(1) ij(1)]
        Cons.prems(2) [OF uv(2) ij(2)] Cons.prems(2) [OF uv(1) ij(2)] Cons.prems(2) [OF uv(2) ij(1)]
      by (rule equiv_insert [symmetric])
    have "\<exists>p' rk'. unite_pairs E ps (p1, rk1) = Some (p', rk') \<and> dsu_ok n p' rk' \<and>
      (\<forall>u<n. \<forall>v<n. same_class p' u v \<longleftrightarrow>
         (u, v) \<in> ((?F \<union> {(i, j)\<in>set ps. E i j}) \<union> (?F \<union> {(i, j)\<in>set ps. E i j})\<inverse>)\<^sup>*)"
      using Cons.prems(3,4) ij by (intro Cons.IH [OF u(2) cl]) auto
    moreover have "F \<union> {(i, j)\<in>set (e # ps). E i j} = ?F \<union> {(i, j)\<in>set ps. E i j}"
      using True by (auto simp: e)
    ultimately show ?thesis using True u(1) by (simp add: e)
  qed
qed

lemma find_all_spec:
  "dsu_ok n p rk \<Longrightarrow> set idxs \<subseteq> {0..<n} \<Longrightarrow>
   \<exists>rs. find_all p idxs = Some rs \<and> length rs = length idxs \<and> (\<forall>k<length idxs. root_of p (idxs ! k) (rs ! k))"
proof (induction idxs arbitrary: p)
  case (Cons i idxs)
  have i: "i < n" using Cons.prems(2) by simp
  obtain r p' where r: "dsu_find p i = Some (r, p')" "root_of p i r" "dsu_ok n p' rk"
      "\<forall>y s. root_of p' y s \<longleftrightarrow> root_of p y s"
    using dsu_find_spec [OF Cons.prems(1) i] by blast
  obtain rs where rs: "find_all p' idxs = Some rs" "length rs = length idxs"
      "\<forall>k<length idxs. root_of p' (idxs ! k) (rs ! k)"
    using Cons.IH [OF r(3)] Cons.prems(2) by auto
  have "\<forall>k<length (i # idxs). root_of p ((i # idxs) ! k) ((r # rs) ! k)"
    using r(2,4) rs(3) by (auto simp: nth_Cons split: nat.split)
  then show ?case using r(1) rs(1,2) by simp
qed simp

section \<open>The components of the cluster\<close>

lemma pairs_links:
  "{(i, j)\<in>set (pairs_of n [0..<n]). adjacent a i j} \<union> {(i, j)\<in>set (pairs_of n [0..<n]). adjacent a i j}\<inverse> =
     links (adjacent a) n - Id"
proof -
  have "(x, y) \<in> links (adjacent a) n - Id \<longleftrightarrow>
      (x, y) \<in> {(i, j)\<in>set (pairs_of n [0..<n]). adjacent a i j} \<union>
        {(i, j)\<in>set (pairs_of n [0..<n]). adjacent a i j}\<inverse>" for x y
    using adjacent_sym [of a x y] adjacent_sym [of a y x]
    by (cases x y rule: linorder_cases) (auto simp: set_pairs_of links_def)
  then show ?thesis by blast
qed

lemma groups_correct:
  assumes roots: "length roots = n" "\<And>i. i < n \<Longrightarrow> root_of p i (roots ! i)"
    and cl: "\<And>u v. u < n \<Longrightarrow> v < n \<Longrightarrow> same_class p u v \<longleftrightarrow> (u, v) \<in> (links E n)\<^sup>*"
    and keys: "mset keys = mset (remdups roots)"
  shows "are_components E n (map (\<lambda>r. filter (\<lambda>i. roots ! i = r) [0..<n]) keys)"
proof -
  let ?g = "\<lambda>r. filter (\<lambda>i. roots ! i = r) [0..<n]"
  have sk: "set keys = set roots" using keys by (metis set_mset_mset set_remdups)
  have dk: "distinct keys" using keys by (metis distinct_remdups mset_eq_imp_distinct_iff)
  have "distinct (concat (map ?g ks))" if "distinct ks" for ks
    using that by (induction ks) auto
  then have 1: "distinct (concat (map ?g keys))" using dk by blast
  have 2: "set (concat (map ?g keys)) = {0..<n}" using sk roots(1) by auto
  have 3: "[] \<notin> set (map ?g keys)"
  proof
    assume "[] \<in> set (map ?g keys)"
    then obtain r where r: "r \<in> set roots" "?g r = []" using sk by auto
    then obtain i where "i < n" "roots ! i = r" using roots(1) by (auto simp: in_set_conv_nth)
    then have "i \<in> set (?g r)" by simp
    then show False unfolding r(2) by simp
  qed
  have 4: "set c = (links E n)\<^sup>* `` {x}" if c: "c \<in> set (map ?g keys)" and x: "x \<in> set c" for c x
  proof -
    obtain r where r: "c = ?g r" using c by auto
    then have x': "x < n" "roots ! x = r" using x by auto
    have "y \<in> set c \<longleftrightarrow> (x, y) \<in> (links E n)\<^sup>*" for y
    proof (cases "y < n")
      case True
      have "same_class p x y \<longleftrightarrow> roots ! x = roots ! y"
        by (rule same_class_iff [OF roots(2) [OF x'(1)] roots(2) [OF True]])
      then show ?thesis using cl [OF x'(1) True] r x' True by auto
    next
      case False
      then show ?thesis using r links_stay [of x y E n] x'(1) by auto
    qed
    then show ?thesis by blast
  qed
  show ?thesis unfolding are_components_def using 1 2 3 4 by blast
qed

lemma connectedComponents_cluster_correct:
  assumes order: "\<And>xs. mset (order xs) = mset xs"
  obtains cs where "are_components (adjacent a) (length a) cs"
    "connectedComponents_cluster order a = Some \<lparr>totalComponents = length cs,
       componentsList = map (\<lambda>(c, k). \<lparr>transactionList = c, assignedFollower = 0, compid = int k\<rparr>)
         (zip cs [0..<length cs])\<rparr>"
proof -
  let ?n = "length a" and ?E = "adjacent a"
  let ?ps = "pairs_of ?n [0..<?n]"
  have ok: "dsu_ok ?n [0..<?n] (replicate ?n 0)" by (simp add: dsu_ok_def)
  have ini: "same_class [0..<?n] u v \<longleftrightarrow> (u, v) \<in> ({} \<union> {}\<inverse>)\<^sup>*" if "u < ?n" "v < ?n" for u v
    using same_class_iff [OF root_of.here root_of.here, of "[0..<?n]" u v] that by simp
  have b: "\<forall>(i, j)\<in>set ?ps. i < ?n \<and> j < ?n" by (auto simp: set_pairs_of)
  obtain p rk where p: "unite_pairs ?E ?ps ([0..<?n], replicate ?n 0) = Some (p, rk)" "dsu_ok ?n p rk"
      "\<forall>u<?n. \<forall>v<?n. same_class p u v \<longleftrightarrow>
         (u, v) \<in> (({} \<union> {(i, j)\<in>set ?ps. ?E i j}) \<union> ({} \<union> {(i, j)\<in>set ?ps. ?E i j})\<inverse>)\<^sup>*"
    using unite_pairs_spec [OF b ok ini, of ?E] by auto
  have cl: "same_class p u v \<longleftrightarrow> (u, v) \<in> (links ?E ?n)\<^sup>*" if "u < ?n" "v < ?n" for u v
    using p(3) that pairs_links [of ?n a] rtrancl_r_diff_Id [of "links ?E ?n"] by simp
  obtain roots where r: "find_all p [0..<?n] = Some roots" "length roots = ?n"
      "\<forall>k<?n. root_of p ([0..<?n] ! k) (roots ! k)"
    using find_all_spec [OF p(2), of "[0..<?n]"] by auto
  let ?cs = "map (\<lambda>r. filter (\<lambda>i. roots ! i = r) [0..<?n]) (order (remdups roots))"
  have "are_components ?E ?n ?cs"
    using r(3) by (intro groups_correct [OF r(2) _ cl order]) auto
  moreover have "connectedComponents_cluster order a = Some \<lparr>totalComponents = length ?cs,
       componentsList = map (\<lambda>(c, k). \<lparr>transactionList = c, assignedFollower = 0, compid = int k\<rparr>)
         (zip ?cs [0..<length ?cs])\<rparr>"
    using p(1) r(1) by (simp add: connectedComponents_cluster_def Let_def)
  ultimately show thesis by (rule that)
qed

text \<open>Two lists of components of one graph hold the same sets.\<close>

lemma components_unique:
  assumes "are_components E n cs" "are_components E n ds"
  shows "set ` set cs = set ` set ds"
proof -
  have one: "set c \<in> set ` set ds" if cs: "are_components E n cs" and ds: "are_components E n ds"
    and c: "c \<in> set cs" for cs ds and c :: "nat list"
  proof -
    have "c \<noteq> []" using cs c by (auto simp: are_components_def)
    then obtain x where x: "x \<in> set c" by (cases c) auto
    then have "x \<in> set (concat ds)" using cs ds c unfolding are_components_def by (metis UN_I set_concat)
    then obtain d where d: "d \<in> set ds" "x \<in> set d" by auto
    have "set c = set d" using cs ds c x d unfolding are_components_def by metis
    then show ?thesis using d(1) by blast
  qed
  show ?thesis using one [OF assms] one [OF assms(2,1)] by blast
qed

end
