(* ===== verification/Clients.thy ===== *)
theory Clients
  imports Scheduler_Parallel Merkle_Tree
begin

text \<open>
  The clients that turn a command line into a transaction: \<open>processCommand\<close> of \<open>WalletClient\<close>,
  \<open>votingClient\<close>, \<open>eCommClient\<close> and \<open>NFTClient\<close>, in the versions the block producers use
  (\<open>smartContracts/producer\<close> of the cluster, \<open>testBp\<close> of the single nodes).  The theorems tie the
  clients to the processors: which keys a transaction may touch against which keys its header declares.
\<close>

section \<open>Writing a payload\<close>

text \<open>
  The payload is put together by string concatenation.  A member is given with the blanks before its
  name and after its colon, so that the text is the code's to the character.
\<close>

type_synonym member = "string \<times> string \<times> string \<times> string"

definition quoted :: "string \<Rightarrow> string" where
  "quoted s = CHR 0x22 # s @ [CHR 0x22]"

definition member_text :: "member \<Rightarrow> string" where
  "member_text = (\<lambda>(gap, k, gap', v). gap @ quoted k @ CHR '':'' # gap' @ quoted v)"

fun members_text :: "member list \<Rightarrow> string" where
  "members_text [] = []"
| "members_text [m] = member_text m"
| "members_text (m # m' # ms) = member_text m @ CHR '','' # members_text (m' # ms)"

definition object_text :: "member list \<Rightarrow> string" where
  "object_text ms = CHR ''{'' # members_text ms @ ''}''"

section \<open>Building a transaction\<close>

text \<open>\<open>SerializeToString\<close> of a header and the next random number, as text, are parameters.\<close>

type_synonym show_header = "txn_header \<Rightarrow> string option"

text \<open>\<open>commands[i]\<close>: outside the vector it is undefined behaviour.\<close>

definition arg :: "string list \<Rightarrow> nat \<Rightarrow> string outcome" where
  "arg commands i = (if i < length commands then Ret (commands ! i) else Undef)"

fun args :: "string list \<Rightarrow> nat list \<Rightarrow> (string list \<Rightarrow> 'a outcome) \<Rightarrow> 'a outcome" where
  "args commands [] f = f []"
| "args commands (i # is) f = bind_outcome (arg commands i) (\<lambda>x. args commands is (\<lambda>xs. f (x # xs)))"

definition new_header :: "string \<Rightarrow> string \<Rightarrow> string \<Rightarrow> string list \<Rightarrow> string list \<Rightarrow> txn_header" where
  "new_header family client nonce ins outs =
     \<lparr>family_name = family, inputs = ins, client_ID = client, client_nonce = nonce, outputs = outs\<rparr>"

text \<open>A serialisation that fails leaves the header empty; only the wallet client throws then.\<close>

definition new_txn :: "show_header \<Rightarrow> txn_header \<Rightarrow> string \<Rightarrow> transaction" where
  "new_txn sh h payload =
     \<lparr>t_header = (case sh h of Some s \<Rightarrow> s | None \<Rightarrow> []), t_dependencies = [[]], t_payload = payload\<rparr>"

definition new_txn_or_throw :: "show_header \<Rightarrow> txn_header \<Rightarrow> string \<Rightarrow> transaction outcome" where
  "new_txn_or_throw sh h payload =
     (if sh h = None then Throw Runtime_error else Ret (new_txn sh h payload))"

definition empty_payload :: string where
  "empty_payload = object_text [([], ''Verb'', '' '', ''empty'')]"

section \<open>The clients\<close>

definition wallet_client :: "show_header \<Rightarrow> string \<Rightarrow> string list \<Rightarrow> transaction outcome" where
  "wallet_client sh nonce commands =
     bind_outcome (arg commands 1) (\<lambda>c1. bind_outcome (arg commands 2) (\<lambda>c2.
     bind_outcome (arg commands 0) (\<lambda>command.
     let addr1 = ''wallet'' @ c1 @ c2;
         tx = (\<lambda>keys payload. new_txn_or_throw sh (new_header ''wallet'' c1 nonce keys keys) payload)
     in if command = ''deposit'' then
          args commands [3] (\<lambda>xs.
            tx [addr1] (object_text
              [([], ''Verb'', '' '', ''deposit''), ('' '', ''Name'', '' '', addr1),
               ('' '', ''Value'', '' '', xs ! 0)]))
        else if command = ''withdraw'' then
          args commands [3] (\<lambda>xs.
            tx [addr1] (object_text
              [([], ''Verb'', '' '', ''withdraw''), ('' '', ''Name'', '' '', addr1),
               ('' '', ''Value'', '' '', xs ! 0)]))
        else if command = ''transfer'' then
          args commands [3, 4, 5] (\<lambda>xs.
            let addr2 = ''wallet'' @ xs ! 0 @ xs ! 1 in
            tx [addr1, addr2] (object_text
              [([], ''Verb'', '' '', ''transfer''), ('' '', ''Name1'', '' '', addr1),
               ('' '', ''Name2'', '' '', addr2), ('' '', ''Value'', '' '', xs ! 2)]))
        else tx [] empty_payload)))"

text \<open>The cluster's voting client leaves the payload empty on an unknown verb, the single node's does not.\<close>

definition voting_body ::
    "string \<Rightarrow> show_header \<Rightarrow> string \<Rightarrow> string list \<Rightarrow> transaction outcome" where
  "voting_body other sh nonce commands =
     bind_outcome (arg commands 0) (\<lambda>verb.
     let client = (if length commands > 1 then commands ! 1 else ''unknown'');
         tx = (\<lambda>keys payload. Ret (new_txn sh (new_header ''voting'' client nonce keys keys) payload))
     in if verb = ''registerVoter'' then
          args commands [1] (\<lambda>xs.
            let voterKey = ''voter'' @ xs ! 0 in
            tx [voterKey] (object_text [([], ''Verb'', [], ''registerVoter''), ([], ''Name'', [], voterKey)]))
        else if verb = ''registerCandidate'' then
          args commands [1] (\<lambda>xs.
            let candidateKey = ''candidate'' @ xs ! 0 in
            tx [candidateKey] (object_text
              [([], ''Verb'', [], ''registerCandidate''), ([], ''Name'', [], candidateKey)]))
        else if verb = ''transferVote'' then
          args commands [1, 2, 3] (\<lambda>xs.
            let fromKey = ''voter'' @ xs ! 0; toKey = ''voter'' @ xs ! 1 in
            tx [fromKey, toKey] (object_text
              [([], ''Verb'', [], ''transferVote''), ([], ''From'', [], fromKey),
               ([], ''To'', [], toKey), ([], ''Count'', [], xs ! 2)]))
        else if verb = ''castVote'' then
          args commands [1, 2] (\<lambda>xs.
            let voterKey = ''voter'' @ xs ! 0; candidateKey = ''candidate'' @ xs ! 1 in
            tx [voterKey, candidateKey] (object_text
              [([], ''Verb'', [], ''castVote''), ([], ''Voter'', [], voterKey),
               ([], ''Candidate'', [], candidateKey)]))
        else tx [] other)"

definition voting_client :: "show_header \<Rightarrow> string \<Rightarrow> string list \<Rightarrow> transaction outcome" where
  "voting_client = voting_body []"

definition voting_client_single :: "show_header \<Rightarrow> string \<Rightarrow> string list \<Rightarrow> transaction outcome" where
  "voting_client_single = voting_body empty_payload"

text \<open>Every second word of a cart, from the first on.\<close>

fun split_words :: "string list \<Rightarrow> string list \<times> string list" where
  "split_words [] = ([], [])"
| "split_words [x] = ([x], [])"
| "split_words (x # y # zs) = (let (first, second) = split_words zs in (x # first, y # second))"

definition splitString :: "string \<Rightarrow> string list \<times> string list" where
  "splitString str = split_words (getline_all (CHR '' '') str)"

definition ecomm_body ::
    "string \<Rightarrow> (string \<Rightarrow> string) \<Rightarrow> show_header \<Rightarrow> string \<Rightarrow> string list \<Rightarrow> transaction outcome" where
  "ecomm_body other gv sh nonce commands =
     bind_outcome (arg commands 1) (\<lambda>c1. bind_outcome (arg commands 0) (\<lambda>command.
     let tx = (\<lambda>keys payload. Ret (new_txn sh (new_header ''eComm'' c1 nonce keys keys) payload));
         addr1 = ''eComm'' @ c1 @ ''Cart''
     in if command = ''addToCart'' then
          args commands [2, 3] (\<lambda>xs.
            let addr2 = ''eComm'' @ xs ! 0 in
            tx [addr1, addr2] (object_text
              [([], ''Verb'', '' '', ''addToCart''), ('' '', ''Name'', '' '', addr1),
               ([], ''Item'', '' '', addr2), ('' '', ''Value'', '' '', xs ! 1)]))
        else if command = ''removeFromCart'' then
          args commands [2, 3] (\<lambda>xs.
            let addr2 = ''eComm'' @ xs ! 0 in
            tx [addr1, addr2] (object_text
              [([], ''Verb'', '' '', ''removeFromCart''), ('' '', ''Name'', '' '', addr1),
               ([], ''Item'', '' '', addr2), ('' '', ''Value'', '' '', xs ! 1)]))
        else if command = ''checkout'' then
          (let cart = gv addr1; result = splitString cart
           in tx (addr1 # fst result) (object_text
                [([], ''Verb'', '' '', ''checkout''), ('' '', ''Name1'', '' '', addr1)]))
        else if command = ''refillItem'' then
          args commands [2] (\<lambda>xs.
            tx [''eComm'' @ c1] (object_text
              [([], ''Verb'', '' '', ''refillItem''), ('' '', ''Name'', '' '', ''eComm'' @ c1),
               ('' '', ''Value'', '' '', xs ! 0)]))
        else tx [] other))"

definition ecomm_client ::
    "env \<Rightarrow> db \<Rightarrow> show_header \<Rightarrow> string \<Rightarrow> string list \<Rightarrow> transaction outcome" where
  "ecomm_client E m = ecomm_body [] (getValue E m)"

definition ecomm_client_parallel ::
    "env \<Rightarrow> db \<Rightarrow> show_header \<Rightarrow> string \<Rightarrow> string list \<Rightarrow> transaction outcome" where
  "ecomm_client_parallel E m = ecomm_body empty_payload (getValue E m)"

text \<open>The serial node's copy hashes the key and then looks up the key itself.\<close>

definition getValue_raw :: "db \<Rightarrow> string \<Rightarrow> string" where
  "getValue_raw m key = nvalue (getNode m key)"

definition ecomm_client_serial :: "db \<Rightarrow> show_header \<Rightarrow> string \<Rightarrow> string list \<Rightarrow> transaction outcome" where
  "ecomm_client_serial m = ecomm_body empty_payload (getValue_raw m)"

definition nft_client :: "show_header \<Rightarrow> string \<Rightarrow> string list \<Rightarrow> transaction outcome" where
  "nft_client sh nonce commands =
     bind_outcome (arg commands 0) (\<lambda>verb. bind_outcome (arg commands 1) (\<lambda>c1.
     bind_outcome (arg commands 2) (\<lambda>c2.
     let addr1 = ''nft'' @ c1; addr2 = ''nft'' @ c2;
         tx = (\<lambda>ins outs payload. Ret (new_txn sh (new_header ''nft'' c1 nonce ins outs) payload))
     in if verb = ''create'' then
          tx [addr1, addr2] [addr1] (object_text
            [([], ''Verb'', '' '', ''nft_create''), ('' '', ''ImagePath'', '' '', c2),
             ('' '', ''Owner'', '' '', c1)])
        else if verb = ''transfer'' then
          args commands [3] (\<lambda>xs.
            let addr3 = ''nft'' @ xs ! 0 in
            tx [addr1, addr2, addr3] [addr1, addr3] (object_text
              [([], ''Verb'', '' '', ''nft_transfer''), ('' '', ''ImagePath'', '' '', c2),
               ('' '', ''OldOwner'', '' '', c1), ([], ''NewOwner'', '' '', xs ! 0)]))
        else tx [] [] [])))"

section \<open>What a client's transaction may touch\<close>

text \<open>
  What the theorems use of the JSON library: an object of string members, written with blanks
  between them and texts that need no escaping, parses to those members; the empty text does not
  parse.  And of protobuf: a header that was serialised is parsed back.
\<close>

definition blanks :: "string \<Rightarrow> bool" where
  "blanks s \<longleftrightarrow> list_all (\<lambda>c. c = CHR '' '') s"

definition plain :: "string \<Rightarrow> bool" where
  "plain s \<longleftrightarrow> list_all (\<lambda>c. c \<noteq> CHR 0x22 \<and> c \<noteq> CHR 0x5C \<and> 32 \<le> (of_char c :: nat) \<and> (of_char c :: nat) < 127) s"

definition members_of :: "member list \<Rightarrow> (string \<times> string) list" where
  "members_of ms = map (\<lambda>(gap, k, gap', v). (k, v)) ms"

definition good_members :: "member list \<Rightarrow> bool" where
  "good_members ms \<longleftrightarrow> ms \<noteq> [] \<and> distinct (map fst (members_of ms)) \<and>
     list_all (\<lambda>(gap, k, gap', v). blanks gap \<and> plain k \<and> blanks gap' \<and> plain v) ms"

definition json_law :: "codec \<Rightarrow> bool" where
  "json_law C \<longleftrightarrow> jparse C [] = None \<and>
     (\<forall>ms. good_members ms \<longrightarrow>
        (\<exists>xs. jparse C (object_text ms) = Some (JObj xs) \<and>
           map_of xs = map_of (map (apsnd JStr) (members_of ms))))"

definition header_law :: "codec \<Rightarrow> show_header \<Rightarrow> bool" where
  "header_law C sh \<longleftrightarrow> (\<forall>h. \<exists>s. sh h = Some s \<and> parse_header C s = Some h)"

lemma plain_append [simp]: "plain (s @ t) \<longleftrightarrow> plain s \<and> plain t"
  by (simp add: plain_def)

lemma blanks_simps [simp]: "blanks []" "blanks '' ''"
  by (simp_all add: blanks_def)

lemma plain_Nil [simp]: "plain []"
  by (simp add: plain_def)

lemma plain_Cons [simp]:
  "plain (c # s) \<longleftrightarrow> c \<noteq> CHR 0x22 \<and> c \<noteq> CHR 0x5C \<and> 32 \<le> (of_char c :: nat) \<and> (of_char c :: nat) < 127 \<and> plain s"
  by (simp add: plain_def)

lemma map_of_JStr: "map_of (map (apsnd JStr) xs) k = map_option JStr (map_of xs k)"
  by (induction xs) auto

lemma client_payload:
  assumes "json_law C" "good_members ms"
  obtains p where "jparse C (object_text ms) = Some p"
    and "\<And>k v. jfield p k = Ret v \<longleftrightarrow> map_of (members_of ms) k = Some v"
proof -
  obtain xs where xs: "jparse C (object_text ms) = Some (JObj xs)"
    "map_of xs = map_of (map (apsnd JStr) (members_of ms))"
    using assms by (auto simp: json_law_def)
  have "jfield (JObj xs) k = Ret v \<longleftrightarrow> map_of (members_of ms) k = Some v" for k v
    by (auto simp: jfield_Ret_iff xs(2) map_of_JStr)
  then show thesis using that xs(1) by blast
qed

lemma client_keys:
  assumes "json_law C" "good_members ms"
  shows "txn_keys C fs (new_txn sh h (object_text ms)) = {v. \<exists>f\<in>set fs. map_of (members_of ms) f = Some v}"
proof -
  obtain p where p: "jparse C (object_text ms) = Some p"
    "\<And>k v. jfield p k = Ret v \<longleftrightarrow> map_of (members_of ms) k = Some v"
    using client_payload [OF assms] by blast
  show ?thesis by (simp add: txn_keys_def new_txn_def named_keys_def p)
qed

lemma client_header:
  assumes "header_law C sh"
  shows "parse_header C (t_header (new_txn sh h p)) = Some h"
proof -
  obtain s where "sh h = Some s" "parse_header C s = Some h" using assms by (auto simp: header_law_def)
  then show ?thesis by (simp add: new_txn_def)
qed

lemma client_declares:
  assumes "json_law C" "header_law C sh" "good_members ms"
  shows "declares C (new_txn sh h (object_text ms)) \<longleftrightarrow>
    {v. \<exists>f\<in>set all_fields. map_of (members_of ms) f = Some v} \<subseteq> set (outputs h)"
  by (simp add: declares_def client_header [OF assms(2)] client_keys [OF assms(1,3)])

lemma client_declares_nothing:
  assumes "json_law C" "header_law C sh"
  shows "declares C (new_txn sh h [])"
  using assms(1)
  by (simp add: declares_def client_header [OF assms(2)]) (simp add: txn_keys_def new_txn_def json_law_def)

lemmas declaresI = client_declares [THEN iffD2]

lemma new_header_simps [simp]:
  "outputs (new_header f c n i o') = o'" "inputs (new_header f c n i o') = i"
  "family_name (new_header f c n i o') = f"
  by (simp_all add: new_header_def)

lemmas client_fields = all_fields_def wallet_fields_def voting_fields_def ecomm_fields_def nft_fields_def
  members_of_def good_members_def

lemma args_Ret [simp]:
  "args commands is f = Ret y \<longleftrightarrow> (\<forall>i\<in>set is. i < length commands) \<and> f (map ((!) commands) is) = Ret y"
  by (induction "is" arbitrary: f) (auto simp: arg_def bind_outcome_Ret_iff)

lemma arg_Ret [simp]: "arg commands i = Ret x \<longleftrightarrow> i < length commands \<and> x = commands ! i"
  by (auto simp: arg_def)

text \<open>The wallet, voting and e-commerce clients declare every key the processor may touch.\<close>

lemma wallet_declares:
  assumes "json_law C" "header_law C sh" "list_all plain commands" "wallet_client sh nonce commands = Ret t"
  shows "declares C t"
proof -
  have pl: "plain (commands ! i)" if "i < length commands" for i using assms(3) that by (simp add: list_all_length)
  show ?thesis using assms(4)
    by (auto simp: wallet_client_def bind_outcome_Ret_iff Let_def new_txn_or_throw_def empty_payload_def
        client_fields pl split: if_splits intro!: declaresI [OF assms(1,2)])
qed

lemma voting_declares:
  assumes "json_law C" "header_law C sh" "list_all plain commands" "voting_client sh nonce commands = Ret t"
  shows "declares C t"
proof -
  have pl: "plain (commands ! i)" if "i < length commands" for i using assms(3) that by (simp add: list_all_length)
  show ?thesis using assms(4)
    by (auto simp: voting_client_def voting_body_def bind_outcome_Ret_iff Let_def client_fields pl
        client_declares_nothing [OF assms(1,2)] split: if_splits intro!: declaresI [OF assms(1,2)])
qed

lemma voting_single_declares:
  assumes "json_law C" "header_law C sh" "list_all plain commands"
    and "voting_client_single sh nonce commands = Ret t"
  shows "declares C t"
proof -
  have pl: "plain (commands ! i)" if "i < length commands" for i using assms(3) that by (simp add: list_all_length)
  show ?thesis using assms(4)
    by (auto simp: voting_client_single_def voting_body_def bind_outcome_Ret_iff Let_def client_fields pl
        empty_payload_def split: if_splits intro!: declaresI [OF assms(1,2)])
qed

lemma ecomm_body_declares:
  assumes "json_law C" "header_law C sh" "list_all plain commands"
    and "other = [] \<or> other = empty_payload" and "ecomm_body other gv sh nonce commands = Ret t"
  shows "declares C t"
proof -
  have pl: "plain (commands ! i)" if "i < length commands" for i using assms(3) that by (simp add: list_all_length)
  show ?thesis using assms(4,5)
    by (auto simp: ecomm_body_def bind_outcome_Ret_iff Let_def client_fields pl empty_payload_def
        client_declares_nothing [OF assms(1,2)] split: if_splits intro!: declaresI [OF assms(1,2)])
qed

lemma ecomm_declares:
  "json_law C \<Longrightarrow> header_law C sh \<Longrightarrow> list_all plain commands \<Longrightarrow>
   ecomm_client E m sh nonce commands = Ret t \<Longrightarrow> declares C t"
  "json_law C \<Longrightarrow> header_law C sh \<Longrightarrow> list_all plain commands \<Longrightarrow>
   ecomm_client_parallel E m sh nonce commands = Ret t \<Longrightarrow> declares C t"
  "json_law C \<Longrightarrow> header_law C sh \<Longrightarrow> list_all plain commands \<Longrightarrow>
   ecomm_client_serial m sh nonce commands = Ret t \<Longrightarrow> declares C t"
  using ecomm_body_declares
  by (metis ecomm_client_def, metis ecomm_client_parallel_def, metis ecomm_client_serial_def)

text \<open>
  The NFT client declares \<open>"nft" + owner\<close>, but the processor files the list under \<open>owner\<close>: what it
  declares is never what is touched.
\<close>

lemma nft_not_declared:
  assumes "json_law C" "header_law C sh" "list_all plain commands" "nft_client sh nonce commands = Ret t"
    and "commands ! 0 = ''create'' \<or> commands ! 0 = ''transfer''"
  shows "\<not> declares C t"
proof -
  have pl: "plain (commands ! i)" if "i < length commands" for i using assms(3) that by (simp add: list_all_length)
  note d = client_declares [OF assms(1,2)]
  have longer: "\<not> {a, b} \<subseteq> {''nft'' @ a, ''nft'' @ b}" for a b :: string
  proof
    assume "{a, b} \<subseteq> {''nft'' @ a, ''nft'' @ b}"
    then have a: "a = ''nft'' @ a \<or> a = ''nft'' @ b" and b: "b = ''nft'' @ a \<or> b = ''nft'' @ b" by blast+
    have "length a = length (''nft'' @ a) \<or> length a = length (''nft'' @ b)"
      using a by (elim disjE) (rule disjI1, erule arg_cong, rule disjI2, erule arg_cong)
    moreover have "length b = length (''nft'' @ a) \<or> length b = length (''nft'' @ b)"
      using b by (elim disjE) (rule disjI1, erule arg_cong, rule disjI2, erule arg_cong)
    ultimately show False by auto
  qed
  have len: "2 < length commands"
    using assms(4) by (auto simp: nft_client_def bind_outcome_Ret_iff)
  show ?thesis
  proof (cases "commands ! 0 = ''create''")
    case True
    then show ?thesis using assms(4) len
      by (auto simp: nft_client_def bind_outcome_Ret_iff Let_def client_fields pl d)
  next
    case False
    let ?ms = "[([], ''Verb'', '' '', ''nft_transfer''), ('' '', ''ImagePath'', '' '', commands ! 2),
      ('' '', ''OldOwner'', '' '', commands ! 1), ([], ''NewOwner'', '' '', commands ! 3)]"
    obtain h where t: "t = new_txn sh h (object_text ?ms)" "3 < length commands"
      and out: "outputs h = [''nft'' @ commands ! 1, ''nft'' @ commands ! 3]"
      using assms(4,5) False len by (auto simp: nft_client_def bind_outcome_Ret_iff Let_def)
    have g: "good_members ?ms" using t(2) len by (simp add: good_members_def members_of_def pl)
    have sub: "{commands ! 1, commands ! 3} \<subseteq> {v. \<exists>f\<in>set all_fields. map_of (members_of ?ms) f = Some v}"
      by (simp add: client_fields)
    show ?thesis
      unfolding t(1) d [OF g] out list.set
      using longer [of "commands ! 1" "commands ! 3"] order.trans [OF sub] by blast
  qed
qed

text \<open>Still the names correspond, so two NFT transactions that share an owner share a declared key.\<close>

definition nft_touched :: "codec \<Rightarrow> transaction \<Rightarrow> string set" where
  "nft_touched C t = txn_keys C nft_fields t"

lemma nft_outputs:
  assumes "json_law C" "header_law C sh" "list_all plain commands" "nft_client sh nonce commands = Ret t"
  shows "\<exists>h. parse_header C (t_header t) = Some h \<and> (@) ''nft'' ` nft_touched C t \<subseteq> set (outputs h)"
proof -
  have pl: "plain (commands ! i)" if "i < length commands" for i using assms(3) that by (simp add: list_all_length)
  have none: "txn_keys C fs (new_txn sh h []) = {}" for fs h
    using assms(1) by (simp add: txn_keys_def new_txn_def json_law_def)
  note k = client_keys [OF assms(1)] client_header [OF assms(2)]
  show ?thesis using assms(4)
    by (auto simp: nft_client_def bind_outcome_Ret_iff Let_def client_fields pl k none nft_touched_def
        split: if_splits)
qed

end
