(* ===== verification/Block_Store.thy ===== *)
theory Block_Store
  imports Payload Merkle_Tree
begin

text \<open>
  The store of blocks, \<open>blocksDB\<close> of \<open>blocksDB/blocksDB.h\<close>: a RocksDB of its own with one entry for
  each block (\<open>B<n>\<close>) and the entry \<open>LatestBlock\<close>.  The protobuf encodings of blocks are parameters,
  gathered in \<open>block_codec\<close>; \<open>None\<close> of a \<open>show\<close> function is a failed \<open>SerializeToString\<close>, which
  leaves the target empty.
\<close>

section \<open>Encodings\<close>

record block_codec =
  show_block_header :: "block_header \<Rightarrow> string option"
  parse_block_header :: "string \<Rightarrow> block_header option"
  show_block :: "block \<Rightarrow> string option"
  parse_block :: "string \<Rightarrow> block option"
  parse_txn :: "string \<Rightarrow> transaction option"

text \<open>What protobuf promises: what it serialises it parses back to the same message.\<close>

definition codec_ok :: "block_codec \<Rightarrow> bool" where
  "codec_ok K \<longleftrightarrow>
     (\<forall>h. \<exists>s. show_block_header K h = Some s \<and> parse_block_header K s = Some h) \<and>
     (\<forall>b. \<exists>s. show_block K b = Some s \<and> parse_block K s = Some b)"

definition serialized :: "string option \<Rightarrow> string" where
  "serialized r = (case r of Some s \<Rightarrow> s | None \<Rightarrow> [])"

definition empty_header :: block_header where
  "empty_header = \<lparr>block_num = 0, previous_block_id = [], transaction_ids = [], state_root_hash = [],
     timestamp = 0\<rparr>"

definition empty_block :: block where
  "empty_block = \<lparr>b_header = [], b_transactions = [], block_hash = []\<rparr>"

lemma codec_ok_header:
  "codec_ok K \<Longrightarrow> parse_block_header K (serialized (show_block_header K h)) = Some h"
  "codec_ok K \<Longrightarrow> show_block_header K h = Some (serialized (show_block_header K h))"
  unfolding codec_ok_def serialized_def by (metis option.simps(5))+

lemma codec_ok_block:
  "codec_ok K \<Longrightarrow> parse_block K (serialized (show_block K b)) = Some b"
  "codec_ok K \<Longrightarrow> show_block K b = Some (serialized (show_block K b))"
  unfolding codec_ok_def serialized_def by (metis option.simps(5))+

section \<open>The operations\<close>

definition latest_key :: string where
  "latest_key = ''LatestBlock''"

text \<open>\<open>None\<close>: one of the assertions on the status of a write aborts the process.\<close>

definition createGenesisBlock :: "env \<Rightarrow> block_codec \<Rightarrow> db \<Rightarrow> db option" where
  "createGenesisBlock E K m =
     (case m latest_key of
        Some latestBlock \<Rightarrow> Some m
      | None \<Rightarrow>
          (let blockHeader = empty_header\<lparr>block_num := 0, previous_block_id := [], state_root_hash := []\<rparr>;
               serializedHeader = serialized (show_block_header K blockHeader);
               genesisBlock = empty_block\<lparr>b_header := serializedHeader, b_transactions := []\<rparr>;
               serializedBlock = serialized (show_block K genesisBlock);
               (ok1, m1) = put E m ''B0'' serializedBlock
           in if \<not> ok1 then None
              else (let (ok2, m2) = put E m1 latest_key ''B0'' in if ok2 then Some m2 else None)))"

text \<open>The status of the first write is overwritten by that of the second.\<close>

definition storeBlock :: "env \<Rightarrow> string \<Rightarrow> string \<Rightarrow> db \<Rightarrow> bool \<times> db" where
  "storeBlock E blockID blockData m =
     (let (status, m1) = put E m latest_key blockID in put E m1 blockID blockData)"

definition storePendingBlock :: "env \<Rightarrow> string \<Rightarrow> string \<Rightarrow> db \<Rightarrow> bool \<times> db" where
  "storePendingBlock E blockID blockData m = put E m blockID blockData"

definition getBlock :: "string \<Rightarrow> db \<Rightarrow> string" where
  "getBlock blockID m = (case m blockID of Some blockData \<Rightarrow> blockData | None \<Rightarrow> ''error getting block'')"

definition getLatestBlockNum :: "db \<Rightarrow> string" where
  "getLatestBlockNum m = (case m latest_key of Some blockNum \<Rightarrow> blockNum | None \<Rightarrow> ''error getting block Num'')"

text \<open>\<open>destroyDB\<close> deletes the files: the store is empty the next time it is opened.\<close>

definition destroyDB :: "db \<Rightarrow> db" where
  "destroyDB m = Map.empty"

section \<open>What they do\<close>

definition block_key :: "int \<Rightarrow> string" where
  "block_key n = CHR ''B'' # to_string n"

lemma block_key_neq_latest [simp]: "block_key n \<noteq> latest_key" "latest_key \<noteq> block_key n"
  by (simp_all add: block_key_def latest_key_def)

lemma block_key_inj [simp]: "block_key m = block_key n \<longleftrightarrow> m = n"
  by (simp add: block_key_def to_string_inj)

lemma put_lawful: "lawful E \<Longrightarrow> put E m k v = (True, m(k \<mapsto> v))"
  by (simp add: lawful_def put_ok_def)

lemma storeBlock_eq:
  "lawful E \<Longrightarrow> storeBlock E k v m = (True, m(latest_key \<mapsto> k, k \<mapsto> v))"
  by (simp add: storeBlock_def put_lawful)

lemma storeBlock_latest:
  "lawful E \<Longrightarrow> k \<noteq> latest_key \<Longrightarrow> getLatestBlockNum (snd (storeBlock E k v m)) = k"
  by (simp add: storeBlock_eq getLatestBlockNum_def)

lemma storeBlock_get:
  "lawful E \<Longrightarrow> getBlock k (snd (storeBlock E k v m)) = v"
  by (simp add: storeBlock_eq getBlock_def)

lemma storeBlock_other:
  "lawful E \<Longrightarrow> k' \<noteq> k \<Longrightarrow> k' \<noteq> latest_key \<Longrightarrow> getBlock k' (snd (storeBlock E k v m)) = getBlock k' m"
  by (simp add: storeBlock_eq getBlock_def)

text \<open>A block is never the empty string, so a caller's test for an empty answer never fires on a missing one.\<close>

lemma getBlock_missing: "m k = None \<Longrightarrow> getBlock k m \<noteq> []"
  by (simp add: getBlock_def)

lemma genesis_twice:
  "createGenesisBlock E K m = Some m' \<Longrightarrow> lawful E \<Longrightarrow> createGenesisBlock E K m' = Some m'"
  by (auto simp: createGenesisBlock_def put_lawful Let_def split: option.splits)

lemma block_key_0: "block_key 0 = ''B0''"
  by code_simp

lemma genesis_latest:
  "createGenesisBlock E K m = Some m' \<Longrightarrow> lawful E \<Longrightarrow> m latest_key = None \<Longrightarrow>
     getLatestBlockNum m' = block_key 0"
  by (auto simp: createGenesisBlock_def put_lawful Let_def getLatestBlockNum_def block_key_0)

end
