(* ===== verification/Block_Producer.thy ===== *)
theory Block_Producer
  imports Block_Store
begin

text \<open>
  Building blocks: \<open>blockProducer\<close> of \<open>blockProducer/blockProducer.h\<close> (single node and cluster) and of
  \<open>blockProducer.cpp\<close>.  The Kafka client is a parameter: which configuration calls succeed and what
  each poll returns.  The second half is about the chain the producer builds together with the store:
  the numbers of successive blocks, and the hash of its predecessor that each block carries.
\<close>

section \<open>Polling the transaction pool\<close>

datatype poll_result = No_message | Message_error | Message string

record kafka =
  conf_set :: "string \<Rightarrow> string \<Rightarrow> bool"
  new_consumer :: bool
  subscribe :: "string \<Rightarrow> bool"
  poll :: "nat \<Rightarrow> poll_result"

definition kafka_setup :: "kafka \<Rightarrow> string \<Rightarrow> string \<Rightarrow> unit outcome" where
  "kafka_setup q brokers topicName =
     (if \<not> conf_set q ''auto.offset.reset'' ''earliest'' then Throw Runtime_error
      else if \<not> conf_set q ''group.id'' ''block_producer_group'' then Throw Runtime_error
      else if \<not> conf_set q ''bootstrap.servers'' brokers then Throw Runtime_error
      else if \<not> conf_set q ''enable.auto.commit'' ''true'' then Throw Runtime_error
      else if \<not> new_consumer q then Throw Runtime_error
      else if \<not> subscribe q topicName then Throw Runtime_error
      else Ret ())"

text \<open>\<open>left\<close> counts the iterations that remain, so that poll number \<open>i\<close> belongs to \<open>i + left = MAX_TXNS_PER_BLOCK\<close>.\<close>

fun poll_loop :: "block_codec \<Rightarrow> kafka \<Rightarrow> nat \<Rightarrow> nat \<Rightarrow> nat \<Rightarrow> transaction list \<Rightarrow> transaction list" where
  "poll_loop K q mx i 0 pending = pending"
| "poll_loop K q mx i (Suc left) pending =
     (case poll q i of
        No_message \<Rightarrow> pending
      | Message_error \<Rightarrow> poll_loop K q mx (Suc i) left pending
      | Message payload \<Rightarrow>
          (case parse_txn K payload of
             None \<Rightarrow> poll_loop K q mx (Suc i) left pending
           | Some txn \<Rightarrow>
               (let pending' = pending @ [txn]
                in if length pending' \<ge> mx then pending'
                   else poll_loop K q mx (Suc i) left pending')))"

text \<open>The conversions of an \<open>int\<close> to \<open>size_t\<close> and to the \<open>uint64\<close> field \<open>block_num\<close>.\<close>

definition to_uint64 :: "int \<Rightarrow> nat" where
  "to_uint64 i = nat (i mod 18446744073709551616)"

definition fetch_txns :: "block_codec \<Rightarrow> kafka \<Rightarrow> int \<Rightarrow> transaction list" where
  "fetch_txns K q txnCount = (let mx = to_uint64 txnCount in poll_loop K q mx 0 mx [])"

section \<open>Building the block\<close>

definition last_block_num :: "string \<Rightarrow> int" where
  "last_block_num s =
     (if length s > 1 \<and> s ! 0 = CHR ''B'' then (case stoi (tl s) of Ret n \<Rightarrow> n | _ \<Rightarrow> 0) else 0)"

definition computeSHA256 :: "env \<Rightarrow> string \<Rightarrow> string" where
  "computeSHA256 E s = concat (map hex_byte (sha256 E s))"

definition previous_hash :: "env \<Rightarrow> int \<Rightarrow> db \<Rightarrow> string" where
  "previous_hash E lastBlockNum m =
     (if lastBlockNum > 0 then
        (let previousBlockSerialized = getBlock (CHR ''B'' # to_string lastBlockNum) m
         in if previousBlockSerialized \<noteq> [] then computeSHA256 E previousBlockSerialized else [])
      else ''0'')"

definition header_for :: "string \<Rightarrow> int \<Rightarrow> int \<Rightarrow> block_header" where
  "header_for root now newBlockNum =
     empty_header\<lparr>timestamp := now, previous_block_id := root, block_num := to_uint64 newBlockNum\<rparr>"

text \<open>
  \<open>state\<close> is what is on disk of the state tree; the constructor of \<open>GlobalState\<close> may add a root node.
  \<open>now\<close> is the clock.
\<close>

definition blockProducer ::
    "env \<Rightarrow> block_codec \<Rightarrow> kafka \<Rightarrow> int \<Rightarrow> db \<Rightarrow> db \<Rightarrow> int \<Rightarrow> string \<Rightarrow> string \<Rightarrow> block outcome" where
  "blockProducer E K q now state blocks txnCount brokers topicName =
     bind_outcome (kafka_setup q brokers topicName) (\<lambda>_.
     let pendingTransactions = fetch_txns K q txnCount in
     bind_outcome (open_state E False state) (\<lambda>globalState.
     let lastBlockNum = last_block_num (getLatestBlockNum blocks) in
     bind_outcome (add_int lastBlockNum 1) (\<lambda>newBlockNum.
     case show_block_header K (header_for (getRootHash globalState) now newBlockNum) of
       None \<Rightarrow> Throw Runtime_error
     | Some serializedHeader \<Rightarrow>
         Ret \<lparr>b_header = serializedHeader, b_transactions = pendingTransactions,
              block_hash = previous_hash E lastBlockNum blocks\<rparr>)))"

text \<open>The single-node version takes the root hash of the open global state.\<close>

definition blockProducer_single ::
    "env \<Rightarrow> block_codec \<Rightarrow> kafka \<Rightarrow> int \<Rightarrow> db \<Rightarrow> db \<Rightarrow> int \<Rightarrow> string \<Rightarrow> string \<Rightarrow> block outcome" where
  "blockProducer_single E K q now state blocks txnCount brokers topicName =
     bind_outcome (kafka_setup q brokers topicName) (\<lambda>_.
     let pendingTransactions = fetch_txns K q txnCount;
         lastBlockNum = last_block_num (getLatestBlockNum blocks) in
     bind_outcome (add_int lastBlockNum 1) (\<lambda>newBlockNum.
     case show_block_header K (header_for (getRootHash state) now newBlockNum) of
       None \<Rightarrow> Throw Runtime_error
     | Some serializedHeader \<Rightarrow>
         Ret \<lparr>b_header = serializedHeader, b_transactions = pendingTransactions,
              block_hash = previous_hash E lastBlockNum blocks\<rparr>))"

text \<open>The stand-alone version takes at most five transactions, insists on one, and sets no hash.\<close>

definition blockProducer_alone ::
    "env \<Rightarrow> block_codec \<Rightarrow> kafka \<Rightarrow> int \<Rightarrow> db \<Rightarrow> db \<Rightarrow> string \<Rightarrow> string \<Rightarrow> block outcome" where
  "blockProducer_alone E K q now state blocks brokers topicName =
     bind_outcome (kafka_setup q brokers topicName) (\<lambda>_.
     let pendingTransactions = fetch_txns K q 5 in
     if pendingTransactions = [] then Throw Runtime_error
     else
       bind_outcome (open_state E False state) (\<lambda>globalState.
       let lastBlockNum = last_block_num (getLatestBlockNum blocks) in
       bind_outcome (add_int lastBlockNum 1) (\<lambda>newBlockNum.
       case show_block_header K (header_for (getRootHash globalState) now newBlockNum) of
         None \<Rightarrow> Throw Runtime_error
       | Some serializedHeader \<Rightarrow>
           Ret \<lparr>b_header = serializedHeader, b_transactions = pendingTransactions, block_hash = []\<rparr>)))"

section \<open>Facts\<close>

lemma to_uint64_id: "0 \<le> i \<Longrightarrow> in_int i \<Longrightarrow> to_uint64 i = nat i"
  by (simp add: to_uint64_def in_int_def)

lemma last_block_num_key: "in_int n \<Longrightarrow> last_block_num (block_key n) = n"
  by (simp add: last_block_num_def block_key_def)

lemma last_block_num_missing: "last_block_num ''error getting block Num'' = 0"
  by (simp add: last_block_num_def)

text \<open>What the loop fetches: the transactions of the polls before the first empty one.\<close>

definition parsed :: "block_codec \<Rightarrow> poll_result \<Rightarrow> transaction list" where
  "parsed K r = (case r of Message p \<Rightarrow> (case parse_txn K p of Some t \<Rightarrow> [t] | None \<Rightarrow> []) | _ \<Rightarrow> [])"

lemma poll_loop_spec:
  "length pending + left \<le> mx \<Longrightarrow> pending = [] \<or> length pending < mx \<Longrightarrow>
   poll_loop K q mx i left pending =
     pending @ concat (map (parsed K) (takeWhile (\<lambda>r. r \<noteq> No_message) (map (poll q) [i..<i + left])))"
proof (induction left arbitrary: i pending)
  case (Suc left)
  have up: "[i..<Suc (i + left)] = i # [Suc i..<Suc (i + left)]" by (simp add: upt_conv_Cons del: upt_Suc)
  note step = up parsed_def
  show ?case
  proof (cases "poll q i")
    case (Message p)
    show ?thesis
    proof (cases "parse_txn K p")
      case (Some t)
      show ?thesis
      proof (cases "length (pending @ [t]) \<ge> mx")
        case True
        then have "left = 0" using Suc.prems(1) by simp
        then show ?thesis using True Message Some by (simp add: parsed_def)
      next
        case False
        then show ?thesis using Message Some Suc.IH [of "pending @ [t]" "Suc i"] Suc.prems
          by (simp add: step Let_def del: upt_Suc)
      qed
    qed (use Message Suc.IH [of pending "Suc i"] Suc.prems in \<open>simp add: step del: upt_Suc\<close>)
  qed (use Suc.IH [of pending "Suc i"] Suc.prems in \<open>simp_all add: step del: upt_Suc\<close>)
qed simp

lemma fetch_txns_spec:
  "fetch_txns K q n = concat (map (parsed K) (takeWhile (\<lambda>r. r \<noteq> No_message) (map (poll q) [0..<to_uint64 n])))"
  by (simp add: fetch_txns_def poll_loop_spec)

lemma length_parsed: "length (concat (map (parsed K) rs)) \<le> length rs"
  by (induction rs) (auto simp: parsed_def split: poll_result.splits option.splits)

lemma fetch_txns_bound: "length (fetch_txns K q n) \<le> to_uint64 n"
  unfolding fetch_txns_spec
  by (rule order.trans [OF length_parsed]) (metis length_map length_takeWhile_le length_upt minus_nat.diff_0)

end
