(* ===== verification/Block_Chain.thy ===== *)
theory Block_Chain
  imports Block_Producer
begin

text \<open>
  The chain that a producer and the block store build together: a round produces a block from the
  store and files it under its number, as the main loops of the nodes do.  The contract of a producer
  is a locale; what follows from it (consecutive numbers, no block overwritten, each block carrying
  the hash of the stored text of its predecessor) is proved once and holds for every producer of the
  program that is interpreted here or in \<open>Test_Producer\<close>.
\<close>

section \<open>Filing a block\<close>

text \<open>
  The node serialises the block, parses its header and stores under \<open>"B" + to_string(block_num)\<close>.  A
  header that does not parse ends the program: \<open>Runtime_error\<close> here.
\<close>

definition file_block :: "env \<Rightarrow> block_codec \<Rightarrow> block \<Rightarrow> db \<Rightarrow> db outcome" where
  "file_block E K newBlock m =
     (let serializedBlock = serialized (show_block K newBlock)
      in case parse_block_header K (b_header newBlock) of
           None \<Rightarrow> Throw Runtime_error
         | Some header \<Rightarrow>
             Ret (snd (storeBlock E (CHR ''B'' # to_string (int (block_num header))) serializedBlock m)))"

text \<open>Block \<open>n\<close> of the store is \<open>b\<close>.\<close>

definition has_block :: "block_codec \<Rightarrow> db \<Rightarrow> int \<Rightarrow> block \<Rightarrow> bool" where
  "has_block K m n b \<longleftrightarrow>
     m (block_key n) = Some (serialized (show_block K b)) \<and>
     parse_block K (serialized (show_block K b)) = Some b \<and>
     map_option block_num (parse_block_header K (b_header b)) = Some (nat n)"

abbreviation height :: "db \<Rightarrow> int" where
  "height m \<equiv> last_block_num (getLatestBlockNum m)"

definition filed :: "db \<Rightarrow> int \<Rightarrow> string \<Rightarrow> db" where
  "filed m n d = m(latest_key \<mapsto> block_key n, block_key n \<mapsto> d)"

lemma filed_simps [simp]:
  "filed m n d (block_key k) = (if k = n then Some d else m (block_key k))"
  "getLatestBlockNum (filed m n d) = block_key n"
  by (simp_all add: filed_def getLatestBlockNum_def)

lemma height_filed: "in_int n \<Longrightarrow> height (filed m n d) = n"
  by (simp add: last_block_num_key)

lemma file_block_eq:
  assumes "lawful E" "parse_block_header K (b_header b) = Some h" "block_num h = nat n" "0 \<le> n"
  shows "file_block E K b m = Ret (filed m n (serialized (show_block K b)))"
  using assms storeBlock_eq [OF assms(1)] by (simp add: file_block_def filed_def block_key_def Let_def)

section \<open>The contract of a producer\<close>

text \<open>\<open>max_num\<close> is \<open>INT_MAX\<close>: beyond it the next number overflows.\<close>

abbreviation max_num :: int where
  "max_num \<equiv> 2147483647"

locale block_source =
  fixes E :: env and K :: block_codec
    and produce :: "'i \<Rightarrow> db \<Rightarrow> block outcome" and ready :: "'i \<Rightarrow> bool"
  assumes next_number: "lawful E \<Longrightarrow> codec_ok K \<Longrightarrow> ready i \<Longrightarrow> 0 \<le> height m \<Longrightarrow> height m < max_num \<Longrightarrow>
    \<exists>b. produce i m = Ret b \<and>
      map_option block_num (parse_block_header K (b_header b)) = Some (nat (height m + 1))"
begin

fun rounds :: "'i list \<Rightarrow> db \<Rightarrow> db outcome" where
  "rounds [] m = Ret m"
| "rounds (i # is) m =
     bind_outcome (produce i m) (\<lambda>b. bind_outcome (file_block E K b m) (rounds is))"

lemma one_round:
  assumes "lawful E" "codec_ok K" "ready i" "0 \<le> height m" "height m < max_num"
  obtains b where "produce i m = Ret b"
    and "file_block E K b m = Ret (filed m (height m + 1) (serialized (show_block K b)))"
    and "map_option block_num (parse_block_header K (b_header b)) = Some (nat (height m + 1))"
proof -
  obtain b where b: "produce i m = Ret b"
    "map_option block_num (parse_block_header K (b_header b)) = Some (nat (height m + 1))"
    using next_number [OF assms] by blast
  then obtain h where "parse_block_header K (b_header b) = Some h" "block_num h = nat (height m + 1)"
    by auto
  then show thesis using that [OF b(1) _ b(2)] file_block_eq [OF assms(1)] assms(4) by simp
qed

text \<open>Successive rounds number their blocks consecutively and overwrite nothing.\<close>

lemma rounds_number:
  assumes "lawful E" "codec_ok K" "\<forall>i\<in>set is. ready i" "0 \<le> height m" "height m + int (length is) \<le> max_num"
  shows "\<exists>m'. rounds is m = Ret m' \<and> height m' = height m + int (length is) \<and>
    (\<forall>n. height m < n \<and> n \<le> height m' \<longrightarrow> (\<exists>b. has_block K m' n b)) \<and>
    (\<forall>n\<le>height m. m' (block_key n) = m (block_key n))"
  using assms(3-)
proof (induction "is" arbitrary: m)
  case (Cons i "is")
  let ?n = "height m + 1"
  obtain b where b: "produce i m = Ret b"
    "file_block E K b m = Ret (filed m ?n (serialized (show_block K b)))"
    "map_option block_num (parse_block_header K (b_header b)) = Some (nat ?n)"
    by (rule one_round [OF assms(1,2), of i m]) (use Cons.prems in auto)
  let ?m = "filed m ?n (serialized (show_block K b))"
  have "in_int ?n" using Cons.prems by (simp add: in_int_def)
  then have h: "height ?m = ?n" by (rule height_filed)
  obtain m' where m': "rounds is ?m = Ret m'" "height m' = ?n + int (length is)"
    "\<forall>n. ?n < n \<and> n \<le> height m' \<longrightarrow> (\<exists>b. has_block K m' n b)"
    "\<forall>n\<le>?n. m' (block_key n) = ?m (block_key n)"
    using Cons.IH [of ?m] Cons.prems h by auto
  have "has_block K m' ?n b"
    using m'(4) b(3) codec_ok_block(1) [OF assms(2)] by (simp add: has_block_def)
  then have "\<forall>n. height m < n \<and> n \<le> height m' \<longrightarrow> (\<exists>b. has_block K m' n b)"
    using m'(3) by (metis linorder_not_less order_le_less zless_add1_eq)
  moreover have "\<forall>n\<le>height m. m' (block_key n) = m (block_key n)"
    using m'(4) by simp
  ultimately show ?case using b m' by auto
qed auto

end

text \<open>A producer that also puts the hash of the previous block's text into the new block.\<close>

locale linked_source = block_source +
  assumes link: "ready i \<Longrightarrow> produce i m = Ret b \<Longrightarrow> block_hash b = previous_hash E (height m) m"
begin

lemma rounds_linked:
  assumes "lawful E" "codec_ok K" "\<forall>i\<in>set is. ready i" "0 \<le> height m"
    and "height m + int (length is) \<le> max_num"
  shows "\<exists>m'. rounds is m = Ret m' \<and>
    (\<forall>n. height m < n \<and> n \<le> height m + int (length is) \<longrightarrow>
      (\<exists>b. has_block K m' n b \<and> block_hash b = previous_hash E (n - 1) m'))"
  using assms(3-)
proof (induction "is" arbitrary: m)
  case (Cons i "is")
  let ?n = "height m + 1"
  obtain b where b: "produce i m = Ret b"
    "file_block E K b m = Ret (filed m ?n (serialized (show_block K b)))"
    "map_option block_num (parse_block_header K (b_header b)) = Some (nat ?n)"
    by (rule one_round [OF assms(1,2), of i m]) (use Cons.prems in auto)
  let ?m = "filed m ?n (serialized (show_block K b))"
  have "in_int ?n" using Cons.prems by (simp add: in_int_def)
  then have h: "height ?m = ?n" by (rule height_filed)
  have pre: "\<forall>i\<in>set is. ready i" "0 \<le> height ?m" "height ?m + int (length is) \<le> max_num"
    using Cons.prems h by simp_all
  obtain m' where m': "rounds is ?m = Ret m'"
    "\<forall>n. ?n < n \<and> n \<le> ?n + int (length is) \<longrightarrow>
      (\<exists>b. has_block K m' n b \<and> block_hash b = previous_hash E (n - 1) m')"
    using Cons.IH [OF pre] h by auto
  have keep: "\<forall>n\<le>?n. m' (block_key n) = ?m (block_key n)"
    using rounds_number [OF assms(1,2) pre] m'(1) h by auto
  have "has_block K m' ?n b"
    using keep b(3) codec_ok_block(1) [OF assms(2)] by (simp add: has_block_def)
  moreover have "block_hash b = previous_hash E (?n - 1) m'"
    using link [OF _ b(1)] Cons.prems(1) keep
    by (simp add: previous_hash_def getBlock_def block_key_def [symmetric])
  ultimately have new: "\<exists>b. has_block K m' ?n b \<and> block_hash b = previous_hash E (?n - 1) m'"
    by blast
  have "\<exists>b. has_block K m' n b \<and> block_hash b = previous_hash E (n - 1) m'"
    if "height m < n \<and> n \<le> height m + int (length (i # is))" for n
  proof (cases "n = ?n")
    case False
    then have "?n < n \<and> n \<le> ?n + int (length is)" using that by simp
    then show ?thesis using m'(2) by blast
  qed (use new in simp)
  then show ?case using b m'(1) by auto
qed auto

end

section \<open>The producers\<close>

record feed =
  f_kafka :: kafka
  f_now :: int
  f_state :: db
  f_txnCount :: int
  f_brokers :: string
  f_topic :: string

definition feed_ready :: "env \<Rightarrow> feed \<Rightarrow> bool" where
  "feed_ready E i \<longleftrightarrow> kafka_setup (f_kafka i) (f_brokers i) (f_topic i) = Ret () \<and>
     (\<exists>g. open_state E False (f_state i) = Ret g)"

definition feed_produce :: "env \<Rightarrow> block_codec \<Rightarrow> feed \<Rightarrow> db \<Rightarrow> block outcome" where
  "feed_produce E K i m =
     blockProducer E K (f_kafka i) (f_now i) (f_state i) m (f_txnCount i) (f_brokers i) (f_topic i)"

definition feed_single :: "env \<Rightarrow> block_codec \<Rightarrow> feed \<Rightarrow> db \<Rightarrow> block outcome" where
  "feed_single E K i m =
     blockProducer_single E K (f_kafka i) (f_now i) (f_state i) m (f_txnCount i) (f_brokers i) (f_topic i)"

lemma add_one: "0 \<le> n \<Longrightarrow> n < max_num \<Longrightarrow> add_int n 1 = Ret (n + 1)"
  by (simp add: in_int_def)

lemma header_number:
  assumes "codec_ok K" "0 \<le> n" "n < max_num" "show_block_header K (header_for r t (n + 1)) = Some s"
  shows "map_option block_num (parse_block_header K s) = Some (nat (n + 1))"
proof -
  have "parse_block_header K s = Some (header_for r t (n + 1))"
    using codec_ok_header(1) [OF assms(1), of "header_for r t (n + 1)"] assms(4)
    by (simp add: serialized_def)
  moreover have "to_uint64 (n + 1) = nat (n + 1)"
    by (rule to_uint64_id) (use assms in \<open>simp_all add: in_int_def\<close>)
  ultimately show ?thesis by (simp add: header_for_def)
qed

lemma header_shown:
  assumes "codec_ok K"
  obtains s where "show_block_header K h = Some s"
  using codec_ok_header(2) [OF assms] by blast

interpretation clu_chain: linked_source E K "feed_produce E K" "feed_ready E" for E K
proof (unfold_locales, goal_cases)
  case (1 i m)
  then obtain g where g: "kafka_setup (f_kafka i) (f_brokers i) (f_topic i) = Ret ()"
      "open_state E False (f_state i) = Ret g"
    by (auto simp: feed_ready_def)
  obtain s where s: "show_block_header K (header_for (getRootHash g) (f_now i) (height m + 1)) = Some s"
    using header_shown [OF 1(2)] .
  show ?case using header_number [OF 1(2) 1(4,5) s] add_one [OF 1(4,5)]
    by (simp add: feed_produce_def blockProducer_def g s Let_def del: add_int_Ret)
next
  case (2 i m b)
  then show ?case
    by (auto simp: feed_produce_def feed_ready_def blockProducer_def bind_outcome_Ret_iff Let_def
        split: option.splits)
qed

interpretation one_chain: linked_source E K "feed_single E K" "feed_ready E" for E K
proof (unfold_locales, goal_cases)
  case (1 i m)
  then have g: "kafka_setup (f_kafka i) (f_brokers i) (f_topic i) = Ret ()"
    by (auto simp: feed_ready_def)
  obtain s where s: "show_block_header K (header_for (getRootHash (f_state i)) (f_now i) (height m + 1)) = Some s"
    using header_shown [OF 1(2)] .
  show ?case using header_number [OF 1(2) 1(4,5) s] add_one [OF 1(4,5)]
    by (simp add: feed_single_def blockProducer_single_def g s Let_def del: add_int_Ret)
next
  case (2 i m b)
  then show ?case
    by (auto simp: feed_single_def feed_ready_def blockProducer_single_def bind_outcome_Ret_iff Let_def
        split: option.splits)
qed

end
