(* ===== verification/Test_Producer.thy ===== *)
theory Test_Producer
  imports Clients Block_Chain
begin

text \<open>
  \<open>TestBlockProducer::produce\<close>, which the nodes use in place of the Kafka producer: it reads command
  lines from a file, has the clients turn them into transactions and assembles a block.  Cluster
  version \<open>leader/testingBlockProducer.h\<close>, single-node versions \<open>testBp/testingBlockProducer.h\<close>.
\<close>

section \<open>Reading the commands\<close>

type_synonym client = "string \<Rightarrow> string list \<Rightarrow> transaction outcome"

text \<open>\<open>find_first_not_of(" \t\r\n") == npos\<close>\<close>

definition blank_line :: "string \<Rightarrow> bool" where
  "blank_line line \<longleftrightarrow> list_all (\<lambda>c. c = CHR '' '' \<or> c = CHR 0x09 \<or> c = CHR 0x0D \<or> c = CHR 0x0A) line"

text \<open>\<open>iss >> exe\<close> leaves \<open>exe\<close> empty when there is no word.\<close>

definition split_line :: "string \<Rightarrow> string \<times> string list" where
  "split_line line = (case words_of line of [] \<Rightarrow> ([], []) | exe # as \<Rightarrow> (exe, as))"

text \<open>The nonce is drawn once for each transaction built.\<close>

fun command_loop ::
    "(string \<Rightarrow> client option) \<Rightarrow> (nat \<Rightarrow> string) \<Rightarrow> nat \<Rightarrow> string list \<Rightarrow> transaction list \<Rightarrow> transaction list outcome" where
  "command_loop clients nonces txnCount [] transactions = Ret transactions"
| "command_loop clients nonces txnCount (line # lines) transactions =
     (if \<not> length transactions < txnCount then Ret transactions
      else if blank_line line then command_loop clients nonces txnCount lines transactions
      else
        (let (exe, as) = split_line line
         in case clients exe of
              None \<Rightarrow> command_loop clients nonces txnCount lines transactions
            | Some client \<Rightarrow>
                bind_outcome (client (nonces (length transactions)) as)
                  (\<lambda>tx. command_loop clients nonces txnCount lines (transactions @ [tx]))))"

definition clients_cluster :: "env \<Rightarrow> db \<Rightarrow> show_header \<Rightarrow> string \<Rightarrow> client option" where
  "clients_cluster E committed sh exe =
     (if exe = ''walletClientMain'' \<or> exe = ''./walletClientMain'' then Some (wallet_client sh)
      else if exe = ''votingClientMain'' \<or> exe = ''./votingClientMain'' then Some (voting_client sh)
      else if exe = ''eCommClientMain'' \<or> exe = ''./eCommClientMain'' then Some (ecomm_client E committed sh)
      else if exe = ''nftClientMain'' \<or> exe = ''./nftClientMain'' then Some (nft_client sh)
      else None)"

definition clients_parallel :: "env \<Rightarrow> db \<Rightarrow> show_header \<Rightarrow> string \<Rightarrow> client option" where
  "clients_parallel E committed sh exe =
     (if exe = ''walletClientMain'' \<or> exe = ''./walletClientMain'' then Some (wallet_client sh)
      else if exe = ''votingClientMain'' \<or> exe = ''./votingClientMain'' then Some (voting_client_single sh)
      else if exe = ''eCommClientMain'' \<or> exe = ''./eCommClientMain'' then Some (ecomm_client_parallel E committed sh)
      else if exe = ''nftClientMain'' \<or> exe = ''./nftClientMain'' then Some (nft_client sh)
      else None)"

definition clients_serial :: "db \<Rightarrow> show_header \<Rightarrow> string \<Rightarrow> client option" where
  "clients_serial committed sh exe =
     (if exe = ''walletClientMain'' \<or> exe = ''./walletClientMain'' then Some (wallet_client sh)
      else if exe = ''votingClientMain'' \<or> exe = ''./votingClientMain'' then Some (voting_client_single sh)
      else if exe = ''ecommClientMain'' \<or> exe = ''eCommClientMain'' \<or> exe = ''./ecommClientMain'' \<or>
              exe = ''./eCommClientMain'' then Some (ecomm_client_serial committed sh)
      else if exe = ''nftClientMain'' \<or> exe = ''./nftClientMain'' then Some (nft_client sh)
      else None)"

section \<open>Assembling the block\<close>

definition test_header :: "string \<Rightarrow> int \<Rightarrow> int \<Rightarrow> nat \<Rightarrow> block_header" where
  "test_header root now newBlockNum n =
     empty_header\<lparr>block_num := to_uint64 newBlockNum, previous_block_id := root,
       transaction_ids := map (\<lambda>i. to_string (int i)) [0..<n], timestamp := now\<rparr>"

definition assemble :: "env \<Rightarrow> block_codec \<Rightarrow> string \<Rightarrow> int \<Rightarrow> db \<Rightarrow> transaction list \<Rightarrow> block outcome" where
  "assemble E K root now blocks transactions =
     bind_outcome (add_int (last_block_num (getLatestBlockNum blocks)) 1) (\<lambda>newBlockNum.
     case show_block_header K (test_header root now newBlockNum (length transactions)) of
       None \<Rightarrow> Throw Runtime_error
     | Some serialized_header \<Rightarrow>
         (let block = empty_block\<lparr>b_header := serialized_header, b_transactions := transactions\<rparr>;
              full_block = serialized (show_block K block)
          in Ret (block\<lparr>block_hash := computeSHA256 E full_block\<rparr>)))"

text \<open>\<open>file\<close> is the text of the command file, \<open>None\<close> when it does not open.\<close>

definition produce_cluster ::
    "env \<Rightarrow> block_codec \<Rightarrow> show_header \<Rightarrow> (nat \<Rightarrow> string) \<Rightarrow> int \<Rightarrow> db \<Rightarrow> int \<Rightarrow> string option \<Rightarrow> db \<Rightarrow> block outcome" where
  "produce_cluster E K sh nonces now state txnCount file blocks =
     (case file of
        None \<Rightarrow> Ret empty_block
      | Some content \<Rightarrow>
          bind_outcome (command_loop (clients_cluster E state sh) nonces (to_uint64 txnCount)
              (getline_all (CHR 0x0A) content) []) (\<lambda>transactions.
          if transactions = [] then Ret empty_block
          else bind_outcome (open_state E False state) (\<lambda>gs.
                 assemble E K (getRootHash gs) now blocks transactions)))"

definition produce_single ::
    "(string \<Rightarrow> client option) \<Rightarrow> env \<Rightarrow> block_codec \<Rightarrow> (nat \<Rightarrow> string) \<Rightarrow> int \<Rightarrow> db \<Rightarrow> int \<Rightarrow> string option \<Rightarrow> db \<Rightarrow> block outcome" where
  "produce_single clients E K nonces now gs txnCount file blocks =
     (case file of
        None \<Rightarrow> Ret empty_block
      | Some content \<Rightarrow>
          bind_outcome (command_loop clients nonces (to_uint64 txnCount)
              (getline_all (CHR 0x0A) content) []) (\<lambda>transactions.
          if transactions = [] then Ret empty_block
          else assemble E K (getRootHash gs) now blocks transactions))"

definition produce_parallel ::
    "env \<Rightarrow> block_codec \<Rightarrow> show_header \<Rightarrow> (nat \<Rightarrow> string) \<Rightarrow> int \<Rightarrow> db \<Rightarrow> db \<Rightarrow> int \<Rightarrow> string option \<Rightarrow> db \<Rightarrow> block outcome" where
  "produce_parallel E K sh nonces now committed gs txnCount file blocks =
     produce_single (clients_parallel E committed sh) E K nonces now gs txnCount file blocks"

definition produce_serial ::
    "env \<Rightarrow> block_codec \<Rightarrow> show_header \<Rightarrow> (nat \<Rightarrow> string) \<Rightarrow> int \<Rightarrow> db \<Rightarrow> db \<Rightarrow> int \<Rightarrow> string option \<Rightarrow> db \<Rightarrow> block outcome" where
  "produce_serial E K sh nonces now committed gs txnCount file blocks =
     produce_single (clients_serial committed sh) E K nonces now gs txnCount file blocks"

section \<open>Facts\<close>

lemma command_loop_bound:
  "command_loop clients nonces n ls txs = Ret txs' \<Longrightarrow> length txs \<le> n \<Longrightarrow> length txs' \<le> n"
  by (induction clients nonces n ls txs rule: command_loop.induct)
    (auto simp: bind_outcome_Ret_iff Let_def split: if_splits option.splits prod.splits)

text \<open>A property of what every client builds holds of every transaction of the block.\<close>

lemma command_loop_all:
  assumes "\<And>exe client nonce as tx. clients exe = Some client \<Longrightarrow> list_all plain as \<Longrightarrow>
      client nonce as = Ret tx \<Longrightarrow> P tx"
    and "command_loop clients nonces n ls txs = Ret txs'" "list_all P txs"
    and "list_all (\<lambda>line. list_all plain (words_of line)) ls"
  shows "list_all P txs'"
  using assms(2-)
proof (induction ls arbitrary: txs)
  case (Cons line ls)
  show ?case
  proof (cases "length txs < n \<and> \<not> blank_line line")
    case False
    then show ?thesis using Cons by (auto split: if_splits)
  next
    case go: True
    obtain exe as where sl: "split_line line = (exe, as)" by fastforce
    have pl: "list_all plain as"
      using Cons.prems(3) sl by (auto simp: split_line_def split: list.splits)
    show ?thesis
    proof (cases "clients exe")
      case None
      then show ?thesis using Cons go sl by auto
    next
      case (Some client)
      then obtain tx where tx: "client (nonces (length txs)) as = Ret tx"
        "command_loop clients nonces n ls (txs @ [tx]) = Ret txs'"
        using Cons.prems(1) go sl by (auto simp: bind_outcome_Ret_iff)
      have "P tx" using assms(1) Some pl tx(1) by blast
      then show ?thesis using Cons.IH [OF tx(2)] Cons.prems by simp
    qed
  qed
qed simp

text \<open>Blocks built from wallet, voting and e-commerce commands declare every key they may touch.\<close>

definition no_nft :: "(string \<Rightarrow> client option) \<Rightarrow> string \<Rightarrow> client option" where
  "no_nft clients exe = (if exe = ''nftClientMain'' \<or> exe = ''./nftClientMain'' then None else clients exe)"

definition nft_line :: "string \<Rightarrow> bool" where
  "nft_line line \<longleftrightarrow> fst (split_line line) = ''nftClientMain'' \<or> fst (split_line line) = ''./nftClientMain''"

lemma command_loop_no_nft:
  "list_all (\<lambda>line. \<not> nft_line line) ls \<Longrightarrow>
   command_loop clients nonces n ls txs = command_loop (no_nft clients) nonces n ls txs"
proof (induction ls arbitrary: txs)
  case (Cons line ls)
  obtain exe as where sl: "split_line line = (exe, as)" by fastforce
  have "no_nft clients exe = clients exe" using Cons.prems sl by (simp add: no_nft_def nft_line_def)
  then show ?case using Cons sl by (simp split: option.splits)
qed simp

lemma no_nft_clients:
  assumes "clients = clients_cluster E m sh \<or> clients = clients_parallel E m sh \<or> clients = clients_serial m sh"
    and "no_nft clients exe = Some client"
  shows "client = wallet_client sh \<or> client = voting_client sh \<or> client = voting_client_single sh \<or>
    client = ecomm_client E m sh \<or> client = ecomm_client_parallel E m sh \<or> client = ecomm_client_serial m sh"
  using assms(1)
proof (elim disjE)
  assume "clients = clients_cluster E m sh"
  then show ?thesis using assms(2) by (simp add: no_nft_def clients_cluster_def split: if_splits)
next
  assume "clients = clients_parallel E m sh"
  then show ?thesis using assms(2) by (simp add: no_nft_def clients_parallel_def split: if_splits)
next
  assume "clients = clients_serial m sh"
  then show ?thesis using assms(2) by (simp add: no_nft_def clients_serial_def split: if_splits)
qed

lemma loop_declares:
  assumes laws: "json_law C" "header_law C sh"
    and clients: "clients = clients_cluster E m sh \<or> clients = clients_parallel E m sh \<or> clients = clients_serial m sh"
    and lines: "list_all (\<lambda>line. \<not> nft_line line \<and> list_all plain (words_of line)) ls"
    and loop: "command_loop clients nonces n ls [] = Ret txs"
  shows "list_all (declares C) txs"
proof (rule command_loop_all [where clients = "no_nft clients"])
  fix exe client nonce as tx
  assume c: "no_nft clients exe = Some client" and as: "list_all plain as" and tx: "client nonce as = Ret tx"
  consider "client = wallet_client sh" | "client = voting_client sh" | "client = voting_client_single sh"
    | "client = ecomm_client E m sh" | "client = ecomm_client_parallel E m sh" | "client = ecomm_client_serial m sh"
    using no_nft_clients [OF clients c] by blast
  then show "declares C tx"
    using as tx wallet_declares [OF laws as] voting_declares [OF laws as] voting_single_declares [OF laws as]
      ecomm_declares [OF laws as]
    by cases metis+
next
  show "command_loop (no_nft clients) nonces n ls [] = Ret txs"
    using loop command_loop_no_nft [of ls clients] lines by (simp add: list_all_iff)
qed (use lines in \<open>auto simp: list_all_iff\<close>)

section \<open>The chain\<close>

lemma assemble_number:
  assumes "codec_ok K" "0 \<le> height m" "height m < max_num"
  shows "\<exists>b. assemble E K root now m txs = Ret b \<and> b_transactions b = txs \<and>
    map_option block_num (parse_block_header K (b_header b)) = Some (nat (height m + 1))"
proof -
  obtain s where s: "show_block_header K (test_header root now (height m + 1) (length txs)) = Some s"
    using header_shown [OF assms(1)] .
  have "parse_block_header K s = Some (test_header root now (height m + 1) (length txs))"
    using codec_ok_header(1) [OF assms(1), of "test_header root now (height m + 1) (length txs)"] s
    by (simp add: serialized_def)
  moreover have "to_uint64 (height m + 1) = nat (height m + 1)"
    by (rule to_uint64_id) (use assms in \<open>simp_all add: in_int_def\<close>)
  ultimately show ?thesis using add_one [OF assms(2,3)] s
    by (simp add: assemble_def test_header_def empty_block_def Let_def del: add_int_Ret)
qed

record commands =
  c_nonces :: "nat \<Rightarrow> string"
  c_now :: int
  c_state :: db
  c_count :: int
  c_file :: "string option"

definition commands_ready :: "env \<Rightarrow> show_header \<Rightarrow> commands \<Rightarrow> bool" where
  "commands_ready E sh i \<longleftrightarrow>
     (\<exists>content txs g. c_file i = Some content \<and> txs \<noteq> [] \<and> open_state E False (c_state i) = Ret g \<and>
        command_loop (clients_cluster E (c_state i) sh) (c_nonces i) (to_uint64 (c_count i))
          (getline_all (CHR 0x0A) content) [] = Ret txs)"

definition commands_produce :: "env \<Rightarrow> block_codec \<Rightarrow> show_header \<Rightarrow> commands \<Rightarrow> db \<Rightarrow> block outcome" where
  "commands_produce E K sh i m =
     produce_cluster E K sh (c_nonces i) (c_now i) (c_state i) (c_count i) (c_file i) m"

interpretation test_chain: block_source E K "commands_produce E K sh" "commands_ready E sh" for E K sh
proof (unfold_locales, goal_cases)
  case (1 i m)
  then obtain content txs g where *: "c_file i = Some content" "txs \<noteq> []" "open_state E False (c_state i) = Ret g"
      "command_loop (clients_cluster E (c_state i) sh) (c_nonces i) (to_uint64 (c_count i))
          (getline_all (CHR 0x0A) content) [] = Ret txs"
    by (auto simp: commands_ready_def)
  obtain b where "assemble E K (getRootHash g) (c_now i) m txs = Ret b"
    "map_option block_num (parse_block_header K (b_header b)) = Some (nat (height m + 1))"
    using assemble_number [OF 1(2,4,5)] by blast
  then show ?case using * by (simp add: commands_produce_def produce_cluster_def)
qed

text \<open>
  A file that does not open, or holds no command, makes the empty block.  Its header is the empty
  text, which parses to a header with number 0: filing it sets the height back to 0.
\<close>

lemma empty_block_resets:
  assumes "lawful E" "parse_block_header K [] = Some empty_header"
  shows "\<exists>m'. file_block E K empty_block m = Ret m' \<and> height m' = 0"
proof -
  have "file_block E K empty_block m = Ret (filed m 0 (serialized (show_block K empty_block)))"
    by (rule file_block_eq [OF assms(1), where h = empty_header]) (simp_all add: assms(2) empty_block_def empty_header_def)
  then show ?thesis using last_block_num_key [of 0] by simp
qed

section \<open>What a single node's producer makes\<close>

lemma produced_txns:
  assumes "produce_single clients E K nonces now gs cnt (Some content) bl = Ret b"
  shows "\<exists>txs. command_loop clients nonces (to_uint64 cnt) (getline_all (CHR 0x0A) content) [] = Ret txs \<and>
    b_transactions b = txs"
proof -
  obtain txs where txs: "command_loop clients nonces (to_uint64 cnt) (getline_all (CHR 0x0A) content) [] = Ret txs"
    "(if txs = [] then Ret empty_block else assemble E K (getRootHash gs) now bl txs) = Ret b"
    using assms by (auto simp: produce_single_def bind_outcome_Ret_iff)
  have "b_transactions b = txs"
    using txs(2) by (auto simp: assemble_def bind_outcome_Ret_iff empty_block_def Let_def split: if_splits option.splits)
  then show ?thesis using txs(1) by simp
qed

lemma produced_declares_single:
  assumes "json_law C" "header_law C sh" "clients = clients_parallel E committed sh \<or> clients = clients_serial committed sh"
    and "list_all (\<lambda>line. \<not> nft_line line \<and> list_all plain (words_of line)) (getline_all (CHR 0x0A) content)"
    and "produce_single clients E K nonces now gs cnt (Some content) bl = Ret b"
  shows "\<forall>t\<in>set (b_transactions b). declares C t"
proof -
  obtain txs where txs: "command_loop clients nonces (to_uint64 cnt) (getline_all (CHR 0x0A) content) [] = Ret txs"
    "b_transactions b = txs"
    using produced_txns assms(5) by blast
  have "list_all (declares C) txs"
    by (rule loop_declares [where E = E and m = committed, OF assms(1,2) _ assms(4) txs(1)]) (use assms(3) in blast)
  then show ?thesis by (simp add: txs(2) list_all_iff)
qed

lemma produced_declares_parallel:
  assumes "json_law C" "header_law C sh"
    and "list_all (\<lambda>line. \<not> nft_line line \<and> list_all plain (words_of line)) (getline_all (CHR 0x0A) content)"
    and "produce_parallel E K sh nonces now committed gs cnt (Some content) bl = Ret b"
  shows "\<forall>t\<in>set (b_transactions b). declares C t"
  by (rule produced_declares_single [OF assms(1,2) _ assms(3) assms(4) [unfolded produce_parallel_def]]) blast

lemma produced_declares_serial:
  assumes "json_law C" "header_law C sh"
    and "list_all (\<lambda>line. \<not> nft_line line \<and> list_all plain (words_of line)) (getline_all (CHR 0x0A) content)"
    and "produce_serial E K sh nonces now committed gs cnt (Some content) bl = Ret b"
  shows "\<forall>t\<in>set (b_transactions b). declares C t"
  by (rule produced_declares_single [OF assms(1,2) _ assms(3) assms(4) [unfolded produce_serial_def]]) blast

end
