(* ===== verification/Etcd.thy ===== *)
theory Etcd
  imports Prelude
begin

text \<open>
  The etcd client as the cluster code uses it.  etcd is a service outside the repository, so its
  operations are parameters; what is modelled is how the code reads a response.  The law is that of a
  healthy cluster: a write succeeds and a later read returns it.
\<close>

text \<open>
  \<open>Found v\<close>: \<open>is_ok()\<close> holds and \<open>value().as_string()\<close> is \<open>v\<close>.  \<open>Failed\<close>: \<open>is_ok()\<close> does not hold and the
  value is the empty string.  \<open>Raised\<close>: the call throws.
\<close>

datatype response = Found string | Failed | Raised

record etcd =
  etcd_get :: "kvmap \<Rightarrow> string \<Rightarrow> response"
  etcd_put :: "kvmap \<Rightarrow> string \<Rightarrow> string \<Rightarrow> bool \<times> kvmap"

definition etcd_law :: "etcd \<Rightarrow> bool" where
  "etcd_law N \<longleftrightarrow>
     (\<forall>m k. etcd_get N m k = (case m k of Some v \<Rightarrow> Found v | None \<Rightarrow> Failed)) \<and>
     (\<forall>m k v. etcd_put N m k v = (True, m(k \<mapsto> v)))"

definition is_ok :: "response \<Rightarrow> bool" where
  "is_ok r = (case r of Found v \<Rightarrow> True | _ \<Rightarrow> False)"

definition as_string :: "response \<Rightarrow> string" where
  "as_string r = (case r of Found v \<Rightarrow> v | _ \<Rightarrow> [])"

lemma response_simps [simp]:
  "is_ok (Found v)" "\<not> is_ok Failed" "as_string (Found v) = v" "as_string Failed = []"
  by (simp_all add: is_ok_def as_string_def)

lemma etcd_lawD:
  "etcd_law N \<Longrightarrow> etcd_get N m k = (case m k of Some v \<Rightarrow> Found v | None \<Rightarrow> Failed)"
  "etcd_law N \<Longrightarrow> etcd_put N m k v = (True, m(k \<mapsto> v))"
  by (simp_all add: etcd_law_def)

end
