(* ===== verification/Samples.thy ===== *)
theory Samples
  imports Test_Producer Etcd
begin

text \<open>
  Concrete instances of what the program only calls: a hash function with digests of the right
  length, a key-value store that keeps what is put, a self-delimiting text format for the protocol
  messages, a small JSON reader and writer, and an etcd that answers from its map.  Each is shown to
  satisfy the laws the development assumes of the real one, so the theorems that assume a law can be
  applied to concrete inputs.
\<close>

section \<open>Hash function and database\<close>

definition sample_env :: env where
  "sample_env = \<lparr>sha256 = (\<lambda>s. replicate 31 0 @ [of_nat (length s)]), put = (\<lambda>m k v. (True, m(k \<mapsto> v)))\<rparr>"

lemma sample_lawful [simp]: "lawful sample_env"
  by (simp add: lawful_def sha256_len_def put_ok_def sample_env_def)

lemma hex_byte_inj: "hex_byte a = hex_byte b \<Longrightarrow> a = b"
proof -
  have digit: "x < 16 \<Longrightarrow> y < 16 \<Longrightarrow> hex_digit x = hex_digit y \<Longrightarrow> x = y" for x y
    by (auto simp: hex_digit_def digit_char_def char_of_eq_iff dest!: arg_cong [where f = "of_char :: char \<Rightarrow> nat"]
        split: if_splits simp: take_bit_eq_mod)
  assume "hex_byte a = hex_byte b"
  then have h: "hex_digit (unat a div 16) = hex_digit (unat b div 16)"
    "hex_digit (unat a mod 16) = hex_digit (unat b mod 16)"
    by (simp_all add: hex_byte_def)
  have "unat a div 16 = unat b div 16" "unat a mod 16 = unat b mod 16"
    using h by (auto intro: digit unat_byte_div)
  then have "unat a = unat b"
    by (metis div_mult_mod_eq)
  then show "a = b" by (simp add: unsigned_word_eqI)
qed

lemma sample_hash:
  assumes "length s < 256" "length t < 256"
  shows "computeHash sample_env s = computeHash sample_env t \<longleftrightarrow> length s = length t"
proof
  assume "computeHash sample_env s = computeHash sample_env t"
  then have "hex_byte (of_nat (length s)) = hex_byte (of_nat (length t))"
    by (simp add: computeHash_def sample_env_def)
  then have "(of_nat (length s) :: 8 word) = of_nat (length t)" by (rule hex_byte_inj)
  then have "unat (of_nat (length s) :: 8 word) = unat (of_nat (length t) :: 8 word)" by simp
  then show "length s = length t" using assms by (simp add: unat_of_nat)
qed (simp add: computeHash_def sample_env_def)

section \<open>A self-delimiting text format\<close>

type_synonym 'a reader = "string \<Rightarrow> ('a \<times> string) option"

definition enc_nat :: "nat \<Rightarrow> string" where
  "enc_nat n = replicate n (CHR ''l'') @ ''n''"

fun dec_nat :: "nat reader" where
  "dec_nat [] = None"
| "dec_nat (c # r) =
     (if c = CHR ''l'' then map_option (apfst Suc) (dec_nat r)
      else if c = CHR ''n'' then Some (0, r) else None)"

fun enc_str :: "string \<Rightarrow> string" where
  "enc_str [] = ''e''"
| "enc_str (c # s) = CHR ''x'' # c # enc_str s"

fun dec_str :: "string reader" where
  "dec_str (a # b # r) =
     (if a = CHR ''x'' then map_option (apfst (Cons b)) (dec_str r)
      else if a = CHR ''e'' then Some ([], b # r) else None)"
| "dec_str [a] = (if a = CHR ''e'' then Some ([], []) else None)"
| "dec_str [] = None"

definition enc_list :: "('a \<Rightarrow> string) \<Rightarrow> 'a list \<Rightarrow> string" where
  "enc_list f xs = enc_nat (length xs) @ concat (map f xs)"

primrec dec_items :: "'a reader \<Rightarrow> nat \<Rightarrow> 'a list reader" where
  "dec_items f 0 s = Some ([], s)"
| "dec_items f (Suc n) s =
     Option.bind (f s) (\<lambda>(x, r). map_option (apfst (Cons x)) (dec_items f n r))"

definition dec_list :: "'a reader \<Rightarrow> 'a list reader" where
  "dec_list f s = Option.bind (dec_nat s) (\<lambda>(n, r). dec_items f n r)"

definition enc_int :: "int \<Rightarrow> string" where
  "enc_int i = (if i < 0 then CHR ''m'' # enc_nat (nat (- i)) else CHR ''p'' # enc_nat (nat i))"

definition dec_int :: "int reader" where
  "dec_int s =
     (case s of
        [] \<Rightarrow> None
      | c # r \<Rightarrow>
          if c = CHR ''m'' then map_option (apfst (\<lambda>n. - int n)) (dec_nat r)
          else map_option (apfst int) (dec_nat r))"

lemma dec_enc_nat [simp]: "dec_nat (enc_nat n @ r) = Some (n, r)"
  by (induction n) (simp_all add: enc_nat_def)

lemma dec_enc_str [simp]: "dec_str (enc_str s @ r) = Some (s, r)"
  by (induction s) (simp_all add: dec_str.simps(1) split: list.split, cases r, simp_all)

lemma dec_enc_int [simp]: "dec_int (enc_int i @ r) = Some (i, r)"
  by (simp add: dec_int_def enc_int_def)

lemma dec_enc_items:
  "(\<And>x r. f (g x @ r) = Some (x, r)) \<Longrightarrow> dec_items f (length xs) (concat (map g xs) @ r) = Some (xs, r)"
  by (induction xs) simp_all

lemma dec_enc_list:
  "(\<And>x r. f (g x @ r) = Some (x, r)) \<Longrightarrow> dec_list f (enc_list g xs @ r) = Some (xs, r)"
  by (simp add: dec_list_def enc_list_def dec_enc_items)

lemma dec_enc_strs [simp]: "dec_list dec_str (enc_list enc_str xs @ r) = Some (xs, r)"
  by (simp add: dec_enc_list)

lemma whole: "(\<And>r. f (g x @ r) = Some (x, r)) \<Longrightarrow> f (g x) = Some (x, [])"
  by (metis append_Nil2)

section \<open>The protocol messages\<close>

definition enc_header :: "txn_header \<Rightarrow> string" where
  "enc_header h = enc_str (family_name h) @ enc_list enc_str (inputs h) @ enc_str (client_ID h) @
     enc_str (client_nonce h) @ enc_list enc_str (outputs h)"

definition dec_header :: "txn_header reader" where
  "dec_header s =
     Option.bind (dec_str s) (\<lambda>(f, s). Option.bind (dec_list dec_str s) (\<lambda>(i, s).
     Option.bind (dec_str s) (\<lambda>(c, s). Option.bind (dec_str s) (\<lambda>(n, s).
     Option.bind (dec_list dec_str s) (\<lambda>(t, s).
     Some (\<lparr>family_name = f, inputs = i, client_ID = c, client_nonce = n, outputs = t\<rparr>, s))))))"

definition enc_txn :: "transaction \<Rightarrow> string" where
  "enc_txn t = enc_str (t_header t) @ enc_list enc_str (t_dependencies t) @ enc_str (t_payload t)"

definition dec_txn :: "transaction reader" where
  "dec_txn s =
     Option.bind (dec_str s) (\<lambda>(h, s). Option.bind (dec_list dec_str s) (\<lambda>(d, s).
     Option.bind (dec_str s) (\<lambda>(p, s).
     Some (\<lparr>t_header = h, t_dependencies = d, t_payload = p\<rparr>, s))))"

definition enc_block_header :: "block_header \<Rightarrow> string" where
  "enc_block_header h = enc_nat (block_num h) @ enc_str (previous_block_id h) @
     enc_list enc_str (transaction_ids h) @ enc_str (state_root_hash h) @ enc_int (timestamp h)"

definition dec_block_header :: "block_header reader" where
  "dec_block_header s =
     Option.bind (dec_nat s) (\<lambda>(n, s). Option.bind (dec_str s) (\<lambda>(p, s).
     Option.bind (dec_list dec_str s) (\<lambda>(i, s). Option.bind (dec_str s) (\<lambda>(r, s).
     Option.bind (dec_int s) (\<lambda>(t, s).
     Some (\<lparr>block_num = n, previous_block_id = p, transaction_ids = i, state_root_hash = r, timestamp = t\<rparr>, s))))))"

definition enc_block :: "block \<Rightarrow> string" where
  "enc_block b = enc_str (b_header b) @ enc_list enc_txn (b_transactions b) @ enc_str (block_hash b)"

definition dec_block :: "block reader" where
  "dec_block s =
     Option.bind (dec_str s) (\<lambda>(h, s). Option.bind (dec_list dec_txn s) (\<lambda>(t, s).
     Option.bind (dec_str s) (\<lambda>(x, s).
     Some (\<lparr>b_header = h, b_transactions = t, block_hash = x\<rparr>, s))))"

lemma dec_enc_header [simp]: "dec_header (enc_header h @ r) = Some (h, r)"
  by (simp add: dec_header_def enc_header_def)

lemma dec_enc_txn [simp]: "dec_txn (enc_txn t @ r) = Some (t, r)"
  by (simp add: dec_txn_def enc_txn_def)

lemma dec_enc_block_header [simp]: "dec_block_header (enc_block_header h @ r) = Some (h, r)"
  by (simp add: dec_block_header_def enc_block_header_def)

lemma dec_enc_block [simp]: "dec_block (enc_block b @ r) = Some (b, r)"
  by (simp add: dec_block_def enc_block_def dec_enc_list)

lemmas dec_whole [simp] = whole [of dec_header enc_header, OF dec_enc_header]
  whole [of dec_txn enc_txn, OF dec_enc_txn] whole [of dec_block enc_block, OF dec_enc_block]
  whole [of dec_block_header enc_block_header, OF dec_enc_block_header]

definition sample_blocks :: block_codec where
  "sample_blocks =
     \<lparr>show_block_header = (\<lambda>h. Some (enc_block_header h)),
      parse_block_header = (\<lambda>s. if s = [] then Some empty_header else map_option fst (dec_block_header s)),
      show_block = (\<lambda>b. Some (enc_block b)),
      parse_block = (\<lambda>s. map_option fst (dec_block s)),
      parse_txn = (\<lambda>s. map_option fst (dec_txn s))\<rparr>"

lemma enc_block_header_nonempty [simp]: "enc_block_header h \<noteq> []"
  by (simp add: enc_block_header_def enc_nat_def)

lemma sample_codec_ok [simp]: "codec_ok sample_blocks"
  by (simp add: codec_ok_def sample_blocks_def)

section \<open>A small JSON reader and writer\<close>

definition skip_blanks :: "string \<Rightarrow> string" where
  "skip_blanks = dropWhile (\<lambda>c. c = CHR '' '')"

definition read_quoted :: "string reader" where
  "read_quoted s =
     (case skip_blanks s of
        [] \<Rightarrow> None
      | c # r \<Rightarrow>
          if c = CHR 0x22 \<and> CHR 0x22 \<in> set r
          then Some (takeWhile (\<lambda>x. x \<noteq> CHR 0x22) r, tl (dropWhile (\<lambda>x. x \<noteq> CHR 0x22) r))
          else None)"

definition read_member :: "(string \<times> json) reader" where
  "read_member s =
     Option.bind (read_quoted s) (\<lambda>(k, r).
       case r of
         [] \<Rightarrow> None
       | c # r' \<Rightarrow>
           if c = CHR '':'' then Option.bind (read_quoted r') (\<lambda>(v, r''). Some ((k, JStr v), r'')) else None)"

fun read_seq :: "'a reader \<Rightarrow> char \<Rightarrow> nat \<Rightarrow> string \<Rightarrow> 'a list option" where
  "read_seq f close 0 s = None"
| "read_seq f close (Suc n) s =
     Option.bind (f s) (\<lambda>(x, r).
       case r of
         [] \<Rightarrow> None
       | c # r' \<Rightarrow>
           if c = CHR '','' then map_option (Cons x) (read_seq f close n r')
           else if c = close \<and> r' = [] then Some [x] else None)"

definition read_json :: "string \<Rightarrow> json option" where
  "read_json s =
     (case s of
        [] \<Rightarrow> None
      | c # r \<Rightarrow>
          if c = CHR ''{'' then map_option JObj (read_seq read_member (CHR ''}'') (length r) r)
          else if s = ''[]'' then Some (JArr [])
          else if c = CHR ''['' then map_option (JArr \<circ> map JStr) (read_seq read_quoted (CHR '']'') (length r) r)
          else None)"

fun items_text :: "string list \<Rightarrow> string" where
  "items_text [] = []"
| "items_text [s] = quoted s"
| "items_text (s # t # ss) = quoted s @ CHR '','' # items_text (t # ss)"

fun plain_items :: "json list \<Rightarrow> string list option" where
  "plain_items [] = Some []"
| "plain_items (JStr s # js) = (if plain s then map_option (Cons s) (plain_items js) else None)"
| "plain_items (j # js) = None"

definition write_json :: "json \<Rightarrow> string option" where
  "write_json j =
     (case j of
        JArr js \<Rightarrow> map_option (\<lambda>ss. CHR ''['' # items_text ss @ '']'') (plain_items js)
      | _ \<Rightarrow> None)"

lemma skip_blanks_append: "blanks b \<Longrightarrow> skip_blanks (b @ CHR 0x22 # s) = CHR 0x22 # s"
  by (induction b) (simp_all add: skip_blanks_def blanks_def)

lemma plain_no_quote: "plain s \<Longrightarrow> CHR 0x22 \<notin> set s"
  by (induction s) auto

lemma read_quoted_text:
  assumes "blanks b" "plain s"
  shows "read_quoted (b @ quoted s @ r) = Some (s, r)"
proof -
  have "takeWhile (\<lambda>x. x \<noteq> CHR 0x22) (s @ CHR 0x22 # r) = s"
    "dropWhile (\<lambda>x. x \<noteq> CHR 0x22) (s @ CHR 0x22 # r) = CHR 0x22 # r"
    using plain_no_quote [OF assms(2)] by (induction s) auto
  then show ?thesis
    using assms(1) by (simp add: read_quoted_def quoted_def skip_blanks_append)
qed

lemma read_member_text:
  assumes "blanks g" "plain k" "blanks g'" "plain v"
  shows "read_member (member_text (g, k, g', v) @ r) = Some ((k, JStr v), r)"
  using assms by (simp add: read_member_def member_text_def read_quoted_text)

lemma read_members:
  assumes "ms \<noteq> []" "list_all (\<lambda>(g, k, g', v). blanks g \<and> plain k \<and> blanks g' \<and> plain v) ms"
  shows "length ms \<le> n \<Longrightarrow> read_seq read_member (CHR ''}'') n (members_text ms @ ''}'') =
    Some (map (apsnd JStr) (members_of ms))"
  using assms
proof (induction ms arbitrary: n rule: members_text.induct)
  case (2 m)
  then show ?case
    by (cases n; cases m) (simp_all add: read_member_text members_of_def)
next
  case (3 m m' ms)
  obtain g k g' v where m: "m = (g, k, g', v)" by (cases m)
  obtain n' where n: "n = Suc n'" using 3(2) by (cases n) auto
  have "read_seq read_member (CHR ''}'') n' (members_text (m' # ms) @ ''}'') =
    Some (map (apsnd JStr) (members_of (m' # ms)))"
    using 3 n by simp
  then show ?case
    using 3(4) by (simp add: n m read_member_text members_of_def)
qed simp

lemma length_members: "length ms \<le> length (members_text ms)"
  by (induction ms rule: members_text.induct) (auto simp: member_text_def quoted_def)

lemma read_items:
  assumes "ss \<noteq> []" "list_all plain ss"
  shows "length ss \<le> n \<Longrightarrow> read_seq read_quoted (CHR '']'') n (items_text ss @ '']'') = Some ss"
  using assms
proof (induction ss arbitrary: n rule: items_text.induct)
  case (2 s)
  then show ?case
    using read_quoted_text [of "[]" s "'']''"] by (cases n) simp_all
next
  case (3 s t ss)
  obtain n' where n: "n = Suc n'" using 3(2) by (cases n) auto
  then show ?case
    using 3 read_quoted_text [of "[]" s "CHR '','' # items_text (t # ss) @ '']''"] by simp
qed simp

lemma length_items: "length ss \<le> length (items_text ss)"
  by (induction ss rule: items_text.induct) (auto simp: quoted_def)

lemma plain_items_map: "list_all plain ss \<Longrightarrow> plain_items (map JStr ss) = Some ss"
  by (induction ss) simp_all

lemma items_text_not_close: "ss \<noteq> [] \<Longrightarrow> items_text ss @ '']'' \<noteq> '']''"
  by (induction ss rule: items_text.induct) (simp_all add: quoted_def)

lemma hex_plain: "list_all is_hex s \<Longrightarrow> plain s"
  by (induction s) (auto simp: is_hex_def isdigit_def Let_def)

definition sample_codec :: codec where
  "sample_codec =
     \<lparr>parse_header = (\<lambda>s. map_option fst (dec_header s)), jparse = read_json, jdump = write_json\<rparr>"

definition sample_show :: show_header where
  "sample_show h = Some (enc_header h)"

lemma sample_json_law [simp]: "json_law sample_codec"
proof -
  have "jparse sample_codec (object_text ms) = Some (JObj (map (apsnd JStr) (members_of ms)))"
    if "good_members ms" for ms
    using that read_members [of ms "length (members_text ms @ ''}'')"] length_members [of ms]
    by (simp add: sample_codec_def read_json_def object_text_def good_members_def)
  then show ?thesis
    by (auto simp: json_law_def) (simp add: sample_codec_def read_json_def)
qed

lemma sample_header_law [simp]: "header_law sample_codec sample_show"
  by (simp add: header_law_def sample_codec_def sample_show_def)

lemma sample_hash_codec [simp]: "hash_codec sample_codec"
proof -
  have "write_json (JArr (map JStr hs)) = Some (CHR ''['' # items_text hs @ '']'') \<and>
      read_json (CHR ''['' # items_text hs @ '']'') = Some (JArr (map JStr hs))"
    if "\<forall>h\<in>set hs. list_all is_hex h" for hs
  proof -
    have p: "list_all plain hs" using that by (auto simp: list_all_iff [of plain] intro: hex_plain)
    show ?thesis
    proof (cases "hs = []")
      case False
      then show ?thesis
        using p read_items [of hs "length (items_text hs @ '']'')"] length_items [of hs] items_text_not_close [of hs]
        by (simp add: write_json_def read_json_def plain_items_map)
    qed (simp add: write_json_def read_json_def)
  qed
  then show ?thesis by (fastforce simp: hash_codec_def sample_codec_def)
qed

section \<open>etcd\<close>

definition sample_etcd :: etcd where
  "sample_etcd =
     \<lparr>etcd_get = (\<lambda>m k. case m k of Some v \<Rightarrow> Found v | None \<Rightarrow> Failed), etcd_put = (\<lambda>m k v. (True, m(k \<mapsto> v)))\<rparr>"

lemma sample_etcd_law [simp]: "etcd_law sample_etcd"
  by (simp add: etcd_law_def sample_etcd_def)

section \<open>A transaction and a block\<close>

text \<open>A deposit of 5 to a wallet, as the wallet client builds it, and a block that holds it.\<close>

definition deposit_members :: "member list" where
  "deposit_members =
     [([], ''Verb'', '' '', ''deposit''), ('' '', ''Name'', '' '', ''walletab''), ('' '', ''Value'', '' '', ''5'')]"

definition sample_txn :: transaction where
  "sample_txn = new_txn sample_show (new_header ''wallet'' ''a'' ''7'' [''walletab''] [''walletab''])
     (object_text deposit_members)"

definition sample_block :: block where
  "sample_block = \<lparr>b_header = [], b_transactions = [sample_txn], block_hash = []\<rparr>"

definition sample_commands :: "string list" where
  "sample_commands = [''deposit'', ''a'', ''b'', ''5'']"

lemma sample_client: "wallet_client sample_show ''7'' sample_commands = Ret sample_txn"
  by (simp add: wallet_client_def sample_commands_def arg_def new_txn_or_throw_def sample_show_def
      sample_txn_def deposit_members_def Let_def)

lemma sample_commands_plain: "list_all plain sample_commands"
  by (simp add: sample_commands_def)

lemma sample_declares [simp]: "declares sample_codec sample_txn"
  by (rule wallet_declares [OF _ _ sample_commands_plain sample_client]) simp_all

lemma sample_parses [simp]:
  "parse_header sample_codec (t_header sample_txn) =
     Some (new_header ''wallet'' ''a'' ''7'' [''walletab''] [''walletab''])"
  unfolding sample_txn_def by (rule client_header) simp

lemma sample_fields:
  obtains p where "jparse sample_codec (t_payload sample_txn) = Some p"
    "jfield p ''Verb'' = Ret ''deposit''" "jfield p ''Name'' = Ret ''walletab''" "jfield p ''Value'' = Ret ''5''"
proof -
  have g: "good_members deposit_members"
    by (simp add: deposit_members_def good_members_def members_of_def)
  obtain p where "jparse sample_codec (object_text deposit_members) = Some p"
    "\<And>k v. jfield p k = Ret v \<longleftrightarrow> map_of (members_of deposit_members) k = Some v"
    by (rule client_payload [OF sample_json_law g]) blast
  then show ?thesis
    by (intro that [of p]) (simp_all add: sample_txn_def new_txn_def deposit_members_def members_of_def)
qed

lemma sample_keys: "jparse sample_codec (t_payload sample_txn) = Some p \<Longrightarrow> named_keys wallet_fields p = {''walletab''}"
  using client_keys [of sample_codec deposit_members wallet_fields sample_show "new_header ''wallet'' ''a'' ''7'' [''walletab''] [''walletab'']"]
  by (simp add: txn_keys_def sample_txn_def good_members_def deposit_members_def members_of_def wallet_fields_def)

lemma stoi_5 [simp]: "stoi ''5'' = Ret 5"
proof -
  have "to_string 5 = ''5''" by (simp add: to_string_def show_nat.simps digit_char_def char_of_eq_iff)
  then show ?thesis using stoi_to_string [of 5] by (simp add: in_int_def)
qed

text \<open>Run on an empty state, it leaves the balance 5.\<close>

lemma sample_deposit:
  "\<exists>m. wallet_process sample_codec (\<lambda>_. []) sample_txn Map.empty = (Ret True, m) \<and>
     balance_of (\<lambda>_. []) m ''walletab'' = Ret 5"
proof -
  obtain p where p: "jparse sample_codec (t_payload sample_txn) = Some p"
    "jfield p ''Verb'' = Ret ''deposit''" "jfield p ''Name'' = Ret ''walletab''" "jfield p ''Value'' = Ret ''5''"
    by (rule sample_fields)
  obtain m where m: "deposit (\<lambda>_. []) ''walletab'' ''5'' Map.empty = (Ret True, m)"
    "balance_of (\<lambda>_. []) m = (balance_of (\<lambda>_. []) Map.empty)(''walletab'' := Ret (0 + 5))"
    using deposit_effect [of "\<lambda>_. []" Map.empty "''walletab''" 0 "''5''" 5]
    by (auto simp: balance_of_def in_int_def)
  have "wallet_process sample_codec (\<lambda>_. []) sample_txn Map.empty =
    catch_with False (wallet_dispatch (\<lambda>_. []) p ''deposit'') Map.empty"
    unfolding wallet_process_def by (rule process_txn_eq [OF sample_parses p(1,2)])
  then show ?thesis
    using m by (simp add: wallet_dispatch_def p catch_with_def)
qed
end
