(* ===== verification/Execution_Properties.thy ===== *)
theory Execution_Properties
  imports Scheduler_Serial Scheduler_Progress Dag_Union_Find Samples
begin

text \<open>
  The properties of building the dependency graph and of executing a block, for the parallel and
  the serial scheduler, each with a witness on a concrete block.
\<close>

section \<open>A run of one thread\<close>

lemma one_txn_run:
  assumes J: "j_txns J = 1" "j_parses J 0" "j_run J 0 m = (Ret True, m')"
  shows "\<exists>s. sched_reach J (sched_start J 1 m) s \<and> (\<forall>t. sc_phase s t = Stopped) \<and> sc_flag s \<and> sc_map s = m' \<and>
    sc_log s = [0]"
proof -
  let ?s0 = "sched_start J 1 m"
  let ?s1 = "goto 0 Scanning ?s0"
  let ?s2 = "goto 0 (Chosen 0) (?s1\<lparr>sc_deg := (sc_deg ?s1)[0 := - 1]\<rparr>)"
  let ?s3 = "goto 0 (Executed 0) (?s2\<lparr>sc_map := m', sc_flag := (sc_flag ?s2 \<and> True), sc_log := sc_log ?s2 @ [0]\<rparr>)"
  let ?s4 = "goto 0 (Releasing 0 (Suc 0))
    (?s3\<lparr>sc_deg := (sc_deg ?s3)[0 := sc_deg ?s3 ! 0 - 1], sc_completed := sc_completed ?s3 + 1\<rparr>)"
  let ?s5 = "goto 0 AtLoop ?s4"
  have st1: "sched_step J ?s0 ?s1"
    by (rule sched_step.enter) (simp_all add: sched_start_def J(1))
  have st2: "sched_step J ?s1 ?s2"
    by (rule sched_step.select) (simp_all add: sched_start_def J in_degrees_def)
  have st3: "sched_step J ?s2 ?s3"
    by (rule sched_step.execute) (simp_all add: sched_start_def J goto_def)
  have st4: "sched_step J ?s3 ?s4"
    by (rule sched_step.finish) simp
  have st5: "sched_step J ?s4 ?s5"
    by (rule sched_step.again [of _ _ 0 "Suc 0"]) (simp_all add: J)
  have st6: "sched_step J ?s5 (goto 0 Stopped ?s5)"
    by (rule sched_step.leave) (simp_all add: sched_start_def J goto_def)
  note reach = sched_reach.step [OF sched_reach.step [OF sched_reach.step [OF sched_reach.step [OF
    sched_reach.step [OF sched_reach.step [OF sched_reach.refl st1] st2] st3] st4] st5] st6]
  show ?thesis
    by (intro exI [of _ "goto 0 Stopped ?s5"] conjI, rule reach) (simp_all add: sched_start_def goto_def)
qed

definition sample_dag :: dag where
  "sample_dag =
     \<lparr>CurrentTransactions = [], adjacencyMatrix = [], inDegree = None, completedTxns = 0, lastTxn = 0,
      totalTxns = 0, threadCount = 0\<rparr>"

definition sample_image :: image_env where
  "sample_image = \<lparr>files = (\<lambda>_. None), sha512_raw = (\<lambda>_. [])\<rparr>"

abbreviation sample_exec :: "txn_header \<Rightarrow> transaction \<Rightarrow> (kvmap, bool) op" where
  "sample_exec \<equiv> execute_parallel sample_codec sample_image (\<lambda>_. [])"

lemma sample_exec_run:
  "\<exists>m. block_run sample_exec sample_codec [sample_txn] 0 Map.empty = (Ret True, m)"
proof -
  obtain m where "wallet_process sample_codec (\<lambda>_. []) sample_txn Map.empty = (Ret True, m)"
    using sample_deposit by blast
  then show ?thesis
    by (simp add: block_run_def execute_parallel_def run_family_def new_header_def)
qed

definition sample_graph :: dag where
  "sample_graph = (built sample_codec sample_block sample_dag)\<lparr>threadCount := 1\<rparr>"

lemma sample_graph_created: "create_dag sample_codec sample_block 1 sample_dag = Ret sample_graph"
  by (simp add: create_dag_eq sample_graph_def)

definition sample_job :: job where
  "sample_job = block_job sample_exec sample_codec sample_graph (b_transactions sample_block)"

lemma sample_run:
  "\<exists>s. sched_reach sample_job (sched_start sample_job 1 Map.empty) s \<and> (\<forall>t. sc_phase s t = Stopped) \<and>
     sc_flag s \<and> sc_log s = [0]"
proof -
  obtain m where "block_run sample_exec sample_codec [sample_txn] 0 Map.empty = (Ret True, m)"
    using sample_exec_run by blast
  then have "\<exists>s. sched_reach sample_job (sched_start sample_job 1 Map.empty) s \<and> (\<forall>t. sc_phase s t = Stopped) \<and>
      sc_flag s \<and> sc_map s = m \<and> sc_log s = [0]"
    by (intro one_txn_run)
      (simp_all add: sample_job_def block_job_def sample_graph_def built_def sample_block_def Let_def)
  then show ?thesis by blast
qed

section \<open>Parallel execution is serializable\<close>

lemma edges_cover_threads:
  "edges_cover (block_job ex C (d\<lparr>threadCount := k\<rparr>) txns) foot = edges_cover (block_job ex C d txns) foot"
  by (simp add: edges_cover_def block_job_def)

lemma built_txns [simp]: "totalTxns (built C b d) = length (b_transactions b)"
  by (simp add: built_def Let_def)

lemma block_job_simps [simp]:
  "j_txns (block_job ex C d txns) = totalTxns d"
  "j_run (block_job ex C d txns) = block_run ex C txns"
  by (simp_all add: block_job_def)

lemma parallel_run_serial:
  assumes ex: "\<And>h t. confined (txn_keys C all_fields t) (ex h t)"
    and b: "\<forall>t\<in>set (b_transactions b). declares C t"
    and g: "0 < thCount" "create_dag C b thCount d = Ret g"
    and s: "sched_reach (block_job ex C g (b_transactions b))
          (sched_start (block_job ex C g (b_transactions b)) thCount m) s"
      "\<And>t. sc_phase s t = Stopped"
  shows "if sc_flag s
    then serial_run (block_run ex C (b_transactions b)) [0..<length (b_transactions b)] m = (Ret True, sc_map s)
    else fst (serial_run (block_run ex C (b_transactions b)) [0..<length (b_transactions b)] m) \<noteq> Ret True"
proof -
  let ?J = "block_job ex C g (b_transactions b)"
  have g': "g = (built C b d)\<lparr>threadCount := thCount\<rparr>" using g by (simp add: create_dag_eq)
  have inv: "sched_inv ?J thCount m s" by (rule sched_inv_reach [OF s(1)]) simp
  have cov: "edges_cover ?J (block_foot C (b_transactions b))"
    unfolding g' edges_cover_threads by (rule edges_cover_built [OF b])
  have conf: "confined (block_foot C (b_transactions b) i) (j_run ?J i)" for i
    using block_run_confined [OF ex] by simp
  show ?thesis
    using stopped_serial [OF inv g(1) s(2) conf cov] by (simp add: g' split: if_splits)
qed

text \<open>C5: A block executed by the parallel scheduler of the single node has the effect of executing
  its transactions one after the other in block order: for every interleaving of the threads that
  lets them all leave the loop, if the failure flag is still clear the state map is the one serial
  execution leaves (and serial execution succeeds), and if the flag is set serial execution fails
  as well. The graph is the one \<open>create_dag\<close> builds for any number of threads above zero, and the
  transactions declare in their headers the addresses their payloads name.\<close>

theorem block_serializable:
  assumes "\<forall>t\<in>set (b_transactions b). declares C t"
    and "0 < thCount" "create_dag C b thCount d = Ret g"
    and "J = block_job (execute_parallel C I gv) C g (b_transactions b)"
    and "sched_reach J (sched_start J thCount m) s" "\<forall>t. sc_phase s t = Stopped"
  shows "if sc_flag s
    then serial_run (block_run (execute_parallel C I gv) C (b_transactions b)) [0..<length (b_transactions b)] m =
      (Ret True, sc_map s)
    else fst (serial_run (block_run (execute_parallel C I gv) C (b_transactions b))
      [0..<length (b_transactions b)] m) \<noteq> Ret True"
  using parallel_run_serial [of C "execute_parallel C I gv", OF execute_parallel_confined assms(1-3)] assms(4-6)
  by blast

theorem block_serializable_witness:
  "\<exists>s m. sched_reach sample_job (sched_start sample_job 1 Map.empty) s \<and> sc_map s = m \<and>
     serial_run (block_run sample_exec sample_codec [sample_txn]) [0] Map.empty = (Ret True, m)"
proof -
  obtain s where s: "sched_reach sample_job (sched_start sample_job 1 Map.empty) s"
    "\<forall>t. sc_phase s t = Stopped" "sc_flag s"
    using sample_run by blast
  have "serial_run (block_run sample_exec sample_codec [sample_txn]) [0] Map.empty = (Ret True, sc_map s)"
    using block_serializable [OF _ _ sample_graph_created sample_job_def s(1,2)] s(3)
    by (simp add: sample_block_def)
  then show ?thesis using s(1) by blast
qed

section \<open>What a run does\<close>

lemma run_history:
  assumes "sched_reach J (sched_start J thCount m) s"
  shows "distinct (sc_log s) \<and> set (sc_log s) \<subseteq> {0..<j_txns J} \<and>
    (\<forall>a<length (sc_log s). \<forall>p < sc_log s ! a. j_edge J p (sc_log s ! a) \<longrightarrow> p \<in> set (take a (sc_log s))) \<and>
    (\<forall>t<thCount. sc_phase s t = Stopped \<longrightarrow> sc_flag s \<longrightarrow> set (sc_log s) = {0..<j_txns J})"
proof -
  have inv: "sched_inv J thCount m s" by (rule sched_inv_reach [OF assms]) simp
  have log: "distinct (sc_log s)" "preds_before J (sc_log s)" "set (sc_log s) \<subseteq> {0..<j_txns J}"
    using inv by (auto simp: sched_inv_def log_ok_def)
  have "set (sc_log s) = {0..<j_txns J}" if "t < thCount" "sc_phase s t = Stopped" "sc_flag s" for t
  proof (rule card_subset_eq [OF _ log(3)])
    have "int (j_txns J) \<le> sc_completed s" using inv that by (auto simp: sched_inv_def stop_ok_def)
    moreover have "sc_completed s \<le> int (card (set (sc_log s)))"
      using inv by (simp add: sched_inv_def count_ok_def card_mono)
    moreover have "card (set (sc_log s)) \<le> card {0..<j_txns J}" by (intro card_mono log) simp
    ultimately show "card (set (sc_log s)) = card {0..<j_txns J}" by simp
  qed simp
  then show ?thesis using log by (simp add: preds_before_def)
qed

text \<open>C11: In every state the threads can reach, each transaction has been processed at most once, only
  transactions of the block have been processed, and each after all earlier transactions it depends
  on; and once a thread has left the loop with the failure flag clear, all of them have been.\<close>

theorem each_once_in_order:
  assumes "sched_reach J (sched_start J thCount m) s"
  shows "distinct (sc_log s) \<and> set (sc_log s) \<subseteq> {0..<j_txns J} \<and>
    (\<forall>a<length (sc_log s). \<forall>p < sc_log s ! a. j_edge J p (sc_log s ! a) \<longrightarrow> p \<in> set (take a (sc_log s))) \<and>
    (\<forall>t<thCount. sc_phase s t = Stopped \<longrightarrow> sc_flag s \<longrightarrow> set (sc_log s) = {0..<j_txns J})"
  by (rule run_history [OF assms])

theorem each_once_in_order_witness:
  "\<exists>s. sched_reach sample_job (sched_start sample_job 1 Map.empty) s \<and> distinct (sc_log s) \<and> set (sc_log s) = {0}"
proof -
  obtain s where s: "sched_reach sample_job (sched_start sample_job 1 Map.empty) s"
    "\<forall>t. sc_phase s t = Stopped" "sc_flag s"
    using sample_run by blast
  have "distinct (sc_log s)" "set (sc_log s) = {0..<j_txns sample_job}"
    using each_once_in_order [OF s(1)] s(2,3) by auto
  moreover have "j_txns sample_job = 1"
    by (simp add: sample_job_def sample_graph_def sample_block_def)
  ultimately show ?thesis using s(1) by auto
qed


lemma sample_job_simps:
  "j_txns sample_job = 1" "i < 1 \<Longrightarrow> j_parses sample_job i"
  "j_run sample_job = block_run sample_exec sample_codec [sample_txn]"
  by (simp_all add: sample_job_def sample_graph_def sample_block_def) (simp add: block_job_def)


text \<open>A transaction whose header does not parse is taken but never completed, so the parallel
  scheduler cannot end well: as long as no transaction has failed, no thread leaves the loop, in
  whatever state the threads have reached. On a block whose other transactions succeed the threads
  spin for ever.\<close>

lemma unparsed_header_holds_threads:
  assumes "sched_reach J (sched_start J thCount m) s" "i < j_txns J" "\<not> j_parses J i" "sc_flag s"
  shows "\<forall>t<thCount. sc_phase s t \<noteq> Stopped"
  using bad_header_holds [OF assms(1-3)] assms(4) by blast

definition unparsed_txn :: transaction where
  "unparsed_txn = \<lparr>t_header = ''?'', t_dependencies = [], t_payload = []\<rparr>"

definition unparsed_block :: block where
  "unparsed_block = \<lparr>b_header = [], b_transactions = [unparsed_txn], block_hash = []\<rparr>"

definition unparsed_job :: job where
  "unparsed_job = block_job sample_exec sample_codec (built sample_codec unparsed_block sample_dag)
     (b_transactions unparsed_block)"

lemma unparsed_header: "parse_header sample_codec (t_header unparsed_txn) = None"
  by (simp add: sample_codec_def unparsed_txn_def dec_header_def)

lemma unparsed_job_simps: "j_txns unparsed_job = 1" "\<not> j_parses unparsed_job 0"
  unfolding unparsed_job_def by (simp_all add: unparsed_block_def block_job_def unparsed_header)

lemma unparsed_header_holds_threads_witness:
  "\<exists>s. sched_reach unparsed_job (sched_start unparsed_job 1 Map.empty) s \<and> sc_deg s = [- 1] \<and> sc_phase s 0 \<noteq> Stopped"
proof -
  let ?s0 = "sched_start unparsed_job 1 Map.empty"
  let ?s1 = "goto 0 Scanning ?s0"
  let ?s2 = "goto 0 (Chosen 0) (?s1\<lparr>sc_deg := (sc_deg ?s1)[0 := - 1]\<rparr>)"
  have 1: "sched_step unparsed_job ?s0 ?s1"
    by (rule sched_step.enter) (simp_all add: sched_start_def unparsed_job_simps)
  have 2: "sched_step unparsed_job ?s1 ?s2"
    by (rule sched_step.select) (simp_all add: sched_start_def unparsed_job_simps in_degrees_def)
  have 3: "sched_step unparsed_job ?s2 (goto 0 AtLoop ?s2)"
    by (rule sched_step.skip [of _ _ 0]) (simp_all add: unparsed_job_simps)
  note reach = sched_reach.step [OF sched_reach.step [OF sched_reach.step [OF sched_reach.refl 1] 2] 3]
  have "sc_phase (goto 0 AtLoop ?s2) 0 \<noteq> Stopped"
    using unparsed_header_holds_threads [OF reach, of 0] unparsed_job_simps by (simp add: sched_start_def)
  moreover have "sc_deg (goto 0 AtLoop ?s2) = [- 1]"
    by (simp add: sched_start_def in_degrees_def unparsed_job_simps)
  ultimately show ?thesis using reach by blast
qed

section \<open>The serial scheduler\<close>

text \<open>C13: The serial scheduler returns, and what it does is exactly serial execution: for a block all of
  whose headers parse it builds the graph, runs the transactions in block order until one is refused,
  returns that verdict with the map it has reached, and flushes the map into the state exactly when
  every transaction succeeded. The hypothesis excludes only the runs in which a handler itself fails.\<close>

theorem serial_scheduler_spec:
  assumes "\<forall>t\<in>set (b_transactions b). parse_header C (t_header t) \<noteq> None"
    and "cleaned d" "completedTxns d = 0"
    and "serial_run (block_run (execute_serial C I (getValue E st)) C (b_transactions b))
      [0..<length (b_transactions b)] m = (Ret ok, m')"
  shows "\<exists>g. extractBlock_serial C b d = Ret (b_transactions b, g) \<and>
    schedulTxns_serial E C I order (b_transactions b) g m st =
      Some (if ok then bind_outcome (flushMapToState E (map_entries order m') st) (\<lambda>st'. Ret (True, m', st'))
            else Ret (False, m', st))"
proof -
  have g: "extractBlock_serial C b d = Ret (b_transactions b, built C b d)"
    using assms(1,2) by (simp add: extractBlock_serial_def create_serial_eq)
  obtain s where "executeTxns (execute_serial C I (getValue E st)) C (b_transactions b)
      \<lparr>ss_dag = built C b d, ss_flag = True, ss_map = m\<rparr> = Some (Ret s)" "ss_flag s = ok" "ss_map s = m'"
    using executeTxns_runs [OF assms(1) HOL.refl ready_built [OF assms(3)] _ assms(4)] by auto
  then show ?thesis using g by (auto simp: schedulTxns_serial_def)
qed

lemma no_value: "getValue sample_env Map.empty = (\<lambda>_. [])"
  by (simp add: fun_eq_iff getValue_def getNode_def no_node_def)

lemma cleaned_sample: "cleaned sample_dag" "completedTxns sample_dag = 0"
  by (simp_all add: cleaned_def sample_dag_def)

theorem serial_scheduler_spec_witness:
  "\<exists>g m st. extractBlock_serial sample_codec sample_block sample_dag = Ret (b_transactions sample_block, g) \<and>
     schedulTxns_serial sample_env sample_codec sample_image (\<lambda>m. []) (b_transactions sample_block) g Map.empty Map.empty =
       Some (Ret (True, m, st))"
proof -
  obtain m where m: "wallet_process sample_codec (\<lambda>_. []) sample_txn Map.empty = (Ret True, m)"
    using sample_deposit by blast
  have "serial_run (block_run (execute_serial sample_codec sample_image (getValue sample_env Map.empty))
      sample_codec (b_transactions sample_block)) [0..<length (b_transactions sample_block)] Map.empty = (Ret True, m)"
    by (simp add: sample_block_def block_run_def execute_serial_def run_family_def new_header_def no_value
        and_then_run [where m = "wallet_process sample_codec (\<lambda>_. []) sample_txn", OF m])
  from serial_scheduler_spec [OF _ cleaned_sample this, of "\<lambda>m. []"] show ?thesis
    by (auto simp: sample_block_def map_entries_def flushMapToState_def flush_inserts_def)
qed

text \<open>C14: A block whose only transaction has a header that does not parse sends the serial scheduler into
  an endless loop: the graph is built, and \<open>executeTxns\<close> does not return.\<close>

theorem serial_scheduler_spins:
  assumes "b_transactions b = [t]" "parse_header C (t_header t) = None" "cleaned d" "completedTxns d = 0"
  shows "\<exists>g. create_serial C b d = Ret g \<and>
    executeTxns ex C [t] \<lparr>ss_dag = g, ss_flag = True, ss_map = m\<rparr> = None"
proof -
  define g where "g = d\<lparr>CurrentTransactions := extract_all C [t] 0, totalTxns := 1, adjacencyMatrix := [[0]],
    inDegree := Some [0]\<rparr>"
  have g: "totalTxns g = 1" "completedTxns g = 0" "inDegree g = Some [0]"
    using assms(4) by (simp_all add: g_def)
  have "create_serial C b d = Ret g"
    using assms(3)
    by (simp add: create_serial_def assms(1) dependencyMatrix_serial_def pairs_of_def cleaned_def Let_def g_def)
  moreover have "selectTxn_serial g = Ret (Some 0, take_txn 0 [0] g)"
    by (simp add: selectTxn_serial_def scan_zero_def g)
  moreover have "spinning \<lparr>ss_dag = take_txn 0 [0] g, ss_flag = True, ss_map = m\<rparr>"
    by (simp add: spinning_def take_txn_def g)
  ultimately show ?thesis
    using assms(2)
    by (intro exI [of _ g]) (simp add: executeTxns.simps [of ex C "[t]" "\<lparr>ss_dag = g, ss_flag = True, ss_map = m\<rparr>"]
        executeTxns_spins g)
qed

theorem serial_scheduler_spins_witness:
  "\<exists>g. create_serial sample_codec unparsed_block sample_dag = Ret g \<and>
     executeTxns sample_exec sample_codec [unparsed_txn] \<lparr>ss_dag = g, ss_flag = True, ss_map = Map.empty\<rparr> = None"
  by (rule serial_scheduler_spins) (simp_all add: unparsed_block_def unparsed_header cleaned_sample)
end
