(* ===== verification/Graph_Properties.thy ===== *)
theory Graph_Properties
  imports Execution_Properties
begin

text \<open>
  The properties of the dependency graph: how the threads share its rows, that the cells may be
  filled in any order, that the versions of the builder agree, and what its connected components are.
\<close>

text \<open>Every way the versions of the program cut the rows of the dependency matrix into shares, one
  share per thread, covers each row exactly once and in order, for every number of transactions and
  every positive number of threads.\<close>

lemma threads_share_rows:
  assumes "0 < tc"
  shows "concat (map (row_range n tc) [0..<tc]) = [0..<n] \<and>
    concat (map (row_range_cluster n tc) [0..<tc]) = [0..<n] \<and>
    concat (map (row_range_pool n tc) [0..<tc]) = [0..<n]"
  by (simp add: threads_cover [OF assms] threads_cover_cluster [OF assms] threads_cover_pool [OF assms])

lemma threads_share_rows_witness:
  "concat (map (row_range_cluster 5 3) [0..<3]) = [0..<5] \<and> map (length \<circ> row_range_pool 5 3) [0..<3] = [2, 2, 1]"
  using threads_share_rows [of 3 5] by (simp add: row_range_pool_def upt_rec)

text \<open>The graph does not depend on how the threads interleave: whatever the order in which the
  cells of the matrix are visited by the threads together, the result is the graph \<open>create_dag\<close>
  returns when the threads run one after the other.\<close>

lemma create_in_any_order:
  assumes "0 < thCount" "create_dag C b thCount d = Ret g"
    and "ts = extract_all C (b_transactions b) 0" "n = length ts"
    and "mset cs = mset (concat (map (\<lambda>pid. pairs_of n (row_range n thCount pid)) [0..<thCount]))"
  shows "each mark_cell cs
      (d\<lparr>threadCount := thCount, CurrentTransactions := ts, totalTxns := n,
         adjacencyMatrix := replicate n (replicate n 0), inDegree := Some (replicate n 0)\<rparr>) = Ret g"
proof -
  let ?d = "d\<lparr>threadCount := thCount, CurrentTransactions := ts, totalTxns := n,
         adjacencyMatrix := replicate n (replicate n 0), inDegree := Some (replicate n 0)\<rparr>"
  have "each mark_cell cs ?d =
    Ret (?d\<lparr>adjacencyMatrix := dep_matrix (dep_rel ts) (length ts),
            inDegree := Some (in_degrees (dep_rel ts) (length ts))\<rparr>)"
    by (rule mark_cells_any_order [of thCount]) (simp_all add: assms)
  then show ?thesis
    using assms(2) by (cases d) (simp add: create_dag_eq [OF assms(1)] built_def assms(3,4) Let_def)
qed

definition pair_block :: block where
  "pair_block = \<lparr>b_header = [], b_transactions = [sample_txn, sample_txn], block_hash = []\<rparr>"

lemma create_in_any_order_witness:
  "\<exists>g. create_dag sample_codec pair_block 2 sample_dag = Ret g \<and>
     each mark_cell [(0, 1)]
      (sample_dag\<lparr>threadCount := 2, CurrentTransactions := extract_all sample_codec (b_transactions pair_block) 0,
         totalTxns := 2, adjacencyMatrix := [[0, 0], [0, 0]], inDegree := Some [0, 0]\<rparr>) = Ret g"
proof -
  obtain g where g: "create_dag sample_codec pair_block 2 sample_dag = Ret g"
    by (simp add: create_dag_eq)
  have 2: "replicate 2 x = [x, x]" "[0..<2] = [0, 1]" for x :: 'a
    by (simp_all add: numeral_2_eq_2 upt_rec)
  show ?thesis
    using create_in_any_order [OF _ g HOL.refl HOL.refl, of "[(0, 1)]"] g
    by (auto simp: pair_block_def 2 row_range_def pairs_of_def Let_def numeral_2_eq_2)
qed

text \<open>The four versions of the builder (parallel, serial, cluster and thread pool) agree: from a
  cleared graph object and a block whose headers all parse, they return the same dependency matrix,
  and the three that count predecessors return the same counts. The cluster version leaves the counts
  as they were.\<close>

lemma builders_agree:
  assumes "cleaned d" "\<forall>t\<in>set (b_transactions b). parse_header C (t_header t) \<noteq> None"
    and "0 < thCount" "0 < threadCount d" "pb s = Some b"
  shows "\<exists>p s' c q. create_dag C b thCount d = Ret p \<and> create_serial C b d = Ret s' \<and>
    create_cluster C b thCount d = Ret c \<and> create_pool C pb s d = Ret q \<and>
    adjacencyMatrix s' = adjacencyMatrix p \<and> adjacencyMatrix c = adjacencyMatrix p \<and>
    inDegree s' = inDegree p \<and> inDegree q = inDegree p \<and> inDegree c = inDegree d \<and>
    (\<forall>i<length (b_transactions b). \<forall>j<length (b_transactions b).
       cell (adjacencyMatrix q) i j = cell (adjacencyMatrix p) i j)"
proof -
  obtain q where "create_pool C pb s d = Ret q"
    "inDegree q = inDegree (built C b d)" "totalTxns q = length (b_transactions b)"
    "\<And>i j. i < totalTxns q \<Longrightarrow> j < totalTxns q \<Longrightarrow>
       cell (adjacencyMatrix q) i j = cell (adjacencyMatrix (built C b d)) i j"
    by (rule create_pool_eq [where parse_block = pb and s = s, OF assms(4,1,5,2)]) blast
  then show ?thesis
    by (simp add: create_dag_eq create_serial_eq create_cluster_eq assms)
qed

lemma builders_agree_witness:
  "\<exists>p c. create_dag sample_codec pair_block 2 (sample_dag\<lparr>threadCount := 4\<rparr>) = Ret p \<and>
     create_cluster sample_codec pair_block 2 (sample_dag\<lparr>threadCount := 4\<rparr>) = Ret c \<and>
     adjacencyMatrix c = adjacencyMatrix p"
proof -
  have "cleaned (sample_dag\<lparr>threadCount := 4\<rparr>)" "0 < threadCount (sample_dag\<lparr>threadCount := 4\<rparr>)"
    by (simp_all add: cleaned_def sample_dag_def)
  from builders_agree [OF this(1) _ _ this(2), of pair_block sample_codec 2 "\<lambda>_. Some pair_block" "[]"]
  show ?thesis by (auto simp: pair_block_def)
qed

section \<open>Connected components\<close>

text \<open>The depth-first search of the connected components always returns, and its components are
  exactly the classes of the symmetric dependency relation: together they list every transaction
  once, none is empty, and each holds all transactions reachable from any of its members.\<close>

lemma components_by_search:
  "\<exists>cs. are_components (adjacent a) (length a) cs \<and>
     connectedComponents a t = Some \<lparr>totalComponents = length cs,
       componentsList = componentsList t @
         map (\<lambda>c. \<lparr>transactionList = c, assignedFollower = 0, compid = 0\<rparr>) cs\<rparr>"
  using components_loop_correct [of a "length a"] by (auto simp: connectedComponents_def)

text \<open>C15: The union-find version the cluster uses returns as well, for whatever order its hash map
  yields the groups in, and finds the same components as the depth-first search: the tables list the
  same sets of transactions, and the cluster's table numbers them consecutively.\<close>

theorem components_by_union_find:
  assumes "\<And>xs. mset (order xs) = mset xs"
  shows "\<exists>t u. connectedComponents a \<lparr>totalComponents = 0, componentsList = []\<rparr> = Some t \<and>
    connectedComponents_cluster order a = Some u \<and>
    are_components (adjacent a) (length a) (map transactionList (componentsList u)) \<and>
    (\<lambda>c. set (transactionList c)) ` set (componentsList u) = (\<lambda>c. set (transactionList c)) ` set (componentsList t) \<and>
    map compid (componentsList u) = map int [0..<totalComponents u]"
proof -
  obtain cs where cs: "components_loop (adjacent a) (length a) [0..<length a] (replicate (length a) False) = Some cs"
    "are_components (adjacent a) (length a) cs"
    using components_loop_correct [of a "length a"] by blast
  obtain ds where ds: "are_components (adjacent a) (length a) ds"
    "connectedComponents_cluster order a = Some \<lparr>totalComponents = length ds,
       componentsList = map (\<lambda>(c, k). \<lparr>transactionList = c, assignedFollower = 0, compid = int k\<rparr>)
         (zip ds [0..<length ds])\<rparr>"
    by (rule connectedComponents_cluster_correct [where order = order and a = a, OF assms]) blast
  let ?t = "\<lparr>totalComponents = length cs,
    componentsList = map (\<lambda>c. \<lparr>transactionList = c, assignedFollower = 0, compid = 0\<rparr>) cs\<rparr>"
  let ?u = "\<lparr>totalComponents = length ds,
    componentsList = map (\<lambda>(c, k). \<lparr>transactionList = c, assignedFollower = 0, compid = int k\<rparr>)
      (zip ds [0..<length ds])\<rparr>"
  have t: "map transactionList (componentsList ?t) = cs" by (simp add: comp_def)
  have u: "map transactionList (componentsList ?u) = ds" "map compid (componentsList ?u) = map int [0..<totalComponents ?u]"
    by (rule nth_equalityI; simp)+
  have sets: "(\<lambda>c. set (transactionList c)) ` set xs = set ` set (map transactionList xs)" for xs
    by (simp add: image_image)
  have "(\<lambda>c. set (transactionList c)) ` set (componentsList ?u) = (\<lambda>c. set (transactionList c)) ` set (componentsList ?t)"
    unfolding sets t u(1) by (rule components_unique [OF ds(1) cs(2)])
  moreover have "connectedComponents a \<lparr>totalComponents = 0, componentsList = []\<rparr> = Some ?t"
    by (simp add: connectedComponents_def cs(1))
  ultimately show ?thesis
    using ds u by (intro exI [of _ ?t] exI [of _ ?u] conjI) (simp_all only: )
qed

theorem components_by_union_find_witness:
  "\<exists>u. connectedComponents_cluster (\<lambda>xs. xs) [[0, 0, 1], [0, 0, 0], [0, 0, 0]] = Some u \<and>
     (\<lambda>c. set (transactionList c)) ` set (componentsList u) \<noteq> {}"
  using components_by_union_find [of "\<lambda>xs. xs" "[[0, 0, 1], [0, 0, 0], [0, 0, 0]]"]
  by (force simp: are_components_def)
end
