(* ===== verification/Merkle_Update.thy ===== *)
theory Merkle_Update
  imports Commit
begin

text \<open>
  What \<open>updateTree\<close> computes: its node cache is filled before the nodes below are rehashed and never
  refreshed, so every node on the paths of the given keys is hashed over the hashes its children had
  before the call.
\<close>

section \<open>Reads through the cache\<close>

text \<open>
  \<open>m\<close> is the database before the call. What has changed has been visited, what has been visited is cached,
  and what is cached is as it was.
\<close>

definition cache_ok :: "db \<Rightarrow> string set \<times> gstate \<Rightarrow> bool" where
  "cache_ok m = (\<lambda>(visited, g).
     (\<forall>k n. nodeCache g k = Some n \<longrightarrow> n = getNode m k) \<and> (\<forall>k. k \<notin> visited \<longrightarrow> gs_db g k = m k) \<and>
     (\<forall>k\<in>visited. nodeCache g k \<noteq> None))"

lemma cache_okD:
  assumes "cache_ok m (visited, g)"
  shows "nodeCache g k = Some n \<Longrightarrow> n = getNode m k" "k \<notin> visited \<Longrightarrow> gs_db g k = m k"
    "k \<in> visited \<Longrightarrow> nodeCache g k \<noteq> None"
  using assms by (auto simp: cache_ok_def)

text \<open>A read gives the old node, and only the cache grows.\<close>

definition grown :: "gstate \<Rightarrow> gstate \<Rightarrow> bool" where
  "grown g g' \<longleftrightarrow> gs_db g' = gs_db g \<and> (\<forall>k. nodeCache g k \<noteq> None \<longrightarrow> nodeCache g' k \<noteq> None)"

lemma cached_read:
  assumes "cache_ok m (visited, g)"
  shows "fst (getCachedNode g k) = getNode m k" "cache_ok m (visited, snd (getCachedNode g k))"
    "grown g (snd (getCachedNode g k))" "nodeCache (snd (getCachedNode g k)) k \<noteq> None"
proof -
  have old: "getNode (gs_db g) k = getNode m k" if "nodeCache g k = None"
    using cache_okD(2,3) [OF assms, of k] that by (metis getNode_other)
  show "fst (getCachedNode g k) = getNode m k"
    using cache_okD(1) [OF assms, of k] old by (auto simp: getCachedNode_def Let_def split: option.split)
  show "cache_ok m (visited, snd (getCachedNode g k))"
    using assms old by (auto simp: getCachedNode_def Let_def cache_ok_def split: option.split)
  show "grown g (snd (getCachedNode g k))" "nodeCache (snd (getCachedNode g k)) k \<noteq> None"
    by (auto simp: getCachedNode_def Let_def grown_def split: option.split)
qed

lemma cached_children:
  assumes "cache_ok m (visited, g)"
  shows "fst (cached_child_hashes cs g) = child_hashes m cs \<and> cache_ok m (visited, snd (cached_child_hashes cs g)) \<and>
    grown g (snd (cached_child_hashes cs g))"
  using assms
proof (induction cs arbitrary: g)
  case (Cons c cs)
  obtain n g1 where 1: "getCachedNode g c = (n, g1)" by fastforce
  obtain r g2 where 2: "cached_child_hashes cs g1 = (r, g2)" by fastforce
  have "n = getNode m c" "cache_ok m (visited, g1)" "grown g g1"
    using cached_read [OF Cons.prems, of c] 1 by simp_all
  moreover from this(2) have "r = child_hashes m cs" "cache_ok m (visited, g2)" "grown g1 g2"
    using Cons.IH [of g1] 2 by simp_all
  ultimately show ?case using 1 2 by (auto simp: child_hashes_def grown_def)
qed (simp add: child_hashes_def grown_def)

section \<open>One node\<close>

definition stale_hash :: "env \<Rightarrow> db \<Rightarrow> string \<Rightarrow> string" where
  "stale_hash E m k = computeHash E (child_hashes m (nchildren (getNode m k)) @ nvalue (getNode m k))"

lemma nhash_stored: "CHR '','' \<notin> set h \<Longrightarrow> nhash (deserializeNode (serializeNode (n\<lparr>nhash := h\<rparr>))) = h"
proof -
  assume h: "CHR '','' \<notin> set h"
  have s: "serializeNode (n\<lparr>nhash := h\<rparr>) = h @ CHR '','' # (nvalue n @ concat (map (\<lambda>c. CHR '','' # c) (nchildren n)))"
    by (simp add: serializeNode_eq)
  have "nhash (deserializeNode (h @ CHR '','' # r)) = h" for r
    using substr_to_find [of "[]" "h @ CHR '','' # r" "CHR '',''"] h
    by (simp add: deserializeNode_def Let_def takeWhile_segment)
  then show ?thesis unfolding s .
qed

lemma update_one:
  assumes E: "lawful E" and c: "cache_ok m (visited, g)" and k: "k \<notin> visited"
  shows "cache_ok m (insert k visited, update_node E k g)"
    and "nhash (getNode (gs_db (update_node E k g)) k) = stale_hash E m k"
    and "k' \<noteq> k \<Longrightarrow> gs_db (update_node E k g) k' = gs_db g k'"
proof -
  obtain nd g1 where 1: "getCachedNode g k = (nd, g1)" by fastforce
  obtain hs g2 where 2: "cached_child_hashes (nchildren nd) g1 = (hs, g2)" by fastforce
  have g1: "nd = getNode m k" "cache_ok m (visited, g1)" "grown g g1" "nodeCache g1 k \<noteq> None"
    using cached_read [OF c, of k] 1 by simp_all
  have g2: "hs = child_hashes m (nchildren nd)" "cache_ok m (visited, g2)" "grown g1 g2"
    using cached_children [OF g1(2), of "nchildren nd"] 2 by simp_all
  have db: "gs_db g2 = gs_db g" "nodeCache g2 k \<noteq> None" using g1 g2 by (simp_all add: grown_def)
  have new: "computeHash E (hs @ nvalue nd) = stale_hash E m k" by (simp add: stale_hash_def g1(1) g2(1))
  have u: "update_node E k g = (if nhash nd \<noteq> stale_hash E m k
      then g2\<lparr>gs_db := (gs_db g)(k \<mapsto> serializeNode (nd\<lparr>nhash := stale_hash E m k\<rparr>))\<rparr> else g2)"
    by (simp add: update_node_def 1 2 new put_eq [OF E] db(1))
  show "cache_ok m (insert k visited, update_node E k g)"
    using g2(2) db by (auto simp: u cache_ok_def)
  show "k' \<noteq> k \<Longrightarrow> gs_db (update_node E k g) k' = gs_db g k'" using db(1) by (simp add: u)
  have "getNode (gs_db g) k = getNode m k" using cache_okD(2) [OF c k] by (rule getNode_other)
  moreover have "CHR '','' \<notin> set (stale_hash E m k)" by (simp add: stale_hash_def)
  ultimately show "nhash (getNode (gs_db (update_node E k g)) k) = stale_hash E m k"
    using db(1) g1(1) nhash_stored [of "stale_hash E m k" nd] by (auto simp: u getNode_def)
qed

section \<open>The climb and the loop over the keys\<close>

text \<open>
  \<open>rehashed\<close>: the visited nodes carry the hash over their children's old hashes, and with a node everything
  above it has been visited.
\<close>

definition rehashed :: "env \<Rightarrow> db \<Rightarrow> string set \<times> gstate \<Rightarrow> bool" where
  "rehashed E m = (\<lambda>(visited, g). cache_ok m (visited, g) \<and> [] \<notin> visited \<and>
     (\<forall>k\<in>visited. nhash (getNode (gs_db g) k) = stale_hash E m k))"

definition upwards :: "string set \<Rightarrow> bool" where
  "upwards visited \<longleftrightarrow> (\<forall>k\<in>visited. \<forall>p. p \<noteq> [] \<longrightarrow> prefix p k \<longrightarrow> p \<in> visited)"

lemma prefix_butlast: "prefix p (xs :: 'a list) \<Longrightarrow> p = xs \<or> prefix p (butlast xs)"
  by (cases xs rule: rev_cases) auto

lemma climb_tree_rehashed:
  assumes "lawful E" "rehashed E m (visited, g)"
  shows "rehashed E m (climb_tree E cur (visited, g)) \<and>
    fst (climb_tree E cur (visited, g)) \<subseteq> visited \<union> {p. p \<noteq> [] \<and> prefix p cur} \<and>
    visited \<subseteq> fst (climb_tree E cur (visited, g)) \<and> (cur \<noteq> [] \<longrightarrow> cur \<in> fst (climb_tree E cur (visited, g)))"
  using assms(2)
proof (induction "length cur" arbitrary: cur visited g)
  case 0
  then show ?case by (subst (1 2 3 4) climb_tree.simps) auto
next
  case (Suc l)
  show ?case
  proof (cases "cur \<in> visited")
    case True
    then show ?thesis using Suc.prems by (subst (1 2 3 4) climb_tree.simps) auto
  next
    case False
    have ne: "cur \<noteq> []" using Suc.hyps(2) by auto
    have c: "cache_ok m (visited, g)" using Suc.prems by (simp add: rehashed_def)
    let ?s = "(insert cur visited, update_node E cur g)"
    note u = update_one [OF assms(1) c False]
    have "nhash (getNode (gs_db (update_node E cur g)) k) = stale_hash E m k" if "k \<in> insert cur visited" for k
    proof (cases "k = cur")
      case False
      then show ?thesis
        using that Suc.prems u(3) [OF False] by (auto simp: rehashed_def getNode_def)
    qed (simp add: u(2))
    then have "rehashed E m ?s" using u(1) Suc.prems ne by (auto simp: rehashed_def)
    from Suc.hyps(1) [OF _ this, of "butlast cur"] Suc.hyps(2)
    have IH: "rehashed E m (climb_tree E (butlast cur) ?s)"
      "fst (climb_tree E (butlast cur) ?s) \<subseteq> insert cur visited \<union> {p. p \<noteq> [] \<and> prefix p (butlast cur)}"
      "insert cur visited \<subseteq> fst (climb_tree E (butlast cur) ?s)" by auto
    have step: "climb_tree E cur (visited, g) = climb_tree E (butlast cur) ?s"
      using False ne by (subst climb_tree.simps) simp
    have "prefix p (butlast cur) \<Longrightarrow> prefix p cur" for p
      using prefix_order.trans [OF _ prefixeq_butlast] by blast
    then show ?thesis unfolding step using IH ne by auto
  qed
qed

lemma climb_tree_grows: "visited \<subseteq> fst (climb_tree E cur (visited, g))"
proof (induction "length cur" arbitrary: cur visited g)
  case 0
  then show ?case by (subst climb_tree.simps) simp
next
  case (Suc l)
  show ?case
  proof (cases "cur \<in> visited \<or> cur = []")
    case True then show ?thesis by (subst climb_tree.simps) auto
  next
    case False
    then have "climb_tree E cur (visited, g) = climb_tree E (butlast cur) (insert cur visited, update_node E cur g)"
      by (subst climb_tree.simps) simp
    then show ?thesis using Suc.hyps(1) [of "butlast cur" "insert cur visited" "update_node E cur g"] Suc.hyps(2) by auto
  qed
qed

text \<open>The climb stops at a node that was visited before, and above that everything was.\<close>

lemma climb_tree_upwards:
  assumes "upwards D" "\<forall>q\<in>P. length cur < length q" "\<forall>q\<in>P. \<forall>p. p \<noteq> [] \<longrightarrow> prefix p q \<longrightarrow> p \<in> P \<or> prefix p cur"
  shows "upwards (fst (climb_tree E cur (D \<union> P, g))) \<and>
    (\<forall>p. p \<noteq> [] \<longrightarrow> prefix p cur \<longrightarrow> p \<in> fst (climb_tree E cur (D \<union> P, g)))"
  using assms(2,3)
proof (induction "length cur" arbitrary: cur P g)
  case 0
  then have "climb_tree E cur (D \<union> P, g) = (D \<union> P, g)" by (subst climb_tree.simps) simp
  moreover have "upwards (D \<union> P)"
    using assms(1) 0 unfolding upwards_def by (auto 0 3)
  ultimately show ?case using 0 by simp
next
  case (Suc l)
  have ne: "cur \<noteq> []" using Suc.hyps(2) by auto
  show ?case
  proof (cases "cur \<in> D \<union> P")
    case True
    then have "cur \<in> D" using Suc.prems(1) by auto
    then have up: "p \<in> D" if "p \<noteq> []" "prefix p cur" for p using assms(1) that by (auto simp: upwards_def)
    have "climb_tree E cur (D \<union> P, g) = (D \<union> P, g)" using True by (subst climb_tree.simps) simp
    moreover have "upwards (D \<union> P)" using assms(1) Suc.prems(2) up unfolding upwards_def by blast
    ultimately show ?thesis using up by simp
  next
    case False
    let ?P = "insert cur P"
    have step: "climb_tree E cur (D \<union> P, g) = climb_tree E (butlast cur) (D \<union> ?P, update_node E cur g)"
      using False ne by (subst climb_tree.simps) simp
    have "upwards (fst (climb_tree E (butlast cur) (D \<union> ?P, update_node E cur g))) \<and>
        (\<forall>p. p \<noteq> [] \<longrightarrow> prefix p (butlast cur) \<longrightarrow> p \<in> fst (climb_tree E (butlast cur) (D \<union> ?P, update_node E cur g)))"
    proof (rule Suc.hyps(1))
      show "l = length (butlast cur)" using Suc.hyps(2) by simp
      show "\<forall>q\<in>?P. length (butlast cur) < length q" using Suc.prems(1) ne by auto
      show "\<forall>q\<in>?P. \<forall>p. p \<noteq> [] \<longrightarrow> prefix p q \<longrightarrow> p \<in> ?P \<or> prefix p (butlast cur)"
        using Suc.prems(2) prefix_butlast by blast
    qed
    moreover have "cur \<in> fst (climb_tree E (butlast cur) (D \<union> ?P, update_node E cur g))"
      using climb_tree_grows [of "D \<union> ?P" E "butlast cur" "update_node E cur g"] by auto
    ultimately show ?thesis unfolding step using prefix_butlast by blast
  qed
qed

lemma keys_rehashed:
  assumes "lawful E" "rehashed E m (visited, g)" "upwards visited"
  shows "rehashed E m (foldl (\<lambda>s key. climb_tree E (computeHash E key) s) (visited, g) ks) \<and>
    visited \<subseteq> fst (foldl (\<lambda>s key. climb_tree E (computeHash E key) s) (visited, g) ks) \<and>
    fst (foldl (\<lambda>s key. climb_tree E (computeHash E key) s) (visited, g) ks) \<subseteq>
      visited \<union> {p. p \<noteq> [] \<and> (\<exists>k\<in>set ks. prefix p (computeHash E k))} \<and>
    (\<forall>k\<in>set ks. \<forall>p. p \<noteq> [] \<longrightarrow> prefix p (computeHash E k) \<longrightarrow>
       p \<in> fst (foldl (\<lambda>s key. climb_tree E (computeHash E key) s) (visited, g) ks))"
  using assms(2,3)
proof (induction ks arbitrary: visited g)
  case (Cons k ks)
  obtain v1 g1 where s: "climb_tree E (computeHash E k) (visited, g) = (v1, g1)" by fastforce
  have 1: "rehashed E m (v1, g1)" "v1 \<subseteq> visited \<union> {p. p \<noteq> [] \<and> prefix p (computeHash E k)}" "visited \<subseteq> v1"
    using climb_tree_rehashed [OF assms(1) Cons.prems(1), of "computeHash E k"] s by auto
  have 2: "upwards v1" "\<And>p. p \<noteq> [] \<Longrightarrow> prefix p (computeHash E k) \<Longrightarrow> p \<in> v1"
    using climb_tree_upwards [OF Cons.prems(2), of "{}" "computeHash E k" E g] s by auto
  note IH = Cons.IH [OF 1(1) 2(1)]
  show ?case
  proof (intro conjI ballI allI impI)
    fix k' p assume "k' \<in> set (k # ks)" "p \<noteq> []" "prefix p (computeHash E k')"
    then show "p \<in> fst (foldl (\<lambda>s key. climb_tree E (computeHash E key) s) (visited, g) (k # ks))"
      using IH 2(2) by (auto simp: s)
  qed (use IH 1(2,3) in \<open>auto simp: s\<close>)
qed simp

text \<open>The result of the whole call.\<close>

lemma hash_prefix_not_root: "prefix p (computeHash E k) \<Longrightarrow> p \<noteq> root_key"
proof
  assume p: "prefix p (computeHash E k)" "p = root_key"
  have "list_all is_hex p" using hash_hex [of E k] p(1) by (auto simp: prefix_def)
  then show False using p(2) root_not_hex by simp
qed

lemma updateTree_stale:
  fixes m :: db and keys :: string
  assumes E: "lawful E"
  defines "m' \<equiv> gs_db (updateTree E keys \<lparr>gs_db = m, nodeCache = Map.empty\<rparr>)"
  shows "k \<in> set (words_of keys) \<Longrightarrow> p \<noteq> [] \<Longrightarrow> prefix p (computeHash E k) \<Longrightarrow> nhash (getNode m' p) = stale_hash E m p"
    and "(\<And>k. k \<in> set (words_of keys) \<Longrightarrow> \<not> prefix p (computeHash E k)) \<Longrightarrow> p \<noteq> root_key \<Longrightarrow> m' p = m p"
    and "root_key \<notin> set (nchildren (getNode m root_key)) \<Longrightarrow>
      nhash (getNode m' root_key) = computeHash E (child_hashes m' (nchildren (getNode m root_key)))"
proof -
  let ?s0 = "({}, \<lparr>gs_db = m, nodeCache = Map.empty\<rparr>)"
  obtain v g where s: "foldl (\<lambda>s key. climb_tree E (computeHash E key) s) ?s0 (words_of keys) = (v, g)" by fastforce
  have "rehashed E m ?s0" "upwards {}" by (simp_all add: rehashed_def cache_ok_def upwards_def)
  from keys_rehashed [OF E this, of "words_of keys"] have
    r: "rehashed E m (v, g)" and sub: "v \<subseteq> {p. p \<noteq> [] \<and> (\<exists>k\<in>set (words_of keys). prefix p (computeHash E k))}"
    and all: "\<And>k p. k \<in> set (words_of keys) \<Longrightarrow> p \<noteq> [] \<Longrightarrow> prefix p (computeHash E k) \<Longrightarrow> p \<in> v"
    unfolding s by simp_all
  have m': "m' = rehash_root E (gs_db g)" unfolding m'_def updateTree_def s by simp
  have frame: "m' p = gs_db g p" if "p \<noteq> root_key" for p
    using that by (simp add: m' rehash_root_eq [OF E])
  have old: "gs_db g p = m p" if "p \<notin> v" for p using r that by (simp add: rehashed_def cache_ok_def)
  have root: "root_key \<notin> v" using sub hash_prefix_not_root by auto
  { assume k: "k \<in> set (words_of keys)" "p \<noteq> []" "prefix p (computeHash E k)"
    show "nhash (getNode m' p) = stale_hash E m p"
      using r all [OF k] frame [OF hash_prefix_not_root [OF k(3)]] by (simp add: rehashed_def getNode_def) }
  { assume "\<And>k. k \<in> set (words_of keys) \<Longrightarrow> \<not> prefix p (computeHash E k)" "p \<noteq> root_key"
    moreover from this(1) have "p \<notin> v" using sub by blast
    ultimately show "m' p = m p" using frame old by simp }
  { assume c: "root_key \<notin> set (nchildren (getNode m root_key))"
    have n: "getNode (gs_db g) root_key = getNode m root_key" using old [OF root] by (rule getNode_other)
    have "child_hashes (gs_db g) (nchildren (getNode m root_key)) = child_hashes m' (nchildren (getNode m root_key))"
      using c frame by (intro child_hashes_cong) (metis getNode_other)
    then show "nhash (getNode m' root_key) = computeHash E (child_hashes m' (nchildren (getNode m root_key)))"
      using nhash_stored [of "computeHash E (child_hashes (gs_db g) (nchildren (getNode m root_key)))" "getNode m root_key"]
      by (simp add: m' rehash_root_eq [OF E] n) (simp add: getNode_def) }
qed

section \<open>A tree whose hashes were never computed\<close>

text \<open>Inserting leaves the hashes of the inner nodes empty, and lists a child of the root for every first digit.\<close>

definition unhashed :: "db \<Rightarrow> bool" where
  "unhashed m \<longleftrightarrow> (\<forall>p. prefix_key p \<longrightarrow> nhash (getNode m p) = [])"

definition root_digits :: "env \<Rightarrow> char set \<Rightarrow> db \<Rightarrow> bool" where
  "root_digits E D m \<longleftrightarrow> (\<exists>ds. nchildren (getNode m root_key) = computeHash E [] # map (\<lambda>c. [c]) ds \<and> distinct ds \<and> set ds = D)"

lemma add_child_hash:
  assumes E: "lawful E" and m: "tree_ok m" and p: "prefix_key p \<or> p = root_key" and x: "is_hex x"
  shows "nhash (getNode (add_child E m p (if p = root_key then [x] else p @ [x])) q) = nhash (getNode m q)"
proof (cases "q = p")
  case True
  have "tidy (getNode m p) \<or> m p = None" using m p by (auto simp: tree_ok_def root_ok_def inner_ok_def)
  moreover have "CHR '','' \<notin> set (if p = root_key then [x] else p @ [x])"
    using p x hex_no_comma [of p] by (auto simp: prefix_key_def)
  ultimately show ?thesis using add_child_node(1) [OF E, of m p] True by simp
next
  case False
  then show ?thesis by (simp add: getNode_def add_child_frame [OF E False])
qed

lemma link_path_hash:
  assumes E: "lawful E"
  shows "tree_ok m \<Longrightarrow> prefix_key cur \<Longrightarrow> list_all is_hex cs \<Longrightarrow> length cur + length cs \<le> 64 \<Longrightarrow>
    nhash (getNode (link_path E cs cur m) q) = nhash (getNode m q)"
proof (induction cs arbitrary: cur m)
  case (Cons c cs)
  have ne: "cur \<noteq> root_key" using Cons.prems(2) root_not_prefix_key by blast
  have 1: "tree_ok (add_child E m cur (cur @ [c]))" using add_child_inner [OF E Cons.prems(1,2)] Cons.prems(3) by simp
  have 2: "nhash (getNode (add_child E m cur (cur @ [c])) q) = nhash (getNode m q)"
    using add_child_hash [OF E Cons.prems(1), of cur c q] Cons.prems(2,3) ne by simp
  show ?case
  proof (cases cs)
    case Nil
    then show ?thesis using 2 by simp
  next
    case (Cons d ds)
    then have "prefix_key (cur @ [c])" using Cons.prems by (intro prefix_key_extend) auto
    then show ?thesis using Cons.IH [OF 1, of "cur @ [c]"] Cons.prems 2 by simp
  qed
qed simp

text \<open>An insertion as its three steps.\<close>

lemma inserted_steps:
  assumes E: "lawful E" and m: "tree_ok m"
  obtains x xs m1 m2 where "computeHash E key = x # xs" "length xs = 63" "is_hex x" "list_all is_hex xs"
    "m1 = m(computeHash E key \<mapsto> serializeNode \<lparr>nvalue = v, nhash = computeHash E v, nchildren = []\<rparr>)"
    "m2 = add_child E m1 root_key [x]" "tree_ok m1" "tree_ok m2" "inserted E key v m = link_path E xs [x] m2" "prefix_key [x]"
proof -
  obtain x xs where h: "computeHash E key = x # xs" "length xs = 63" "is_hex x"
      "list_all is_hex xs" "prefix_key [x]"
    using hash_cons [OF E] by metis
  let ?m = "m(computeHash E key \<mapsto> serializeNode \<lparr>nvalue = v, nhash = computeHash E v, nchildren = []\<rparr>)"
  have 1: "tree_ok ?m" by (rule leaf_tree_ok [OF E m])
  have 2: "tree_ok (add_child E ?m root_key [x])" by (rule add_child_root [OF E 1 h(3)])
  show thesis
    by (rule that [OF h(1-4) HOL.refl HOL.refl 1 2 _ h(5)]) (simp add: inserted_def insert_kv_eq [OF E] h(1))
qed

lemma inserted_unhashed:
  assumes E: "lawful E" and m: "tree_ok m" and u: "unhashed m"
  shows "unhashed (inserted E key v m)"
  unfolding unhashed_def
proof (intro allI impI)
  fix p assume p: "prefix_key p"
  obtain x xs m1 m2 where s: "computeHash E key = x # xs" "length xs = 63" "is_hex x" "list_all is_hex xs"
    "m1 = m(computeHash E key \<mapsto> serializeNode \<lparr>nvalue = v, nhash = computeHash E v, nchildren = []\<rparr>)"
    "m2 = add_child E m1 root_key [x]" "tree_ok m1" "tree_ok m2" "inserted E key v m = link_path E xs [x] m2" "prefix_key [x]"
    by (rule inserted_steps [OF E m])
  have "p \<noteq> computeHash E key" using p hash_length [OF E, of key] by (auto simp: prefix_key_def)
  then have "getNode m1 p = getNode m p" by (simp add: s(5) getNode_def)
  moreover have "nhash (getNode m2 p) = nhash (getNode m1 p)"
    using add_child_hash [OF E s(7) _ s(3), of root_key p] by (simp add: s(6))
  moreover have "nhash (getNode (inserted E key v m) p) = nhash (getNode m2 p)"
    unfolding s(9) by (rule link_path_hash [OF E s(8,10,4)]) (simp add: s(2))
  ultimately show "nhash (getNode (inserted E key v m) p) = []" using u p by (simp add: unhashed_def)
qed

lemma inserted_digits:
  assumes E: "lawful E" and m: "tree_ok m" and d: "root_digits E D m"
  shows "root_digits E (insert (hd (computeHash E key)) D) (inserted E key v m)"
proof -
  obtain x xs m1 m2 where s: "computeHash E key = x # xs" "length xs = 63" "is_hex x" "list_all is_hex xs"
    "m1 = m(computeHash E key \<mapsto> serializeNode \<lparr>nvalue = v, nhash = computeHash E v, nchildren = []\<rparr>)"
    "m2 = add_child E m1 root_key [x]" "tree_ok m1" "tree_ok m2" "inserted E key v m = link_path E xs [x] m2" "prefix_key [x]"
    by (rule inserted_steps [OF E m])
  obtain ds where ds: "nchildren (getNode m root_key) = computeHash E [] # map (\<lambda>c. [c]) ds" "distinct ds" "set ds = D"
    using d by (auto simp: root_digits_def)
  have 1: "getNode m1 root_key = getNode m root_key"
    using hash_not_root [of E key, symmetric] by (simp add: s(5) getNode_def)
  have t: "tidy (getNode m1 root_key) \<or> m1 root_key = None" using s(7) by (simp add: tree_ok_def root_ok_def)
  have c: "CHR '','' \<notin> set [x]" using s(3) not_hex_comma by auto
  have jk: "[x] \<noteq> computeHash E []" using hash_length [OF E, of "[]"] by (metis length_Cons list.size(3) numeral_eq_one_iff One_nat_def semiring_norm(83))
  have 2: "nchildren (getNode m2 root_key) = (if x \<in> D then computeHash E [] # map (\<lambda>c. [c]) ds
      else computeHash E [] # map (\<lambda>c. [c]) (ds @ [x]))"
    using add_child_node(1) [OF E t c] jk ds by (auto simp: s(6) 1)
  have "link_path E xs [x] m2 root_key = m2 root_key"
  proof (rule link_path_frame [OF E], intro allI impI notI)
    fix i assume "i < length xs" "root_key = [x] @ take i xs"
    then show False using s(3) by (auto simp: root_key_def is_hex_def isdigit_def)
  qed
  then have "getNode (inserted E key v m) root_key = getNode m2 root_key" unfolding s(9) by (rule getNode_other)
  then show ?thesis
    using 2 ds(2,3) s(1) unfolding root_digits_def by (cases "x \<in> D") (auto intro: exI [of _ ds] exI [of _ "ds @ [x]"])
qed

lemma new_tree_state:
  assumes E: "lawful E" and o: "open_state E True disk = Ret m0"
  shows "tree_ok m0" "unhashed m0" "root_digits E {} m0" "\<And>k. k \<noteq> root_key \<Longrightarrow> m0 k = None"
proof -
  note f = open_fresh [OF E o]
  show "tree_ok m0" by (rule f(3))
  show "m0 k = None" if "k \<noteq> root_key" for k using that by (simp add: f(1))
  then show "unhashed m0" using root_not_prefix_key by (auto simp: unhashed_def getNode_def no_node_def f(1))
  show "root_digits E {} m0" by (simp add: root_digits_def f(2))
qed

lemma inserts_state:
  assumes E: "lawful E"
  shows "tree_ok m \<Longrightarrow> unhashed m \<Longrightarrow> root_digits E D m \<Longrightarrow>
    tree_ok (flush_inserts E es m) \<and> unhashed (flush_inserts E es m) \<and>
    root_digits E (D \<union> (\<lambda>(k, v). hd (computeHash E k)) ` set es) (flush_inserts E es m)"
proof (induction es arbitrary: m D)
  case (Cons e es)
  obtain k v where e: "e = (k, v)" by fastforce
  show ?case
    using Cons.IH [OF inserted_tree_ok [where key = k and v = v, OF E Cons.prems(1)]
        inserted_unhashed [where key = k and v = v, OF E Cons.prems(1,2)]
        inserted_digits [where key = k and v = v, OF E Cons.prems(1,3)]] by (simp add: e)
qed simp

lemma inserts_frame:
  assumes E: "lawful E"
  shows "p \<noteq> root_key \<Longrightarrow> \<not> prefix_key p \<Longrightarrow> p \<notin> computeHash E ` fst ` set es \<Longrightarrow> flush_inserts E es m p = m p"
proof (induction es arbitrary: m)
  case (Cons e es)
  obtain k v where e: "e = (k, v)" by fastforce
  have "inserted E k v m p = m p" using Cons.prems by (intro inserted_frame [OF E]) (auto simp: e)
  then show ?case using Cons by (simp add: e)
qed simp

lemma stale_top:
  assumes m: "tree_ok m" and u: "unhashed m" and c: "is_hex c"
  shows "stale_hash E m [c] = computeHash E []"
proof -
  have p: "prefix_key [c]" using c by (simp add: prefix_key_def)
  have v: "nvalue (getNode m [c]) = []"
    using m p by (cases "m [c]") (auto simp: tree_ok_def inner_ok_def getNode_None no_node_def)
  have "nhash (getNode m d) = []" if d: "d \<in> set (nchildren (getNode m [c]))" for d
  proof -
    obtain x where "is_hex x" "d = [c] @ [x]" by (rule inner_child [OF m p d])
    then show ?thesis using u c by (simp add: unhashed_def prefix_key_def)
  qed
  then have "child_hashes m (nchildren (getNode m [c])) = []" by (simp add: child_hashes_def)
  then show ?thesis using v by (simp add: stale_hash_def)
qed

text \<open>The root hash \<open>updateTree\<close> gives a new tree: it knows how many first digits the keys' hashes have.\<close>

lemma blind_root:
  assumes E: "lawful E" and o: "open_state E True disk = Ret m0" and ks: "words_of keys = map fst es"
    and e: "computeHash E [] \<notin> computeHash E ` fst ` set es"
  shows "getRootHash (gs_db (updateTree E keys \<lparr>gs_db = flush_inserts E es m0, nodeCache = Map.empty\<rparr>)) =
    computeHash E (concat (replicate (card ((\<lambda>(k, v). hd (computeHash E k)) ` set es)) (computeHash E [])))"
proof -
  let ?m = "flush_inserts E es m0" and ?D = "(\<lambda>(k, v). hd (computeHash E k)) ` set es"
  let ?m' = "gs_db (updateTree E keys \<lparr>gs_db = ?m, nodeCache = Map.empty\<rparr>)"
  note n = new_tree_state [OF E o]
  have m: "tree_ok ?m" "unhashed ?m" "root_digits E ?D ?m"
    using inserts_state [OF E n(1,2,3), of es] by simp_all
  obtain ds where ds: "nchildren (getNode ?m root_key) = computeHash E [] # map (\<lambda>c. [c]) ds" "distinct ds" "set ds = ?D"
    using m(3) by (auto simp: root_digits_def)
  have junk: "nhash (getNode ?m' (computeHash E [])) = []"
  proof -
    have "\<not> prefix_key (computeHash E [])" using hash_length [OF E, of "[]"] by (simp add: prefix_key_def)
    then have 1: "?m (computeHash E []) = None"
      using inserts_frame [OF E, of "computeHash E []" es m0] e n(4) by simp
    have "\<not> prefix (computeHash E []) (computeHash E k)" if "k \<in> set (words_of keys)" for k
    proof
      assume "prefix (computeHash E []) (computeHash E k)"
      then have "computeHash E [] = computeHash E k"
        using hash_length [OF E, of "[]"] hash_length [OF E, of k] by (auto simp: prefix_def)
      then show False using e that ks by auto
    qed
    then have "?m' (computeHash E []) = ?m (computeHash E [])" by (intro updateTree_stale(2) [OF E]) simp_all
    then show ?thesis using 1 by (simp add: getNode_def no_node_def)
  qed
  have top: "nhash (getNode ?m' [c]) = computeHash E []" if "c \<in> ?D" for c
  proof -
    obtain k v where k: "(k, v) \<in> set es" "c = hd (computeHash E k)" using \<open>c \<in> ?D\<close> by auto
    obtain x xs where h: "computeHash E k = x # xs" "is_hex x" using hash_cons [OF E] by metis
    have "nhash (getNode ?m' [c]) = stale_hash E ?m [c]"
      using k h by (intro updateTree_stale(1) [OF E, of k]) (force simp: ks)+
    then show ?thesis using stale_top [OF m(1,2)] k h by simp
  qed
  have "root_key \<notin> set (nchildren (getNode ?m root_key))" using m(1) by (simp add: tree_ok_def root_ok_def)
  from updateTree_stale(3) [OF E this, of keys]
  have "getRootHash ?m' = computeHash E (child_hashes ?m' (computeHash E [] # map (\<lambda>c. [c]) ds))"
    unfolding getRootHash_def ds(1) .
  also have "child_hashes ?m' (computeHash E [] # map (\<lambda>c. [c]) ds) = concat (map (\<lambda>c. computeHash E []) ds)"
  proof -
    have "map (\<lambda>c. nhash (getNode ?m' [c])) ds = map (\<lambda>c. computeHash E []) ds" using top ds(3) by (intro map_cong) auto
    then show ?thesis by (simp only: child_hashes_def list.map map_map comp_def junk concat.simps append_Nil)
  qed
  also have "map (\<lambda>c. computeHash E []) ds = replicate (card ?D) (computeHash E [])"
    using distinct_card [OF ds(2)] ds(3) by (simp add: map_replicate_const)
  finally show ?thesis .
qed
end
