(* ===== verification/Merkle_Rehash.thy ===== *)
theory Merkle_Rehash
  imports Merkle_Update
begin

text \<open>
  \<open>updateAllNonLeafHashes\<close> of \<open>BlockRAFT-distributed_node/merkleTree/globalState.h\<close>: a depth-first search from the
  root that rehashes every node it reaches after its children. A leaf is read back with children that are
  not nodes (its hash and its value), and the search follows them too, so its end has to be argued over
  all texts that occur as a child.
\<close>

section \<open>The search\<close>

text \<open>
  \<open>dfs_hashes\<close> is the loop over the children, with the recursive function inlined: it returns the hashes in
  order. The first part of the C++ function, which collects all nodes, leaves nothing behind that is used.
\<close>

partial_function (option) dfs_hashes ::
    "env \<Rightarrow> string list \<Rightarrow> string set \<times> db \<Rightarrow> (string \<times> string set \<times> db) option" where
  "dfs_hashes E keys st =
     (case keys of
        [] \<Rightarrow> Some ([], st)
      | key # rest \<Rightarrow>
          (let (visited, m) = st in
           if key \<in> visited then
             Option.bind (dfs_hashes E rest (visited, m)) (\<lambda>(r, st'). Some (nhash (getNode m key) @ r, st'))
           else
             Option.bind (dfs_hashes E (nchildren (getNode m key)) (insert key visited, m)) (\<lambda>(hs, visited1, m1).
             let nd = getNode m key;
                 h = computeHash E (hs @ nvalue nd);
                 m2 = snd (put E m1 key (serializeNode (nd\<lparr>nhash := h\<rparr>)))
             in Option.bind (dfs_hashes E rest (visited1, m2)) (\<lambda>(r, st'). Some (h @ r, st')))))"

definition updateAllNonLeafHashes :: "env \<Rightarrow> db \<Rightarrow> db option" where
  "updateAllNonLeafHashes E m =
     Option.bind (dfs_hashes E [root_key] ({}, m)) (\<lambda>(h, visited, m'). Some m')"

lemma dfs_hashes_simps:
  "dfs_hashes E [] st = Some ([], st)"
  "key \<in> visited \<Longrightarrow> dfs_hashes E (key # rest) (visited, m) =
     Option.bind (dfs_hashes E rest (visited, m)) (\<lambda>(r, st'). Some (nhash (getNode m key) @ r, st'))"
  "key \<notin> visited \<Longrightarrow> dfs_hashes E (key # rest) (visited, m) =
     Option.bind (dfs_hashes E (nchildren (getNode m key)) (insert key visited, m)) (\<lambda>(hs, visited1, m1).
       let nd = getNode m key;
           h = computeHash E (hs @ nvalue nd);
           m2 = snd (put E m1 key (serializeNode (nd\<lparr>nhash := h\<rparr>)))
       in Option.bind (dfs_hashes E rest (visited1, m2)) (\<lambda>(r, st'). Some (h @ r, st')))"
  by (subst dfs_hashes.simps, simp)+

section \<open>It ends\<close>

text \<open>
  \<open>U\<close> holds everything that can be reached over the nodes as they were (\<open>m0\<close>). What has not been visited
  is as it was, so the search stays in \<open>U\<close>, and every call marks a new element of it.
\<close>

definition reach_set :: "db \<Rightarrow> string set \<Rightarrow> bool" where
  "reach_set m0 U \<longleftrightarrow> finite U \<and> (\<forall>k\<in>U. set (nchildren (getNode m0 k)) \<subseteq> U)"

definition dfs_inv :: "db \<Rightarrow> string set \<Rightarrow> string set \<times> db \<Rightarrow> bool" where
  "dfs_inv m0 U = (\<lambda>(visited, m). visited \<subseteq> U \<and> (\<forall>k. k \<notin> visited \<longrightarrow> m k = m0 k))"

lemma dfs_hashes_returns:
  assumes E: "lawful E" and U: "reach_set m0 U"
  shows "dfs_inv m0 U (visited, m) \<Longrightarrow> set keys \<subseteq> U \<Longrightarrow>
    \<exists>h visited' m'. dfs_hashes E keys (visited, m) = Some (h, visited', m') \<and> dfs_inv m0 U (visited', m') \<and>
      visited \<union> set keys \<subseteq> visited'"
proof (induction "(card (U - visited), length keys)" arbitrary: visited m keys rule: wf_induct_rule [OF wf_lex_prod [OF wf_less wf_less]])
  case 1
  note IH = "1.hyps" and inv = "1.prems"(1) and ks = "1.prems"(2)
  have fin: "finite U" using U by (simp add: reach_set_def)
  have mono: "card (U - v') \<le> card (U - v)" if "v \<subseteq> v'" for v v'
    using that fin by (intro card_mono) auto
  show ?case
  proof (cases keys)
    case Nil
    then show ?thesis using inv by (simp add: dfs_hashes_simps)
  next
    case (Cons key rest)
    show ?thesis
    proof (cases "key \<in> visited")
      case True
      obtain h v' m' where "dfs_hashes E rest (visited, m) = Some (h, v', m')" "dfs_inv m0 U (v', m')"
        "visited \<union> set rest \<subseteq> v'"
        using IH [of visited rest m] inv ks Cons by auto
      then show ?thesis using True Cons by (auto simp: dfs_hashes_simps)
    next
      case False
      have key: "key \<in> U" using ks Cons by simp
      have same: "m key = m0 key" using inv False by (simp add: dfs_inv_def)
      have less: "card (U - insert key visited) < card (U - visited)"
        using key False fin by (intro psubset_card_mono) auto
      have ch: "set (nchildren (getNode m key)) \<subseteq> U"
        using U key same by (simp add: reach_set_def getNode_def)
      have inv1: "dfs_inv m0 U (insert key visited, m)" using inv key by (simp add: dfs_inv_def)
      obtain hs v1 m1 where r1: "dfs_hashes E (nchildren (getNode m key)) (insert key visited, m) = Some (hs, v1, m1)"
        "dfs_inv m0 U (v1, m1)" "insert key visited \<subseteq> v1"
        using IH [of "insert key visited" "nchildren (getNode m key)" m] inv1 ch less by auto
      let ?h = "computeHash E (hs @ nvalue (getNode m key))"
      let ?m2 = "m1(key \<mapsto> serializeNode ((getNode m key)\<lparr>nhash := ?h\<rparr>))"
      have inv2: "dfs_inv m0 U (v1, ?m2)" using r1(2,3) by (auto simp: dfs_inv_def)
      have "card (U - v1) < card (U - visited)" using mono [OF r1(3)] less by simp
      then obtain h2 v2 m2 where r2: "dfs_hashes E rest (v1, ?m2) = Some (h2, v2, m2)" "dfs_inv m0 U (v2, m2)"
        "v1 \<union> set rest \<subseteq> v2"
        using IH [of v1 rest ?m2] inv2 ks Cons by auto
      show ?thesis
        using False Cons r1 r2 by (auto simp: dfs_hashes_simps put_eq [OF E] Let_def)
    qed
  qed
qed

lemma reach_finite:
  assumes "finite (dom m)"
  shows "reach_set m (insert root_key (dom m \<union> (\<Union>k\<in>dom m. set (nchildren (getNode m k)))))"
proof -
  have "nchildren (getNode m k) = []" if "k \<notin> dom m" for k
    using that by (simp add: getNode_None no_node_def domIff)
  then have "set (nchildren (getNode m k)) \<subseteq> (\<Union>k\<in>dom m. set (nchildren (getNode m k)))" for k
    by (cases "k \<in> dom m") auto
  then show ?thesis using assms unfolding reach_set_def by blast
qed

lemma rehash_ends:
  assumes "lawful E" "finite (dom m)"
  shows "\<exists>m'. updateAllNonLeafHashes E m = Some m' \<and>
    (\<forall>k. m k = None \<longrightarrow> k \<noteq> root_key \<longrightarrow> (\<forall>p. k \<notin> set (nchildren (getNode m p))) \<longrightarrow> m' k = None)"
proof -
  let ?U = "insert root_key (dom m \<union> (\<Union>k\<in>dom m. set (nchildren (getNode m k))))"
  have "dfs_inv m ?U ({}, m)" by (simp add: dfs_inv_def)
  from dfs_hashes_returns [OF assms(1) reach_finite [OF assms(2)] this, of "[root_key]"]
  obtain h v m' where r: "dfs_hashes E [root_key] ({}, m) = Some (h, v, m')" "dfs_inv m ?U (v, m')" by auto
  have "m' k = None" if "m k = None" "k \<noteq> root_key" "\<forall>p. k \<notin> set (nchildren (getNode m p))" for k
  proof -
    have "k \<notin> ?U" using that by blast
    then have "k \<notin> v" using r(2) by (auto simp: dfs_inv_def)
    then show ?thesis using r(2) that(1) by (simp add: dfs_inv_def)
  qed
  then show ?thesis using r(1) by (auto simp: updateAllNonLeafHashes_def)
qed
end
