(* ===== verification/State_Properties.thy ===== *)
theory State_Properties
  imports Merkle_Rehash Commit Samples
begin

text \<open>
  The properties of the state tree: the text form of its nodes, what insertion and flushing do to
  the stored values, the Merkle invariant, and what the root hash does and does not depend on.
\<close>

text \<open>C37: An inner node of the tree survives being written to the database and read back: a node
  whose hash, value and child keys contain no comma, and that has at least one child, the last of
  them not the empty string, is what \<open>deserializeNode\<close> returns for its \<open>serializeNode\<close> text.\<close>

theorem node_round_trip:
  assumes "CHR '','' \<notin> set (nhash n)" "CHR '','' \<notin> set (nvalue n)"
    and "\<forall>c\<in>set (nchildren n). CHR '','' \<notin> set c" "nchildren n \<noteq> []" "last (nchildren n) \<noteq> []"
  shows "deserializeNode (serializeNode n) = n"
  by (rule deserialize_serialize) (simp add: tidy_def assms)

theorem node_round_trip_witness:
  "deserializeNode (serializeNode \<lparr>nvalue = '''', nhash = ''1f'', nchildren = [''1'', ''a2'']\<rparr>) =
     \<lparr>nvalue = '''', nhash = ''1f'', nchildren = [''1'', ''a2'']\<rparr>"
  by (rule node_round_trip) simp_all

text \<open>A leaf does not survive: reading back the leaf that \<open>insert\<close> has just written for a value
  without a comma gives the value and its hash, but also children that were never there, the hash
  itself and, when it is not empty, the value, because the search position wraps round to 0 when no
  separator is left.\<close>

lemma leaf_gains_children:
  assumes "lawful E" "CHR '','' \<notin> set v"
  shows "getNode (snd (insert_kv E key v m)) (computeHash E key) =
    \<lparr>nvalue = v, nhash = computeHash E v, nchildren = computeHash E v # (if v = [] then [] else [v])\<rparr>"
  using inserted_leaf [OF assms(1), of key v m] assms(2)
  by (simp add: inserted_def getNode_def deserialize_leaf)

lemma leaf_gains_children_witness:
  "nchildren (getNode (snd (insert_kv sample_env ''k'' ''5'' Map.empty)) (computeHash sample_env ''k'')) =
     [computeHash sample_env ''5'', ''5'']"
  using leaf_gains_children [of sample_env "''5''" "''k''" Map.empty] by simp

text \<open>After \<open>insert\<close> the value of the key is the inserted text up to its first comma, and the
  values of all keys with another hash are what they were.\<close>

lemma insert_then_get:
  assumes "lawful E" "insert_kv E key v m = (ok, m')"
  shows "ok \<and> getValue E m' key' =
    (if computeHash E key' = computeHash E key then takeWhile (\<lambda>x. x \<noteq> CHR '','') v else getValue E m key')"
  using getValue_inserted [OF assms(1), of key v m key'] insert_kv_eq [OF assms(1), of key v m] assms(2)
  by (simp add: inserted_def)

lemma insert_then_get_witness:
  "getValue sample_env (snd (insert_kv sample_env ''key'' ''1,2'' Map.empty)) ''key'' = ''1''"
  using insert_then_get [of sample_env "''key''" "''1,2''" Map.empty _ _ "''key''"]
  by (cases "insert_kv sample_env ''key'' ''1,2'' Map.empty") simp

section \<open>The Merkle invariant\<close>

definition insert_step :: "env \<Rightarrow> string \<times> string \<Rightarrow> db \<Rightarrow> db outcome" where
  "insert_step E = (\<lambda>(k, v) m. bind_outcome (serial_insert E k v m) (\<lambda>(ok, m'). Ret m'))"

lemma insert_step_eq: "lawful E \<Longrightarrow> insert_step E (k, v) m = Ret (serial_inserted E k v m)"
  by (simp add: insert_step_def serial_insert_eq)

lemma fresh_merkle:
  assumes E: "lawful E" and m: "open_state E True disk = Ret m"
  shows "merkle_ok E m"
proof -
  note fresh = open_fresh [OF E m]
  have "m (computeHash E []) = None"
    using fresh(1) hash_not_root [of E "[]"] by simp
  then have "root_consistent E m"
    by (simp add: root_consistent_def getRootHash_def fresh(2) child_hashes_def getNode_None no_node_def)
  moreover have "m p = None" if "prefix_key p" for p
    using fresh(1) that by auto
  ultimately show ?thesis by (simp add: merkle_ok_def)
qed

lemma inserts_merkle:
  assumes "lawful E"
  shows "tree_ok m \<Longrightarrow> merkle_ok E m \<Longrightarrow> \<exists>m'. each (insert_step E) es m = Ret m' \<and> tree_ok m' \<and> merkle_ok E m'"
proof (induction es arbitrary: m)
  case (Cons e es)
  obtain k v where e: "e = (k, v)" by (cases e)
  show ?case
    using serial_inserted_merkle [OF assms Cons(2,3)] Cons(1) [of "serial_inserted E k v m"]
    by (simp add: e insert_step_eq assms)
qed simp

text \<open>C19: Starting from a state opened fresh, any sequence of insertions of the serial tree leaves a
  Merkle tree: the hash stored in the root is the hash of its children's hashes, and the hash in
  every inner node is the hash of its children's hashes followed by its value.\<close>

theorem insertions_keep_merkle:
  assumes "lawful E" "open_state E True disk = Ret m0"
  shows "\<exists>m. each (insert_step E) es m0 = Ret m \<and> root_consistent E m \<and>
    (\<forall>p. prefix_key p \<longrightarrow> m p \<noteq> None \<longrightarrow> consistent E m p)"
  using inserts_merkle [OF assms(1) open_fresh(3) [OF assms] fresh_merkle [OF assms], of es]
  by (auto simp: merkle_ok_def)

lemma sample_open:
  "\<exists>m. open_state sample_env True disk = Ret m"
  by (simp add: open_state_def sample_env_def)

theorem insertions_keep_merkle_witness:
  "\<exists>m0 m. open_state sample_env True Map.empty = Ret m0 \<and>
     each (insert_step sample_env) [(''a'', ''1''), (''bc'', ''2''), (''a'', ''3'')] m0 = Ret m \<and> root_consistent sample_env m"
proof -
  obtain m0 where m0: "open_state sample_env True Map.empty = Ret m0" using sample_open by blast
  show ?thesis
    using insertions_keep_merkle [OF sample_lawful m0, of "[(''a'', ''1''), (''bc'', ''2''), (''a'', ''3'')]"] m0 by blast
qed

section \<open>Flushing the map of a block\<close>

text \<open>Flushing the map of a block into the state returns, and afterwards every key of the map has
  the value the block gave it, up to the first comma, while every other key keeps its value, as long
  as the keys are not empty and the hash function does not confuse the key asked for with another.\<close>

lemma flush_commits:
  assumes "lawful E" "distinct (map fst es)" "\<forall>(k, v)\<in>set es. k \<noteq> []"
  shows "\<exists>m'. flushMapToState E es m = Ret m' \<and>
    (\<forall>key. inj_on (computeHash E) (insert key (fst ` set es)) \<longrightarrow>
       getValue E m' key = (case map_of es key of Some v \<Rightarrow> takeWhile (\<lambda>x. x \<noteq> CHR '','') v
                            | None \<Rightarrow> getValue E m key))"
proof -
  obtain m' where m': "flushMapToState E es m = Ret m'" using flush_eq [OF assms(3)] by blast
  have "getValue E m' key = (case map_of es key of Some v \<Rightarrow> takeWhile (\<lambda>x. x \<noteq> CHR '','') v
      | None \<Rightarrow> getValue E m key)" if "inj_on (computeHash E) (insert key (fst ` set es))" for key
    using getValue_flush [OF assms that, of m] m' by force
  then show ?thesis using m' by blast
qed

lemma sample_inj: "inj_on length S \<Longrightarrow> \<forall>s\<in>S. length s < 256 \<Longrightarrow> inj_on (computeHash sample_env) S"
  using sample_hash by (simp add: inj_on_def)

lemma flush_commits_witness:
  "\<exists>m. flushMapToState sample_env [(''walletab'', ''5''), (''voterX'', ''1'')] Map.empty = Ret m \<and>
     getValue sample_env m ''walletab'' = ''5'' \<and> getValue sample_env m ''voterX'' = ''1''"
proof -
  let ?es = "[(''walletab'', ''5''), (''voterX'', ''1'')]"
  have "inj_on (computeHash sample_env) (insert ''walletab'' (fst ` set ?es))"
    "inj_on (computeHash sample_env) (insert ''voterX'' (fst ` set ?es))"
    by (rule sample_inj; auto simp: inj_on_def)+
  then show ?thesis
    using flush_commits [of sample_env ?es Map.empty] by force
qed

text \<open>C25: The root hash after a commit does not depend on the values written: starting from a fresh
  state, two maps with the same keys, none longer than 63 characters, but any values at all give
  states with the same root hash, because the hashes are recomputed along the raw key and not along
  the key's hash.\<close>

theorem root_ignores_values:
  assumes "lawful E" "open_state E True disk = Ret m0" "map fst es = map fst es'"
    and "\<forall>k\<in>fst ` set es. k \<noteq> [] \<and> length k \<le> 63 \<and> computeHash E k \<noteq> computeHash E []"
  shows "\<exists>r r'. flushMapToState E es m0 = Ret r \<and> flushMapToState E es' m0 = Ret r' \<and> getRootHash r = getRootHash r'"
proof -
  let ?L = "computeHash E ` fst ` set es"
  note fresh = open_fresh [OF assms(1,2)]
  have L: "leaf_set E ?L"
    using assms(1,4) by (auto simp: leaf_set_def hash_length hash_hex)
  have "off_leaves ?L m0"
    unfolding off_leaves_def
  proof (intro allI impI)
    fix p assume "p \<notin> ?L"
    show "m0 p = None \<or> tidy (getNode m0 p) \<and> (length p = 63 \<or> set (nchildren (getNode m0 p)) \<inter> ?L = {})"
    proof (cases "p = root_key")
      case True
      moreover have "computeHash E [] \<notin> ?L" using L by (simp add: leaf_set_def)
      ultimately show ?thesis
        using fresh(2,3) by (simp add: tree_ok_def root_ok_def)
    qed (simp add: fresh(1))
  qed
  then have "twin ?L m0 m0" using fresh(3) by (simp add: twin_def same_off_def tree_ok_def root_ok_def)
  then obtain r r' where "flushMapToState E es m0 = Ret r" "flushMapToState E es' m0 = Ret r'" "twin ?L r r'"
    using flush_twin [OF assms(1) L _ assms(3), of m0 m0] assms(4) by auto
  then show ?thesis using twin_root [OF L] by metis
qed

theorem root_ignores_values_witness:
  "\<exists>m0 r r'. open_state sample_env True Map.empty = Ret m0 \<and>
     flushMapToState sample_env [(''walletab'', ''5'')] m0 = Ret r \<and>
     flushMapToState sample_env [(''walletab'', ''7000'')] m0 = Ret r' \<and> getRootHash r = getRootHash r'"
proof -
  obtain m0 where m0: "open_state sample_env True Map.empty = Ret m0" using sample_open by blast
  show ?thesis
    using root_ignores_values [OF sample_lawful m0, of "[(''walletab'', ''5'')]" "[(''walletab'', ''7000'')]"] m0
    by (auto simp: sample_hash)
qed

section \<open>The cluster's hashes\<close>


lemma words_one: "c \<noteq> CHR '' '' \<Longrightarrow> \<not> isspace c \<Longrightarrow> words_of [c, CHR '' ''] = [[c]]"
  by (simp add: words_of.simps isspace_def)


text \<open>The root hash the cluster computes for the first block of a state does not depend on what the block
  wrote, not even on the keys: after the values of a block have been inserted into a new tree and
  \<open>updateTree\<close> has been given their keys, the root hash is the same for any two blocks whose keys' hashes
  have the same number of different first digits.\<close>

lemma update_tree_blind:
  assumes "lawful E" "open_state E True disk = Ret m0"
    and "words_of keys = map fst es" "words_of keys' = map fst es'"
    and "computeHash E [] \<notin> computeHash E ` fst ` set es" "computeHash E [] \<notin> computeHash E ` fst ` set es'"
    and "card ((\<lambda>(k, v). hd (computeHash E k)) ` set es) = card ((\<lambda>(k, v). hd (computeHash E k)) ` set es')"
  shows "getRootHash (gs_db (updateTree E keys \<lparr>gs_db = flush_inserts E es m0, nodeCache = Map.empty\<rparr>)) =
    getRootHash (gs_db (updateTree E keys' \<lparr>gs_db = flush_inserts E es' m0, nodeCache = Map.empty\<rparr>))"
  using blind_root [OF assms(1,2,3,5)] blind_root [OF assms(1,2,4,6)] assms(7) by simp

lemma update_tree_blind_witness:
  "\<exists>m0. open_state sample_env True Map.empty = Ret m0 \<and>
     getRootHash (gs_db (updateTree sample_env ''a '' \<lparr>gs_db = flush_inserts sample_env [(''a'', ''1'')] m0, nodeCache = Map.empty\<rparr>)) =
     getRootHash (gs_db (updateTree sample_env ''b '' \<lparr>gs_db = flush_inserts sample_env [(''b'', ''77'')] m0, nodeCache = Map.empty\<rparr>))"
proof -
  obtain m0 where m0: "open_state sample_env True Map.empty = Ret m0" using sample_open by blast
  have "words_of ''a '' = map fst [(''a'', ''1'')]" "words_of ''b '' = map fst [(''b'', ''77'')]"
    using words_one [of "CHR ''a''"] words_one [of "CHR ''b''"] by (simp_all add: isspace_def)
  moreover have "computeHash sample_env [] \<noteq> computeHash sample_env ''a''" "computeHash sample_env [] \<noteq> computeHash sample_env ''b''"
    by (simp_all add: sample_hash)
  ultimately show ?thesis
    using update_tree_blind [OF sample_lawful m0, of "''a ''" "[(''a'', ''1'')]" "''b ''" "[(''b'', ''77'')]"] m0 by auto
qed

text \<open>\<open>updateAllNonLeafHashes\<close> returns for every database with finitely many entries, although leaves are read
  back with their hash and their value as children and the links it follows can form cycles; and it makes
  entries only for texts that some node lists as a child.\<close>

lemma full_rehash_returns:
  assumes "lawful E" "finite (dom m)"
  shows "\<exists>m'. updateAllNonLeafHashes E m = Some m' \<and>
    (\<forall>k. m k = None \<longrightarrow> k \<noteq> root_key \<longrightarrow> (\<forall>p. k \<notin> set (nchildren (getNode m p))) \<longrightarrow> m' k = None)"
  by (rule rehash_ends [OF assms])

lemma full_rehash_returns_witness:
  "\<exists>m'. updateAllNonLeafHashes sample_env [root_key \<mapsto> ''h,,a'', ''a'' \<mapsto> ''h,,rootNode''] = Some m' \<and> m' ''b'' = None"
proof -
  let ?m = "[root_key \<mapsto> ''h,,a'', ''a'' \<mapsto> ''h,,rootNode''] :: db"
  have r: "''h,,a'' = serializeNode \<lparr>nvalue = [], nhash = ''h'', nchildren = [''a'']\<rparr>"
    "''h,,rootNode'' = serializeNode \<lparr>nvalue = [], nhash = ''h'', nchildren = [''rootNode'']\<rparr>"
    by (simp_all add: serializeNode_def)
  have "nchildren (deserializeNode ''h,,a'') = [''a'']" "nchildren (deserializeNode ''h,,rootNode'') = [''rootNode'']"
    unfolding r by (subst deserialize_serialize; simp add: tidy_def)+
  then have "''b'' \<notin> set (nchildren (getNode ?m p))" for p
    by (simp add: getNode_def no_node_def root_key_def)
  then show ?thesis
    using full_rehash_returns [OF sample_lawful, of ?m] by (force simp: root_key_def)
qed
end
