(* ===== verification/Contract_Properties.thy ===== *)
theory Contract_Properties
  imports Execution Samples
begin

text \<open>
  The properties of the four transaction families: wallet, voting, e-commerce and NFT.
\<close>

lemma five_votes:
  "balance_of (\<lambda>_. []) [n \<mapsto> ''5''] n = Ret 5" "n' \<noteq> n \<Longrightarrow> balance_of (\<lambda>_. []) [n \<mapsto> ''5''] n' = Ret 0"
  by (simp_all add: balance_of_def)

section \<open>Wallet\<close>

text \<open>C35: A wallet transaction creates and destroys only the money its verb says. For any finite set of
  accounts with numeric balances that contains the accounts the payload names, and any payload that is
  not a transfer of an account to itself, running the whole transaction (with its exception handler)
  leaves all balances numeric and changes their sum by the deposited or withdrawn amount if it
  succeeds, and not at all if it is refused or an exception is caught; the only other outcome is a
  signed overflow.\<close>

theorem wallet_supply:
  assumes "parse_header C (t_header t) = Some h" "jparse C (t_payload t) = Some p"
    and "finite S" "named_keys wallet_fields p \<subseteq> S" "numeric gv m S" "no_self_transfer p"
    and "wallet_process C gv t m = (r, m')"
  shows "r = Undef \<or> (numeric gv m' S \<and>
    total_coins gv m' S = total_coins gv m S + (if r = Ret True then minted p else 0))"
proof (cases "\<exists>verb. jfield p ''Verb'' = Ret verb")
  case True
  then obtain verb where verb: "jfield p ''Verb'' = Ret verb" by blast
  obtain r' m'' where d: "wallet_dispatch gv p verb m = (r', m'')" by (cases "wallet_dispatch gv p verb m")
  have "catch_with False (wallet_dispatch gv p verb) m = (r, m')"
    using assms(7) process_txn_eq [OF assms(1,2) verb, of "wallet_dispatch gv" m] by (simp add: wallet_process_def)
  then have r: "m' = m''" "r = (case r' of Throw e \<Rightarrow> Ret False | _ \<Rightarrow> r')"
    by (auto simp: catch_with_def d split: outcome.splits)
  have "supply_step gv S p m (r', m'')"
    using supply_step_dispatch [OF assms(3-5) verb assms(6)] d by simp
  then show ?thesis
    unfolding r by (cases r') (auto simp: supply_step_def)
next
  case False
  then obtain e where "jfield p ''Verb'' = Throw e"
    by (metis jfield_not_Undef outcome.exhaust)
  then have "r = Ret False" "m' = m"
    using assms(1,2,7) by (auto simp: wallet_process_def process_txn_def json_parse_def catch_with_def)
  then show ?thesis using assms(5) by simp
qed

theorem wallet_supply_witness:
  "\<exists>m. wallet_process sample_codec (\<lambda>_. []) sample_txn Map.empty = (Ret True, m) \<and>
     total_coins (\<lambda>_. []) m {''walletab'', ''walletcd''} = 5"
proof -
  obtain m where m: "wallet_process sample_codec (\<lambda>_. []) sample_txn Map.empty = (Ret True, m)"
    using sample_deposit by blast
  obtain p where p: "jparse sample_codec (t_payload sample_txn) = Some p" "jfield p ''Verb'' = Ret ''deposit''"
    "jfield p ''Name'' = Ret ''walletab''" "jfield p ''Value'' = Ret ''5''"
    by (rule sample_fields) blast
  have "named_keys wallet_fields p \<subseteq> {''walletab'', ''walletcd''}"
    using sample_keys [OF p(1)] by auto
  moreover have "numeric (\<lambda>_. []) Map.empty {''walletab'', ''walletcd''}"
    by (simp add: numeric_def balance_of_def)
  moreover have "no_self_transfer p" by (simp add: no_self_transfer_def p)
  moreover have "minted p = 5" by (simp add: minted_def p)
  moreover have "total_coins (\<lambda>_. []) Map.empty {''walletab'', ''walletcd''} = 0"
    by (simp add: total_coins_def balance_def balance_of_def)
  ultimately show ?thesis
    using wallet_supply [OF sample_parses p(1) _ _ _ _ m, of "{''walletab'', ''walletcd''}"] m by auto
qed

text \<open>A transfer from an account to itself creates money: the amount is taken from the first copy of
  the balance and added to the second, which is stored last.\<close>

lemma self_transfer_creates:
  assumes "balance_of gv m n = Ret b" "stoi val = Ret v" "v \<le> b" "in_int (b - v)" "in_int (b + v)"
  shows "\<exists>m'. transfer gv n n val m = (Ret True, m') \<and> balance_of gv m' n = Ret (b + v) \<and>
    (\<forall>k. k \<noteq> n \<longrightarrow> balance_of gv m' k = balance_of gv m k)"
proof -
  obtain m' where "transfer gv n n val m = (Ret (v \<le> b), m')"
    "balance_of gv m' = (balance_of gv m)(n := Ret (b - v), n := Ret (b + v))"
    using transfer_effect [OF assms(1,1,2)] assms(3-5) by auto
  then show ?thesis using assms(3) by auto
qed

lemma self_transfer_creates_witness:
  "\<exists>m'. transfer (\<lambda>_. []) ''w'' ''w'' ''5'' [''w'' \<mapsto> ''5''] = (Ret True, m') \<and>
     balance_of (\<lambda>_. []) m' ''w'' = Ret 10"
  using self_transfer_creates [OF five_votes(1), of "''5''" 5 "''w''"] by (auto simp: in_int_def)

section \<open>Voting\<close>

text \<open>The rewritten voting handlers of the parallel node do what the handlers of the cluster do:
  when the two counts are numbers and the amount is one, transferring and casting votes give the same
  verdict (or the same undefined behaviour) and the same map.\<close>

lemma voting_versions_agree:
  assumes "balance_of gv m n1 = Ret b1" "balance_of gv m n2 = Ret b2" "stoi val = Ret v"
  shows "transferVote_parallel gv n1 n2 val m = transferVote gv n1 n2 val m \<and>
    castVote_parallel gv n1 n2 m = castVote gv n1 n2 m"
  using transferVote_run [OF assms] castVote_run [OF assms(1,2)] by metis

lemma voting_versions_agree_witness:
  "castVote_parallel (\<lambda>_. []) ''voterA'' ''candidateB'' [''voterA'' \<mapsto> ''5''] =
     castVote (\<lambda>_. []) ''voterA'' ''candidateB'' [''voterA'' \<mapsto> ''5'']"
  using voting_versions_agree [of "\<lambda>_. []" "[''voterA'' \<mapsto> ''5'']" "''voterA''" 5 "''candidateB''" 0 "''5''" 5]
  by (simp add: balance_of_def)

text \<open>Casting a vote moves exactly one vote from the voter to the candidate and nothing else, and is
  refused, without a change, when the voter has none left. When voter and candidate are the same key
  one vote is created.\<close>

lemma cast_vote_effect:
  assumes "balance_of gv m n1 = Ret b1" "balance_of gv m n2 = Ret b2" "in_int (b2 + 1)"
  shows "\<exists>m'. castVote gv n1 n2 m = (Ret (1 \<le> b1), m') \<and>
    (\<forall>k. balance_of gv m' k =
       (if b1 < 1 then balance_of gv m k
        else if k = n2 then Ret (b2 + 1)
        else if k = n1 then Ret (b1 - 1) else balance_of gv m k))"
proof -
  obtain m2 where m2: "balance_of gv m2 = balance_of gv m"
    "castVote gv n1 n2 m =
       (if \<not> 1 \<le> b1 then (Ret False, m2)
        else if \<not> in_int (b2 + 1) then (Undef, m2(n1 \<mapsto> to_string (b1 - 1)))
        else (Ret True, m2(n1 \<mapsto> to_string (b1 - 1), n2 \<mapsto> to_string (b2 + 1))))"
    by (rule castVote_run [OF assms(1,2)]) blast
  show ?thesis
  proof (cases "1 \<le> b1")
    case True
    then have "in_int (b1 - 1)" using balance_of_in_int [OF assms(1)] by (simp add: in_int_def)
    then show ?thesis using m2 assms(3) True by simp
  qed (use m2 in simp)
qed

lemma cast_vote_effect_witness:
  "\<exists>m'. castVote (\<lambda>_. []) ''voterA'' ''candidateB'' [''voterA'' \<mapsto> ''5''] = (Ret True, m') \<and>
     balance_of (\<lambda>_. []) m' ''voterA'' = Ret 4 \<and> balance_of (\<lambda>_. []) m' ''candidateB'' = Ret 1"
  using cast_vote_effect [OF five_votes(1) five_votes(2), of "''candidateB''" "''voterA''"]
  by (auto simp: in_int_def)

section \<open>E-commerce\<close>

text \<open>C36: The cart kept as text behaves as a list of items with quantities. When the text stored under
  the cart's key is the printed form of a list of distinct, blank-free item names with quantities,
  \<open>addToCart\<close> stores the printed form of the list with the quantity added to the item's entry, or
  with a new entry at the end, and \<open>removeFromCart\<close> stores the list with the quantity taken off, the
  entry dropped when nothing is left, or reports failure and keeps the list when the item is not there.\<close>

theorem cart_refinement:
  assumes "jfield_const p ''Name'' = Ret k" "jfield_const p ''Item'' = Ret item"
    and "jfield_const p ''Value'' = Ret (to_string v)"
    and "held gv m k = print_cart c" "cart_ok c" "in_int v"
    and "\<forall>q. (item, q) \<in> set c \<longrightarrow> in_int (q + v) \<and> in_int (q - v)"
  shows "addToCart gv p m = (Ret True, m(k \<mapsto> print_cart (add_item item v c))) \<and>
    removeFromCart gv p m = (Ret (item \<in> fst ` set c),
      m(k \<mapsto> print_cart (if item \<in> fst ` set c then drop_item item v c else c)))"
  using addToCart_refines [OF assms(1-6)] removeFromCart_refines [OF assms(1-6)] assms(7) by blast

definition cart_payload :: json where
  "cart_payload = JObj [(''Name'', JStr ''eCommXCart''), (''Item'', JStr ''pen''), (''Value'', JStr ''5'')]"

lemma to_string_5: "to_string 5 = ''5''"
  by (simp add: to_string_def show_nat.simps digit_char_def char_of_eq_iff)

theorem cart_refinement_witness:
  "\<exists>s. addToCart (\<lambda>_. []) cart_payload Map.empty = (Ret True, [''eCommXCart'' \<mapsto> s]) \<and> s = ''pen 5 ''"
proof -
  have "addToCart (\<lambda>_. []) cart_payload Map.empty =
      (Ret True, Map.empty(''eCommXCart'' \<mapsto> print_cart (add_item ''pen'' 5 [])))"
    using cart_refinement [of cart_payload "''eCommXCart''" "''pen''" 5 "\<lambda>_. []" Map.empty "[]"]
    by (simp add: cart_payload_def jfield_const_def to_string_5 held_def in_int_def)
  then show ?thesis by (simp add: cart_entry_def to_string_5)
qed

section \<open>NFT\<close>

text \<open>Creating an NFT for an existing image file adds the image's hash to the owner's list unless it
  is there already, and changes no other owner's list; the cluster's handler and the single node's
  leave lists with the same contents.\<close>

lemma create_nft_effect:
  assumes "hash_codec C" "holds C gv m k hs" "computeImageHash I path = x" "x \<noteq> []"
  shows "\<exists>m'. createNFT C I gv path k m = (Ret True, m') \<and> createNFT_single C I gv path k m = (Ret True, m') \<and>
    holds C gv m' k (if x \<in> set hs then hs else hs @ [x]) \<and>
    (\<forall>k' hs'. k' \<noteq> k \<longrightarrow> holds C gv m' k' hs' = holds C gv m k' hs')"
  by (rule createNFT_effect [where C = C and gv = gv and I = I, OF assms(1,2,3,4)]) blast

definition image_store :: image_env where
  "image_store = \<lparr>files = (\<lambda>f. if f = ''cat.png'' then Some ''cat'' else None), sha512_raw = (\<lambda>s. [of_nat (length s)])\<rparr>"

lemma cat_hash: "computeImageHash image_store ''cat.png'' = ''03''"
  by (simp add: computeImageHash_def image_store_def sha512_def hex_byte_def hex_digit_def digit_char_def
      char_of_eq_iff)

lemma nothing_held: "holds sample_codec (\<lambda>_. []) Map.empty k []"
  by (simp add: holds_def owned_def)

lemma create_nft_effect_witness:
  "\<exists>m'. createNFT sample_codec image_store (\<lambda>_. []) ''cat.png'' ''ann'' Map.empty = (Ret True, m') \<and>
     holds sample_codec (\<lambda>_. []) m' ''ann'' [''03'']"
  using create_nft_effect [OF sample_hash_codec nothing_held cat_hash, of "''ann''"] by auto

text \<open>Transferring an NFT to another owner removes one copy of the hash from the old owner's list and
  appends it to the new owner's, and no other list changes.\<close>

lemma transfer_nft_effect:
  assumes "hash_codec C" "holds C gv m k1 hs1" "holds C gv m k2 hs2" "k1 \<noteq> k2"
    and "computeImageHash I path = x" "x \<noteq> []" "x \<in> set hs1"
  shows "\<exists>m'. transferNFT C I gv path k1 k2 m = (Ret True, m') \<and>
    holds C gv m' k1 (remove1 x hs1) \<and> holds C gv m' k2 (hs2 @ [x]) \<and>
    (\<forall>k' hs'. k' \<noteq> k1 \<longrightarrow> k' \<noteq> k2 \<longrightarrow> holds C gv m' k' hs' = holds C gv m k' hs')"
  by (rule transferNFT_effect [where C = C and gv = gv and I = I, OF assms]) blast

lemma cat_held:
  "\<exists>m. holds sample_codec (\<lambda>_. []) m ''ann'' [''03''] \<and> holds sample_codec (\<lambda>_. []) m ''bob'' []"
proof -
  obtain m where m: "holds sample_codec (\<lambda>_. []) m ''ann'' [''03'']"
    "\<And>k hs. k \<noteq> ''ann'' \<Longrightarrow> holds sample_codec (\<lambda>_. []) m k hs \<longleftrightarrow> holds sample_codec (\<lambda>_. []) Map.empty k hs"
    by (rule createNFT_effect [where I = image_store and path = "''cat.png''" and k = "''ann''", OF sample_hash_codec nothing_held cat_hash])
      auto
  then show ?thesis using nothing_held by auto
qed

lemma transfer_nft_effect_witness:
  "\<exists>m m'. transferNFT sample_codec image_store (\<lambda>_. []) ''cat.png'' ''ann'' ''bob'' m = (Ret True, m') \<and>
     holds sample_codec (\<lambda>_. []) m' ''ann'' [] \<and> holds sample_codec (\<lambda>_. []) m' ''bob'' [''03'']"
proof -
  obtain m where "holds sample_codec (\<lambda>_. []) m ''ann'' [''03'']" "holds sample_codec (\<lambda>_. []) m ''bob'' []"
    using cat_held by blast
  from transfer_nft_effect [OF sample_hash_codec this _ cat_hash] show ?thesis by auto
qed

text \<open>In the cluster a transfer of an NFT to its own owner never finishes: the handler still holds
  the lock on the owner's entry when it asks for it again.\<close>

lemma self_transfer_nft_stuck:
  assumes "hash_codec C" "holds C gv m k hs" "computeImageHash I path = x" "x \<noteq> []" "x \<in> set hs"
  shows "fst (transferNFT C I gv path k k m) = Stuck"
proof -
  obtain m' where m': "getOrLoadOwnerNFTList C gv k m = (Ret (JArr (map JStr hs)), m')"
    by (rule load_list [OF assms(1,2)]) blast
  have "\<forall>h\<in>set (remove1 x hs). list_all is_hex h"
    using assms(2) notin_set_remove1 by (force simp: holds_def)
  then obtain s where "json_dump C (JArr (map JStr (remove1 x hs))) = Ret s"
    by (rule dump_list [OF assms(1)])
  then show ?thesis
    using assms(3-5) m'
    by (simp add: transferNFT_def Let_def and_then_run [where m = "getOrLoadOwnerNFTList C gv k", OF m'] jfind_list jerase_list)
qed

lemma self_transfer_nft_stuck_witness:
  "\<exists>m. fst (transferNFT sample_codec image_store (\<lambda>_. []) ''cat.png'' ''ann'' ''ann'' m) = Stuck"
  using cat_held self_transfer_nft_stuck [OF sample_hash_codec _ cat_hash] by fastforce

section \<open>Independent transactions\<close>

text \<open>Two transactions whose payloads name no common address can be executed in either order by the
  cluster: both orders leave the same map, and each transaction gets the same verdict.\<close>

lemma independent_txns_commute:
  assumes "txn_keys C all_fields t \<inter> txn_keys C all_fields u = {}"
  shows "snd (execute_cluster C I gv h' u (snd (execute_cluster C I gv h t m))) =
      snd (execute_cluster C I gv h t (snd (execute_cluster C I gv h' u m))) \<and>
    fst (execute_cluster C I gv h' u (snd (execute_cluster C I gv h t m))) = fst (execute_cluster C I gv h' u m) \<and>
    fst (execute_cluster C I gv h t (snd (execute_cluster C I gv h' u m))) = fst (execute_cluster C I gv h t m)"
proof -
  note t = execute_cluster_confined [of C t I gv h] and u = execute_cluster_confined [of C u I gv h']
  have "txn_keys C all_fields u \<inter> txn_keys C all_fields t = {}" using assms by blast
  then show ?thesis using confined_commute [OF t u assms] confined_commute(2) [OF u t] by simp
qed

definition other_members :: "member list" where
  "other_members =
     [([], ''Verb'', '' '', ''deposit''), ('' '', ''Name'', '' '', ''walletcd''), ('' '', ''Value'', '' '', ''5'')]"

definition other_txn :: transaction where
  "other_txn = new_txn sample_show (new_header ''wallet'' ''c'' ''8'' [''walletcd''] [''walletcd'']) (object_text other_members)"

lemma disjoint_keys: "txn_keys sample_codec all_fields sample_txn \<inter> txn_keys sample_codec all_fields other_txn = {}"
  unfolding sample_txn_def other_txn_def deposit_members_def other_members_def
  by (simp add: client_keys client_fields)

lemma independent_txns_commute_witness:
  "snd (execute_cluster sample_codec image_store (\<lambda>_. []) (new_header ''wallet'' ''c'' ''8'' [] []) other_txn
      (snd (execute_cluster sample_codec image_store (\<lambda>_. []) (new_header ''wallet'' ''a'' ''7'' [] []) sample_txn Map.empty))) =
   snd (execute_cluster sample_codec image_store (\<lambda>_. []) (new_header ''wallet'' ''a'' ''7'' [] []) sample_txn
      (snd (execute_cluster sample_codec image_store (\<lambda>_. []) (new_header ''wallet'' ''c'' ''8'' [] []) other_txn Map.empty)))"
  using independent_txns_commute [OF disjoint_keys] by blast
end
