(* ===== verification/Ring_Queue.thy ===== *)
theory Ring_Queue
  imports Prelude "HOL-Library.Word"
begin

text \<open>
  \<open>LockFreeQueue\<close> of \<open>node/transactionQueue.h\<close>: a ring buffer with 64-bit indices.  The contract is a
  bounded first-in first-out queue that holds one item less than the buffer has slots; with one
  producer and one consumer it also holds when the accesses of \<open>push\<close> and \<open>pop\<close> interleave.
\<close>

section \<open>The code\<close>

definition QUEUE_SIZE :: "64 word" where
  "QUEUE_SIZE = 30000"

record ring =
  buffer :: "string list"
  head :: "64 word"
  tail :: "64 word"

definition new_ring :: ring where
  "new_ring = \<lparr>buffer = replicate 30000 [], head = 0, tail = 0\<rparr>"

definition next_index :: "64 word \<Rightarrow> 64 word" where
  "next_index i = (i + 1) mod QUEUE_SIZE"

definition push :: "string \<Rightarrow> ring \<Rightarrow> bool \<times> ring" where
  "push item q =
     (let head_snapshot = head q;
          next_head = next_index head_snapshot
      in if next_head = tail q then (False, q)
         else (True, q\<lparr>buffer := (buffer q)[unat head_snapshot := item], head := next_head\<rparr>))"

definition pop :: "ring \<Rightarrow> string option \<times> ring" where
  "pop q =
     (let tail_snapshot = tail q
      in if tail_snapshot = head q then (None, q)
         else (Some (buffer q ! unat tail_snapshot), q\<lparr>tail := next_index tail_snapshot\<rparr>))"

section \<open>The contract\<close>

text \<open>\<open>items\<close> is what the queue holds, \<open>ok\<close> its invariant, \<open>cap\<close> how much fits.\<close>

locale bounded_fifo =
  fixes new :: 'q and enq :: "'a \<Rightarrow> 'q \<Rightarrow> bool \<times> 'q" and deq :: "'q \<Rightarrow> 'a option \<times> 'q"
    and items :: "'q \<Rightarrow> 'a list" and ok :: "'q \<Rightarrow> bool" and cap :: nat
  assumes new_ok: "ok new" and new_empty: "items new = []"
    and enq_spec: "ok q \<Longrightarrow> (if length (items q) < cap
        then fst (enq x q) \<and> items (snd (enq x q)) = items q @ [x]
        else \<not> fst (enq x q) \<and> snd (enq x q) = q) \<and> ok (snd (enq x q))"
    and deq_spec: "ok q \<Longrightarrow> (case items q of
        [] \<Rightarrow> deq q = (None, q)
      | x # xs \<Rightarrow> fst (deq q) = Some x \<and> items (snd (deq q)) = xs) \<and> ok (snd (deq q))"
    and bounded: "ok q \<Longrightarrow> length (items q) \<le> cap"
begin

fun enq_all :: "'a list \<Rightarrow> 'q \<Rightarrow> 'q" where
  "enq_all [] q = q"
| "enq_all (x # xs) q = enq_all xs (snd (enq x q))"

fun deq_all :: "nat \<Rightarrow> 'q \<Rightarrow> 'a list" where
  "deq_all 0 q = []"
| "deq_all (Suc n) q = (case deq q of (None, q') \<Rightarrow> [] | (Some x, q') \<Rightarrow> x # deq_all n q')"

lemma enq_all_items:
  "ok q \<Longrightarrow> ok (enq_all xs q) \<and> items (enq_all xs q) = items q @ take (cap - length (items q)) xs"
proof (induction xs arbitrary: q)
  case (Cons x xs)
  show ?case
  proof (cases "length (items q) < cap")
    case True
    then have "items (snd (enq x q)) = items q @ [x]" "ok (snd (enq x q))"
      using enq_spec [OF Cons.prems, of x] by simp_all
    moreover have "take (cap - length (items q)) (x # xs) = x # take (cap - length (items q) - 1) xs"
      using True by (cases "cap - length (items q)") simp_all
    ultimately show ?thesis using Cons.IH by simp
  next
    case False
    then have "snd (enq x q) = q" using enq_spec [OF Cons.prems, of x] by simp
    then show ?thesis using Cons False by simp
  qed
qed simp

lemma deq_all_items: "ok q \<Longrightarrow> deq_all n q = take n (items q)"
proof (induction n arbitrary: q)
  case (Suc n)
  show ?case
  proof (cases "items q")
    case Nil
    then show ?thesis using deq_spec [OF Suc.prems] by simp
  next
    case (Cons x xs)
    then have "fst (deq q) = Some x" "items (snd (deq q)) = xs" "ok (snd (deq q))"
      using deq_spec [OF Suc.prems] by simp_all
    then show ?thesis using Suc.IH [of "snd (deq q)"] Cons by (cases "deq q") simp
  qed
qed simp

text \<open>What goes in comes out, in order, as far as it fits.\<close>

lemma fifo: "deq_all n (enq_all xs new) = take n (take cap xs)"
  using deq_all_items enq_all_items [OF new_ok, of xs] new_empty by simp

end

section \<open>The ring buffer implements it\<close>

definition ring_ok :: "ring \<Rightarrow> bool" where
  "ring_ok q \<longleftrightarrow> length (buffer q) = 30000 \<and> unat (head q) < 30000 \<and> unat (tail q) < 30000"

definition ring_length :: "ring \<Rightarrow> nat" where
  "ring_length q = (unat (head q) + 30000 - unat (tail q)) mod 30000"

definition ring_items :: "ring \<Rightarrow> string list" where
  "ring_items q = map (\<lambda>i. buffer q ! ((unat (tail q) + i) mod 30000)) [0..<ring_length q]"

text \<open>Positions on a ring of \<open>N\<close> slots.\<close>

lemma ring_dist:
  fixes h t N :: nat
  assumes "h < N" "t < N"
  shows "(h + N - t) mod N = (if t \<le> h then h - t else h + N - t)"
proof (cases "t \<le> h")
  case True
  then have "(h + N - t) mod N = ((h - t) + N) mod N" by simp
  also have "\<dots> = h - t" using assms by (simp del: Nat.add_diff_assoc2)
  finally show ?thesis using True by simp
qed (use assms in simp)

lemma ring_slot:
  fixes t i N :: nat
  assumes "t < N" "i < N"
  shows "(t + i) mod N = (if t + i < N then t + i else t + i - N)"
proof (cases "t + i < N")
  case False
  then have "(t + i) mod N = (t + i - N) mod N" by (simp add: le_mod_geq)
  then show ?thesis using False assms by simp
qed simp

lemma ring_succ: "(i::nat) < N \<Longrightarrow> (i + 1) mod N = (if i + 1 = N then 0 else i + 1)"
  by simp

lemma next_index: "unat i < 30000 \<Longrightarrow> unat (next_index i) = (unat i + 1) mod 30000"
proof -
  assume i: "unat i < 30000"
  have "unat (i + 1) = unat i + 1" using i by (simp add: unat_word_ariths)
  then show ?thesis by (simp add: next_index_def QUEUE_SIZE_def unat_mod_distrib)
qed

lemma next_index_less: "unat i < 30000 \<Longrightarrow> unat (next_index i) < 30000"
  by (simp add: next_index)

lemma ring_length_eq:
  "ring_ok q \<Longrightarrow> ring_length q =
     (if unat (tail q) \<le> unat (head q) then unat (head q) - unat (tail q)
      else unat (head q) + 30000 - unat (tail q))"
  unfolding ring_length_def ring_ok_def by (simp add: ring_dist)

lemma ring_length_less: "ring_length q < 30000"
  by (simp add: ring_length_def)

lemma length_ring_items [simp]: "length (ring_items q) = ring_length q"
  by (simp add: ring_items_def)

lemma nth_ring_items:
  "i < ring_length q \<Longrightarrow> ring_items q ! i = buffer q ! ((unat (tail q) + i) mod 30000)"
  by (simp add: ring_items_def)

lemma head_slot: "ring_ok q \<Longrightarrow> (unat (tail q) + ring_length q) mod 30000 = unat (head q)"
  using ring_slot [of "unat (tail q)" 30000 "ring_length q"] ring_length_less [of q] ring_length_eq [of q]
  by (simp add: ring_ok_def split: if_splits)

lemma other_slot: "ring_ok q \<Longrightarrow> i < ring_length q \<Longrightarrow> (unat (tail q) + i) mod 30000 \<noteq> unat (head q)"
  using ring_slot [of "unat (tail q)" 30000 i] ring_length_less [of q] ring_length_eq [of q]
  by (simp add: ring_ok_def split: if_splits)

lemma unat_next: "unat i < 30000 \<Longrightarrow> unat (next_index i) = (if unat i = 29999 then 0 else unat i + 1)"
  using ring_succ [of "unat i" 30000] by (simp add: next_index split: if_splits)

lemma full_iff: "ring_ok q \<Longrightarrow> next_index (head q) = tail q \<longleftrightarrow> ring_length q = 29999"
proof -
  assume q: "ring_ok q"
  have "next_index (head q) = tail q \<longleftrightarrow> unat (next_index (head q)) = unat (tail q)"
    by (simp add: word_unat_eq_iff)
  also have "\<dots> \<longleftrightarrow> ring_length q = 29999"
    using q ring_length_eq [OF q] unat_next [of "head q"]
    by (simp add: ring_ok_def split: if_splits; linarith)
  finally show ?thesis .
qed

lemma empty_iff: "ring_ok q \<Longrightarrow> tail q = head q \<longleftrightarrow> ring_length q = 0"
  by (auto simp: ring_length_eq ring_ok_def word_unat_eq_iff split: if_splits)

text \<open>Writing the slot at the head and moving the head appends an item.\<close>

definition put_head :: "string \<Rightarrow> ring \<Rightarrow> ring" where
  "put_head item q = q\<lparr>buffer := (buffer q)[unat (head q) := item], head := next_index (head q)\<rparr>"

lemma put_head_ok: "ring_ok q \<Longrightarrow> ring_ok (put_head item q)"
  by (simp add: ring_ok_def put_head_def next_index_less)

lemma put_head_items:
  assumes q: "ring_ok q" and l: "ring_length q < 29999"
  shows "ring_items (put_head item q) = ring_items q @ [item]"
proof (rule nth_equalityI)
  have len: "ring_length (put_head item q) = Suc (ring_length q)"
    using q l ring_length_eq [OF q] ring_length_eq [OF put_head_ok [OF q], of item]
      full_iff [OF q] unat_next [of "head q"]
    by (simp add: put_head_def ring_ok_def split: if_splits)
  then show "length (ring_items (put_head item q)) = length (ring_items q @ [item])" by simp
  fix i assume "i < length (ring_items (put_head item q))"
  then have i: "i < Suc (ring_length q)" using len by simp
  have nth: "ring_items (put_head item q) ! i =
      (buffer q)[unat (head q) := item] ! ((unat (tail q) + i) mod 30000)"
    using i len by (simp add: nth_ring_items) (simp add: put_head_def)
  show "ring_items (put_head item q) ! i = (ring_items q @ [item]) ! i"
  proof (cases "i = ring_length q")
    case True
    then show ?thesis unfolding nth using head_slot [OF q] q
      by (simp add: ring_ok_def nth_append)
  next
    case False
    then have "i < ring_length q" using i by simp
    then have "unat (head q) \<noteq> (unat (tail q) + i) mod 30000" using other_slot [OF q] by metis
    then show ?thesis unfolding nth using \<open>i < ring_length q\<close>
      by (simp add: nth_ring_items nth_append)
  qed
qed

definition drop_tail :: "ring \<Rightarrow> ring" where
  "drop_tail q = q\<lparr>tail := next_index (tail q)\<rparr>"

lemma drop_tail_ok: "ring_ok q \<Longrightarrow> ring_ok (drop_tail q)"
  by (simp add: ring_ok_def drop_tail_def next_index_less)

lemma drop_tail_items:
  assumes q: "ring_ok q" and l: "0 < ring_length q"
  shows "ring_items q = buffer q ! unat (tail q) # ring_items (drop_tail q)"
proof (rule nth_equalityI)
  have len: "Suc (ring_length (drop_tail q)) = ring_length q"
    using q l ring_length_eq [OF q] ring_length_eq [OF drop_tail_ok [OF q]]
      unat_next [of "tail q"]
    by (simp add: drop_tail_def ring_ok_def split: if_splits)
  then show "length (ring_items q) = length (buffer q ! unat (tail q) # ring_items (drop_tail q))" by simp
  fix i assume "i < length (ring_items q)"
  then have i: "i < ring_length q" by simp
  show "ring_items q ! i = (buffer q ! unat (tail q) # ring_items (drop_tail q)) ! i"
  proof (cases i)
    case 0
    then show ?thesis using i q by (simp add: nth_ring_items ring_ok_def)
  next
    case (Suc j)
    then have "j < ring_length (drop_tail q)" using i len by simp
    then have "ring_items (drop_tail q) ! j = buffer q ! ((unat (tail q) + i) mod 30000)"
      using q Suc by (simp add: nth_ring_items) (simp add: drop_tail_def next_index ring_ok_def mod_simps)
    then show ?thesis using i Suc by (simp add: nth_ring_items)
  qed
qed

lemma push_eq: "push item q = (if next_index (head q) = tail q then (False, q) else (True, put_head item q))"
  by (simp add: push_def put_head_def Let_def)

lemma pop_eq: "pop q = (if tail q = head q then (None, q) else (Some (buffer q ! unat (tail q)), drop_tail q))"
  by (simp add: pop_def drop_tail_def Let_def)

lemma ring_push:
  assumes "ring_ok q"
  shows "(if length (ring_items q) < 29999
      then fst (push x q) \<and> ring_items (snd (push x q)) = ring_items q @ [x]
      else \<not> fst (push x q) \<and> snd (push x q) = q) \<and> ring_ok (snd (push x q))"
  using assms ring_length_less [of q] full_iff [OF assms] put_head_items [OF assms] put_head_ok [OF assms]
  by (auto simp: push_eq)

lemma ring_pop:
  assumes "ring_ok q"
  shows "(case ring_items q of
        [] \<Rightarrow> pop q = (None, q)
      | x # xs \<Rightarrow> fst (pop q) = Some x \<and> ring_items (snd (pop q)) = xs) \<and> ring_ok (snd (pop q))"
proof (cases "ring_length q = 0")
  case True
  then have "ring_items q = []" by (simp add: ring_items_def)
  then show ?thesis using True empty_iff [OF assms] assms by (simp add: pop_eq)
next
  case False
  then show ?thesis using empty_iff [OF assms] drop_tail_items [OF assms] drop_tail_ok [OF assms]
    by (simp add: pop_eq)
qed

lemma ring_bounded: "length (ring_items q) \<le> 29999"
  using ring_length_less [of q] by simp

interpretation ring: bounded_fifo new_ring push pop ring_items ring_ok 29999
proof (unfold_locales, goal_cases)
  case 1 show ?case by (simp add: ring_ok_def new_ring_def)
  case 2 show ?case by (simp add: new_ring_def ring_items_def ring_length_def)
  case (3 q x) then show ?case by (rule ring_push)
  case (4 q) then show ?case by (rule ring_pop)
  case (5 q) show ?case by (rule ring_bounded)
qed

section \<open>One producer and one consumer, interleaved\<close>

text \<open>
  Each shared access of \<open>push\<close> and \<open>pop\<close> is a step; the stages hold the snapshots the two calls have
  taken so far.  \<open>sent\<close> and \<open>got\<close> record the items of the calls that returned \<open>true\<close>.
\<close>

datatype producer =
    P_idle
  | P_loaded string "64 word"
  | P_room string "64 word"
  | P_written string "64 word"

datatype consumer =
    C_idle
  | C_loaded "64 word"
  | C_some "64 word"
  | C_read string "64 word"

record spsc =
  queue :: ring
  prod :: producer
  cons :: consumer
  sent :: "string list"
  got :: "string list"

inductive spsc_step :: "spsc \<Rightarrow> spsc \<Rightarrow> bool" where
  push_load: "prod s = P_idle \<Longrightarrow> spsc_step s (s\<lparr>prod := P_loaded item (head (queue s))\<rparr>)"
| push_full: "prod s = P_loaded item h \<Longrightarrow> next_index h = tail (queue s) \<Longrightarrow>
    spsc_step s (s\<lparr>prod := P_idle\<rparr>)"
| push_room: "prod s = P_loaded item h \<Longrightarrow> next_index h \<noteq> tail (queue s) \<Longrightarrow>
    spsc_step s (s\<lparr>prod := P_room item h\<rparr>)"
| push_write: "prod s = P_room item h \<Longrightarrow>
    spsc_step s (s\<lparr>queue := (queue s)\<lparr>buffer := (buffer (queue s))[unat h := item]\<rparr>,
      prod := P_written item h\<rparr>)"
| push_store: "prod s = P_written item h \<Longrightarrow>
    spsc_step s (s\<lparr>queue := (queue s)\<lparr>head := next_index h\<rparr>, prod := P_idle, sent := sent s @ [item]\<rparr>)"
| pop_load: "cons s = C_idle \<Longrightarrow> spsc_step s (s\<lparr>cons := C_loaded (tail (queue s))\<rparr>)"
| pop_empty: "cons s = C_loaded t \<Longrightarrow> t = head (queue s) \<Longrightarrow> spsc_step s (s\<lparr>cons := C_idle\<rparr>)"
| pop_some: "cons s = C_loaded t \<Longrightarrow> t \<noteq> head (queue s) \<Longrightarrow> spsc_step s (s\<lparr>cons := C_some t\<rparr>)"
| pop_read: "cons s = C_some t \<Longrightarrow>
    spsc_step s (s\<lparr>cons := C_read (buffer (queue s) ! unat t) t\<rparr>)"
| pop_store: "cons s = C_read item t \<Longrightarrow>
    spsc_step s (s\<lparr>queue := (queue s)\<lparr>tail := next_index t\<rparr>, cons := C_idle, got := got s @ [item]\<rparr>)"

definition spsc_start :: spsc where
  "spsc_start = \<lparr>queue = new_ring, prod = P_idle, cons = C_idle, sent = [], got = []\<rparr>"

inductive spsc_reach :: "spsc \<Rightarrow> bool" where
  spsc_init: "spsc_reach spsc_start"
| spsc_more: "spsc_reach s \<Longrightarrow> spsc_step s s' \<Longrightarrow> spsc_reach s'"

text \<open>What each stage has established, and what the other side cannot take back.\<close>

definition prod_ok :: "ring \<Rightarrow> producer \<Rightarrow> bool" where
  "prod_ok q p =
     (case p of
        P_idle \<Rightarrow> True
      | P_loaded item h \<Rightarrow> h = head q
      | P_room item h \<Rightarrow> h = head q \<and> ring_length q < 29999
      | P_written item h \<Rightarrow> h = head q \<and> ring_length q < 29999 \<and> buffer q ! unat h = item)"

definition cons_ok :: "ring \<Rightarrow> consumer \<Rightarrow> bool" where
  "cons_ok q c =
     (case c of
        C_idle \<Rightarrow> True
      | C_loaded t \<Rightarrow> t = tail q
      | C_some t \<Rightarrow> t = tail q \<and> 0 < ring_length q
      | C_read item t \<Rightarrow> t = tail q \<and> 0 < ring_length q \<and> buffer q ! unat t = item)"

definition spsc_inv :: "spsc \<Rightarrow> bool" where
  "spsc_inv s \<longleftrightarrow> ring_ok (queue s) \<and> prod_ok (queue s) (prod s) \<and> cons_ok (queue s) (cons s) \<and>
     sent s = got s @ ring_items (queue s)"

text \<open>The write to the free slot is invisible until the head moves.\<close>

lemma free_slot_write:
  fixes q :: ring and item :: string
  assumes q: "ring_ok q"
  defines "q' \<equiv> q\<lparr>buffer := (buffer q)[unat (head q) := item]\<rparr>"
  shows "ring_ok q'" "ring_length q' = ring_length q" "ring_items q' = ring_items q"
    and "buffer q' ! unat (head q) = item"
    and "0 < ring_length q \<Longrightarrow> buffer q' ! unat (tail q) = buffer q ! unat (tail q)"
proof -
  show len: "ring_length q' = ring_length q" by (simp add: q'_def ring_length_def)
  show "ring_ok q'" using q by (simp add: q'_def ring_ok_def)
  show "buffer q' ! unat (head q) = item" using q by (simp add: q'_def ring_ok_def)
  show "ring_items q' = ring_items q"
  proof (rule nth_equalityI)
    show "length (ring_items q') = length (ring_items q)" using len by simp
    fix i assume "i < length (ring_items q')"
    then have i: "i < ring_length q" using len by simp
    then have "unat (head q) \<noteq> (unat (tail q) + i) mod 30000" using other_slot [OF q] by metis
    then show "ring_items q' ! i = ring_items q ! i"
      using i len by (simp add: nth_ring_items) (simp add: q'_def)
  qed
  assume l: "0 < ring_length q"
  have "unat (tail q) \<noteq> unat (head q)"
    using empty_iff [OF q] l by (simp add: word_unat_eq_iff)
  then show "buffer q' ! unat (tail q) = buffer q ! unat (tail q)" by (simp add: q'_def)
qed

lemma put_head_written:
  assumes "buffer q ! unat (head q) = item"
  shows "q\<lparr>head := next_index (head q)\<rparr> = put_head item q"
  using assms by (simp add: put_head_def list_update_id [of "buffer q", symmetric] flip: assms)

lemma put_head_length: "ring_ok q \<Longrightarrow> ring_length q < 29999 \<Longrightarrow> ring_length (put_head item q) = Suc (ring_length q)"
  by (metis length_append_singleton length_ring_items put_head_items)

lemma drop_tail_length: "ring_ok q \<Longrightarrow> 0 < ring_length q \<Longrightarrow> Suc (ring_length (drop_tail q)) = ring_length q"
  by (metis drop_tail_items length_Cons length_ring_items)

lemma cons_ok_put:
  assumes q: "ring_ok q" "ring_length q < 29999" "buffer q ! unat (head q) = item" and c: "cons_ok q c"
  shows "cons_ok (q\<lparr>head := next_index (head q)\<rparr>) c"
proof -
  have l: "ring_length (q\<lparr>head := next_index (head q)\<rparr>) = Suc (ring_length q)"
    by (simp only: put_head_written [OF q(3)] put_head_length [OF q(1,2)])
  show ?thesis using c by (cases c) (simp_all add: cons_ok_def l)
qed

lemma prod_ok_drop:
  assumes q: "ring_ok q" "0 < ring_length q" and p: "prod_ok q p"
  shows "prod_ok (drop_tail q) p"
  using p drop_tail_length [OF q] by (auto simp: prod_ok_def drop_tail_def split: producer.splits)

lemma spsc_inv_step: "spsc_step s s' \<Longrightarrow> spsc_inv s \<Longrightarrow> spsc_inv s'"
proof (induction rule: spsc_step.induct)
  case (push_load s item)
  then show ?case by (simp add: spsc_inv_def prod_ok_def)
next
  case (push_full s item h)
  then show ?case by (simp add: spsc_inv_def prod_ok_def)
next
  case (push_room s item h)
  then show ?case using full_iff [of "queue s"] ring_length_less [of "queue s"]
    by (simp add: spsc_inv_def prod_ok_def)
next
  case (push_write s item h)
  then have q: "ring_ok (queue s)" and h: "h = head (queue s)" and l: "ring_length (queue s) < 29999"
    by (simp_all add: spsc_inv_def prod_ok_def)
  note w = free_slot_write [OF q, of item]
  show ?case using push_write w l
    by (auto simp: spsc_inv_def prod_ok_def h cons_ok_def split: consumer.splits)
next
  case (push_store s item h)
  then have q: "ring_ok (queue s)" and h: "h = head (queue s)" and l: "ring_length (queue s) < 29999"
    and b: "buffer (queue s) ! unat (head (queue s)) = item"
    by (auto simp: spsc_inv_def prod_ok_def)
  show ?case using push_store cons_ok_put [OF q l b] put_head_written [OF b]
      put_head_ok [OF q, of item] put_head_items [OF q l, of item]
    by (simp add: spsc_inv_def prod_ok_def h)
next
  case (pop_load s)
  then show ?case by (simp add: spsc_inv_def cons_ok_def)
next
  case (pop_empty s t)
  then show ?case by (simp add: spsc_inv_def cons_ok_def)
next
  case (pop_some s t)
  then show ?case using empty_iff [of "queue s"] by (simp add: spsc_inv_def cons_ok_def)
next
  case (pop_read s t)
  then show ?case by (simp add: spsc_inv_def cons_ok_def)
next
  case (pop_store s item t)
  then have q: "ring_ok (queue s)" and t: "t = tail (queue s)" and l: "0 < ring_length (queue s)"
    and b: "buffer (queue s) ! unat (tail (queue s)) = item"
    by (auto simp: spsc_inv_def cons_ok_def)
  have d: "(queue s)\<lparr>tail := next_index (tail (queue s))\<rparr> = drop_tail (queue s)"
    by (simp add: drop_tail_def)
  show ?case using pop_store prod_ok_drop [OF q l] drop_tail_ok [OF q] drop_tail_items [OF q l] b
    by (simp add: spsc_inv_def t d cons_ok_def)
qed

lemma spsc_inv_reach: "spsc_reach s \<Longrightarrow> spsc_inv s"
proof (induction rule: spsc_reach.induct)
  case spsc_init
  show ?case using ring.new_ok ring.new_empty
    by (simp add: spsc_inv_def spsc_start_def prod_ok_def cons_ok_def)
next
  case (spsc_more s s')
  then show ?case using spsc_inv_step by blast
qed

end
