(* ===== verification/Chain_Properties.thy ===== *)
theory Chain_Properties
  imports Ring_Queue Samples
begin

text \<open>
  The properties of the ring queue between the producer and consumer threads, of the block store and
  of the chain the producers build in it.
\<close>

section \<open>The ring queue\<close>

text \<open>Used by one thread at a time the ring is a bounded first-in first-out queue: after pushing a
  list of strings into a new queue, popping any number of times returns the strings in the order they
  were pushed, all of them up to the capacity of 29999, one less than the size of the buffer.\<close>

lemma ring_is_fifo:
  "ring.deq_all n (ring.enq_all xs new_ring) = take n (take 29999 xs)"
  by (rule ring.fifo)

text \<open>C34: With one producer and one consumer running at the same time, in any interleaving of their
  single reads and writes, what the consumer has got followed by what lies between tail and head is
  exactly what the producer has sent: no string is lost, duplicated, reordered or read before it is
  written, and the queue never holds more than 29999.\<close>

theorem spsc_nothing_lost:
  assumes "spsc_reach s"
  shows "sent s = got s @ ring_items (queue s) \<and> length (ring_items (queue s)) \<le> 29999"
  using spsc_inv_reach [OF assms] ring_bounded by (simp add: spsc_inv_def)

theorem spsc_nothing_lost_witness:
  "\<exists>s. spsc_reach s \<and> sent s = [''a''] \<and> got s @ ring_items (queue s) = [''a'']"
proof -
  let ?s0 = "spsc_start"
  let ?s1 = "?s0\<lparr>prod := P_loaded ''a'' (head (queue ?s0))\<rparr>"
  let ?s2 = "?s1\<lparr>prod := P_room ''a'' 0\<rparr>"
  let ?s3 = "?s2\<lparr>queue := (queue ?s2)\<lparr>buffer := (buffer (queue ?s2))[unat (0 :: 64 word) := ''a'']\<rparr>, prod := P_written ''a'' 0\<rparr>"
  let ?s4 = "?s3\<lparr>queue := (queue ?s3)\<lparr>head := next_index 0\<rparr>, prod := P_idle, sent := sent ?s3 @ [''a'']\<rparr>"
  have 1: "spsc_step ?s0 ?s1" by (rule push_load) (simp add: spsc_start_def)
  have 2: "spsc_step ?s1 ?s2"
    by (rule push_room) (simp_all add: spsc_start_def new_ring_def next_index_def QUEUE_SIZE_def)
  have 3: "spsc_step ?s2 ?s3" by (rule push_write) simp
  have 4: "spsc_step ?s3 ?s4" by (rule push_store) simp
  have r: "spsc_reach ?s4"
    by (rule spsc_more [OF spsc_more [OF spsc_more [OF spsc_more [OF spsc_init 1] 2] 3] 4])
  show ?thesis
    by (rule exI [of _ ?s4]) (use spsc_nothing_lost [OF r] r in \<open>simp add: spsc_start_def\<close>)
qed

section \<open>The block store\<close>

text \<open>The block store is a map with a pointer to the newest entry: after \<open>storeBlock\<close> the block is
  read back under its identifier, \<open>getLatestBlockNum\<close> names it, and every other block is still what it
  was; asking for a block that was never stored yields an error text, never the empty string.\<close>

lemma block_store_spec:
  assumes "lawful E" "k \<noteq> latest_key"
  shows "fst (storeBlock E k v m) \<and> getBlock k (snd (storeBlock E k v m)) = v \<and>
    getLatestBlockNum (snd (storeBlock E k v m)) = k \<and>
    (\<forall>k'. k' \<noteq> k \<longrightarrow> k' \<noteq> latest_key \<longrightarrow>
       getBlock k' (snd (storeBlock E k v m)) = getBlock k' m \<and> (m k' = None \<longrightarrow> getBlock k' m \<noteq> []))"
  using storeBlock_get [OF assms(1), of k v m] storeBlock_latest [OF assms, of v m]
    storeBlock_other [OF assms(1), of _ k v m] storeBlock_eq [OF assms(1), of k v m] getBlock_missing [of m]
  by auto

lemma block_store_spec_witness:
  "getBlock ''B1'' (snd (storeBlock sample_env ''B1'' ''xyz'' Map.empty)) = ''xyz'' \<and>
   getBlock ''B2'' (snd (storeBlock sample_env ''B1'' ''xyz'' Map.empty)) \<noteq> []"
  using block_store_spec [of sample_env "''B1''" "''xyz''" Map.empty] by (force simp: latest_key_def)


definition sample_feed :: feed where
  "sample_feed =
     \<lparr>f_kafka = \<lparr>conf_set = (\<lambda>_ _. True), new_consumer = True, subscribe = (\<lambda>_. True), poll = (\<lambda>_. Message (enc_txn sample_txn))\<rparr>,
      f_now = 0, f_state = Map.empty, f_txnCount = 2, f_brokers = ''b'', f_topic = ''t''\<rparr>"

lemma sample_feed_ready: "feed_ready sample_env sample_feed"
  by (simp add: feed_ready_def sample_feed_def kafka_setup_def open_state_def sample_env_def)

definition genesis :: db where
  "genesis = the (createGenesisBlock sample_env sample_blocks Map.empty)"

lemma genesis_height: "height genesis = 0"
proof -
  have "createGenesisBlock sample_env sample_blocks Map.empty = Some genesis"
    by (simp add: genesis_def createGenesisBlock_def sample_env_def Let_def)
  then have "getLatestBlockNum genesis = block_key 0" by (rule genesis_latest) simp_all
  then show ?thesis by (simp add: last_block_num_key)
qed


text \<open>A producer takes no more transactions than it was asked for, and takes them in the order the
  topic delivers them: they are the messages that parse, up to the first poll that times out.\<close>

lemma fetched_txns:
  "fetch_txns K q n = concat (map (parsed K) (takeWhile (\<lambda>r. r \<noteq> No_message) (map (poll q) [0..<to_uint64 n]))) \<and>
   length (fetch_txns K q n) \<le> to_uint64 n"
  by (simp add: fetch_txns_spec [symmetric] fetch_txns_bound)

text \<open>A missing command file resets the chain of the single nodes: the empty block the producer then
  returns has an empty header, which parses as the default header with number 0, so filing it stores
  it as block 0 and makes that the newest block.\<close>

lemma missing_file_resets_chain:
  assumes "lawful E" "parse_block_header K [] = Some empty_header"
  shows "\<exists>m'. bind_outcome (produce_parallel E K sh nonces now committed gs cnt None m)
      (\<lambda>b. file_block E K b m) = Ret m' \<and> height m' = 0"
  using empty_block_resets [OF assms, of m] by (simp add: produce_parallel_def produce_single_def)

lemma missing_file_resets_chain_witness:
  "\<exists>m'. bind_outcome (produce_parallel sample_env sample_blocks sample_show (\<lambda>_. []) 0 Map.empty Map.empty 5 None
        [latest_key \<mapsto> ''B7'']) (\<lambda>b. file_block sample_env sample_blocks b [latest_key \<mapsto> ''B7'']) = Ret m' \<and> height m' = 0"
  by (rule missing_file_resets_chain) (simp_all add: sample_blocks_def)

section \<open>The clients\<close>

text \<open>The NFT client does not declare what its transactions write: for every command it turns into a
  creation or a transfer, the header lists addresses prefixed with \<open>nft\<close> while the payload names the
  bare owners, so the processor's writes are outside the declared outputs and the dependency graph
  misses conflicts between NFT transactions.\<close>

lemma nft_client_undeclared:
  assumes "json_law C" "header_law C sh" "list_all plain commands" "nft_client sh nonce commands = Ret t"
    and "commands ! 0 = ''create'' \<or> commands ! 0 = ''transfer''"
  shows "\<not> declares C t"
  by (rule nft_not_declared [OF assms])

lemma nft_client_undeclared_witness:
  "\<exists>t. nft_client sample_show ''1'' [''create'', ''ann'', ''cat.png''] = Ret t \<and> \<not> declares sample_codec t"
proof -
  have "\<exists>t. nft_client sample_show ''1'' [''create'', ''ann'', ''cat.png''] = Ret t"
    by (simp add: nft_client_def arg_def Let_def)
  then show ?thesis
    using nft_client_undeclared [OF sample_json_law sample_header_law, of "[''create'', ''ann'', ''cat.png'']"]
    by auto
qed
end
