(* ===== verification/Cluster_Scheduler.thy ===== *)
theory Cluster_Scheduler
  imports Etcd Execution Dag_Union_Find Block_Store
begin

text \<open>
  The scheduler of a follower: \<open>scheduler\<close> of \<open>BlockRAFT-distributed_node/scheduler/scheduler.h\<close>.  A
  follower holds the whole graph with every in-degree at -1; the in-degrees of the components the
  leader assigned to it are filled in, so that only those transactions can be selected.
\<close>

section \<open>State\<close>

record csched =
  cdag :: dag
  ctable :: componentsTable
  processed_components :: "int set"
  transactions :: "transaction list"
  compCount :: int
  flag :: bool
  completeFlag :: bool
  updateFlag :: bool
  myMap :: kvmap
  store :: kvmap

text \<open>\<open>store\<close> is the content of etcd; what protobuf reads and writes are parameters.\<close>

record graph =
  num_nodes :: int
  graph_rows :: "int list list"

record messages =
  parse_table :: "string \<Rightarrow> componentsTable option"
  parse_graph :: "string \<Rightarrow> graph option"
  show_pairs :: "(string \<times> string) list \<Rightarrow> string option"

section \<open>The graph a follower works on\<close>

text \<open>\<open>row[colIndex]\<close> is read only when the column exists; a negative index is a huge \<open>size_t\<close>.\<close>

definition columnSum :: "int list list \<Rightarrow> int \<Rightarrow> int" where
  "columnSum a colIndex =
     sum_list (map (\<lambda>row. if 0 \<le> colIndex \<and> colIndex < int (length row) then row ! nat colIndex else 0) a)"

definition store_degree :: "int \<Rightarrow> int \<Rightarrow> dag \<Rightarrow> dag outcome" where
  "store_degree col s d =
     (case inDegree d of
        Some deg \<Rightarrow>
          if 0 \<le> col \<and> col < int (length deg) then Ret (d\<lparr>inDegree := Some (deg[nat col := s])\<rparr>) else Undef
      | None \<Rightarrow> Undef)"

definition process_one :: "nat \<Rightarrow> dag \<Rightarrow> dag outcome" where
  "process_one col d =
     bind_outcome (store_degree (int col) (columnSum (adjacencyMatrix d) (int col)) d) (\<lambda>d'.
     Ret (d'\<lparr>completedTxns := completedTxns d' - 1\<rparr>))"

definition ProcessIndegree :: "component \<Rightarrow> dag \<Rightarrow> dag outcome" where
  "ProcessIndegree c d = each process_one (transactionList c) d"

definition CheckForNewComponents :: "component \<Rightarrow> csched \<Rightarrow> bool \<times> csched" where
  "CheckForNewComponents c s =
     (if compid c \<notin> processed_components s
      then (True, s\<lparr>processed_components := insert (compid c) (processed_components s)\<rparr>)
      else (False, s))"

text \<open>The loop body of both extractions; \<open>mark\<close> says whether a new component raises \<open>updateFlag\<close> at once.\<close>

definition take_component :: "bool \<Rightarrow> int \<Rightarrow> component \<Rightarrow> csched \<Rightarrow> csched outcome" where
  "take_component mark nodeId c s =
     (if nodeId = assignedFollower c then
        (let (new, s') = CheckForNewComponents c s
         in if new then
              bind_outcome (ProcessIndegree c (cdag s')) (\<lambda>d.
              Ret (s'\<lparr>cdag := d, updateFlag := (mark \<or> updateFlag s')\<rparr>))
            else Ret s')
      else Ret s)"

definition ExtractComponents :: "messages \<Rightarrow> string \<Rightarrow> int \<Rightarrow> csched \<Rightarrow> csched outcome" where
  "ExtractComponents M serialized_data nodeId s =
     (case parse_table M serialized_data of
        None \<Rightarrow> Ret s
      | Some t \<Rightarrow>
          bind_outcome (each (take_component False nodeId) (componentsList t) (s\<lparr>ctable := t\<rparr>)) (\<lambda>s'.
          Ret (s'\<lparr>updateFlag := True\<rparr>)))"

definition ExtractNewComponents :: "messages \<Rightarrow> string \<Rightarrow> int \<Rightarrow> csched \<Rightarrow> csched outcome" where
  "ExtractNewComponents M serialized_data nodeId s =
     (case parse_table M serialized_data of
        None \<Rightarrow> Ret s
      | Some t \<Rightarrow> each (take_component True nodeId) (componentsList t) (s\<lparr>ctable := t\<rparr>))"

text \<open>\<open>extractDAG\<close> reads the graph the leader could also have sent.\<close>

fun copy_row :: "int list \<Rightarrow> int list \<Rightarrow> int list" where
  "copy_row [] old = old"
| "copy_row (e # es) [] = []"
| "copy_row (e # es) (x # xs) = e # copy_row es xs"

fun copy_rows :: "int list list \<Rightarrow> int list list \<Rightarrow> int list list" where
  "copy_rows [] old = old"
| "copy_rows (r # rs) [] = []"
| "copy_rows (r # rs) (x # xs) = copy_row r x # copy_rows rs xs"

definition extractDAG :: "messages \<Rightarrow> string \<Rightarrow> dag \<Rightarrow> dag" where
  "extractDAG M matrixData d =
     (case parse_graph M matrixData of
        None \<Rightarrow> d
      | Some g \<Rightarrow>
          (let n = nat (num_nodes g) in
           d\<lparr>totalTxns := n, completedTxns := num_nodes g, inDegree := Some (replicate n (- 1)),
             adjacencyMatrix := copy_rows (graph_rows g) (resize n (replicate n 0) (adjacencyMatrix d))\<rparr>))"

definition extractBlock :: "codec \<Rightarrow> block_codec \<Rightarrow> nat \<Rightarrow> string \<Rightarrow> csched \<Rightarrow> csched outcome" where
  "extractBlock C K thCount blockData s =
     (case parse_block K blockData of
        None \<Rightarrow> Ret s
      | Some b \<Rightarrow>
          bind_outcome (createfollower C b thCount (cdag s)) (\<lambda>d.
          Ret (s\<lparr>transactions := b_transactions b, cdag := d\<rparr>)))"

section \<open>Publishing results\<close>

text \<open>The key under which a node files its part: \<open>leader/term/block/what\<close>.\<close>

definition block_path :: "string \<Rightarrow> string \<Rightarrow> int \<Rightarrow> string" where
  "block_path leader_id term_no blockNum = leader_id @ ''/'' @ term_no @ ''/'' @ to_string blockNum"

text \<open>\<open>order\<close> is the order in which the concurrent map is traversed.\<close>

definition dataStore ::
    "messages \<Rightarrow> etcd \<Rightarrow> (kvmap \<Rightarrow> (string \<times> string) list) \<Rightarrow> string \<Rightarrow> string \<Rightarrow> csched \<Rightarrow> csched" where
  "dataStore M N order node_id path s =
     (case show_pairs M (order (myMap s)) of
        None \<Rightarrow> s
      | Some serializedData \<Rightarrow>
          s\<lparr>store := snd (etcd_put N (store s) (path @ ''/'' @ node_id) serializedData)\<rparr>)"

section \<open>The worker loop\<close>

text \<open>
  One pass of the loop of \<open>executeTxns\<close> is split where another thread can interfere: publishing,
  selecting, and executing.  \<open>None\<close> for the claimed transaction: none was ready.
\<close>

record site =
  s_codec :: codec
  s_messages :: messages
  s_etcd :: etcd
  s_order :: "kvmap \<Rightarrow> (string \<times> string) list"
  s_node :: string
  s_path :: string
  s_exec :: "txn_header \<Rightarrow> transaction \<Rightarrow> (kvmap, bool) op"

definition publish :: "site \<Rightarrow> csched \<Rightarrow> csched" where
  "publish S s =
     (if completedTxns (cdag s) = int (totalTxns (cdag s)) \<and> updateFlag s then
        (let s1 = dataStore (s_messages S) (s_etcd S) (s_order S) (s_node S) (s_path S @ ''/data'') s;
             comp_key = s_path S @ ''/components/status/'' @ s_node S;
             (ok, m) = etcd_put (s_etcd S) (store s1) comp_key (to_string (compCount s1))
         in s1\<lparr>store := m, updateFlag := (if ok then False else updateFlag s1)\<rparr>)
      else s)"

definition claim :: "csched \<Rightarrow> (nat option \<times> csched) outcome" where
  "claim s = bind_outcome (selectTxn_cluster (cdag s)) (\<lambda>(t, d). Ret (t, s\<lparr>cdag := d\<rparr>))"

text \<open>
  The verdict is stored into \<open>flag\<close> whatever it was before.  A header that does not parse skips the
  rest of the pass; what a handler throws would end the process, and all handlers catch.
\<close>

definition run_claimed :: "site \<Rightarrow> nat \<Rightarrow> csched \<Rightarrow> csched outcome" where
  "run_claimed S txnId s =
     (if txnId < length (transactions s) then
        (let txn = transactions s ! txnId
         in case parse_header (s_codec S) (t_header txn) of
              None \<Rightarrow> Ret s
            | Some header \<Rightarrow>
                (let (r, m) = s_exec S header txn (myMap s)
                 in bind_outcome r (\<lambda>verdict.
                    bind_outcome (complete_txn (int txnId) (cdag s)) (\<lambda>d.
                    Ret (s\<lparr>myMap := m, flag := verdict, cdag := d, compCount := compCount s + 1\<rparr>)))))
      else Undef)"

definition worker_pass :: "site \<Rightarrow> csched \<Rightarrow> csched outcome" where
  "worker_pass S s =
     (if completeFlag s \<or> \<not> flag s then Ret s
      else
        bind_outcome (claim (publish S s)) (\<lambda>(t, s').
        case t of None \<Rightarrow> Ret s' | Some txnId \<Rightarrow> run_claimed S txnId s'))"

text \<open>The monitor thread: one poll of the run key.  \<open>True\<close> when it returns.\<close>

definition monitor_poll :: "site \<Rightarrow> csched \<Rightarrow> bool \<times> csched" where
  "monitor_poll S s =
     (if \<not> flag s then (True, s)
      else
        (case etcd_get (s_etcd S) (store s) (s_path S @ ''/run'') of
           Raised \<Rightarrow> (False, s)
         | r \<Rightarrow> if as_string r = ''finish'' then (True, s\<lparr>completeFlag := True\<rparr>) else (False, s)))"

definition start_schedule :: "csched \<Rightarrow> csched" where
  "start_schedule s = s\<lparr>flag := True, completeFlag := False\<rparr>"

section \<open>Facts: which transactions a follower can run\<close>

definition set_degrees :: "int list list \<Rightarrow> nat list \<Rightarrow> int list \<Rightarrow> int list" where
  "set_degrees a cs deg = map (\<lambda>j. if j \<in> set cs then columnSum a (int j) else deg ! j) [0..<length deg]"

lemma set_degrees_simps [simp]:
  "length (set_degrees a cs deg) = length deg"
  "j < length deg \<Longrightarrow> set_degrees a cs deg ! j = (if j \<in> set cs then columnSum a (int j) else deg ! j)"
  "set_degrees a [] deg = deg"
  by (simp_all add: set_degrees_def map_nth)

lemma set_degrees_append: "set_degrees a ds (set_degrees a cs deg) = set_degrees a (cs @ ds) deg"
  by (rule nth_equalityI) auto

lemma process_list:
  assumes "inDegree d = Some deg" "\<forall>c\<in>set cs. c < length deg"
  shows "each process_one cs d = Ret (d\<lparr>inDegree := Some (set_degrees (adjacencyMatrix d) cs deg),
    completedTxns := completedTxns d - int (length cs)\<rparr>)"
  using assms
proof (induction cs arbitrary: d deg)
  case Nil
  then show ?case by simp
next
  case (Cons c cs)
  let ?d = "d\<lparr>inDegree := Some (deg[c := columnSum (adjacencyMatrix d) (int c)]), completedTxns := completedTxns d - 1\<rparr>"
  have one: "process_one c d = Ret ?d"
    using Cons.prems by (simp add: process_one_def store_degree_def)
  have "deg[c := columnSum (adjacencyMatrix d) (int c)] = set_degrees (adjacencyMatrix d) [c] deg"
    by (rule nth_equalityI) (auto simp: nth_list_update)
  then have "set_degrees (adjacencyMatrix d) cs (deg[c := columnSum (adjacencyMatrix d) (int c)]) =
      set_degrees (adjacencyMatrix d) (c # cs) deg"
    using set_degrees_append [of "adjacencyMatrix d" cs "[c]" deg] by simp
  then show ?case using Cons.IH [of ?d "deg[c := columnSum (adjacencyMatrix d) (int c)]"] Cons.prems one
    by simp
qed

text \<open>The transactions of the components that are assigned to a node and not yet taken.\<close>

definition new_for :: "int \<Rightarrow> int set \<Rightarrow> component list \<Rightarrow> nat list" where
  "new_for nodeId seen cs =
     concat (map transactionList (filter (\<lambda>c. assignedFollower c = nodeId \<and> compid c \<notin> seen) cs))"

definition ids_for :: "int \<Rightarrow> component list \<Rightarrow> int set" where
  "ids_for nodeId cs = compid ` {c \<in> set cs. assignedFollower c = nodeId}"

text \<open>The state after the loop over the components; only the listed fields change.\<close>

definition taken :: "bool \<Rightarrow> int \<Rightarrow> component list \<Rightarrow> int list \<Rightarrow> csched \<Rightarrow> csched" where
  "taken mark nodeId cs deg s =
     (let new = new_for nodeId (processed_components s) cs in
      s\<lparr>cdag := (cdag s)\<lparr>inDegree := Some (set_degrees (adjacencyMatrix (cdag s)) new deg),
                 completedTxns := completedTxns (cdag s) - int (length new)\<rparr>,
        processed_components := processed_components s \<union> ids_for nodeId cs,
        updateFlag := (updateFlag s \<or>
          mark \<and> (\<exists>c\<in>set cs. assignedFollower c = nodeId \<and> compid c \<notin> processed_components s))\<rparr>)"

lemma new_for_insert:
  "compid c \<notin> compid ` set cs \<Longrightarrow> new_for nodeId (insert (compid c) seen) cs = new_for nodeId seen cs"
  unfolding new_for_def by (rule arg_cong [where f = "\<lambda>l. concat (map transactionList l)"], rule filter_cong) (auto simp: image_iff)

lemma take_component_new:
  assumes deg: "inDegree (cdag s) = Some deg" "\<forall>j\<in>set (transactionList c). j < length deg"
    and c: "assignedFollower c = nodeId" "compid c \<notin> processed_components s"
  shows "take_component mark nodeId c s = Ret (s\<lparr>
    cdag := (cdag s)\<lparr>inDegree := Some (set_degrees (adjacencyMatrix (cdag s)) (transactionList c) deg),
               completedTxns := completedTxns (cdag s) - int (length (transactionList c))\<rparr>,
    processed_components := insert (compid c) (processed_components s),
    updateFlag := (mark \<or> updateFlag s)\<rparr>)"
  using c process_list [OF deg]
  by (simp add: take_component_def CheckForNewComponents_def ProcessIndegree_def)

lemma take_component_old:
  assumes "assignedFollower c \<noteq> nodeId \<or> compid c \<in> processed_components s"
  shows "take_component mark nodeId c s = Ret s"
  using assms by (auto simp: take_component_def CheckForNewComponents_def)

lemma new_for_Cons:
  "new_for nodeId seen (c # cs) =
     (if assignedFollower c = nodeId \<and> compid c \<notin> seen then transactionList c else []) @ new_for nodeId seen cs"
  by (simp add: new_for_def)

lemma ids_for_Cons:
  "ids_for nodeId (c # cs) = (if assignedFollower c = nodeId then {compid c} else {}) \<union> ids_for nodeId cs"
  by (auto simp: ids_for_def)

lemma take_components:
  assumes "inDegree (cdag s) = Some deg" "\<forall>c\<in>set cs. \<forall>j\<in>set (transactionList c). j < length deg"
    and "distinct (map compid cs)"
  shows "each (take_component mark nodeId) cs s = Ret (taken mark nodeId cs deg s)"
  using assms
proof (induction cs arbitrary: s deg)
  case Nil
  then show ?case by (simp add: taken_def new_for_def ids_for_def)
next
  case (Cons c cs)
  let ?a = "adjacencyMatrix (cdag s)"
  show ?case
  proof (cases "assignedFollower c = nodeId \<and> compid c \<notin> processed_components s")
    case True
    let ?deg = "set_degrees ?a (transactionList c) deg"
    let ?s = "s\<lparr>cdag := (cdag s)\<lparr>inDegree := Some ?deg,
               completedTxns := completedTxns (cdag s) - int (length (transactionList c))\<rparr>,
      processed_components := insert (compid c) (processed_components s), updateFlag := (mark \<or> updateFlag s)\<rparr>"
    have one: "take_component mark nodeId c s = Ret ?s"
      by (rule take_component_new) (use Cons.prems True in auto)
    have IH: "each (take_component mark nodeId) cs ?s = Ret (taken mark nodeId cs ?deg ?s)"
      by (rule Cons.IH) (use Cons.prems in auto)
    have "compid c \<notin> compid ` set cs" using Cons.prems(3) by simp
    then have n: "new_for nodeId (insert (compid c) (processed_components s)) cs = new_for nodeId (processed_components s) cs"
      by (rule new_for_insert)
    have "taken mark nodeId cs ?deg ?s = taken mark nodeId (c # cs) deg s"
    proof (rule csched.equality)
      have "\<exists>x\<in>set (c # cs). assignedFollower x = nodeId \<and> compid x \<notin> processed_components s"
        using True by auto
      then show "updateFlag (taken mark nodeId cs ?deg ?s) = updateFlag (taken mark nodeId (c # cs) deg s)"
        by (auto simp: taken_def Let_def)
    qed (use True in \<open>auto simp: taken_def Let_def n new_for_Cons ids_for_Cons set_degrees_append intro!: dag.equality\<close>)
    then show ?thesis using one IH by simp
  next
    case False
    have one: "take_component mark nodeId c s = Ret s"
      by (rule take_component_old) (use False in auto)
    have IH: "each (take_component mark nodeId) cs s = Ret (taken mark nodeId cs deg s)"
      by (rule Cons.IH) (use Cons.prems in auto)
    have "taken mark nodeId cs deg s = taken mark nodeId (c # cs) deg s"
    proof (rule csched.equality)
      show "processed_components (taken mark nodeId cs deg s) = processed_components (taken mark nodeId (c # cs) deg s)"
        using False by (auto simp: taken_def Let_def ids_for_Cons)
      show "updateFlag (taken mark nodeId cs deg s) = updateFlag (taken mark nodeId (c # cs) deg s)"
        using False by (auto simp: taken_def Let_def)
    qed (use False in \<open>auto simp: taken_def Let_def new_for_Cons\<close>)
    then show ?thesis using one IH by simp
  qed
qed

text \<open>The graph a follower builds from the block, and the sums of its columns.\<close>

lemma createfollower_eq:
  assumes "0 < thCount" "cleaned d"
  shows "createfollower C b thCount d = Ret ((built C b d)\<lparr>threadCount := thCount,
    completedTxns := int (length (b_transactions b)),
    inDegree := Some (replicate (length (b_transactions b)) (- 1))\<rparr>)"
proof -
  let ?t = "extract_all C (b_transactions b) 0"
  let ?n = "length ?t"
  let ?d = "d\<lparr>threadCount := thCount, CurrentTransactions := ?t, totalTxns := ?n, completedTxns := int ?n,
              adjacencyMatrix := replicate ?n (replicate ?n 0), inDegree := Some (replicate ?n (- 1))\<rparr>"
  have "each dependencyMatrix_cluster [0..<thCount] ?d =
      each mark_cell_cluster (pairs_of ?n (concat (map (row_range_cluster ?n thCount) [0..<thCount]))) ?d"
    by (rule each_threads [where P = "same_frame ?d"])
      (auto simp: dependencyMatrix_cluster_def same_frame_def dest: mark_cell_cluster_frame)
  also have "\<dots> = each mark_cell_cluster (pairs_of ?n [0..<?n]) ?d"
    by (simp only: threads_cover_cluster [OF assms(1)])
  also have "\<dots> = Ret (?d\<lparr>adjacencyMatrix :=
      fold (fill (dep_rel ?t)) (pairs_of ?n [0..<?n]) (adjacencyMatrix ?d)\<rparr>)"
    using each_mark_cell_cluster [of ?n ?n ?d "pairs_of ?n [0..<?n]"] by (simp add: set_pairs_of)
  finally show ?thesis
    using fill_all [of "[0..<?n]" ?n "dep_rel ?t"] assms(2)
    by (simp add: createfollower_def built_def cleaned_def Let_def)
qed

lemma sum_list_indicator: "sum_list (map (\<lambda>i. if P i then 1 else (0 :: int)) xs) = int (length (filter P xs))"
  by (induction xs) simp_all

lemma columnSum_dep:
  assumes "j < n"
  shows "columnSum (dep_matrix D n) (int j) = in_degrees D n ! j"
proof -
  have "columnSum (dep_matrix D n) (int j) = sum_list (map (\<lambda>i. if i < j \<and> D i j then 1 else (0 :: int)) [0..<n])"
    using assms by (simp add: columnSum_def dep_matrix_def o_def cong: map_cong)
  then show ?thesis using assms by (simp add: in_degrees_def sum_list_indicator)
qed

definition mine :: "int \<Rightarrow> componentsTable \<Rightarrow> nat list" where
  "mine nodeId t = concat (map transactionList (filter (\<lambda>c. assignedFollower c = nodeId) (componentsList t)))"

lemma new_for_fresh: "new_for nodeId {} (componentsList t) = mine nodeId t"
  by (simp add: new_for_def mine_def)

definition fresh_sched :: "csched \<Rightarrow> bool" where
  "fresh_sched s \<longleftrightarrow> cleaned (cdag s) \<and> processed_components s = {}"

text \<open>A table the leader may send: distinct ids, and transactions of the block only.\<close>

definition table_ok :: "nat \<Rightarrow> componentsTable \<Rightarrow> bool" where
  "table_ok n t \<longleftrightarrow> distinct (map compid (componentsList t)) \<and>
     (\<forall>c\<in>set (componentsList t). \<forall>j\<in>set (transactionList c). j < n)"

lemma follower_prepared:
  fixes C :: codec and b :: block
  assumes b: "parse_block K blockData = Some b" and th: "0 < thCount" and s: "fresh_sched s"
    and t: "parse_table M data = Some t" "table_ok (length (b_transactions b)) t"
  defines "ts \<equiv> extract_all C (b_transactions b) 0" and "n \<equiv> length (b_transactions b)"
  shows "\<exists>s' s''. extractBlock C K thCount blockData s = Ret s' \<and>
    ExtractComponents M data nodeId s' = Ret s'' \<and>
    inDegree (cdag s'') = Some (map (\<lambda>j. if j \<in> set (mine nodeId t) then in_degrees (dep_rel ts) n ! j else - 1) [0..<n]) \<and>
    adjacencyMatrix (cdag s'') = dep_matrix (dep_rel ts) n \<and>
    completedTxns (cdag s'') = int n - int (length (mine nodeId t)) \<and>
    transactions s'' = b_transactions b \<and> updateFlag s'' \<and>
    totalTxns (cdag s'') = n \<and> compCount s'' = compCount s \<and> myMap s'' = myMap s"
proof -
  let ?d = "(built C b (cdag s))\<lparr>threadCount := thCount, completedTxns := int n, inDegree := Some (replicate n (- 1))\<rparr>"
  let ?s = "s\<lparr>transactions := b_transactions b, cdag := ?d\<rparr>"
  have c: "cleaned (cdag s)" and p: "processed_components s = {}" using s by (simp_all add: fresh_sched_def)
  have 1: "extractBlock C K thCount blockData s = Ret ?s"
    using createfollower_eq [OF th c, of C b] b by (simp add: extractBlock_def n_def)
  have deg: "inDegree (cdag (?s\<lparr>ctable := t\<rparr>)) = Some (replicate n (- 1))" by simp
  have a: "adjacencyMatrix (cdag ?s) = dep_matrix (dep_rel ts) n" by (simp add: built_def Let_def ts_def n_def)
  have 2: "ExtractComponents M data nodeId ?s =
      Ret ((taken False nodeId (componentsList t) (replicate n (- 1)) (?s\<lparr>ctable := t\<rparr>))\<lparr>updateFlag := True\<rparr>)"
    using take_components [OF deg, of "componentsList t" False nodeId] t
    by (simp add: ExtractComponents_def table_ok_def n_def)
  have "set_degrees (dep_matrix (dep_rel ts) n) (mine nodeId t) (replicate n (- 1)) =
      map (\<lambda>j. if j \<in> set (mine nodeId t) then in_degrees (dep_rel ts) n ! j else - 1) [0..<n]"
    by (rule nth_equalityI) (auto simp: columnSum_dep)
  then show ?thesis using 1 2 a p
    by (auto simp: taken_def Let_def new_for_fresh n_def built_def)
qed

text \<open>Whatever the follower selects is one of its own transactions.\<close>

lemma own_selected:
  assumes "inDegree d = Some (map (\<lambda>j. if j \<in> set own then f j else - 1) [0..<n])" "totalTxns d = n"
    and "selectTxn_cluster d = Ret (Some i, d')"
  shows "i \<in> set own"
proof -
  let ?deg = "map (\<lambda>j. if j \<in> set own then f j else (- 1 :: int)) [0..<n]"
  have own: "i \<in> set own" if "scan_zero ?deg idxs = Some i" "set idxs \<subseteq> {0..<n}" for idxs
  proof -
    have "i \<in> set idxs" "?deg ! i = 0"
      using that(1) by (auto simp: scan_zero_def find_Some_iff)
    then show ?thesis using that(2) by (auto split: if_splits)
  qed
  show ?thesis using assms
    by (auto simp: selectTxn_cluster_def split: option.splits intro: own)
qed

section \<open>Facts: the verdict of a block\<close>

text \<open>A pass leaves the verdict of the transaction it ran, and nothing of the verdicts before it.\<close>

lemma verdict_overwritten:
  assumes "run_claimed S i s = Ret s'" "parse_header (s_codec S) (t_header (transactions s ! i)) = Some h"
    and "s_exec S h (transactions s ! i) (myMap s) = (Ret v, m)"
  shows "flag s' = v"
  using assms by (auto simp: run_claimed_def bind_outcome_Ret_iff split: if_splits)

text \<open>Two threads that have both claimed a transaction: the failure of the first is lost.\<close>

lemma failure_lost:
  assumes "run_claimed S i s = Ret s1" "run_claimed S j s1 = Ret s2" "transactions s1 = transactions s"
    and "parse_header (s_codec S) (t_header (transactions s ! j)) = Some h"
    and "s_exec S h (transactions s ! j) (myMap s1) = (Ret True, m)"
  shows "flag s2"
  using verdict_overwritten [OF assms(2)] assms(3-5) by simp

lemma run_claimed_transactions: "run_claimed S i s = Ret s' \<Longrightarrow> transactions s' = transactions s"
  by (auto simp: run_claimed_def Let_def bind_outcome_Ret_iff split: if_splits option.splits prod.splits)

text \<open>A transaction whose header does not parse stays claimed: it is never counted as completed.\<close>

lemma bad_header_kept:
  assumes "i < length (transactions s)" "parse_header (s_codec S) (t_header (transactions s ! i)) = None"
  shows "run_claimed S i s = Ret s"
  using assms by (simp add: run_claimed_def)

end
