(* ===== verification/Leader.thy ===== *)
theory Leader
  imports Cluster_Scheduler Test_Producer Commit
begin

text \<open>
  The leader of a round: class \<open>leader\<close> of \<open>BlockRAFT-distributed_node/leader/leader.h\<close>.  It hands the
  components of the block's graph to the healthy followers in turn, waits until the published counts
  add up to the number of transactions, and commits what the followers filed.
\<close>

section \<open>State\<close>

record member =
  ipAddress :: string
  member_id :: string
  healthy :: bool

record leader =
  memberList :: "member list"
  healthyMemberIds :: "int list"
  activeFollowers :: int
  table :: componentsTable
  componentCount :: nat
  stopMonitor :: bool
  DAGObj :: dag
  blocks :: db
  gdisk :: db
  gstore :: kvmap

text \<open>What the leader takes from outside: the two serialisations and the shell.\<close>

record leader_env =
  show_table :: "componentsTable \<Rightarrow> string option"
  group_order :: "nat list \<Rightarrow> nat list"

section \<open>Members and their health\<close>

text \<open>Each member of the answer has its URLs and its name; \<open>[0]\<close> of no URL is undefined.\<close>

fun add_members :: "(string list \<times> string) list \<Rightarrow> member list \<Rightarrow> member list outcome" where
  "add_members [] ms = Ret ms"
| "add_members (([], name) # rest) ms = Undef"
| "add_members ((url # urls, name) # rest) ms =
     add_members rest (ms @ [\<lparr>ipAddress = url, member_id = name, healthy = False\<rparr>])"

definition getEtcdMembers :: "(string list \<times> string) list \<Rightarrow> leader \<Rightarrow> leader outcome" where
  "getEtcdMembers members s =
     bind_outcome (add_members members (memberList s)) (\<lambda>ms. Ret (s\<lparr>memberList := ms\<rparr>))"

fun mark_member :: "string \<Rightarrow> member list \<Rightarrow> member list" where
  "mark_member ip [] = []"
| "mark_member ip (m # ms) = (if ipAddress m = ip then m\<lparr>healthy := True\<rparr> # ms else m # mark_member ip ms)"

text \<open>The words of the health report: a URL of another node, then \<open>healthy:\<close>.\<close>

fun scan_health :: "string \<Rightarrow> string list \<Rightarrow> string \<Rightarrow> bool \<Rightarrow> int \<Rightarrow> member list \<Rightarrow> int \<times> member list" where
  "scan_health node_ip [] ip nextIsIP cnt ms = (cnt, ms)"
| "scan_health node_ip (word # rest) ip nextIsIP cnt ms =
     (let other = (take 7 word = ''http://'' \<and> drop 7 word \<noteq> node_ip @ '':2379'');
          ip' = (if other then word else ip);
          nextIsIP' = (other \<or> nextIsIP)
      in if nextIsIP' \<and> word = ''healthy:''
         then scan_health node_ip rest ip' False (cnt + 1) (mark_member ip' ms)
         else scan_health node_ip rest ip' nextIsIP' cnt ms)"

definition getActiveFollowers :: "string \<Rightarrow> string \<Rightarrow> leader \<Rightarrow> int \<times> leader" where
  "getActiveFollowers node_ip report s =
     (let (cnt, ms) = scan_health node_ip (words_of report) [] False 0 (memberList s)
      in (cnt, s\<lparr>memberList := ms\<rparr>))"

function rtrim :: "string \<Rightarrow> string" where
  "rtrim str = (if str \<noteq> [] \<and> last str = CHR 0x0A then rtrim (butlast str) else str)"
  by pat_completeness auto
termination
  by (relation "measure length") auto

declare rtrim.simps [simp del]

definition contains :: "string \<Rightarrow> string \<Rightarrow> bool" where
  "contains s pat \<longleftrightarrow> list_ex (\<lambda>i. take (length pat) (drop i s) = pat) [0..<Suc (length s)]"

text \<open>\<open>nodeDetails\<close>: the own address from the shell, the own name from the members; \<open>None\<close>: not found.\<close>

fun own_name :: "string \<Rightarrow> (string list \<times> string) list \<Rightarrow> string option" where
  "own_name node_ip [] = None"
| "own_name node_ip ((urls, name) # rest) =
     (if list_ex (\<lambda>url. contains url node_ip) urls then Some name else own_name node_ip rest)"

definition nodeDetails :: "string \<Rightarrow> (string list \<times> string) list \<Rightarrow> string \<times> string option" where
  "nodeDetails hostname_output members =
     (let node_ip = rtrim hostname_output in (node_ip, own_name node_ip members))"

section \<open>Assigning the components\<close>

text \<open>\<open>std::stoi(member.id.substr(1))\<close>, for the healthy members.\<close>

fun healthy_ids :: "member list \<Rightarrow> int list outcome" where
  "healthy_ids [] = Ret []"
| "healthy_ids (m # ms) =
     (if healthy m then
        (if member_id m = [] then Throw Out_of_range
         else bind_outcome (stoi (tl (member_id m))) (\<lambda>i. bind_outcome (healthy_ids ms) (\<lambda>is. Ret (i # is))))
      else healthy_ids ms)"

definition assign_round :: "int list \<Rightarrow> componentsTable \<Rightarrow> nat \<Rightarrow> componentsTable" where
  "assign_round ids t n =
     t\<lparr>componentsList := map (\<lambda>(i, c). if i < n then c\<lparr>assignedFollower := ids ! (i mod length ids)\<rparr> else c)
         (zip [0..<length (componentsList t)] (componentsList t))\<rparr>"

text \<open>A count beyond the table is an access outside it.\<close>

definition assignFollowers :: "leader_env \<Rightarrow> etcd \<Rightarrow> string \<Rightarrow> leader \<Rightarrow> (bool \<times> leader) outcome" where
  "assignFollowers V N compKey s =
     bind_outcome (healthy_ids (memberList s)) (\<lambda>new.
     let ids = healthyMemberIds s @ new;
         s1 = s\<lparr>healthyMemberIds := ids, activeFollowers := int (length ids)\<rparr>
     in if length (componentsList (table s)) < componentCount s then Undef
        else if componentCount s > 0 \<and> ids = [] then Ret (False, s1)
        else
          (let t = assign_round ids (table s) (componentCount s);
               s2 = s1\<lparr>table := t\<rparr>
           in case show_table V t of
                None \<Rightarrow> Ret (False, s2)
              | Some serializedTable \<Rightarrow>
                  Ret (True, s2\<lparr>gstore := snd (etcd_put N (gstore s2) compKey serializedTable)\<rparr>)))"

text \<open>
  One pass of the monitor: when fewer followers answer than before, the components of unhealthy
  members move to the next in turn.  The local \<open>flag\<close> is never initialised; its value is an argument.
\<close>

fun reassign :: "int list \<Rightarrow> int \<Rightarrow> member list \<Rightarrow> nat \<Rightarrow> component list \<Rightarrow> bool \<Rightarrow> (component list \<times> bool) outcome" where
  "reassign ids active ms i [] dirty = Ret ([], dirty)"
| "reassign ids active ms i (c # cs) dirty =
     (let f = assignedFollower c in
      if f < 0 \<or> int (length ms) \<le> f then Undef
      else if \<not> healthy (ms ! nat f) then
        (if length ids \<le> i mod nat active then Undef
         else bind_outcome (reassign ids active ms (Suc i) cs True) (\<lambda>(cs', fl).
                Ret (c\<lparr>assignedFollower := ids ! (i mod nat active)\<rparr> # cs', fl)))
      else bind_outcome (reassign ids active ms (Suc i) cs dirty) (\<lambda>(cs', fl). Ret (c # cs', fl)))"

definition monitor_pass ::
    "leader_env \<Rightarrow> etcd \<Rightarrow> string \<Rightarrow> string \<Rightarrow> string \<Rightarrow> bool \<Rightarrow> leader \<Rightarrow> (bool \<times> leader) outcome" where
  "monitor_pass V N compKey node_ip report dirty s =
     (let (cnt, s1) = getActiveFollowers node_ip report s
      in if cnt < activeFollowers s1 \<and> cnt > 0 then
           bind_outcome (reassign (healthyMemberIds s1) cnt (memberList s1) 0 (componentsList (table s1)) dirty)
             (\<lambda>(cs, dirty').
             let s2 = s1\<lparr>activeFollowers := cnt, table := (table s1)\<lparr>componentsList := cs\<rparr>\<rparr>
             in if dirty' then
                  (case show_table V (table s2) of
                     None \<Rightarrow> Ret (dirty', s2)
                   | Some serializedTable \<Rightarrow>
                       Ret (dirty', s2\<lparr>gstore := snd (etcd_put N (gstore s2) compKey serializedTable)\<rparr>))
                else Ret (dirty', s2))
         else Ret (dirty, s1))"

section \<open>Waiting for the followers\<close>

text \<open>One pass over the published counts, and the loop over the states of etcd that it polls.\<close>

fun add_counts :: "etcd \<Rightarrow> kvmap \<Rightarrow> string \<Rightarrow> nat list \<Rightarrow> int \<Rightarrow> int outcome" where
  "add_counts N m path [] completed = Ret completed"
| "add_counts N m path (i # is) completed =
     (case etcd_get N m (path @ ''/s'' @ to_string (int i)) of
        Found v \<Rightarrow>
          bind_outcome (stoi v) (\<lambda>cnt. bind_outcome (add_int completed cnt) (\<lambda>c. add_counts N m path is c))
      | Failed \<Rightarrow> add_counts N m path is completed
      | Raised \<Rightarrow> Throw Runtime_error)"

definition check_pass :: "etcd \<Rightarrow> kvmap \<Rightarrow> string \<Rightarrow> nat \<Rightarrow> int \<Rightarrow> bool outcome" where
  "check_pass N m compStatusPath members txnCount =
     bind_outcome (add_counts N m compStatusPath [0..<members] 0) (\<lambda>completed. Ret (txnCount = completed))"

partial_function (option) checkComponents ::
    "etcd \<Rightarrow> (nat \<Rightarrow> kvmap) \<Rightarrow> string \<Rightarrow> nat \<Rightarrow> int \<Rightarrow> nat \<Rightarrow> nat outcome option" where
  "checkComponents N polls path members txnCount k =
     (case check_pass N (polls k) path members txnCount of
        Ret complete \<Rightarrow>
          if complete then Some (Ret k) else checkComponents N polls path members txnCount (Suc k)
      | Throw e \<Rightarrow> Some (Throw e)
      | Undef \<Rightarrow> Some Undef
      | Stuck \<Rightarrow> Some Stuck)"

section \<open>Collecting what the followers filed\<close>

text \<open>The text \<open>key=value;key=value\<close>; a segment without \<open>=\<close> is skipped.\<close>

definition split_pair :: "string \<Rightarrow> (string \<times> string) option" where
  "split_pair pair =
     (if CHR ''='' \<in> set pair
      then Some (takeWhile (\<lambda>c. c \<noteq> CHR ''='') pair, drop 1 (dropWhile (\<lambda>c. c \<noteq> CHR ''='') pair))
      else None)"

fun apply_pairs :: "env \<Rightarrow> string list \<Rightarrow> string \<Rightarrow> db \<Rightarrow> string \<times> db" where
  "apply_pairs E [] updatedKeys m = (updatedKeys, m)"
| "apply_pairs E (pair # rest) updatedKeys m =
     (case split_pair pair of
        None \<Rightarrow> apply_pairs E rest updatedKeys m
      | Some (key, val) \<Rightarrow> apply_pairs E rest (updatedKeys @ key @ '' '') (snd (insert_kv E key val m)))"

definition fetchAndParseKeys :: "env \<Rightarrow> etcd \<Rightarrow> kvmap \<Rightarrow> string \<Rightarrow> nat \<Rightarrow> db \<Rightarrow> (string \<times> db) outcome" where
  "fetchAndParseKeys E N m path i st =
     (case etcd_get N m (path @ ''/data/s'' @ to_string (int i)) of
        Found data \<Rightarrow> Ret (apply_pairs E (getline_all (CHR '';'') data) [] st)
      | Failed \<Rightarrow> Ret ([], st)
      | Raised \<Rightarrow> Throw Runtime_error)"

text \<open>The threads of \<open>saveData\<close> run one after another here.\<close>

fun fetch_all :: "env \<Rightarrow> etcd \<Rightarrow> kvmap \<Rightarrow> string \<Rightarrow> nat list \<Rightarrow> string \<Rightarrow> db \<Rightarrow> (string \<times> db) outcome" where
  "fetch_all E N m path [] allKeys st = Ret (allKeys, st)"
| "fetch_all E N m path (i # is) allKeys st =
     bind_outcome (fetchAndParseKeys E N m path i st) (\<lambda>(keys, st').
       fetch_all E N m path is (allKeys @ keys) st')"

definition saveData :: "env \<Rightarrow> etcd \<Rightarrow> kvmap \<Rightarrow> string \<Rightarrow> nat \<Rightarrow> db \<Rightarrow> db outcome" where
  "saveData E N m path clusterSize disk =
     bind_outcome (open_state E False disk) (\<lambda>st.
     bind_outcome (fetch_all E N m path [0..<clusterSize] [] st) (\<lambda>(allUpdatedKeys, st').
     Ret (gs_db (updateTree E allUpdatedKeys \<lparr>gs_db = st', nodeCache = Map.empty\<rparr>))))"

section \<open>The protocol of a round\<close>

text \<open>
  The thread that publishes the block.  When the block does not serialise or its header does not
  parse it returns early, and the paths stay empty.
\<close>

definition put_key :: "etcd \<Rightarrow> string \<Rightarrow> string \<Rightarrow> leader \<Rightarrow> leader" where
  "put_key N key val s = s\<lparr>gstore := snd (etcd_put N (gstore s) key val)\<rparr>"

record published =
  base_path :: string
  block_no :: nat
  serializedBlock :: string

definition publish_block ::
    "block_codec \<Rightarrow> etcd \<Rightarrow> string \<Rightarrow> string \<Rightarrow> string \<Rightarrow> string \<Rightarrow> (string list \<times> string) list \<Rightarrow> string \<Rightarrow>
     block \<Rightarrow> leader \<Rightarrow> (published \<times> leader) outcome" where
  "publish_block K N node_id node_ip raftTerm mode members report latestBlock s =
     (case show_block K latestBlock of
        None \<Rightarrow> Ret (\<lparr>base_path = [], block_no = 0, serializedBlock = []\<rparr>, s)
      | Some text \<Rightarrow>
          (case parse_block_header K (b_header latestBlock) of
             None \<Rightarrow> Ret (\<lparr>base_path = [], block_no = 0, serializedBlock = text\<rparr>, s)
           | Some header \<Rightarrow>
               bind_outcome (getEtcdMembers members s) (\<lambda>s1.
               let s2 = snd (getActiveFollowers node_ip report s1);
                   base = node_id @ ''/'' @ raftTerm @ ''/'' @ to_string (int (block_num header));
                   s3 = put_key N (base @ ''/block'') text s2;
                   s4 = put_key N (base @ ''/run'') ''wait'' s3;
                   s5 = put_key N (base @ ''/commit'') (if mode = ''validation'' then ''1'' else ''0'') s4
               in Ret (\<lparr>base_path = base, block_no = block_num header, serializedBlock = text\<rparr>, s5))))"

text \<open>The thread that builds the graph and its components.\<close>

definition build_table :: "leader_env \<Rightarrow> codec \<Rightarrow> nat \<Rightarrow> block \<Rightarrow> leader \<Rightarrow> leader outcome" where
  "build_table V C thCount latestBlock s =
     bind_outcome (create_cluster C latestBlock thCount (DAGObj s)) (\<lambda>d.
     case connectedComponents_cluster (group_order V) (adjacencyMatrix d) of
       None \<Rightarrow> Stuck
     | Some t \<Rightarrow> Ret (s\<lparr>DAGObj := d, table := t, componentCount := length (componentsList t)\<rparr>))"

text \<open>
  After both threads.  \<open>polls\<close> gives etcd at each poll of \<open>checkComponents\<close>, from what the leader left
  there: the followers write meanwhile.  \<open>None\<close>: the counts never add up and the loop does not end.
\<close>

definition clear_round :: "leader \<Rightarrow> leader" where
  "clear_round s =
     s\<lparr>DAGObj := dagClean (DAGObj s), componentCount := 0,
       table := \<lparr>totalComponents = 0, componentsList = []\<rparr>, healthyMemberIds := [], memberList := []\<rparr>"

definition commit_round ::
    "env \<Rightarrow> etcd \<Rightarrow> nat \<Rightarrow> published \<Rightarrow> leader \<Rightarrow> (bool \<times> leader) outcome" where
  "commit_round E N cnt p s =
     (let s1 = put_key N (base_path p @ ''/run'') ''finish'' (s\<lparr>stopMonitor := True\<rparr>);
          s2 = put_key N (base_path p @ ''/commit'') ''1'' s1
      in bind_outcome (saveData E N (gstore s2) (base_path p) (length (memberList s2)) (gdisk s2)) (\<lambda>disk.
         let bl = snd (storeBlock E (CHR ''B'' # to_string (int (block_no p))) (serializedBlock p) (blocks s2));
             s3 = clear_round (s2\<lparr>gdisk := disk, blocks := bl\<rparr>)
         in if cnt mod 2 = 0
            then bind_outcome (open_state E True (gdisk s3)) (\<lambda>fresh. Ret (True, s3\<lparr>gdisk := fresh\<rparr>))
            else Ret (True, s3)))"

definition run_round ::
    "env \<Rightarrow> leader_env \<Rightarrow> etcd \<Rightarrow> (kvmap \<Rightarrow> nat \<Rightarrow> kvmap) \<Rightarrow> nat \<Rightarrow> published \<Rightarrow> leader \<Rightarrow> (bool \<times> leader) outcome option" where
  "run_round E V N polls cnt p s =
     (case assignFollowers V N (base_path p @ ''/components'') s of
        Ret (True, s1) \<Rightarrow>
          (let s2 = put_key N (base_path p @ ''/run'') ''start'' s1
           in case checkComponents N (polls (gstore s2)) (base_path p @ ''/components/status'')
                     (length (memberList s2)) (int (totalTxns (DAGObj s2))) 0 of
                None \<Rightarrow> None
              | Some r \<Rightarrow>
                  Some (bind_outcome r (\<lambda>k. commit_round E N cnt p (s2\<lparr>gstore := polls (gstore s2) k\<rparr>))))
      | Ret (False, s1) \<Rightarrow> Some (Ret (False, s1))
      | Throw e \<Rightarrow> Some (Throw e) | Undef \<Rightarrow> Some Undef | Stuck \<Rightarrow> Some Stuck)"

record round_input =
  r_node_id :: string
  r_node_ip :: string
  r_raftTerm :: string
  r_mode :: string
  r_members :: "(string list \<times> string) list"
  r_report :: string
  r_threads :: nat
  r_count :: nat
  r_block :: "block outcome"

text \<open>\<open>r_block\<close> is what the producer returned for the setup file (even rounds) or the test file.\<close>

definition leaderProtocol ::
    "env \<Rightarrow> block_codec \<Rightarrow> codec \<Rightarrow> leader_env \<Rightarrow> etcd \<Rightarrow> (kvmap \<Rightarrow> nat \<Rightarrow> kvmap) \<Rightarrow> round_input \<Rightarrow> leader \<Rightarrow>
     (bool \<times> leader) outcome option" where
  "leaderProtocol E K C V N polls i s =
     (case r_block i of
        Ret latestBlock \<Rightarrow>
          if b_transactions latestBlock = [] then Some (Ret (False, s))
          else
            (case publish_block K N (r_node_id i) (r_node_ip i) (r_raftTerm i) (r_mode i) (r_members i)
                    (r_report i) latestBlock s of
               Ret (p, s1) \<Rightarrow>
                 (case build_table V C (r_threads i) latestBlock s1 of
                    Ret s2 \<Rightarrow> run_round E V N polls (r_count i) p s2
                  | Throw e \<Rightarrow> Some (Throw e) | Undef \<Rightarrow> Some Undef | Stuck \<Rightarrow> Some Stuck)
             | Throw e \<Rightarrow> Some (Throw e) | Undef \<Rightarrow> Some Undef | Stuck \<Rightarrow> Some Stuck)
      | Throw e \<Rightarrow> Some (Throw e) | Undef \<Rightarrow> Some Undef | Stuck \<Rightarrow> Some Stuck)"

end
