(* ===== verification/Leader_Facts.thy ===== *)
theory Leader_Facts
  imports Leader
begin

text \<open>
  What the leader achieves: a fair assignment in which every transaction has exactly one follower, a
  completion test that is passed exactly when all shares are done, and the effect of collecting the
  followers' results.
\<close>

section \<open>The assignment\<close>

lemma rtrim_spec: "\<exists>k. str = rtrim str @ replicate k (CHR 0x0A) \<and> (rtrim str = [] \<or> last (rtrim str) \<noteq> CHR 0x0A)"
proof (induction str rule: rtrim.induct)
  case (1 str)
  show ?case
  proof (cases "str \<noteq> [] \<and> last str = CHR 0x0A")
    case True
    then obtain k where k: "butlast str = rtrim (butlast str) @ replicate k (CHR 0x0A)"
      "rtrim (butlast str) = [] \<or> last (rtrim (butlast str)) \<noteq> CHR 0x0A"
      using 1 by blast
    have "str = butlast str @ [CHR 0x0A]" using True by (metis append_butlast_last_id)
    then have "str = rtrim (butlast str) @ replicate (Suc k) (CHR 0x0A)"
      using k(1) by (metis append.assoc replicate_append_same replicate_Suc)
    moreover have "rtrim str = rtrim (butlast str)" using True by (subst rtrim.simps) simp
    ultimately show ?thesis using k(2) by metis
  next
    case False
    then have "rtrim str = str" by (subst rtrim.simps) auto
    then show ?thesis using False by (intro exI [of _ 0]) auto
  qed
qed

lemma length_assign_round [simp]: "length (componentsList (assign_round ids t n)) = length (componentsList t)"
  by (simp add: assign_round_def)

lemma nth_assign_round:
  "i < length (componentsList t) \<Longrightarrow> componentsList (assign_round ids t n) ! i =
     (let c = componentsList t ! i in if i < n then c\<lparr>assignedFollower := ids ! (i mod length ids)\<rparr> else c)"
  by (simp add: assign_round_def Let_def)

lemma assign_round_lists:
  "map transactionList (componentsList (assign_round ids t n)) = map transactionList (componentsList t)"
  "map compid (componentsList (assign_round ids t n)) = map compid (componentsList t)"
  by (rule nth_equalityI; simp add: nth_assign_round Let_def)+

lemma assignFollowers_True:
  assumes "assignFollowers V N key s = Ret (True, s')"
  obtains new where "healthy_ids (memberList s) = Ret new"
    "table s' = assign_round (healthyMemberIds s @ new) (table s) (componentCount s)"
    "componentCount s = 0 \<or> healthyMemberIds s @ new \<noteq> []"
    "componentCount s \<le> length (componentsList (table s))"
  using assms by (auto simp: assignFollowers_def bind_outcome_Ret_iff Let_def split: if_splits option.splits)

text \<open>Round robin: the followers' numbers of components differ by one at most.\<close>

lemma filter_mod_upt:
  assumes "r < k"
  shows "length (filter (\<lambda>i. i mod k = r) [0..<n]) = n div k + (if r < n mod k then 1 else 0)"
proof (induction n)
  case (Suc n)
  show ?case
  proof (cases "Suc (n mod k) = k")
    case True
    then have "Suc n mod k = 0" "Suc n div k = Suc (n div k)"
      by (simp_all add: mod_Suc div_Suc)
    then show ?thesis using Suc assms True by auto
  next
    case False
    then have "Suc n mod k = Suc (n mod k)" "Suc n div k = n div k"
      by (simp_all add: mod_Suc div_Suc)
    then show ?thesis using Suc assms by auto
  qed
qed simp

lemma filter_nth: "filter P xs = map ((!) xs) (filter (\<lambda>i. P (xs ! i)) [0..<length xs])"
proof -
  have "filter P (map ((!) xs) [0..<length xs]) = map ((!) xs) (filter (P \<circ> (!) xs) [0..<length xs])"
    by (rule filter_map)
  then show ?thesis by (simp add: map_nth o_def)
qed

lemma round_robin_fair:
  assumes ids: "distinct ids" "r < length ids"
  shows "length (filter (\<lambda>c. assignedFollower c = ids ! r)
      (componentsList (assign_round ids t (length (componentsList t))))) =
    length (componentsList t) div length ids + (if r < length (componentsList t) mod length ids then 1 else 0)"
proof -
  let ?l = "componentsList (assign_round ids t (length (componentsList t)))" and ?n = "length (componentsList t)"
  have k: "0 < length ids" using ids(2) by linarith
  have "filter (\<lambda>c. assignedFollower c = ids ! r) ?l = map ((!) ?l) (filter (\<lambda>i. assignedFollower (?l ! i) = ids ! r) [0..<?n])"
    using filter_nth [of "\<lambda>c. assignedFollower c = ids ! r" ?l] by simp
  moreover have "filter (\<lambda>i. assignedFollower (?l ! i) = ids ! r) [0..<?n] = filter (\<lambda>i. i mod length ids = r) [0..<?n]"
  proof (rule filter_cong)
    fix i assume "i \<in> set [0..<?n]"
    moreover have "ids ! (i mod length ids) = ids ! r \<longleftrightarrow> i mod length ids = r"
      using ids k by (simp add: nth_eq_iff_index_eq)
    ultimately show "assignedFollower (?l ! i) = ids ! r \<longleftrightarrow> i mod length ids = r"
      by (simp add: nth_assign_round Let_def)
  qed simp
  ultimately show ?thesis using filter_mod_upt [OF ids(2), of ?n] by simp
qed

text \<open>Every transaction belongs to one follower.\<close>

definition partitions :: "nat \<Rightarrow> componentsTable \<Rightarrow> bool" where
  "partitions n t \<longleftrightarrow> distinct (concat (map transactionList (componentsList t))) \<and>
     set (concat (map transactionList (componentsList t))) = {0..<n}"

lemma concat_filter_disjoint:
  assumes "distinct (concat (map f xs))" "a \<in> set (concat (map f (filter P xs)))" "a \<in> set (concat (map f (filter Q xs)))"
  shows "\<exists>x\<in>set xs. P x \<and> Q x"
  using assms by (induction xs) (auto split: if_splits)

lemma one_owner:
  assumes "partitions n t" "j < n"
  shows "\<exists>!f. j \<in> set (mine f t)"
proof -
  have "j \<in> set (concat (map transactionList (componentsList t)))" using assms by (simp add: partitions_def)
  then obtain c where c: "c \<in> set (componentsList t)" "j \<in> set (transactionList c)" by auto
  then have "j \<in> set (mine (assignedFollower c) t)" by (auto simp: mine_def)
  moreover have "f = f'" if "j \<in> set (mine f t)" "j \<in> set (mine f' t)" for f f'
    using concat_filter_disjoint [of transactionList "componentsList t" j "\<lambda>c. assignedFollower c = f" "\<lambda>c. assignedFollower c = f'"]
      assms(1) that by (auto simp: partitions_def mine_def)
  ultimately show ?thesis by blast
qed

text \<open>The shares of the followers named in the table add up to the block.\<close>

lemma mine_sum:
  assumes "distinct fs" "\<forall>c\<in>set cs. assignedFollower c \<in> set fs"
  shows "(\<Sum>f\<leftarrow>fs. length (concat (map transactionList (filter (\<lambda>c. assignedFollower c = f) cs)))) =
    length (concat (map transactionList cs))"
  using assms(2)
proof (induction cs)
  case (Cons c cs)
  have "(\<Sum>f\<leftarrow>fs. length (concat (map transactionList (filter (\<lambda>c. assignedFollower c = f) (c # cs))))) =
      (\<Sum>f\<leftarrow>fs. (if f = assignedFollower c then length (transactionList c) else 0) +
         length (concat (map transactionList (filter (\<lambda>c. assignedFollower c = f) cs))))"
    by (rule arg_cong [where f = sum_list], rule map_cong) auto
  also have "\<dots> = (\<Sum>f\<leftarrow>fs. if f = assignedFollower c then length (transactionList c) else 0) +
      length (concat (map transactionList cs))"
    using Cons by (simp add: sum_list_addf)
  also have "(\<Sum>f\<leftarrow>fs. if f = assignedFollower c then length (transactionList c) else 0) = length (transactionList c)"
    using assms(1) Cons.prems by (simp add: sum_list_distinct_conv_sum_set)
  finally show ?case by simp
qed simp

lemma shares_add_up:
  assumes "partitions n t" "distinct fs" "\<forall>c\<in>set (componentsList t). assignedFollower c \<in> set fs"
  shows "(\<Sum>f\<leftarrow>fs. length (mine f t)) = n"
proof -
  have "length (concat (map transactionList (componentsList t))) = n"
    using assms(1) distinct_card by (fastforce simp: partitions_def)
  then show ?thesis using mine_sum [OF assms(2,3)] by (simp add: mine_def)
qed

section \<open>The completion test\<close>

lemma add_counts_sum:
  assumes "etcd_law N" "\<forall>i\<in>set is. m (path @ ''/s'' @ to_string (int i)) = Some (to_string (int (c i)))"
    and "0 \<le> a" "a + int (\<Sum>i\<leftarrow>is. c i) \<le> max_num"
  shows "add_counts N m path is a = Ret (a + int (\<Sum>i\<leftarrow>is. c i))"
  using assms(2-)
proof (induction "is" arbitrary: a)
  case (Cons i "is")
  have ii: "in_int (int (c i))" "in_int (a + int (c i))" using Cons.prems by (simp_all add: in_int_def)
  have "add_counts N m path is (a + int (c i)) = Ret (a + int (c i) + int (\<Sum>i\<leftarrow>is. c i))"
    by (rule Cons.IH) (use Cons.prems in auto)
  then show ?case using Cons.prems ii by (simp add: etcd_lawD(1) [OF assms(1)] add_int_def)
qed simp

lemma sum_list_le_eq:
  fixes f g :: "'a \<Rightarrow> nat"
  assumes "\<forall>x\<in>set xs. f x \<le> g x"
  shows "sum_list (map f xs) = sum_list (map g xs) \<longleftrightarrow> (\<forall>x\<in>set xs. f x = g x)"
  using assms
proof (induction xs)
  case (Cons x xs)
  have "sum_list (map f xs) \<le> sum_list (map g xs)" using Cons.prems by (intro sum_list_mono) auto
  then show ?case using Cons by auto
qed simp

lemma check_pass_complete:
  assumes N: "etcd_law N" and p: "partitions n t" "int n \<le> max_num"
    and f: "\<forall>c\<in>set (componentsList t). 0 \<le> assignedFollower c \<and> assignedFollower c < int k"
    and counts: "\<forall>i<k. m (path @ ''/s'' @ to_string (int i)) = Some (to_string (int (c i)))"
      "\<forall>i<k. c i \<le> length (mine (int i) t)"
  shows "check_pass N m path k (int n) = Ret (\<forall>i<k. c i = length (mine (int i) t))"
proof -
  have "\<forall>c\<in>set (componentsList t). assignedFollower c \<in> set (map int [0..<k])"
    using f by (auto simp: image_iff) (metis nat_int_comparison(2) nat_0_le atLeast0LessThan lessThan_iff)
  then have total: "(\<Sum>i\<leftarrow>[0..<k]. length (mine (int i) t)) = n"
    using shares_add_up [OF p(1), of "map int [0..<k]"] by (simp add: distinct_map o_def)
  have le: "(\<Sum>i\<leftarrow>[0..<k]. c i) \<le> n"
    unfolding total [symmetric] by (rule sum_list_mono) (use counts(2) in auto)
  have "add_counts N m path [0..<k] 0 = Ret (0 + int (\<Sum>i\<leftarrow>[0..<k]. c i))"
    by (rule add_counts_sum [OF N]) (use counts(1) le p(2) in auto)
  moreover have "(\<Sum>i\<leftarrow>[0..<k]. c i) = n \<longleftrightarrow> (\<forall>i<k. c i = length (mine (int i) t))"
    using sum_list_le_eq [of "[0..<k]" c "\<lambda>i. length (mine (int i) t)"] counts(2) total by auto
  ultimately show ?thesis by (auto simp: check_pass_def)
qed

text \<open>The loop returns at the first poll that passes, and not before.\<close>

lemma checkComponents_returns:
  assumes "\<forall>j. k \<le> j \<and> j < k + d \<longrightarrow> check_pass N (polls j) path n cnt = Ret False"
    and "check_pass N (polls (k + d)) path n cnt = Ret True"
  shows "checkComponents N polls path n cnt k = Some (Ret (k + d))"
  using assms
proof (induction d arbitrary: k)
  case 0
  then show ?case by (subst checkComponents.simps) simp
next
  case (Suc d)
  have "check_pass N (polls k) path n cnt = Ret False" using Suc.prems(1) by auto
  moreover have "checkComponents N polls path n cnt (Suc k) = Some (Ret (Suc k + d))"
    by (rule Suc.IH) (use Suc.prems in auto)
  ultimately show ?case by (subst checkComponents.simps) simp
qed

section \<open>Health\<close>

text \<open>A report can only turn members healthy: one that fails later is never noticed.\<close>

lemma mark_member_healthy: "list_all healthy ms \<Longrightarrow> list_all healthy (mark_member ip ms)"
  by (induction ms) auto

lemma length_mark_member [simp]: "length (mark_member ip ms) = length ms"
  by (induction ms) auto

lemma scan_health_healthy:
  "list_all healthy ms \<Longrightarrow> list_all healthy (snd (scan_health node_ip ws ip nxt cnt ms)) \<and>
     length (snd (scan_health node_ip ws ip nxt cnt ms)) = length ms"
  by (induction node_ip ws ip nxt cnt ms rule: scan_health.induct)
    (auto simp: Let_def mark_member_healthy)

lemma reassign_healthy:
  assumes "list_all healthy ms" "\<forall>c\<in>set cs. 0 \<le> assignedFollower c \<and> assignedFollower c < int (length ms)"
  shows "reassign ids active ms i cs dirty = Ret (cs, dirty)"
  using assms by (induction cs arbitrary: i) (auto simp: Let_def list_all_length nat_less_iff)

lemma monitor_never_reassigns:
  assumes "list_all healthy (memberList s)"
    and "\<forall>c\<in>set (componentsList (table s)). 0 \<le> assignedFollower c \<and> assignedFollower c < int (length (memberList s))"
  shows "\<exists>s'. monitor_pass V N key node_ip report False s = Ret (False, s') \<and> table s' = table s \<and> gstore s' = gstore s"
proof -
  obtain cnt ms where sc: "scan_health node_ip (words_of report) [] False 0 (memberList s) = (cnt, ms)" by fastforce
  have ms: "list_all healthy ms" "length ms = length (memberList s)"
    using scan_health_healthy [OF assms(1), of node_ip "words_of report" "[]" False 0] sc by auto
  have "reassign (healthyMemberIds s) cnt ms 0 (componentsList (table s)) False = Ret (componentsList (table s), False)"
    by (rule reassign_healthy) (use ms assms(2) in auto)
  then show ?thesis by (simp add: monitor_pass_def getActiveFollowers_def sc Let_def)
qed

section \<open>Collecting results\<close>

text \<open>The inserts that a text of pairs stands for.\<close>

definition pair_text :: "string \<times> string \<Rightarrow> string" where
  "pair_text = (\<lambda>(k, v). k @ CHR ''='' # v)"

fun pairs_text :: "(string \<times> string) list \<Rightarrow> string" where
  "pairs_text [] = []"
| "pairs_text (p # ps) = pair_text p @ CHR '';'' # pairs_text ps"

definition good_pair :: "string \<times> string \<Rightarrow> bool" where
  "good_pair = (\<lambda>(k, v). CHR ''='' \<notin> set k \<and> CHR '';'' \<notin> set k \<and> CHR '';'' \<notin> set v)"

lemma cut_at:
  "c \<notin> set a \<Longrightarrow> takeWhile (\<lambda>x. x \<noteq> c) (a @ c # b) = a"
  "c \<notin> set a \<Longrightarrow> dropWhile (\<lambda>x. x \<noteq> c) (a @ c # b) = c # b"
  by (induction a) auto

lemma split_pair_text: "good_pair p \<Longrightarrow> split_pair (pair_text p) = Some p"
  by (cases p) (auto simp: split_pair_def pair_text_def good_pair_def cut_at)

lemma getline_pairs:
  "list_all good_pair ps \<Longrightarrow> getline_all (CHR '';'') (pairs_text ps) = map pair_text ps"
proof (induction ps)
  case (Cons p ps)
  have "CHR '';'' \<notin> set (pair_text p)" using Cons.prems by (cases p) (auto simp: good_pair_def pair_text_def)
  then show ?case using Cons getline_all_segment by simp
qed simp

lemma apply_pairs_text:
  "list_all good_pair ps \<Longrightarrow> apply_pairs E (map pair_text ps) keys m =
     (keys @ concat (map (\<lambda>(k, v). k @ '' '') ps), fold (\<lambda>(k, v) m. snd (insert_kv E k v m)) ps m)"
  by (induction ps arbitrary: keys m) (auto simp: split_pair_text)

lemma fetch_effect:
  assumes "etcd_law N" "m (path @ ''/data/s'' @ to_string (int i)) = Some (pairs_text ps)" "list_all good_pair ps"
  shows "fetchAndParseKeys E N m path i st =
    Ret (concat (map (\<lambda>(k, v). k @ '' '') ps), fold (\<lambda>(k, v) m. snd (insert_kv E k v m)) ps st)"
  using assms by (simp add: fetchAndParseKeys_def etcd_lawD(1) getline_pairs apply_pairs_text)

lemma empty_block_rejected:
  "r_block i = Ret b \<Longrightarrow> b_transactions b = [] \<Longrightarrow> leaderProtocol E K C V N polls i s = Some (Ret (False, s))"
  by (simp add: leaderProtocol_def)

end
