(* ===== verification/Cluster_Properties.thy ===== *)
theory Cluster_Properties
  imports Leader_Facts Samples
begin

text \<open>
  The properties of a round of the cluster: what the leader publishes and assigns, what a follower
  runs, how completion is detected, how results come back, and how failures of members and of
  transactions are noticed.
\<close>

text \<open>A follower prepares exactly its own share of the leader's block: after extracting the block and
  the component table, the in-degree of each transaction of a component assigned to the follower is the
  number of its predecessors in the whole block, every other transaction is marked as taken, the matrix
  is the block's dependency matrix, and the completion counter starts at the number of transactions
  that are not the follower's.\<close>

lemma follower_prepares_its_share:
  assumes "parse_block K blockData = Some b" "0 < thCount" "fresh_sched s"
    and "parse_table M data = Some t" "table_ok (length (b_transactions b)) t"
    and "ts = extract_all C (b_transactions b) 0" "n = length (b_transactions b)"
  shows "\<exists>s' s''. extractBlock C K thCount blockData s = Ret s' \<and> ExtractComponents M data nodeId s' = Ret s'' \<and>
    inDegree (cdag s'') = Some (map (\<lambda>j. if j \<in> set (mine nodeId t) then in_degrees (dep_rel ts) n ! j else - 1) [0..<n]) \<and>
    adjacencyMatrix (cdag s'') = dep_matrix (dep_rel ts) n \<and>
    completedTxns (cdag s'') = int n - int (length (mine nodeId t)) \<and>
    transactions s'' = b_transactions b \<and> updateFlag s'' \<and>
    totalTxns (cdag s'') = n \<and> compCount s'' = compCount s \<and> myMap s'' = myMap s"
  using follower_prepared [where C = C and s = s and M = M, OF assms(1-5)] unfolding assms(6,7) .

definition one_component :: componentsTable where
  "one_component =
     \<lparr>totalComponents = 1, componentsList = [\<lparr>transactionList = [0], assignedFollower = 1, compid = 0\<rparr>]\<rparr>"

definition sample_messages :: messages where
  "sample_messages =
     \<lparr>parse_table = (\<lambda>s. if s = ''t'' then Some one_component else None), parse_graph = (\<lambda>_. None), show_pairs = (\<lambda>_. None)\<rparr>"

definition empty_dag :: dag where
  "empty_dag =
     \<lparr>CurrentTransactions = [], adjacencyMatrix = [], inDegree = None, completedTxns = 0, lastTxn = 0,
      totalTxns = 0, threadCount = 0\<rparr>"

definition new_csched :: csched where
  "new_csched =
     \<lparr>cdag = empty_dag, ctable = \<lparr>totalComponents = 0, componentsList = []\<rparr>, processed_components = {}, transactions = [],
      compCount = 0, flag = True, completeFlag = False, updateFlag = False, myMap = Map.empty, store = Map.empty\<rparr>"

lemma follower_prepares_its_share_witness:
  "\<exists>s' s''. extractBlock sample_codec sample_blocks 2 (enc_block sample_block) new_csched = Ret s' \<and>
     ExtractComponents sample_messages ''t'' 1 s' = Ret s'' \<and> inDegree (cdag s'') = Some [0] \<and> completedTxns (cdag s'') = 0"
proof -
  have "parse_block sample_blocks (enc_block sample_block) = Some sample_block" by (simp add: sample_blocks_def)
  moreover have "parse_table sample_messages ''t'' = Some one_component" by (simp add: sample_messages_def)
  moreover have "fresh_sched new_csched" by (simp add: fresh_sched_def new_csched_def cleaned_def empty_dag_def)
  moreover have "table_ok (length (b_transactions sample_block)) one_component"
    by (simp add: table_ok_def one_component_def sample_block_def)
  ultimately show ?thesis
    using follower_prepares_its_share [of sample_blocks "enc_block sample_block" sample_block 2 new_csched
        sample_messages "''t''" one_component _ sample_codec _ 1, OF _ _ _ _ _ HOL.refl HOL.refl]
    by (auto simp: sample_block_def mine_def one_component_def in_degrees_def)
qed

text \<open>C26: The leader spreads a block over the healthy members without overlap: when it assigns the
  components of a block to members with distinct identifiers, each transaction belongs to the share of
  exactly one member, the shares together have as many transactions as the block, and the numbers of
  components any two members get differ by at most one.\<close>

theorem leader_assigns_once:
  assumes "assignFollowers V N key s = Ret (True, s')" "componentCount s = length (componentsList (table s))"
    and "partitions n (table s)" "healthyMemberIds s = []" "healthy_ids (memberList s) = Ret ids" "distinct ids"
    and "0 < n"
  shows "(\<forall>j<n. \<exists>!f. j \<in> set (mine f (table s'))) \<and> (\<Sum>f\<leftarrow>ids. length (mine f (table s'))) = n \<and>
    (\<forall>r<length ids. length (filter (\<lambda>c. assignedFollower c = ids ! r) (componentsList (table s'))) =
       length (componentsList (table s)) div length ids +
         (if r < length (componentsList (table s)) mod length ids then 1 else 0))"
proof -
  obtain new where new: "healthy_ids (memberList s) = Ret new"
    "table s' = assign_round (healthyMemberIds s @ new) (table s) (componentCount s)"
    "componentCount s = 0 \<or> healthyMemberIds s @ new \<noteq> []"
    by (rule assignFollowers_True [OF assms(1)]) blast
  have t: "table s' = assign_round ids (table s) (length (componentsList (table s)))"
    using new assms(2,4,5) by simp
  have p: "partitions n (table s')"
    using assms(3) unfolding t partitions_def assign_round_lists .
  have ne: "ids \<noteq> []"
    using new(1,3) assms(2-5,7) by (auto simp: partitions_def)
  have "\<forall>c\<in>set (componentsList (table s')). assignedFollower c \<in> set ids"
  proof
    fix c assume "c \<in> set (componentsList (table s'))"
    then obtain i where "i < length (componentsList (table s))" "c = componentsList (table s') ! i"
      by (auto simp: in_set_conv_nth t)
    then have "assignedFollower c = ids ! (i mod length ids)" by (simp add: t nth_assign_round)
    then show "assignedFollower c \<in> set ids" using ne by simp
  qed
  then show ?thesis
    using one_owner [OF p] shares_add_up [OF p assms(6)] round_robin_fair [OF assms(6)] by (auto simp: t)
qed

definition sample_leader :: leader where
  "sample_leader =
     \<lparr>memberList = [\<lparr>ipAddress = ''http://a'', member_id = ''s5'', healthy = True\<rparr>], healthyMemberIds = [], activeFollowers = 0,
      table = one_component, componentCount = 1, stopMonitor = False, DAGObj = empty_dag, blocks = Map.empty,
      gdisk = Map.empty, gstore = Map.empty\<rparr>"

theorem leader_assigns_once_witness:
  "\<exists>s'. assignFollowers \<lparr>show_table = (\<lambda>_. Some ''t''), group_order = id\<rparr> sample_etcd ''k'' sample_leader = Ret (True, s') \<and>
     (\<exists>!f. 0 \<in> set (mine f (table s')))"
proof -
  have ids: "healthy_ids (memberList sample_leader) = Ret [5]" by (simp add: sample_leader_def)
  then obtain s' where s': "assignFollowers \<lparr>show_table = (\<lambda>_. Some ''t''), group_order = id\<rparr> sample_etcd ''k'' sample_leader = Ret (True, s')"
    by (simp add: assignFollowers_def Let_def) (simp add: sample_leader_def one_component_def)
  show ?thesis
    using leader_assigns_once [OF s' _ _ _ ids, of 1] s'
    by (simp add: sample_leader_def one_component_def partitions_def)
qed

text \<open>The leader's completion test is exact: when each member reports at most as many completed
  transactions as its share has, the counts the leader reads add up to the size of the block if and only
  if every member has completed its whole share.\<close>

lemma completion_test_exact:
  assumes "etcd_law N" "partitions n t" "int n \<le> max_num"
    and "\<forall>c\<in>set (componentsList t). 0 \<le> assignedFollower c \<and> assignedFollower c < int k"
    and "\<forall>i<k. m (path @ ''/s'' @ to_string (int i)) = Some (to_string (int (c i)))"
    and "\<forall>i<k. c i \<le> length (mine (int i) t)"
  shows "check_pass N m path k (int n) = Ret (\<forall>i<k. c i = length (mine (int i) t))"
  by (rule check_pass_complete [OF assms])

lemma to_string_1: "to_string 1 = ''1''" "to_string 0 = ''0''"
  by (simp_all add: to_string_def show_nat.simps digit_char_def char_of_eq_iff)

lemma completion_test_exact_witness:
  "check_pass sample_etcd [''p/s0'' \<mapsto> ''0'', ''p/s1'' \<mapsto> ''1''] ''p'' 2 1 = Ret True \<and>
   check_pass sample_etcd [''p/s0'' \<mapsto> ''0'', ''p/s1'' \<mapsto> ''0''] ''p'' 2 1 = Ret False"
proof -
  have m: "partitions 1 one_component" "mine 0 one_component = []" "mine 1 one_component = [0]"
    by (simp_all add: partitions_def one_component_def mine_def)
  have two: "(\<forall>i<2. P i) \<longleftrightarrow> P 0 \<and> P 1" for P :: "nat \<Rightarrow> bool"
    by (auto simp: less_2_cases_iff)
  show ?thesis
    using completion_test_exact [OF sample_etcd_law m(1), of 2 "[''p/s0'' \<mapsto> ''0'', ''p/s1'' \<mapsto> ''1'']" "''p''" "\<lambda>i. i"]
      completion_test_exact [OF sample_etcd_law m(1), of 2 "[''p/s0'' \<mapsto> ''0'', ''p/s1'' \<mapsto> ''0'']" "''p''" "\<lambda>i. 0"]
    unfolding two by (simp add: to_string_1 m) (simp add: one_component_def)
qed


definition own_component :: componentsTable where
  "own_component =
     \<lparr>totalComponents = 1, componentsList = [\<lparr>transactionList = [0], assignedFollower = 0, compid = 0\<rparr>]\<rparr>"



definition sample_site :: site where
  "sample_site =
     \<lparr>s_codec = sample_codec, s_messages = sample_messages, s_etcd = sample_etcd, s_order = (\<lambda>_. []), s_node = ''s1'', s_path = ''p'',
      s_exec = (\<lambda>h t m. (Ret (t_payload t \<noteq> []), m))\<rparr>"

definition two_txns :: csched where
  "two_txns = new_csched\<lparr>transactions := [sample_txn\<lparr>t_payload := []\<rparr>, sample_txn],
     cdag := empty_dag\<lparr>totalTxns := 2, adjacencyMatrix := [[0, 0], [0, 0]], inDegree := Some [- 1, - 1]\<rparr>\<rparr>"


text \<open>What a follower files as \<open>key=value;\<close> pairs is what the leader inserts: reading a follower's
  data splits the text into exactly the pairs it was made of, when keys contain no separator and values
  no semicolon, inserts them in order, and returns the keys separated by blanks.\<close>

lemma fetched_pairs_inserted:
  assumes "etcd_law N" "m (path @ ''/data/s'' @ to_string (int i)) = Some (pairs_text ps)" "list_all good_pair ps"
  shows "fetchAndParseKeys E N m path i st =
    Ret (concat (map (\<lambda>(k, v). k @ '' '') ps), fold (\<lambda>(k, v) m. snd (insert_kv E k v m)) ps st)"
  by (rule fetch_effect [where N = N and m = m and ps = ps, OF assms])

lemma fetched_pairs_inserted_witness:
  "\<exists>st. fetchAndParseKeys sample_env sample_etcd [''p/data/s1'' \<mapsto> ''a=1;b=2;''] ''p'' 1 Map.empty = Ret (''a b '', st)"
  using fetched_pairs_inserted [OF sample_etcd_law, of "[''p/data/s1'' \<mapsto> ''a=1;b=2;'']" "''p''" 1
      "[(''a'', ''1''), (''b'', ''2'')]" sample_env Map.empty]
  by (simp add: to_string_1 pair_text_def good_pair_def)
end
