(* ===== verification/Follower_Threads.thy ===== *)
theory Follower_Threads
  imports Cluster_Scheduler Scheduler_Parallel
begin

text \<open>
  The worker threads of a follower: \<open>executeTxns\<close> of \<open>BlockRAFT-distributed_node/scheduler/scheduler.h\<close>
  run by any number of threads beside the monitor thread and the other members of the cluster.  A step
  is one of the parts of \<open>Cluster_Scheduler\<close>: publishing, selecting a transaction, running and
  completing the transaction a thread holds, a poll of the run key, the leader watcher that clears the
  flag, or a write to etcd by somebody else.
\<close>

section \<open>Steps\<close>

record fstate =
  fs_sched :: csched
  fs_held :: "nat \<Rightarrow> nat option"
  fs_log :: "nat list"

definition in_loop :: "fstate \<Rightarrow> nat \<Rightarrow> bool" where
  "in_loop s t \<longleftrightarrow> fs_held s t = None \<and> \<not> completeFlag (fs_sched s) \<and> flag (fs_sched s)"

definition parses :: "site \<Rightarrow> csched \<Rightarrow> nat \<Rightarrow> bool" where
  "parses S c i \<longleftrightarrow> i < length (transactions c) \<and> parse_header (s_codec S) (t_header (transactions c ! i)) \<noteq> None"

inductive follower_step :: "site \<Rightarrow> fstate \<Rightarrow> fstate \<Rightarrow> bool" for S where
  f_publish: "in_loop s t \<Longrightarrow> follower_step S s (s\<lparr>fs_sched := publish S (fs_sched s)\<rparr>)"
| f_miss: "in_loop s t \<Longrightarrow> claim (fs_sched s) = Ret (None, c) \<Longrightarrow> follower_step S s (s\<lparr>fs_sched := c\<rparr>)"
| f_claim: "in_loop s t \<Longrightarrow> claim (fs_sched s) = Ret (Some i, c) \<Longrightarrow>
    follower_step S s (s\<lparr>fs_sched := c, fs_held := (fs_held s)(t \<mapsto> i)\<rparr>)"
| f_run: "fs_held s t = Some i \<Longrightarrow> run_claimed S i (fs_sched s) = Ret c \<Longrightarrow>
    follower_step S s (s\<lparr>fs_sched := c, fs_held := (fs_held s)(t := None),
      fs_log := (if parses S (fs_sched s) i then fs_log s @ [i] else fs_log s)\<rparr>)"
| f_poll: "monitor_poll S (fs_sched s) = (stop, c) \<Longrightarrow> follower_step S s (s\<lparr>fs_sched := c\<rparr>)"
| f_leader_gone: "follower_step S s (s\<lparr>fs_sched := (fs_sched s)\<lparr>flag := False\<rparr>\<rparr>)"
| f_etcd: "follower_step S s (s\<lparr>fs_sched := (fs_sched s)\<lparr>store := m\<rparr>\<rparr>)"

inductive follower_reach :: "site \<Rightarrow> fstate \<Rightarrow> fstate \<Rightarrow> bool" for S where
  f_refl: "follower_reach S s s"
| f_more: "follower_reach S s s' \<Longrightarrow> follower_step S s' s'' \<Longrightarrow> follower_reach S s s''"

definition follower_start :: "csched \<Rightarrow> fstate" where
  "follower_start c = \<lparr>fs_sched = start_schedule c, fs_held = (\<lambda>t. None), fs_log = []\<rparr>"

section \<open>The degrees\<close>

text \<open>
  \<open>own\<close> is the share of the follower, \<open>busy\<close> the transactions its threads are working on, \<open>log\<close> those
  completed.  Only transactions of the share whose predecessors are completed have in-degree 0.
\<close>

definition waits :: "(nat \<Rightarrow> nat \<Rightarrow> bool) \<Rightarrow> nat list \<Rightarrow> nat \<Rightarrow> nat set" where
  "waits D log j = {p. p < j \<and> D p j \<and> p \<notin> set log}"

definition share_ok :: "(nat \<Rightarrow> nat \<Rightarrow> bool) \<Rightarrow> nat \<Rightarrow> nat set \<Rightarrow> bool" where
  "share_ok D n own \<longleftrightarrow> own \<subseteq> {0..<n} \<and> (\<forall>p j. p < j \<longrightarrow> j < n \<longrightarrow> D p j \<longrightarrow> (p \<in> own \<longleftrightarrow> j \<in> own))"

definition degrees_ok :: "(nat \<Rightarrow> nat \<Rightarrow> bool) \<Rightarrow> nat \<Rightarrow> nat set \<Rightarrow> nat set \<Rightarrow> nat list \<Rightarrow> int list \<Rightarrow> bool" where
  "degrees_ok D n own busy log deg \<longleftrightarrow> length deg = n \<and> busy \<subseteq> own \<and> set log \<subseteq> own \<and> busy \<inter> set log = {} \<and>
     distinct log \<and> (\<forall>j\<in>busy. waits D log j = {}) \<and>
     (\<forall>a<length log. \<forall>p < log ! a. D p (log ! a) \<longrightarrow> p \<in> set (take a log)) \<and>
     (\<forall>j<n. if j \<in> own \<and> j \<notin> busy \<and> j \<notin> set log then deg ! j = int (card (waits D log j)) else deg ! j < 0)"

lemma degrees_okD:
  assumes "degrees_ok D n own busy log deg"
  shows "length deg = n" "busy \<subseteq> own" "set log \<subseteq> own" "busy \<inter> set log = {}" "distinct log"
    "j \<in> busy \<Longrightarrow> waits D log j = {}"
    "a < length log \<Longrightarrow> p < log ! a \<Longrightarrow> D p (log ! a) \<Longrightarrow> p \<in> set (take a log)"
    "j < n \<Longrightarrow> j \<in> own \<Longrightarrow> j \<notin> busy \<Longrightarrow> j \<notin> set log \<Longrightarrow> deg ! j = int (card (waits D log j))"
    "j < n \<Longrightarrow> \<not> (j \<in> own \<and> j \<notin> busy \<and> j \<notin> set log) \<Longrightarrow> deg ! j < 0"
  using assms by (auto simp: degrees_ok_def)

lemma finite_waits [simp]: "finite (waits D log j)"
  by (simp add: waits_def)

lemma waits_snoc: "waits D (log @ [i]) j = waits D log j - {i}"
  by (auto simp: waits_def)

lemma degrees_claim:
  assumes d: "degrees_ok D n own busy log deg" and i: "i < n" "deg ! i = 0"
  shows "degrees_ok D n own (insert i busy) log (deg[i := - 1])" "i \<in> own" "i \<notin> busy"
proof -
  have own: "i \<in> own" "i \<notin> busy" "i \<notin> set log"
    using degrees_okD(9) [OF d i(1)] i(2) by auto
  then have "waits D log i = {}"
    using degrees_okD(8) [OF d i(1)] i(2) by simp
  then show "degrees_ok D n own (insert i busy) log (deg[i := - 1])"
    using d own i(1) by (auto simp: degrees_ok_def nth_list_update)
  show "i \<in> own" "i \<notin> busy" by (rule own)+
qed

lemma degrees_complete:
  assumes d: "degrees_ok D n own busy log deg" and sh: "share_ok D n own" and i: "i \<in> busy"
    and deg': "length deg' = n"
      "\<forall>j<n. deg' ! j = deg ! j - (if j = i then 1 else 0) - (if i < j \<and> D i j then 1 else 0)"
  shows "degrees_ok D n own (busy - {i}) (log @ [i]) deg'"
proof -
  have il: "i \<notin> set log" "i \<in> own" using degrees_okD(2,4) [OF d] i by auto
  have step: "if j \<in> own \<and> j \<notin> busy - {i} \<and> j \<notin> set (log @ [i])
      then deg' ! j = int (card (waits D (log @ [i]) j)) else deg' ! j < 0" if "j < n" for j
  proof (cases "j \<in> own \<and> j \<notin> busy \<and> j \<notin> set log")
    case True
    then have "deg ! j = int (card (waits D log j))" using degrees_okD(8) [OF d that] by blast
    moreover have "card (waits D log j - {i}) = (if i < j \<and> D i j then card (waits D log j) - 1 else card (waits D log j))"
      using il by (auto simp: waits_def card_Diff_singleton_if)
    moreover have "i < j \<and> D i j \<Longrightarrow> 0 < card (waits D log j)"
      using il by (auto simp: card_gt_0_iff waits_def)
    ultimately show ?thesis
      using True i deg'(2) that by (auto simp: waits_snoc)
  next
    case False
    then have "deg ! j < 0" using degrees_okD(9) [OF d that] by blast
    then show ?thesis using False i deg'(2) that by auto
  qed
  have pre: "\<forall>a<length (log @ [i]). \<forall>p < (log @ [i]) ! a. D p ((log @ [i]) ! a) \<longrightarrow> p \<in> set (take a (log @ [i]))"
    using degrees_okD(6) [OF d i] degrees_okD(7) [OF d] by (auto simp: nth_append less_Suc_eq waits_def)
  have rest: "busy - {i} \<subseteq> own" "set (log @ [i]) \<subseteq> own" "(busy - {i}) \<inter> set (log @ [i]) = {}" "distinct (log @ [i])"
    "\<forall>j\<in>busy - {i}. waits D (log @ [i]) j = {}"
    using degrees_okD(2-5) [OF d] degrees_okD(6) [OF d] il by (auto simp: waits_snoc)
  show ?thesis
    unfolding degrees_ok_def using deg'(1) rest pre step by blast
qed

section \<open>The invariant\<close>

definition own_run :: "site \<Rightarrow> transaction list \<Rightarrow> nat \<Rightarrow> (kvmap, bool) op" where
  "own_run S txns = block_run (s_exec S) (s_codec S) txns"

definition graph_ok :: "(nat \<Rightarrow> nat \<Rightarrow> bool) \<Rightarrow> nat set \<Rightarrow> nat set \<Rightarrow> nat list \<Rightarrow> nat \<Rightarrow> dag \<Rightarrow> bool" where
  "graph_ok D own busy log n d \<longleftrightarrow> totalTxns d = n \<and> adjacencyMatrix d = dep_matrix D n \<and>
     completedTxns d = int n - int (card own) + int (length log) \<and>
     (\<exists>deg. inDegree d = Some deg \<and> degrees_ok D n own busy log deg)"

definition work_ok :: "site \<Rightarrow> transaction list \<Rightarrow> kvmap \<Rightarrow> nat list \<Rightarrow> csched \<Rightarrow> bool" where
  "work_ok S txns m0 log c \<longleftrightarrow> transactions c = txns \<and> compCount c = int (length log) \<and>
     myMap c = map_after (own_run S txns) log m0 \<and>
     (\<forall>(i, r)\<in>set (outcomes (own_run S txns) log m0). \<exists>ok. r = Ret ok)"

definition follower_inv ::
    "site \<Rightarrow> (nat \<Rightarrow> nat \<Rightarrow> bool) \<Rightarrow> nat set \<Rightarrow> transaction list \<Rightarrow> kvmap \<Rightarrow> fstate \<Rightarrow> bool" where
  "follower_inv S D own txns m0 s \<longleftrightarrow>
     graph_ok D own (ran (fs_held s)) (fs_log s) (length txns) (cdag (fs_sched s)) \<and>
     work_ok S txns m0 (fs_log s) (fs_sched s) \<and> inj_on (fs_held s) (dom (fs_held s))"

definition same_work :: "csched \<Rightarrow> csched \<Rightarrow> bool" where
  "same_work c c' \<longleftrightarrow> cdag c' = cdag c \<and> transactions c' = transactions c \<and> compCount c' = compCount c \<and> myMap c' = myMap c"

lemma publish_work: "same_work c (publish S c)"
  by (simp add: same_work_def publish_def dataStore_def Let_def split: option.split prod.split)

lemma poll_work: "monitor_poll S c = (stop, c') \<Longrightarrow> same_work c c'"
  by (auto simp: same_work_def monitor_poll_def split: if_splits response.splits)

lemma follower_inv_same:
  "follower_inv S D own txns m0 s \<Longrightarrow> same_work (fs_sched s) c \<Longrightarrow> follower_inv S D own txns m0 (s\<lparr>fs_sched := c\<rparr>)"
  by (simp add: follower_inv_def work_ok_def same_work_def)

lemma select_cluster_cases:
  assumes "selectTxn_cluster d = Ret (r, d')" "inDegree d = Some deg"
  shows "r = None \<and> d' = d \<or> (\<exists>i. r = Some i \<and> d' = take_txn i deg d \<and> i < totalTxns d \<and> deg ! i = 0)"
proof (cases "scan_zero deg [lastTxn d + 1..<totalTxns d]")
  case None
  show ?thesis
  proof (cases "scan_zero deg [0..<totalTxns d]")
    case (Some i)
    then show ?thesis using assms None scan_zero_Some [OF Some] by (auto simp: selectTxn_cluster_def)
  qed (use assms None in \<open>auto simp: selectTxn_cluster_def\<close>)
next
  case (Some i)
  then show ?thesis using assms scan_zero_Some [OF Some] by (auto simp: selectTxn_cluster_def)
qed

lemma claim_cases:
  assumes "claim c = Ret (r, c')" "inDegree (cdag c) = Some deg"
  shows "r = None \<and> c' = c \<or>
    (\<exists>i. r = Some i \<and> c' = c\<lparr>cdag := take_txn i deg (cdag c)\<rparr> \<and> i < totalTxns (cdag c) \<and> deg ! i = 0)"
proof -
  obtain d' where d': "selectTxn_cluster (cdag c) = Ret (r, d')" "c' = c\<lparr>cdag := d'\<rparr>"
    using assms(1) by (auto simp: claim_def bind_outcome_Ret_iff)
  then show ?thesis using select_cluster_cases [OF d'(1) assms(2)] by auto
qed

lemma ran_upd_None:
  assumes "inj_on h (dom h)" "h t = Some i"
  shows "ran (h(t := None)) = ran h - {i}"
proof (intro set_eqI iffI)
  fix x assume x: "x \<in> ran h - {i}"
  then obtain u where u: "h u = Some x" by (auto simp: ran_def)
  then have "(h(t := None)) u = Some x" using x assms(2) by auto
  then show "x \<in> ran (h(t := None))" by (rule ranI)
next
  fix x assume "x \<in> ran (h(t := None))"
  then obtain u where "h u = Some x" "u \<noteq> t" by (auto simp: ran_def split: if_splits)
  then show "x \<in> ran h - {i}" using assms by (auto simp: ran_def inj_on_def dom_def)
qed

lemma inj_upd_None: "inj_on h (dom h) \<Longrightarrow> inj_on (h(t := None)) (dom (h(t := None)))"
  by (auto simp: inj_on_def dom_def)

lemma inj_upd_Some: "inj_on h (dom h) \<Longrightarrow> i \<notin> ran h \<Longrightarrow> inj_on (h(t \<mapsto> i)) (dom (h(t \<mapsto> i)))"
  by (auto simp: inj_on_def dom_def ran_def)

lemma run_claimed_cases:
  assumes "run_claimed S i c = Ret c'" "parses S c i"
  shows "\<exists>ok m d. own_run S (transactions c) i (myMap c) = (Ret ok, m) \<and> complete_txn (int i) (cdag c) = Ret d \<and>
    c' = c\<lparr>myMap := m, flag := ok, cdag := d, compCount := compCount c + 1\<rparr>"
proof -
  obtain h where h: "i < length (transactions c)" "parse_header (s_codec S) (t_header (transactions c ! i)) = Some h"
    using assms(2) by (auto simp: parses_def)
  obtain r m where x: "s_exec S h (transactions c ! i) (myMap c) = (r, m)" by (cases "s_exec S h (transactions c ! i) (myMap c)")
  show ?thesis
    using assms(1) h x by (auto simp: run_claimed_def own_run_def block_run_def bind_outcome_Ret_iff)
qed

lemma follower_inv_step:
  assumes "follower_step S s s'" and inv: "follower_inv S D own txns m0 s" and sh: "share_ok D (length txns) own"
    and h: "\<forall>t\<in>set txns. parse_header (s_codec S) (t_header t) \<noteq> None"
  shows "follower_inv S D own txns m0 s'"
  using assms(1)
proof cases
  case (f_publish t)
  then show ?thesis using follower_inv_same [OF inv publish_work] by simp
next
  case (f_miss t c)
  obtain deg where "inDegree (cdag (fs_sched s)) = Some deg"
    using inv by (auto simp: follower_inv_def graph_ok_def)
  from claim_cases [OF f_miss(3) this] have "c = fs_sched s" by simp
  then have "s' = s" using f_miss(1) by simp
  then show ?thesis using inv by simp
next
  case (f_claim t i c)
  obtain deg where deg: "inDegree (cdag (fs_sched s)) = Some deg"
    "degrees_ok D (length txns) own (ran (fs_held s)) (fs_log s) deg" "totalTxns (cdag (fs_sched s)) = length txns"
    using inv by (auto simp: follower_inv_def graph_ok_def)
  have c: "c = (fs_sched s)\<lparr>cdag := take_txn i deg (cdag (fs_sched s))\<rparr>" "i < length txns" "deg ! i = 0"
    using claim_cases [OF f_claim(3) deg(1)] deg(3) by auto
  have "fs_held s t = None" using f_claim(2) by (simp add: in_loop_def)
  then have ran: "ran ((fs_held s)(t \<mapsto> i)) = insert i (ran (fs_held s))" by (rule ran_map_upd)
  note ok = degrees_claim [OF deg(2) c(2,3)]
  have "graph_ok D own (insert i (ran (fs_held s))) (fs_log s) (length txns) (cdag c)"
    using inv ok(1) by (auto simp: follower_inv_def graph_ok_def c(1) take_txn_def)
  moreover have "inj_on ((fs_held s)(t \<mapsto> i)) (dom ((fs_held s)(t \<mapsto> i)))"
    using inv ok(3) by (intro inj_upd_Some) (simp_all add: follower_inv_def)
  ultimately show ?thesis
    using inv ran by (simp add: f_claim(1) follower_inv_def work_ok_def c(1) del: dom_fun_upd)
next
  case (f_run t i c)
  obtain deg where deg: "inDegree (cdag (fs_sched s)) = Some deg"
    "degrees_ok D (length txns) own (ran (fs_held s)) (fs_log s) deg" "totalTxns (cdag (fs_sched s)) = length txns"
    "adjacencyMatrix (cdag (fs_sched s)) = dep_matrix D (length txns)"
    using inv by (auto simp: follower_inv_def graph_ok_def)
  have txns: "transactions (fs_sched s) = txns" and inj: "inj_on (fs_held s) (dom (fs_held s))"
    using inv by (simp_all add: follower_inv_def work_ok_def)
  have i: "i \<in> ran (fs_held s)" using f_run(2) by (rule ranI)
  have il: "i < length txns" using i degrees_okD(2) [OF deg(2)] sh by (auto simp: share_ok_def)
  have p: "parses S (fs_sched s) i" using il h by (simp add: parses_def txns)
  obtain ok m d where r: "own_run S txns i (myMap (fs_sched s)) = (Ret ok, m)"
    "complete_txn (int i) (cdag (fs_sched s)) = Ret d"
    "c = (fs_sched s)\<lparr>myMap := m, flag := ok, cdag := d, compCount := compCount (fs_sched s) + 1\<rparr>"
    using run_claimed_cases [OF f_run(3) p] by (auto simp: txns)
  obtain deg' where deg': "complete_txn (int i) (cdag (fs_sched s)) =
      Ret ((cdag (fs_sched s))\<lparr>inDegree := Some deg', completedTxns := completedTxns (cdag (fs_sched s)) + 1\<rparr>)"
    "length deg' = length txns"
    "\<forall>j<length txns. deg' ! j = deg ! j - (if j = i then 1 else 0) - (if i < j \<and> D i j then 1 else 0)"
    using complete_effect [OF deg(3,4,1) degrees_okD(1) [OF deg(2)] il] by blast
  have d: "d = (cdag (fs_sched s))\<lparr>inDegree := Some deg', completedTxns := completedTxns (cdag (fs_sched s)) + 1\<rparr>"
    using r(2) deg'(1) by simp
  have "graph_ok D own (ran (fs_held s) - {i}) (fs_log s @ [i]) (length txns) d"
    using inv degrees_complete [OF deg(2) sh i deg'(2,3)] by (auto simp: follower_inv_def graph_ok_def d)
  moreover have "work_ok S txns m0 (fs_log s @ [i]) c"
    using inv r(1) by (auto simp: r(3) follower_inv_def work_ok_def outcomes_append)
  ultimately show ?thesis
    using p ran_upd_None [OF inj f_run(2)] inj_upd_None [OF inj] r(3)
    by (simp add: f_run(1) follower_inv_def)
next
  case (f_poll stop c)
  then show ?thesis using follower_inv_same [OF inv poll_work] by simp
next
  case f_leader_gone
  then show ?thesis using follower_inv_same [OF inv] by (simp add: same_work_def)
next
  case (f_etcd m)
  then show ?thesis using follower_inv_same [OF inv] by (simp add: same_work_def)
qed

lemma follower_inv_reach:
  assumes "follower_reach S s s'" "follower_inv S D own txns m0 s" "share_ok D (length txns) own"
    and "\<forall>t\<in>set txns. parse_header (s_codec S) (t_header t) \<noteq> None"
  shows "follower_inv S D own txns m0 s'"
  using assms by (induction rule: follower_reach.induct) (auto intro: follower_inv_step)
end
