(* ===== verification/Cluster_Execution.thy ===== *)
theory Cluster_Execution
  imports Follower_Threads Leader_Facts
begin

text \<open>
  What a round of the cluster computes: when every follower has completed its share, the maps of the
  followers together are the map that executing the block serially leaves.
\<close>

section \<open>Shares that touch different keys\<close>

context confined_handlers
begin

definition touched :: "nat list \<Rightarrow> string set" where
  "touched xs = (\<Union>i\<in>set xs. foot i)"

lemma touched_simps [simp]:
  "touched [] = {}" "touched (x # xs) = foot x \<union> touched xs" "touched (xs @ ys) = touched xs \<union> touched ys"
  by (auto simp: touched_def)

lemma map_after_frame: "k \<notin> touched xs \<Longrightarrow> map_after run xs m k = m k"
proof (induction xs arbitrary: m)
  case (Cons x xs)
  then show ?case using confined_frame [OF confined_run, of k x m] by simp
qed simp

lemma step_agree:
  assumes "agree F m m'" "foot x \<subseteq> F"
  shows "agree F (snd (run x m)) (snd (run x m'))" "fst (run x m) = fst (run x m')"
proof -
  have c: "confined F (run x)" by (rule confined_mono [OF confined_run assms(2)])
  show "agree F (snd (run x m)) (snd (run x m'))" by (rule confined_agree [OF c assms(1)])
  show "fst (run x m) = fst (run x m')" by (rule confined_outcome [OF c assms(1)])
qed

lemma share_agree:
  assumes "agree F m m'" "touched xs \<subseteq> F"
  shows "agree F (map_after run xs m) (map_after run xs m') \<and> outcomes run xs m = outcomes run xs m'"
  using assms
proof (induction xs arbitrary: m m')
  case (Cons x xs)
  then show ?case using step_agree [of F m m' x] by simp
qed simp

text \<open>Running the shares one after the other is running each on its own.\<close>

lemma shares_apart:
  assumes "distinct fs" "\<And>f g. f \<in> set fs \<Longrightarrow> g \<in> set fs \<Longrightarrow> f \<noteq> g \<Longrightarrow> touched (log f) \<inter> touched (log g) = {}"
  shows "(\<forall>f\<in>set fs. \<forall>k\<in>touched (log f). map_after run (concat (map log fs)) m k = map_after run (log f) m k) \<and>
    set (outcomes run (concat (map log fs)) m) = (\<Union>f\<in>set fs. set (outcomes run (log f) m))"
  using assms
proof (induction fs arbitrary: m)
  case (Cons f fs)
  let ?m = "map_after run (log f) m"
  let ?rest = "concat (map log fs)"
  have IH: "(\<forall>g\<in>set fs. \<forall>k\<in>touched (log g). map_after run ?rest ?m k = map_after run (log g) ?m k) \<and>
      set (outcomes run ?rest ?m) = (\<Union>g\<in>set fs. set (outcomes run (log g) ?m))"
    using Cons.prems by (intro Cons.IH) auto
  have other: "map_after run (log g) ?m k = map_after run (log g) m k \<and> outcomes run (log g) ?m = outcomes run (log g) m"
    if "g \<in> set fs" "k \<in> touched (log g)" for g k
  proof -
    have "touched (log f) \<inter> touched (log g) = {}" using Cons.prems that(1) by auto
    then have "agree (touched (log g)) ?m m" using map_after_frame [of _ "log f" m] by (auto simp: agree_def)
    from share_agree [OF this] show ?thesis using that(2) by (simp add: agree_def)
  qed
  have none: "outcomes run (log g) ?m = outcomes run (log g) m" if "g \<in> set fs" for g
  proof -
    have "touched (log f) \<inter> touched (log g) = {}" using Cons.prems that(1) by auto
    then have "agree (touched (log g)) ?m m" using map_after_frame [of _ "log f" m] by (auto simp: agree_def)
    from share_agree [OF this] show ?thesis by simp
  qed
  have first: "map_after run ?rest ?m k = ?m k" if "k \<in> touched (log f)" for k
  proof (rule map_after_frame)
    show "k \<notin> touched ?rest"
    proof
      assume "k \<in> touched ?rest"
      then obtain g where "g \<in> set fs" "k \<in> touched (log g)" by (auto simp: touched_def)
      then show False using Cons.prems that by auto
    qed
  qed
  show ?case
    using IH other none first by (auto simp: outcomes_append)
qed simp

lemma keeps_order_shares:
  assumes "distinct fs" "\<And>f. f \<in> set fs \<Longrightarrow> keeps_order foot (log f)"
    and "\<And>f g. f \<in> set fs \<Longrightarrow> g \<in> set fs \<Longrightarrow> f \<noteq> g \<Longrightarrow> touched (log f) \<inter> touched (log g) = {}"
  shows "keeps_order foot (concat (map log fs))"
  using assms
proof (induction fs)
  case (Cons f fs)
  have "foot x \<inter> foot y = {}" if "x \<in> set (log f)" "g \<in> set fs" "y \<in> set (log g)" for x y g
  proof -
    have "touched (log f) \<inter> touched (log g) = {}" using Cons.prems that(2) by auto
    then show ?thesis using that by (fastforce simp: touched_def)
  qed
  moreover have "keeps_order foot (concat (map log fs))" using Cons by simp
  ultimately show ?case using Cons.prems(2) [of f] by (auto simp: keeps_order_def sorted_wrt_append)
qed (simp add: keeps_order_def)

text \<open>
  The maps the shares leave when each starts from nothing are together the map of the serial order, and
  the verdicts are those of the serial order.
\<close>

lemma shares_serial:
  assumes fs: "distinct fs" and logs: "distinct (concat (map log fs))" "set (concat (map log fs)) = {0..<n}"
    and order: "\<And>f. f \<in> set fs \<Longrightarrow> keeps_order foot (log f)"
    and apart: "\<And>f g. f \<in> set fs \<Longrightarrow> g \<in> set fs \<Longrightarrow> f \<noteq> g \<Longrightarrow> touched (log f) \<inter> touched (log g) = {}"
  shows "map_after run [0..<n] Map.empty k = Some v \<longleftrightarrow> (\<exists>f\<in>set fs. map_after run (log f) Map.empty k = Some v)"
    and "set (outcomes run [0..<n] Map.empty) = (\<Union>f\<in>set fs. set (outcomes run (log f) Map.empty))"
proof -
  let ?all = "concat (map log fs)"
  have "sorted_list_of_set {0..<n} = [0..<n]" by simp
  then have ser: "map_after run ?all Map.empty = map_after run [0..<n] Map.empty"
    "set (outcomes run ?all Map.empty) = set (outcomes run [0..<n] Map.empty)"
    using serializable [OF logs(1) keeps_order_shares [OF fs order apart], of Map.empty] logs(2) by simp_all
  note sep = shares_apart [where m = Map.empty and log = log, OF fs apart]
  have frame: "map_after run xs Map.empty k = None" if "k \<notin> touched xs" for xs
    using map_after_frame [OF that, of Map.empty] by simp
  have all: "k \<in> touched ?all \<longleftrightarrow> (\<exists>f\<in>set fs. k \<in> touched (log f))" by (auto simp: touched_def)
  show "map_after run [0..<n] Map.empty k = Some v \<longleftrightarrow> (\<exists>f\<in>set fs. map_after run (log f) Map.empty k = Some v)"
    unfolding ser(1) [symmetric] using sep frame all by (metis option.distinct(1))
  show "set (outcomes run [0..<n] Map.empty) = (\<Union>f\<in>set fs. set (outcomes run (log f) Map.empty))"
    using sep ser(2) by simp
qed

end

section \<open>The shares of a block\<close>

text \<open>A component holds with a transaction everything it depends on, so a share does too.\<close>

lemma mine_iff:
  "j \<in> set (mine f t) \<longleftrightarrow> (\<exists>c\<in>set (componentsList t). assignedFollower c = f \<and> j \<in> set (transactionList c))"
  by (auto simp: mine_def)

lemma share_ok_mine:
  assumes "are_components (adjacent (dep_matrix D n)) n (map transactionList (componentsList t))"
  shows "share_ok D n (set (mine f t))"
proof -
  let ?cs = "map transactionList (componentsList t)" and ?E = "adjacent (dep_matrix D n)"
  have cs: "distinct (concat ?cs)" "set (concat ?cs) = {0..<n}"
    "\<forall>c\<in>set ?cs. \<forall>x\<in>set c. set c = (links ?E n)\<^sup>* `` {x}"
    using assms unfolding are_components_def by blast+
  have closed: "p \<in> set c \<longleftrightarrow> j \<in> set c" if "p < j" "j < n" "D p j" "c \<in> set ?cs" for p j c
  proof -
    have "(p, j) \<in> links ?E n" "(j, p) \<in> links ?E n"
      using that(1-3) by (auto simp: links_def adjacent_def)
    then show ?thesis using cs(3) that(4) by blast
  qed
  have "p \<in> set (mine f t) \<longleftrightarrow> j \<in> set (mine f t)" if "p < j" "j < n" "D p j" for p j
    unfolding mine_iff using closed [OF that] by auto
  moreover have "set (mine f t) \<subseteq> {0..<n}" using cs(2) by (auto simp: mine_iff)
  ultimately show ?thesis by (simp add: share_ok_def)
qed

lemma components_partition:
  "are_components E n (map transactionList (componentsList t)) \<Longrightarrow> partitions n t"
  by (simp add: are_components_def partitions_def)

lemma distinct_concat_filter:
  "distinct (concat (map h xs)) \<Longrightarrow> distinct (concat (map h (filter P xs)))"
  by (induction xs) auto

lemma mine_distinct: "partitions n t \<Longrightarrow> distinct (mine f t)"
  by (simp add: partitions_def mine_def distinct_concat_filter)

text \<open>Transactions of different shares do not depend on one another, so they touch different keys.\<close>

lemma shares_disjoint_keys:
  assumes p: "partitions n t" and sh: "\<And>f. share_ok D n (set (mine f t))"
    and cov: "\<And>i j. i < j \<Longrightarrow> j < n \<Longrightarrow> \<not> D i j \<Longrightarrow> foot i \<inter> foot j = {}"
    and fg: "f \<noteq> g" "x \<in> set (mine f t)" "y \<in> set (mine g t)"
  shows "foot x \<inter> foot y = {}"
proof -
  have "x \<in> {0..<n}" "y \<in> {0..<n}" using sh [of f] sh [of g] fg(2,3) by (auto simp: share_ok_def)
  then have n: "x < n" "y < n" by simp_all
  have y: "y \<notin> set (mine f t)" and x: "x \<notin> set (mine g t)" using one_owner [OF p] n fg by blast+
  then have "x \<noteq> y" using fg by auto
  moreover have "\<not> D x y" if "x < y" using sh [of f] y fg(2) n that by (auto simp: share_ok_def)
  moreover have "\<not> D y x" if "y < x" using sh [of f] y fg(2) n that by (auto simp: share_ok_def)
  ultimately show ?thesis using cov [of x y] cov [of y x] n by (metis Int_commute nat_neq_iff)
qed

section \<open>A follower that has completed its share\<close>

text \<open>
  A follower takes the leader's block and component table with a fresh scheduler and lets its threads
  run; it has done its share when its counter reaches the size of the block.
\<close>

definition follows :: "site \<Rightarrow> block_codec \<Rightarrow> string \<Rightarrow> string \<Rightarrow> int \<Rightarrow> nat \<Rightarrow> csched \<Rightarrow> fstate \<Rightarrow> bool" where
  "follows S K blockData tableData nodeId thCount c s \<longleftrightarrow>
     fresh_sched c \<and> compCount c = 0 \<and> myMap c = Map.empty \<and>
     (\<exists>c1 c2. extractBlock (s_codec S) K thCount blockData c = Ret c1 \<and>
        ExtractComponents (s_messages S) tableData nodeId c1 = Ret c2 \<and> follower_reach S (follower_start c2) s)"

definition share_done :: "fstate \<Rightarrow> bool" where
  "share_done s \<longleftrightarrow> completedTxns (cdag (fs_sched s)) = int (totalTxns (cdag (fs_sched s)))"

lemma card_waits: "j < n \<Longrightarrow> int (card (waits D [] j)) = in_degrees D n ! j"
proof -
  assume j: "j < n"
  have "waits D [] j = set (filter (\<lambda>i. i < j \<and> D i j) [0..<n])" using j by (auto simp: waits_def)
  then have "card (waits D [] j) = length (filter (\<lambda>i. i < j \<and> D i j) [0..<n])"
    by (metis distinct_card distinct_filter distinct_upt)
  then show ?thesis using j by (simp add: in_degrees_def)
qed

lemma follower_invariant:
  assumes fl: "follows S K blockData tableData f thCount c s"
    and b: "parse_block K blockData = Some b" and th: "0 < thCount"
    and t: "parse_table (s_messages S) tableData = Some t" "table_ok (length (b_transactions b)) t"
      "distinct (mine f t)"
    and sh: "share_ok (dep_rel (extract_all (s_codec S) (b_transactions b) 0)) (length (b_transactions b)) (set (mine f t))"
    and h: "\<forall>x\<in>set (b_transactions b). parse_header (s_codec S) (t_header x) \<noteq> None"
  shows "follower_inv S (dep_rel (extract_all (s_codec S) (b_transactions b) 0)) (set (mine f t)) (b_transactions b) Map.empty s"
proof -
  let ?D = "dep_rel (extract_all (s_codec S) (b_transactions b) 0)" and ?n = "length (b_transactions b)"
  obtain c1 c2 where c: "extractBlock (s_codec S) K thCount blockData c = Ret c1"
      "ExtractComponents (s_messages S) tableData f c1 = Ret c2" "follower_reach S (follower_start c2) s"
    and fresh: "fresh_sched c" "compCount c = 0" "myMap c = Map.empty"
    using fl by (auto simp: follows_def)
  have g: "inDegree (cdag c2) = Some (map (\<lambda>j. if j \<in> set (mine f t) then in_degrees ?D ?n ! j else - 1) [0..<?n])"
    "adjacencyMatrix (cdag c2) = dep_matrix ?D ?n" "completedTxns (cdag c2) = int ?n - int (length (mine f t))"
    "transactions c2 = b_transactions b" "totalTxns (cdag c2) = ?n" "compCount c2 = 0" "myMap c2 = Map.empty"
    using follower_prepared [OF b th fresh(1) t(1,2), of "s_codec S" f] c(1,2) fresh(2,3) by auto
  have "degrees_ok ?D ?n (set (mine f t)) {} []
      (map (\<lambda>j. if j \<in> set (mine f t) then in_degrees ?D ?n ! j else - 1) [0..<?n])"
    by (simp add: degrees_ok_def card_waits)
  then have "graph_ok ?D (set (mine f t)) {} [] ?n (cdag c2)"
    using g distinct_card [OF t(3)] by (simp add: graph_ok_def)
  then have "follower_inv S ?D (set (mine f t)) (b_transactions b) Map.empty (follower_start c2)"
    using g by (simp add: follower_inv_def work_ok_def follower_start_def start_schedule_def)
  then show ?thesis by (rule follower_inv_reach [OF c(3) _ sh h])
qed

lemma done_log:
  assumes inv: "follower_inv S D own txns m0 s" and sh: "share_ok D (length txns) own" and d: "share_done s"
  shows "distinct (fs_log s)" "set (fs_log s) = own" "myMap (fs_sched s) = map_after (own_run S txns) (fs_log s) m0"
    "compCount (fs_sched s) = int (card own)"
    "\<forall>a<length (fs_log s). \<forall>p < fs_log s ! a. D p (fs_log s ! a) \<longrightarrow> p \<in> set (take a (fs_log s))"
proof -
  have fin: "finite own" using sh by (auto simp: share_ok_def intro: finite_subset)
  have g: "int (length (fs_log s)) = int (card own)"
    using inv d by (auto simp: follower_inv_def graph_ok_def share_done_def)
  obtain deg where deg: "degrees_ok D (length txns) own (ran (fs_held s)) (fs_log s) deg"
    using inv by (auto simp: follower_inv_def graph_ok_def)
  show dist: "distinct (fs_log s)" by (rule degrees_okD(5) [OF deg])
  show "set (fs_log s) = own"
    using card_subset_eq [OF fin degrees_okD(3) [OF deg]] g distinct_card [OF dist] by simp
  show "myMap (fs_sched s) = map_after (own_run S txns) (fs_log s) m0" "compCount (fs_sched s) = int (card own)"
    using inv g by (auto simp: follower_inv_def work_ok_def)
  show "\<forall>a<length (fs_log s). \<forall>p < fs_log s ! a. D p (fs_log s ! a) \<longrightarrow> p \<in> set (take a (fs_log s))"
    using degrees_okD(7) [OF deg] by blast
qed

section \<open>All shares\<close>

lemma built_graph: "adjacencyMatrix (built C b d) =
    dep_matrix (dep_rel (extract_all C (b_transactions b) 0)) (length (b_transactions b))"
  "totalTxns (built C b d) = length (b_transactions b)"
  by (simp_all add: built_def Let_def)

lemma log_in_order:
  fixes b :: block
  assumes dec: "\<forall>x\<in>set (b_transactions b). declares C x" and l: "distinct log" "set log \<subseteq> {0..<length (b_transactions b)}"
    and pre: "\<forall>a<length log. \<forall>p < log ! a. dep_rel (extract_all C (b_transactions b) 0) p (log ! a) \<longrightarrow> p \<in> set (take a log)"
  shows "keeps_order (block_foot C (b_transactions b)) log"
proof -
  let ?J = "block_job (\<lambda>_ _. ret True) C (built C b undefined) (b_transactions b)"
  have n: "\<forall>i\<in>set log. i < j_txns ?J" using l(2) by (auto simp: block_job_def built_graph)
  have "preds_before ?J log"
    unfolding preds_before_def
  proof (intro allI impI)
    fix a p assume a: "a < length log" and p: "p < log ! a" "j_edge ?J p (log ! a)"
    have "log ! a < length (b_transactions b)" using n a by (simp add: block_job_def built_graph)
    then have "dep_rel (extract_all C (b_transactions b) 0) p (log ! a)"
      using p by (simp add: block_job_def built_graph split: if_splits)
    then show "p \<in> set (take a log)" using pre a p(1) by blast
  qed
  from log_keeps_order [OF edges_cover_built [OF dec] l(1) this n] show ?thesis
    by (simp add: keeps_order_def sorted_wrt_append)
qed

lemma apart_in_block:
  fixes b :: block
  assumes dec: "\<forall>x\<in>set (b_transactions b). declares C x" and ij: "i < j" "j < length (b_transactions b)"
    and free: "\<not> dep_rel (extract_all C (b_transactions b) 0) i j"
  shows "block_foot C (b_transactions b) i \<inter> block_foot C (b_transactions b) j = {}"
  using edges_cover_built [OF dec, of "\<lambda>_ _. ret True" undefined] ij free
  by (simp add: edges_cover_def block_job_def built_graph)

lemma distinct_concat_map:
  assumes "distinct fs" "\<forall>f\<in>set fs. distinct (log f)"
    and "\<forall>f\<in>set fs. \<forall>g\<in>set fs. f \<noteq> g \<longrightarrow> set (log f) \<inter> set (log g) = {}"
  shows "distinct (concat (map log fs))"
  using assms
proof (induction fs)
  case (Cons f fs)
  then have "set (log f) \<inter> set (log g) = {}" if "g \<in> set fs" for g using that by auto
  then show ?case using Cons by auto
qed simp

lemma shares_of_block:
  fixes C :: codec and b :: block
  defines "txns \<equiv> b_transactions b" and "D \<equiv> dep_rel (extract_all C (b_transactions b) 0)"
    and "n \<equiv> length (b_transactions b)"
  assumes ex: "\<And>i. confined (block_foot C txns i) (run i)" and dec: "\<forall>x\<in>set txns. declares C x"
    and comp: "are_components (adjacent (dep_matrix D n)) n (map transactionList (componentsList t))"
    and fs: "distinct fs" "\<forall>c\<in>set (componentsList t). assignedFollower c \<in> set fs"
    and log: "\<And>f. f \<in> set fs \<Longrightarrow> distinct (log f)" "\<And>f. f \<in> set fs \<Longrightarrow> set (log f) = set (mine f t)"
      "\<And>f a p. f \<in> set fs \<Longrightarrow> a < length (log f) \<Longrightarrow> p < log f ! a \<Longrightarrow> D p (log f ! a) \<Longrightarrow> p \<in> set (take a (log f))"
  shows "map_after run [0..<n] Map.empty k = Some v \<longleftrightarrow> (\<exists>f\<in>set fs. map_after run (log f) Map.empty k = Some v)"
    and "set (outcomes run [0..<n] Map.empty) = (\<Union>f\<in>set fs. set (outcomes run (log f) Map.empty))"
proof -
  have h: "confined_handlers run (block_foot C txns)" by (rule confined_handlers.intro [OF ex])
  have p: "partitions n t" by (rule components_partition [OF comp])
  have sub: "set (mine f t) \<subseteq> {0..<n}" for f
    using share_ok_mine [OF comp, of f] by (simp add: share_ok_def)
  have apart: "block_foot C txns x \<inter> block_foot C txns y = {}"
    if "f \<noteq> g" "x \<in> set (mine f t)" "y \<in> set (mine g t)" for f g x y
    by (rule shares_disjoint_keys [OF p share_ok_mine [OF comp] _ that])
      (rule apart_in_block [OF dec [unfolded txns_def], folded txns_def], auto simp: n_def txns_def D_def)
  have all: "distinct (concat (map log fs))" "set (concat (map log fs)) = {0..<n}"
  proof -
    have dj: "set (log f) \<inter> set (log g) = {}" if "f \<in> set fs" "g \<in> set fs" "f \<noteq> g" for f g
      using one_owner [OF p] sub log(2) that by (metis atLeastLessThan_iff disjoint_iff subsetD)
    show "distinct (concat (map log fs))"
      using fs(1) log(1) dj by (intro distinct_concat_map) blast+
    have cover: "\<exists>f\<in>set fs. x \<in> set (mine f t)" if "x < n" for x
    proof -
      have "x \<in> set (concat (map transactionList (componentsList t)))" using p that by (simp add: partitions_def)
      then show ?thesis using fs(2) by (auto simp: mine_iff)
    qed
    have "set (concat (map log fs)) = (\<Union>f\<in>set fs. set (mine f t))" using log(2) by simp
    also have "\<dots> = {0..<n}" using sub cover by (auto simp del: atLeastLessThan_iff) (simp add: cover)
    finally show "set (concat (map log fs)) = {0..<n}" .
  qed
  have order: "keeps_order (block_foot C txns) (log f)" if "f \<in> set fs" for f
    unfolding txns_def using dec log [OF that] sub
    by (intro log_in_order) (auto simp: txns_def n_def D_def)
  have keys: "confined_handlers.touched (block_foot C txns) (log f) \<inter>
      confined_handlers.touched (block_foot C txns) (log g) = {}" if "f \<in> set fs" "g \<in> set fs" "f \<noteq> g" for f g
    using apart [OF that(3)] log(2) that(1,2) by (auto simp: confined_handlers.touched_def [OF h])
  note ser = confined_handlers.shares_serial [OF h fs(1) all order keys]
  show "map_after run [0..<n] Map.empty k = Some v \<longleftrightarrow> (\<exists>f\<in>set fs. map_after run (log f) Map.empty k = Some v)"
    by (rule ser(1))
  show "set (outcomes run [0..<n] Map.empty) = (\<Union>f\<in>set fs. set (outcomes run (log f) Map.empty))"
    by (rule ser(2))
qed
end
