(* ===== verification/Cluster_Round.thy ===== *)
theory Cluster_Round
  imports Cluster_Execution Execution_Properties Cluster_Properties
begin

text \<open>
  The result of a round: the leader builds the component table of a block and assigns it, the followers
  run their shares, and their maps together are the map of serial execution.
\<close>

section \<open>The leader's table\<close>

lemma table_built:
  assumes b: "build_table V C thCount b s = Ret s1" and th: "0 < thCount" and c: "cleaned (DAGObj s)"
    and V: "\<And>xs. mset (group_order V xs) = mset xs"
  shows "are_components (adjacent (dep_matrix (dep_rel (extract_all C (b_transactions b) 0)) (length (b_transactions b))))
      (length (b_transactions b)) (map transactionList (componentsList (table s1)))"
    "distinct (map compid (componentsList (table s1)))" "componentCount s1 = length (componentsList (table s1))"
    "healthyMemberIds s1 = healthyMemberIds s" "memberList s1 = memberList s"
proof -
  let ?a = "dep_matrix (dep_rel (extract_all C (b_transactions b) 0)) (length (b_transactions b))"
  obtain cs where cs: "are_components (adjacent ?a) (length ?a) cs"
    "connectedComponents_cluster (group_order V) ?a = Some \<lparr>totalComponents = length cs,
       componentsList = map (\<lambda>(c, k). \<lparr>transactionList = c, assignedFollower = 0, compid = int k\<rparr>)
         (zip cs [0..<length cs])\<rparr>"
    by (rule connectedComponents_cluster_correct [OF V]) blast
  let ?t = "\<lparr>totalComponents = length cs,
       componentsList = map (\<lambda>(c, k). \<lparr>transactionList = c, assignedFollower = 0, compid = int k\<rparr>)
         (zip cs [0..<length cs])\<rparr>"
  have s1: "table s1 = ?t" "componentCount s1 = length cs" "healthyMemberIds s1 = healthyMemberIds s"
      "memberList s1 = memberList s"
    using b cs(2) by (auto simp: build_table_def create_cluster_eq [OF th c] built_graph)
  have lists: "map transactionList (componentsList ?t) = cs" "map compid (componentsList ?t) = map int [0..<length cs]"
    by (rule nth_equalityI; simp)+
  show "are_components (adjacent ?a) (length (b_transactions b)) (map transactionList (componentsList (table s1)))"
    using cs(1) unfolding s1 lists by (simp add: dep_matrix_def)
  show "distinct (map compid (componentsList (table s1)))" unfolding s1 lists by (simp add: distinct_map)
  show "componentCount s1 = length (componentsList (table s1))" by (simp add: s1)
  show "healthyMemberIds s1 = healthyMemberIds s" "memberList s1 = memberList s" by (rule s1)+
qed

lemma table_assigned:
  assumes a: "assignFollowers V N key s1 = Ret (True, s2)" and ids: "healthyMemberIds s1 = []" "healthy_ids (memberList s1) = Ret fs"
    and c: "componentCount s1 = length (componentsList (table s1))"
  shows "map transactionList (componentsList (table s2)) = map transactionList (componentsList (table s1))"
    "map compid (componentsList (table s2)) = map compid (componentsList (table s1))"
    "\<forall>c\<in>set (componentsList (table s2)). assignedFollower c \<in> set fs"
proof -
  obtain new where new: "healthy_ids (memberList s1) = Ret new"
    "table s2 = assign_round (healthyMemberIds s1 @ new) (table s1) (componentCount s1)"
    "componentCount s1 = 0 \<or> healthyMemberIds s1 @ new \<noteq> []"
    by (rule assignFollowers_True [OF a]) blast
  have t: "table s2 = assign_round fs (table s1) (length (componentsList (table s1)))"
    and ne: "componentsList (table s1) = [] \<or> fs \<noteq> []"
    using new ids c by simp_all
  show "map transactionList (componentsList (table s2)) = map transactionList (componentsList (table s1))"
    "map compid (componentsList (table s2)) = map compid (componentsList (table s1))"
    by (simp_all only: t assign_round_lists)
  show "\<forall>c\<in>set (componentsList (table s2)). assignedFollower c \<in> set fs"
  proof
    fix c assume "c \<in> set (componentsList (table s2))"
    then obtain i where i: "i < length (componentsList (table s1))" "c = componentsList (table s2) ! i"
      by (auto simp: in_set_conv_nth t)
    then have "assignedFollower c = fs ! (i mod length fs)" by (simp add: t nth_assign_round)
    moreover have "fs \<noteq> []" using ne i(1) by auto
    ultimately show "assignedFollower c \<in> set fs" by simp
  qed
qed

section \<open>The followers' results\<close>

definition joins :: "codec \<Rightarrow> image_env \<Rightarrow> (string \<Rightarrow> string) \<Rightarrow> block_codec \<Rightarrow> string \<Rightarrow> string \<Rightarrow> componentsTable \<Rightarrow> site \<Rightarrow> int \<Rightarrow> fstate \<Rightarrow> bool" where
  "joins C I gv K blockData tableData t S f s \<longleftrightarrow>
     s_codec S = C \<and> s_exec S = execute_cluster C I gv \<and> parse_table (s_messages S) tableData = Some t \<and>
     (\<exists>thCount c. 0 < thCount \<and> follows S K blockData tableData f thCount c s) \<and> share_done s"

lemma joined:
  assumes j: "joins C I gv K blockData tableData t S f s" and b: "parse_block K blockData = Some b"
    and dec: "\<forall>x\<in>set (b_transactions b). declares C x"
    and comp: "are_components (adjacent (dep_matrix (dep_rel (extract_all C (b_transactions b) 0)) (length (b_transactions b))))
      (length (b_transactions b)) (map transactionList (componentsList t))"
    and ids: "distinct (map compid (componentsList t))"
  shows "distinct (fs_log s)" "set (fs_log s) = set (mine f t)"
    "myMap (fs_sched s) = map_after (block_run (execute_cluster C I gv) C (b_transactions b)) (fs_log s) Map.empty"
    "\<forall>a<length (fs_log s). \<forall>p < fs_log s ! a.
       dep_rel (extract_all C (b_transactions b) 0) p (fs_log s ! a) \<longrightarrow> p \<in> set (take a (fs_log s))"
proof -
  obtain thCount c where S: "s_codec S = C" "s_exec S = execute_cluster C I gv" "parse_table (s_messages S) tableData = Some t"
    and fl: "follows S K blockData tableData f thCount c s" "0 < thCount" and fin: "share_done s"
    using j by (auto simp: joins_def)
  have p: "partitions (length (b_transactions b)) t" by (rule components_partition [OF comp])
  have t: "table_ok (length (b_transactions b)) t" using p ids by (auto simp: table_ok_def partitions_def)
  have h: "\<forall>x\<in>set (b_transactions b). parse_header C (t_header x) \<noteq> None"
    using dec by (auto simp: declares_def split: option.splits)
  note sh = share_ok_mine [OF comp, of f]
  have "follower_inv S (dep_rel (extract_all C (b_transactions b) 0)) (set (mine f t)) (b_transactions b) Map.empty s"
    using follower_invariant [OF fl(1) b fl(2) S(3) t mine_distinct [OF p]] sh h S(1) by simp
  note dn = done_log [OF this sh fin]
  show "distinct (fs_log s)" "set (fs_log s) = set (mine f t)" "\<forall>a<length (fs_log s). \<forall>p < fs_log s ! a.
       dep_rel (extract_all C (b_transactions b) 0) p (fs_log s ! a) \<longrightarrow> p \<in> set (take a (fs_log s))"
    by (rule dn)+
  show "myMap (fs_sched s) = map_after (block_run (execute_cluster C I gv) C (b_transactions b)) (fs_log s) Map.empty"
    using dn(3) S by (simp add: own_run_def)
qed

text \<open>C1: A block executed by the cluster has the effect of executing its transactions one after the other
  in block order. The leader builds the component table of the block and assigns it to the healthy
  members; every member takes the block and the table with a fresh scheduler and lets any number of
  threads run, interleaved in any way with one another, with the monitor and with the rest of the cluster,
  until its counter reaches the size of the block. Then a key has a value in the map of serial execution
  exactly when it has it in the map of one of the members, and the verdicts the members reach are
  those of serial execution. The transactions declare in their headers the addresses their payloads name.\<close>

theorem cluster_execution:
  assumes "\<forall>x\<in>set (b_transactions b). declares C x"
    and "0 < thCount" "cleaned (DAGObj s)" "\<forall>xs. mset (group_order V xs) = mset xs"
    and "build_table V C thCount b s = Ret s1" "assignFollowers V N key s1 = Ret (True, s2)"
    and "healthyMemberIds s = []" "healthy_ids (memberList s) = Ret fs" "distinct fs"
    and "parse_block K blockData = Some b"
    and "\<forall>f\<in>set fs. joins C I gv K blockData tableData (table s2) (S f) f (st f)"
  shows "(map_after (block_run (execute_cluster C I gv) C (b_transactions b)) [0..<length (b_transactions b)] Map.empty k = Some v \<longleftrightarrow>
      (\<exists>f\<in>set fs. myMap (fs_sched (st f)) k = Some v)) \<and>
    set (outcomes (block_run (execute_cluster C I gv) C (b_transactions b)) [0..<length (b_transactions b)] Map.empty) =
      (\<Union>f\<in>set fs. set (outcomes (block_run (execute_cluster C I gv) C (b_transactions b)) (fs_log (st f)) Map.empty))"
proof -
  let ?run = "block_run (execute_cluster C I gv) C (b_transactions b)"
  note t1 = table_built [OF assms(5,2,3), OF assms(4) [rule_format]]
  note t2 = table_assigned [OF assms(6) t1(4) [unfolded assms(7)], unfolded t1(5), OF assms(8) t1(3)]
  have comp: "are_components (adjacent (dep_matrix (dep_rel (extract_all C (b_transactions b) 0)) (length (b_transactions b))))
      (length (b_transactions b)) (map transactionList (componentsList (table s2)))"
    unfolding t2(1) by (rule t1(1))
  have ids: "distinct (map compid (componentsList (table s2)))" unfolding t2(2) by (rule t1(2))
  note J = joined [OF assms(11) [rule_format] assms(10,1) comp ids]
  note R = shares_of_block [where run = ?run and log = "\<lambda>f. fs_log (st f)",
      OF clu.confined_run assms(1) comp assms(9) t2(3) J(1,2) J(4) [rule_format]]
  show ?thesis using R(1) [of k v] R(2) J(3) by simp
qed

section \<open>A round with one member\<close>

lemma one_share_run:
  assumes d: "inDegree (cdag c) = Some [0]" "adjacencyMatrix (cdag c) = dep_matrix D 1" "totalTxns (cdag c) = 1"
      "completedTxns (cdag c) = 0" "transactions c = [x]" "parse_header (s_codec S) (t_header x) = Some h"
    and x: "s_exec S h x (myMap c) = (Ret True, m)"
  shows "\<exists>s. follower_reach S (follower_start c) s \<and> share_done s \<and> myMap (fs_sched s) = m"
proof -
  let ?s0 = "follower_start c"
  let ?c1 = "(fs_sched ?s0)\<lparr>cdag := take_txn 0 [0] (cdag c)\<rparr>"
  let ?s1 = "?s0\<lparr>fs_sched := ?c1, fs_held := (fs_held ?s0)(0 \<mapsto> 0)\<rparr>"
  have claim: "claim (fs_sched ?s0) = Ret (Some 0, ?c1)"
    using d by (simp add: claim_def follower_start_def start_schedule_def selectTxn_cluster_def scan_zero_def)
  have 1: "follower_step S ?s0 ?s1"
    by (rule f_claim [OF _ claim]) (simp add: in_loop_def follower_start_def start_schedule_def)
  have "\<exists>deg'. complete_txn (int 0) (cdag ?c1) =
      Ret ((cdag ?c1)\<lparr>inDegree := Some deg', completedTxns := completedTxns (cdag ?c1) + 1\<rparr>)"
    using complete_effect [of "cdag ?c1" 1 D "[- 1]" 0] d by (auto simp: take_txn_def)
  then obtain deg' where deg': "complete_txn (int 0) (cdag ?c1) =
      Ret ((cdag ?c1)\<lparr>inDegree := Some deg', completedTxns := completedTxns (cdag ?c1) + 1\<rparr>)" by blast
  let ?d2 = "(cdag ?c1)\<lparr>inDegree := Some deg', completedTxns := completedTxns (cdag ?c1) + 1\<rparr>"
  let ?c2 = "?c1\<lparr>myMap := m, flag := True, cdag := ?d2, compCount := compCount ?c1 + 1\<rparr>"
  have run: "run_claimed S 0 (fs_sched ?s1) = Ret ?c2"
    using d(5,6) x deg' by (simp add: run_claimed_def follower_start_def start_schedule_def)
  have 2: "follower_step S ?s1 (?s1\<lparr>fs_sched := ?c2, fs_held := (fs_held ?s1)(0 := None),
      fs_log := (if parses S (fs_sched ?s1) 0 then fs_log ?s1 @ [0] else fs_log ?s1)\<rparr>)"
    by (rule f_run [OF _ run]) simp
  have "share_done (?s1\<lparr>fs_sched := ?c2, fs_held := (fs_held ?s1)(0 := None),
      fs_log := (if parses S (fs_sched ?s1) 0 then fs_log ?s1 @ [0] else fs_log ?s1)\<rparr>)"
    using d(3,4) by (simp add: share_done_def take_txn_def)
  then show ?thesis using f_more [OF f_more [OF f_refl 1] 2] by force
qed

definition sample_cluster :: leader_env where
  "sample_cluster = \<lparr>show_table = (\<lambda>_. Some ''t''), group_order = id\<rparr>"

definition member_site :: "componentsTable \<Rightarrow> site" where
  "member_site t = sample_site\<lparr>s_messages := sample_messages\<lparr>parse_table := (\<lambda>_. Some t)\<rparr>,
     s_exec := execute_cluster sample_codec sample_image (\<lambda>_. [])\<rparr>"

lemma sample_table_built:
  "\<exists>s1. build_table sample_cluster sample_codec 2 sample_block sample_leader = Ret s1"
proof -
  have c: "cleaned (DAGObj sample_leader)" by (simp add: sample_leader_def cleaned_def empty_dag_def)
  obtain t where t: "connectedComponents_cluster id (adjacencyMatrix (built sample_codec sample_block (DAGObj sample_leader))) = Some t"
    by (rule connectedComponents_cluster_correct [of id]) (simp, blast)
  show ?thesis
    using t by (simp add: build_table_def create_cluster_eq [OF _ c] sample_cluster_def)
qed

lemma sample_cluster_run:
  "\<exists>m. execute_cluster sample_codec sample_image (\<lambda>_. [])
     (new_header ''wallet'' ''a'' ''7'' [''walletab''] [''walletab'']) sample_txn Map.empty = (Ret True, m)"
  using sample_deposit by (auto simp: execute_cluster_def run_family_def new_header_def)

lemma sample_joins:
  assumes t: "partitions 1 t" "distinct (map compid (componentsList t))" "\<forall>c\<in>set (componentsList t). assignedFollower c = 5"
  shows "\<exists>st. joins sample_codec sample_image (\<lambda>_. []) sample_blocks (enc_block sample_block) ''t'' t (member_site t) 5 st"
proof -
  let ?S = "member_site t"
  have S: "s_codec ?S = sample_codec" "s_exec ?S = execute_cluster sample_codec sample_image (\<lambda>_. [])"
    "parse_table (s_messages ?S) ''t'' = Some t"
    by (simp_all add: member_site_def sample_site_def)
  have b: "parse_block sample_blocks (enc_block sample_block) = Some sample_block" by (simp add: sample_blocks_def)
  have fresh: "fresh_sched new_csched" "compCount new_csched = 0" "myMap new_csched = Map.empty"
    by (simp_all add: fresh_sched_def new_csched_def cleaned_def empty_dag_def)
  have tok: "table_ok (length (b_transactions sample_block)) t"
    using t(1,2) by (auto simp: table_ok_def partitions_def sample_block_def)
  have "mine 5 t = concat (map transactionList (componentsList t))"
    using t(3) by (simp add: mine_def)
  then have m: "set (mine 5 t) = {0}" "length (mine 5 t) = 1"
    using t(1) distinct_card [of "mine 5 t"] by (auto simp: partitions_def)
  obtain c1 c2 where c: "extractBlock sample_codec sample_blocks 2 (enc_block sample_block) new_csched = Ret c1"
    "ExtractComponents (s_messages ?S) ''t'' 5 c1 = Ret c2" "inDegree (cdag c2) = Some [0]" "completedTxns (cdag c2) = 0"
    "adjacencyMatrix (cdag c2) = dep_matrix (dep_rel (extract_all sample_codec [sample_txn] 0)) 1"
    "transactions c2 = [sample_txn]" "totalTxns (cdag c2) = 1" "myMap c2 = Map.empty"
    using follower_prepared [OF b _ fresh(1) S(3) tok, of 2 sample_codec 5] m fresh(3)
    by (auto simp: sample_block_def in_degrees_def)
  obtain m where m: "execute_cluster sample_codec sample_image (\<lambda>_. [])
     (new_header ''wallet'' ''a'' ''7'' [''walletab''] [''walletab'']) sample_txn Map.empty = (Ret True, m)"
    using sample_cluster_run by blast
  have "\<exists>s. follower_reach ?S (follower_start c2) s \<and> share_done s \<and> myMap (fs_sched s) = m"
    by (rule one_share_run [OF c(3,5,7,4,6), of _ "new_header ''wallet'' ''a'' ''7'' [''walletab''] [''walletab'']"])
      (simp_all only: S sample_parses c(8) m)
  then obtain s where "follower_reach ?S (follower_start c2) s" "share_done s" by blast
  then have "joins sample_codec sample_image (\<lambda>_. []) sample_blocks (enc_block sample_block) ''t'' t ?S 5 s"
    using S fresh c(1,2) unfolding joins_def follows_def by (metis zero_less_numeral)
  then show ?thesis by blast
qed

theorem cluster_execution_witness:
  "\<exists>s1 s2 st. build_table sample_cluster sample_codec 2 sample_block sample_leader = Ret s1 \<and>
     assignFollowers sample_cluster sample_etcd ''k'' s1 = Ret (True, s2) \<and>
     joins sample_codec sample_image (\<lambda>_. []) sample_blocks (enc_block sample_block) ''t'' (table s2) (member_site (table s2)) 5 st \<and>
     (\<forall>k v. map_after (block_run (execute_cluster sample_codec sample_image (\<lambda>_. [])) sample_codec (b_transactions sample_block))
        [0..<length (b_transactions sample_block)] Map.empty k = Some v \<longleftrightarrow> myMap (fs_sched st) k = Some v)"
proof -
  have c: "cleaned (DAGObj sample_leader)" by (simp add: sample_leader_def cleaned_def empty_dag_def)
  have g: "\<forall>xs. mset (group_order sample_cluster xs) = mset xs" by (simp add: sample_cluster_def)
  have ids: "healthyMemberIds sample_leader = []" "healthy_ids (memberList sample_leader) = Ret [5]"
    by (simp_all add: sample_leader_def)
  have dec: "\<forall>x\<in>set (b_transactions sample_block). declares sample_codec x" by (simp add: sample_block_def)
  have b: "parse_block sample_blocks (enc_block sample_block) = Some sample_block" by (simp add: sample_blocks_def)
  obtain s1 where s1: "build_table sample_cluster sample_codec 2 sample_block sample_leader = Ret s1"
    using sample_table_built by blast
  note t1 = table_built [OF s1 _ c g [rule_format]]
  have "\<exists>s2. assignFollowers sample_cluster sample_etcd ''k'' s1 = Ret (True, s2)"
    using t1(3-5) ids by (simp add: assignFollowers_def Let_def sample_cluster_def)
  then obtain s2 where s2: "assignFollowers sample_cluster sample_etcd ''k'' s1 = Ret (True, s2)" by blast
  have t2: "map transactionList (componentsList (table s2)) = map transactionList (componentsList (table s1))"
    "map compid (componentsList (table s2)) = map compid (componentsList (table s1))"
    "\<forall>c\<in>set (componentsList (table s2)). assignedFollower c \<in> set [5]"
    by (rule table_assigned [OF s2 _ _ t1(3)]; simp add: t1(4,5) ids)+
  have "partitions 1 (table s2)"
    using components_partition [of _ 1 "table s2"] t1(1) unfolding t2(1) [symmetric] by (auto simp: sample_block_def)
  then obtain st where st: "joins sample_codec sample_image (\<lambda>_. []) sample_blocks (enc_block sample_block) ''t'' (table s2)
      (member_site (table s2)) 5 st"
    using sample_joins [of "table s2"] t1(2) t2(2,3) by auto
  have one: "distinct [5 :: int]" "(0 :: nat) < 2" by simp_all
  have "\<forall>f\<in>set [5]. joins sample_codec sample_image (\<lambda>_. []) sample_blocks (enc_block sample_block) ''t'' (table s2)
      (member_site (table s2)) f st"
    using st by simp
  from cluster_execution [OF dec one(2) c g s1 s2 ids one(1) b this] show ?thesis
    using st s1 s2 by fastforce
qed
end
