(* ===== verification/Storage.thy ===== *)
theory Storage
  imports Merkle_Invariant
begin

text \<open>
  The databases of a process on disk: opening, closing and destroying a RocksDB database by its path,
  and the operations of \<open>GlobalState\<close> (\<open>BlockRAFT-distributed_node/merkleTree/globalState.h\<close>) that work
  on whole databases: the constructor, \<open>duplicateState\<close>, \<open>resetTree\<close> and \<open>replaceWith\<close>.
\<close>

section \<open>Databases by path\<close>

text \<open>A path that is open is locked. RocksDB is the parameter \<open>rocks\<close>, with the law below.\<close>

record disk =
  dirs :: "string \<Rightarrow> db option"
  locked :: "string set"

record rocks =
  open_db :: "disk \<Rightarrow> string \<Rightarrow> bool \<times> disk"
  close_db :: "disk \<Rightarrow> string \<Rightarrow> disk"
  destroy_db :: "disk \<Rightarrow> string \<Rightarrow> disk"
  entries :: "db \<Rightarrow> (string \<times> string) list"

definition db_content :: "disk \<Rightarrow> string \<Rightarrow> db" where
  "db_content w p = (case dirs w p of None \<Rightarrow> Map.empty | Some m \<Rightarrow> m)"

definition set_db_content :: "string \<Rightarrow> db \<Rightarrow> disk \<Rightarrow> disk" where
  "set_db_content p m w = w\<lparr>dirs := (dirs w)(p \<mapsto> m)\<rparr>"

text \<open>
  Opening with \<open>create_if_missing\<close> fails on a path that is open and creates a missing database; destroying
  fails on a path that is open; an iterator yields each entry once.
\<close>

definition rocks_law :: "rocks \<Rightarrow> bool" where
  "rocks_law R \<longleftrightarrow>
     (\<forall>w p. open_db R w p =
        (if p \<in> locked w then (False, w)
         else (True, w\<lparr>dirs := (dirs w)(p \<mapsto> db_content w p), locked := insert p (locked w)\<rparr>))) \<and>
     (\<forall>w p. close_db R w p = w\<lparr>locked := locked w - {p}\<rparr>) \<and>
     (\<forall>w p. destroy_db R w p = (if p \<in> locked w then w else w\<lparr>dirs := (dirs w)(p := None)\<rparr>)) \<and>
     (\<forall>m. finite (dom m) \<longrightarrow> map_of (entries R m) = m \<and> distinct (map fst (entries R m)))"

section \<open>Operations of GlobalState on databases\<close>

text \<open>The constructor; an object is known by the path of its database.\<close>

definition root_text :: "env \<Rightarrow> string" where
  "root_text E = serializeNode \<lparr>nvalue = [], nhash = computeHash E [], nchildren = []\<rparr>"

definition GlobalState :: "rocks \<Rightarrow> env \<Rightarrow> string \<Rightarrow> bool \<Rightarrow> (disk, unit) op" where
  "GlobalState R E dbPath fresh w =
     (let w1 = (if fresh \<and> dirs w dbPath \<noteq> None then destroy_db R w dbPath else w);
          (ok, w2) = open_db R w1 dbPath
      in if \<not> ok then (Throw Runtime_error, w2)
         else
           (case db_content w2 dbPath root_key of
              Some existing \<Rightarrow> (Ret (), w2)
            | None \<Rightarrow>
                (let (ok, m) = put E (db_content w2 dbPath) root_key (root_text E);
                     w3 = set_db_content dbPath m w2
                 in (if ok then Ret () else Throw Runtime_error, w3))))"

definition copy_entries :: "env \<Rightarrow> (string \<times> string) list \<Rightarrow> db \<Rightarrow> db" where
  "copy_entries E es m = fold (\<lambda>(k, v) m. snd (put E m k v)) es m"

definition duplicateState :: "rocks \<Rightarrow> env \<Rightarrow> string \<Rightarrow> string \<Rightarrow> disk \<Rightarrow> bool \<times> disk" where
  "duplicateState R E dbPath targetPath w =
     (let (ok, w1) = open_db R w targetPath
      in if \<not> ok then (False, w1)
         else
           (let w2 = set_db_content targetPath
                  (copy_entries E (entries R (db_content w1 dbPath)) (db_content w1 targetPath)) w1
            in (True, close_db R w2 targetPath)))"

definition resetTree :: "rocks \<Rightarrow> env \<Rightarrow> string \<Rightarrow> (disk, unit) op" where
  "resetTree R E dbPath w = GlobalState R E dbPath True (destroy_db R (close_db R w dbPath) dbPath)"

text \<open>\<open>std::filesystem\<close>: removing a directory, and renaming one, which throws when it does not exist.\<close>

definition remove_all :: "string \<Rightarrow> disk \<Rightarrow> disk" where
  "remove_all p w = w\<lparr>dirs := (dirs w)(p := None)\<rparr>"

definition rename_dir :: "string \<Rightarrow> string \<Rightarrow> (disk, unit) op" where
  "rename_dir p q w =
     (case dirs w p of
        None \<Rightarrow> (Throw Runtime_error, w)
      | Some m \<Rightarrow> (Ret (), w\<lparr>dirs := (dirs w)(p := None, q \<mapsto> m)\<rparr>))"

definition replaceWith :: "rocks \<Rightarrow> env \<Rightarrow> string \<Rightarrow> string \<Rightarrow> (disk, bool) op" where
  "replaceWith R E dbPath sourcePath w =
     and_then (rename_dir sourcePath dbPath) (\<lambda>_.
     and_then (GlobalState R E dbPath False) (\<lambda>_. ret True))
       (remove_all dbPath (destroy_db R (close_db R w dbPath) dbPath))"

section \<open>Facts\<close>

lemma rocksD:
  assumes "rocks_law R"
  shows "open_db R w p = (if p \<in> locked w then (False, w)
         else (True, w\<lparr>dirs := (dirs w)(p \<mapsto> db_content w p), locked := insert p (locked w)\<rparr>))"
    and "close_db R w p = w\<lparr>locked := locked w - {p}\<rparr>"
    and "destroy_db R w p = (if p \<in> locked w then w else w\<lparr>dirs := (dirs w)(p := None)\<rparr>)"
    and "finite (dom m) \<Longrightarrow> map_of (entries R m) = m"
    and "finite (dom m) \<Longrightarrow> distinct (map fst (entries R m))"
  using assms unfolding rocks_law_def by blast+

lemma db_content_simps [simp]:
  "db_content (w\<lparr>locked := l\<rparr>) p = db_content w p"
  "db_content (set_db_content p m w) q = (if q = p then m else db_content w q)"
  "locked (set_db_content p m w) = locked w"
  by (simp_all add: db_content_def set_db_content_def)

lemma db_content_opened [simp]: "db_content (w\<lparr>dirs := (dirs w)(p \<mapsto> db_content w p)\<rparr>) q = db_content w q"
  by (simp add: db_content_def)

lemma db_content_closed [simp]: "db_content (close_db R w p) q = db_content w q" if "rocks_law R"
  using that by (simp add: rocksD)

text \<open>A database after it has been opened: a root node is there.\<close>

definition with_root :: "env \<Rightarrow> db \<Rightarrow> db" where
  "with_root E m = (case m root_key of None \<Rightarrow> m(root_key \<mapsto> root_text E) | Some d \<Rightarrow> m)"

lemma with_root_open: "lawful E \<Longrightarrow> open_state E False m = Ret (with_root E m)"
  by (simp add: open_state_def with_root_def root_text_def put_eq split: option.split)

lemma GlobalState_locked:
  assumes "rocks_law R" "p \<in> locked w"
  shows "GlobalState R E p fresh w = (Throw Runtime_error, w)"
  using assms(2) by (simp add: GlobalState_def rocksD [OF assms(1)])

lemma GlobalState_opens:
  assumes "rocks_law R" "lawful E" "p \<notin> locked w"
  obtains w' where "GlobalState R E p fresh w = (Ret (), w')" "locked w' = insert p (locked w)"
    "db_content w' p = with_root E (if fresh then Map.empty else db_content w p)" "\<And>q. q \<noteq> p \<Longrightarrow> dirs w' q = dirs w q"
proof -
  define w1 where "w1 = (if fresh \<and> dirs w p \<noteq> None then destroy_db R w p else w)"
  define w2 where "w2 = w1\<lparr>dirs := (dirs w1)(p \<mapsto> db_content w1 p), locked := insert p (locked w1)\<rparr>"
  have w1: "p \<notin> locked w1" "locked w1 = locked w" "db_content w1 p = (if fresh then Map.empty else db_content w p)"
    "\<And>q. q \<noteq> p \<Longrightarrow> dirs w1 q = dirs w q"
    using assms(3) by (auto simp: w1_def rocksD [OF assms(1)] db_content_def)
  have w2: "open_db R w1 p = (True, w2)" using w1(1) by (simp add: rocksD [OF assms(1)] w2_def)
  have c: "db_content w2 p = db_content w1 p" "locked w2 = insert p (locked w)" "\<And>q. q \<noteq> p \<Longrightarrow> dirs w2 q = dirs w q"
    using w1(2,4) by (simp_all add: w2_def)
  show thesis
  proof (cases "db_content w1 p root_key")
    case None
    then have "GlobalState R E p fresh w = (Ret (), set_db_content p ((db_content w1 p)(root_key \<mapsto> root_text E)) w2)"
      unfolding GlobalState_def Let_def w1_def [symmetric] w2 using c by (simp add: put_eq [OF assms(2)])
    then show thesis
    proof (rule that)
      show "db_content (set_db_content p ((db_content w1 p)(root_key \<mapsto> root_text E)) w2) p =
          with_root E (if fresh then Map.empty else db_content w p)"
        using None w1(3) by (simp add: with_root_def)
    qed (simp_all add: c(2,3), simp add: set_db_content_def c(3))
  next
    case (Some d)
    then have "GlobalState R E p fresh w = (Ret (), w2)"
      unfolding GlobalState_def Let_def w1_def [symmetric] w2 using c by simp
    then show thesis
    proof (rule that)
      show "db_content w2 p = with_root E (if fresh then Map.empty else db_content w p)"
        using Some w1(3) c(1) by (simp add: with_root_def split: option.split)
    qed (simp_all add: c(2,3))
  qed
qed

lemma copy_entries_eq:
  "lawful E \<Longrightarrow> distinct (map fst es) \<Longrightarrow> copy_entries E es m = m ++ map_of es"
proof (induction es arbitrary: m)
  case (Cons e es)
  obtain k v where e: "e = (k, v)" by fastforce
  have k: "map_of es k = None" using Cons.prems(2) by (simp add: e map_of_eq_None_iff)
  have "copy_entries E (e # es) m = copy_entries E es (m(k \<mapsto> v))" using Cons.prems(1) by (simp add: copy_entries_def e put_eq)
  also have "\<dots> = m(k \<mapsto> v) ++ map_of es" using Cons by simp
  also have "\<dots> = m ++ map_of (e # es)"
    using k by (intro ext) (auto simp: e map_add_def split: option.split)
  finally show ?case .
qed (simp add: copy_entries_def)

text \<open>\<open>duplicateState\<close> copies the tree into a database nobody has open, and does nothing otherwise.\<close>

lemma duplicate_locked:
  assumes "rocks_law R" "target \<in> locked w"
  shows "duplicateState R E p target w = (False, w)"
  using assms(2) by (simp add: duplicateState_def rocksD [OF assms(1)])

lemma duplicate_copies:
  assumes R: "rocks_law R" and E: "lawful E" and t: "target \<notin> locked w" "target \<noteq> p" and fin: "finite (dom (db_content w p))"
  obtains w' where "duplicateState R E p target w = (True, w')" "db_content w' target = db_content w target ++ db_content w p"
    "db_content w' p = db_content w p" "locked w' = locked w"
proof (rule that [of "snd (duplicateState R E p target w)"])
  note es = rocksD(4,5) [OF R fin]
  let ?d = "duplicateState R E p target w"
  show "?d = (True, snd ?d)" using t by (simp add: duplicateState_def rocksD [OF R] Let_def)
  show "db_content (snd ?d) target = db_content w target ++ db_content w p" "db_content (snd ?d) p = db_content w p"
    using t es copy_entries_eq [OF E es(2)] by (simp_all add: duplicateState_def rocksD [OF R] Let_def)
  show "locked (snd ?d) = locked w" using t by (simp add: duplicateState_def rocksD [OF R] Let_def)
qed

lemma reset_effect:
  assumes R: "rocks_law R" and E: "lawful E"
  obtains w' where "resetTree R E p w = (Ret (), w')" "locked w' = insert p (locked w)"
    "db_content w' p = with_root E Map.empty" "\<And>q. q \<noteq> p \<Longrightarrow> dirs w' q = dirs w q"
proof -
  let ?w = "destroy_db R (close_db R w p) p"
  have w: "p \<notin> locked ?w" "locked ?w = locked w - {p}" "\<And>q. q \<noteq> p \<Longrightarrow> dirs ?w q = dirs w q"
    by (simp_all add: rocksD [OF R])
  obtain w' where "GlobalState R E p True ?w = (Ret (), w')" "locked w' = insert p (locked ?w)"
    "db_content w' p = with_root E (if True then Map.empty else db_content ?w p)" "\<And>q. q \<noteq> p \<Longrightarrow> dirs w' q = dirs ?w q"
    by (rule GlobalState_opens [where fresh = True, OF R E w(1)]) blast
  then show thesis using w by (intro that [of w']) (auto simp: resetTree_def)
qed

text \<open>\<open>replaceWith\<close> makes the source the database of the object; a missing source ends in an exception.\<close>

lemma replace_effect:
  assumes R: "rocks_law R" and E: "lawful E" and s: "dirs w source = Some m" "source \<noteq> p"
  obtains w' where "replaceWith R E p source w = (Ret True, w')" "db_content w' p = with_root E m" "dirs w' source = None"
    "locked w' = insert p (locked w)"
proof -
  let ?w = "(remove_all p (destroy_db R (close_db R w p) p))\<lparr>dirs := (dirs w)(source := None, p \<mapsto> m)\<rparr>"
  have 1: "rename_dir source p (remove_all p (destroy_db R (close_db R w p) p)) = (Ret (), ?w)"
    using s by (simp add: rename_dir_def remove_all_def rocksD [OF R] fun_upd_twist)
  have w: "p \<notin> locked ?w" "locked ?w = locked w - {p}" "db_content ?w p = m" "dirs ?w source = None"
    using s by (simp_all add: rocksD [OF R] remove_all_def db_content_def)
  obtain w' where w': "GlobalState R E p False ?w = (Ret (), w')" "locked w' = insert p (locked ?w)"
    "db_content w' p = with_root E (if False then Map.empty else db_content ?w p)" "\<And>q. q \<noteq> p \<Longrightarrow> dirs w' q = dirs ?w q"
    by (rule GlobalState_opens [where fresh = False, OF R E w(1)]) blast
  show thesis
  proof (rule that [of w'])
    show "replaceWith R E p source w = (Ret True, w')" unfolding replaceWith_def by (simp only: and_then_def 1 w'(1) ret_def prod.case outcome.case)
    show "db_content w' p = with_root E m" using w'(3) w(3) by simp
    show "dirs w' source = None" using w'(4) [OF s(2)] w(4) by simp
    show "locked w' = insert p (locked w)" using w'(2) w(2) by auto
  qed
qed

lemma replace_missing:
  assumes R: "rocks_law R" and s: "dirs w source = None" "source \<noteq> p"
  shows "fst (replaceWith R E p source w) = Throw Runtime_error"
  using s by (simp add: replaceWith_def and_then_def rename_dir_def remove_all_def rocksD [OF R])
end
