(* ===== verification/Follower.thy ===== *)
theory Follower
  imports Storage Leader Block_Store
begin

text \<open>
  The follower of \<open>BlockRAFT-distributed_node/follower/follower.h\<close>: finding the leader and its newest
  block, taking the block and the component table, executing, and what it does with the results; and
  the follower branch of the node's main loop (\<open>leader/node.cpp\<close>), which makes a new follower for every
  round.
\<close>

section \<open>State\<close>

record fenv =
  fe_rocks :: rocks
  fe_env :: env
  fe_etcd :: etcd
  fe_ls :: "kvmap \<Rightarrow> string \<Rightarrow> string list option"
  fe_codec :: codec
  fe_blocks :: block_codec
  fe_messages :: messages
  fe_node :: string

record follower =
  f_Leader :: string
  f_sched :: csched
  f_tmpCache :: "string \<Rightarrow> node option"
  f_disk :: disk
  stopWatcher :: bool
  leaderCrashed :: bool

definition state_path :: string where
  "state_path = ''globalState''"

definition tmp_path :: string where
  "tmp_path = ''globalState_tmp''"

abbreviation fstore :: "follower \<Rightarrow> kvmap" where
  "fstore f \<equiv> store (f_sched f)"

text \<open>
  A new scheduler; the counts the constructors leave uninitialised are the values found in memory.
\<close>

definition new_sched :: "nat \<Rightarrow> nat \<Rightarrow> kvmap \<Rightarrow> csched" where
  "new_sched txns threads m =
     \<lparr>cdag = \<lparr>CurrentTransactions = [], adjacencyMatrix = [], inDegree = None, completedTxns = 0, lastTxn = 0,
        totalTxns = txns, threadCount = threads\<rparr>,
      ctable = \<lparr>totalComponents = 0, componentsList = []\<rparr>, processed_components = {}, transactions = [],
      compCount = 0, flag = True, completeFlag = False, updateFlag = False, myMap = Map.empty, store = m\<rparr>"

section \<open>Construction\<close>

text \<open>
  The members are constructed in order: the state, then \<open>tmp\<close>, then the scheduler over \<open>tmp\<close>; the
  body of the constructor asks the state to copy itself into \<open>tmp\<close>'s database. An exception in a
  member's constructor destroys the members before it.
\<close>

definition open_follower :: "fenv \<Rightarrow> (disk, bool) op" where
  "open_follower F w =
     (case GlobalState (fe_rocks F) (fe_env F) state_path False w of
        (Ret _, w1) \<Rightarrow>
          (case GlobalState (fe_rocks F) (fe_env F) tmp_path False w1 of
             (Ret _, w2) \<Rightarrow>
               (let (copied, w3) = duplicateState (fe_rocks F) (fe_env F) state_path tmp_path w2 in (Ret copied, w3))
           | (r, w2) \<Rightarrow> (bind_outcome r (\<lambda>_. Ret False), close_db (fe_rocks F) w2 state_path))
      | (r, w1) \<Rightarrow> (bind_outcome r (\<lambda>_. Ret False), w1))"

definition close_follower :: "fenv \<Rightarrow> disk \<Rightarrow> disk" where
  "close_follower F w = close_db (fe_rocks F) (close_db (fe_rocks F) w tmp_path) state_path"

section \<open>The leader and its newest block\<close>

definition getLeaderID :: "fenv \<Rightarrow> follower \<Rightarrow> string \<times> follower" where
  "getLeaderID F f =
     (case etcd_get (fe_etcd F) (fstore f) ''CurrentLeader'' of
        Found v \<Rightarrow> (v, f\<lparr>f_Leader := v\<rparr>)
      | _ \<Rightarrow> ([], f))"

definition getNamespaces :: "fenv \<Rightarrow> string \<Rightarrow> string \<Rightarrow> follower \<Rightarrow> string list" where
  "getNamespaces F leader_id term_no f =
     (case fe_ls F (fstore f) (leader_id @ ''/'' @ term_no @ ''/'') of
        Some ks \<Rightarrow> ks
      | None \<Rightarrow> [])"

definition key_block :: "string \<Rightarrow> int option" where
  "key_block ns =
     (let tokens = getline_all (CHR ''/'') ns
      in if length tokens \<ge> 3
         then (case stoi (tokens ! 2) of Ret blockNum \<Rightarrow> Some blockNum | _ \<Rightarrow> None)
         else None)"

definition getLargestBlockNumber :: "string list \<Rightarrow> int" where
  "getLargestBlockNumber namespaces =
     fold (\<lambda>ns maxNum.
         case key_block ns of Some blockNum \<Rightarrow> max maxNum blockNum | None \<Rightarrow> maxNum) namespaces (- 1)"

definition getBlockStatus :: "fenv \<Rightarrow> string \<Rightarrow> string \<Rightarrow> int \<Rightarrow> follower \<Rightarrow> string" where
  "getBlockStatus F leader_id term_no blockNum f =
     as_string (etcd_get (fe_etcd F) (fstore f) (block_path leader_id term_no blockNum @ ''/run''))"

section \<open>Watchers\<close>

record event =
  ev_response :: response
  ev_action :: string

text \<open>\<open>stoi(node_id.substr(1))\<close>\<close>

definition node_number :: "string \<Rightarrow> int outcome" where
  "node_number node = (if node = [] then Throw Out_of_range else stoi (tl node))"

text \<open>
  The callbacks. The watcher of the components is a local variable of the function that sets it up, so it
  is cancelled before the function returns.
\<close>

definition on_components :: "fenv \<Rightarrow> event \<Rightarrow> csched \<Rightarrow> csched outcome" where
  "on_components F ev s =
     (if is_ok (ev_response ev) \<and> ev_action ev = ''set''
      then bind_outcome (node_number (fe_node F)) (\<lambda>nodeNum.
             ExtractNewComponents (fe_messages F) (as_string (ev_response ev)) nodeNum s)
      else Ret s)"

definition on_leader :: "string \<Rightarrow> event \<Rightarrow> follower \<Rightarrow> follower" where
  "on_leader initial_leader ev f =
     (if \<not> is_ok (ev_response ev) then f
      else if ev_action ev = ''delete'' \<or> as_string (ev_response ev) \<noteq> initial_leader
      then f\<lparr>f_sched := (f_sched f)\<lparr>flag := False\<rparr>, leaderCrashed := True\<rparr>
      else f)"

section \<open>Taking the leader's data\<close>

text \<open>A change of the scheduler inside a \<open>try\<close> whose handler returns \<open>b\<close>.\<close>

definition try_sched :: "'a \<Rightarrow> 'a \<Rightarrow> csched outcome \<Rightarrow> (follower, 'a) op" where
  "try_sched a b r f =
     (case r of
        Ret s \<Rightarrow> (Ret a, f\<lparr>f_sched := s\<rparr>)
      | Throw e \<Rightarrow> (Ret b, f)
      | Undef \<Rightarrow> (Undef, f)
      | Stuck \<Rightarrow> (Stuck, f))"

definition getDAG :: "fenv \<Rightarrow> string \<Rightarrow> string \<Rightarrow> int \<Rightarrow> follower \<Rightarrow> follower" where
  "getDAG F leader_id term_no blockNum f =
     (case etcd_get (fe_etcd F) (fstore f) (block_path leader_id term_no blockNum @ ''/DAG'') of
        Found dag_data \<Rightarrow> f\<lparr>f_sched := (f_sched f)\<lparr>cdag := extractDAG (fe_messages F) dag_data (cdag (f_sched f))\<rparr>\<rparr>
      | _ \<Rightarrow> f)"

definition getComponents :: "fenv \<Rightarrow> string \<Rightarrow> string \<Rightarrow> int \<Rightarrow> (follower, unit) op" where
  "getComponents F leader_id term_no blockNum f =
     (case etcd_get (fe_etcd F) (fstore f) (block_path leader_id term_no blockNum @ ''/components'') of
        Found serialized_data \<Rightarrow>
          try_sched () () (bind_outcome (node_number (fe_node F)) (\<lambda>nodeNum.
            ExtractComponents (fe_messages F) serialized_data nodeNum (f_sched f))) f
      | _ \<Rightarrow> (Ret (), f))"

text \<open>\<open>threads\<close> is the scheduler's thread count at this point; \<open>scheduleTxns\<close> sets it only later.\<close>

definition readBlock :: "fenv \<Rightarrow> nat \<Rightarrow> string \<Rightarrow> string \<Rightarrow> int \<Rightarrow> (follower, string) op" where
  "readBlock F threads leader_id term_no blockNum f =
     (case etcd_get (fe_etcd F) (fstore f) (block_path leader_id term_no blockNum @ ''/block'') of
        Raised \<Rightarrow> (Ret [], f)
      | response \<Rightarrow>
          try_sched (as_string response) []
            (extractBlock (fe_codec F) (fe_blocks F) threads (as_string response) (f_sched f)) f)"

definition markComponentAsDone :: "fenv \<Rightarrow> string \<Rightarrow> string \<Rightarrow> int \<Rightarrow> int \<Rightarrow> follower \<Rightarrow> bool \<times> follower" where
  "markComponentAsDone F leader_id term_no blockNum component_id f =
     (let (ok, m) = etcd_put (fe_etcd F) (fstore f)
            (block_path leader_id term_no blockNum @ ''/status/'' @ to_string component_id) ''done''
      in (ok, f\<lparr>f_sched := (f_sched f)\<lparr>store := m\<rparr>\<rparr>))"

section \<open>Executing and saving\<close>

text \<open>
  The threads are a parameter: \<open>run gv\<close> takes the scheduler as \<open>scheduleTxns\<close> starts it to what it is when all
  threads have been joined, and says whether the watcher of the leader has fired meanwhile; \<open>gv\<close> reads the
  state the processors were given. \<open>Follower_Threads\<close> says what such a run is.
\<close>

type_synonym threads_run = "(string \<Rightarrow> string) \<Rightarrow> csched \<Rightarrow> (csched \<times> bool) outcome"

definition executeTransactions :: "fenv \<Rightarrow> threads_run \<Rightarrow> (follower, bool) op" where
  "executeTransactions F run f =
     (case run (getValue (fe_env F) (db_content (f_disk f) tmp_path)) (start_schedule (f_sched f)) of
        Ret (s, crashed) \<Rightarrow> (Ret (flag s), f\<lparr>f_sched := s, leaderCrashed := (leaderCrashed f \<or> crashed)\<rparr>)
      | Throw e \<Rightarrow> (Throw e, f)
      | Undef \<Rightarrow> (Undef, f)
      | Stuck \<Rightarrow> (Stuck, f))"

text \<open>
  The keys are fetched into a second object over the state's database, the hashes are recomputed in
  \<open>tmp\<close>, and \<open>tmp\<close>'s database replaces the state's. An exception in one of the fetching threads ends the
  process; it is counted as undefined here, since no handler runs.
\<close>

definition replace_state :: "fenv \<Rightarrow> string \<Rightarrow> db \<Rightarrow> (follower, unit) op" where
  "replace_state F allUpdatedKeys fetched f =
     (let R = fe_rocks F; E = fe_env F;
          w1 = set_db_content state_path fetched (f_disk f);
          g = updateTree E allUpdatedKeys \<lparr>gs_db = db_content w1 tmp_path, nodeCache = f_tmpCache f\<rparr>;
          w2 = set_db_content tmp_path (gs_db g) w1;
          (r, w3) = replaceWith R E state_path tmp_path w2
      in case r of
           Ret ok \<Rightarrow>
             (Ret (), f\<lparr>f_tmpCache := nodeCache g,
                f_disk := close_db R (remove_all tmp_path (destroy_db R w3 tmp_path)) state_path\<rparr>)
         | Throw e \<Rightarrow> (Throw e, f\<lparr>f_tmpCache := nodeCache g, f_disk := w3\<rparr>)
         | Undef \<Rightarrow> (Undef, f) | Stuck \<Rightarrow> (Stuck, f))"

definition saveData :: "fenv \<Rightarrow> string \<Rightarrow> nat \<Rightarrow> (follower, unit) op" where
  "saveData F path clusterSize f =
     (let R = fe_rocks F; E = fe_env F
      in case GlobalState R E state_path False (f_disk f) of
           (Ret _, w) \<Rightarrow>
             (case fetch_all E (fe_etcd F) (fstore f) path [0..<clusterSize] [] (db_content w state_path) of
                Ret (allUpdatedKeys, st) \<Rightarrow> replace_state F allUpdatedKeys st (f\<lparr>f_disk := w\<rparr>)
              | _ \<Rightarrow> (Undef, f\<lparr>f_disk := w\<rparr>))
         | (Throw e, w) \<Rightarrow> (Throw e, f\<lparr>f_disk := w\<rparr>)
         | (Undef, w) \<Rightarrow> (Undef, f) | (Stuck, w) \<Rightarrow> (Stuck, f))"

definition reset_state :: "fenv \<Rightarrow> (follower, unit) op" where
  "reset_state F f =
     (let (r, w) = resetTree (fe_rocks F) (fe_env F) state_path (f_disk f) in (r, f\<lparr>f_disk := w\<rparr>))"

text \<open>The part of \<open>startBlock\<close> inside its \<open>try\<close>; \<open>True\<close> stands for an early return.\<close>

definition execute_and_save :: "fenv \<Rightarrow> threads_run \<Rightarrow> nat \<Rightarrow> string \<Rightarrow> string \<Rightarrow> int \<Rightarrow> (follower, unit) op" where
  "execute_and_save F run clusterSize leader_id term_no blockNum =
     and_then (getComponents F leader_id term_no blockNum) (\<lambda>_.
     and_then (executeTransactions F run) (\<lambda>ok f.
       case etcd_get (fe_etcd F) (fstore f) (block_path leader_id term_no blockNum @ ''/commit'') of
         Raised \<Rightarrow> (Throw Runtime_error, f)
       | response \<Rightarrow>
           if \<not> ok then (Ret (), f)
           else
             and_then
               (if as_string response = ''1'' then saveData F (block_path leader_id term_no blockNum) clusterSize
                else reset_state F)
               (\<lambda>_ f. (Ret (), f\<lparr>stopWatcher := True\<rparr>)) f))"

definition startBlock ::
    "fenv \<Rightarrow> nat \<Rightarrow> threads_run \<Rightarrow> nat \<Rightarrow> string \<Rightarrow> string \<Rightarrow> int \<Rightarrow> (follower, string) op" where
  "startBlock F threads run clusterSize leader_id term_no blockNum f =
     and_then (readBlock F threads leader_id term_no blockNum) (\<lambda>serializedBlock f.
       if totalTxns (cdag (f_sched f)) = 0 \<or> totalTxns (cdag (f_sched f)) > 10000
       then (Ret [], f\<lparr>stopWatcher := True\<rparr>)
       else
         and_then (catch_with () (execute_and_save F run clusterSize leader_id term_no blockNum))
           (\<lambda>_. ret serializedBlock) f)
       (f\<lparr>stopWatcher := False\<rparr>)"
end
