(* ===== verification/Node.thy ===== *)
theory Node
  imports Follower
begin

text \<open>
  The main program of a member of the cluster (\<open>BlockRAFT-distributed_node/leader/node.cpp\<close>): reading the
  output of the command line tools, the health monitors, the lease of the leader, and the main loop, each
  pass of which is a round as leader or as follower. The functions below take the text a command has
  printed.
\<close>

section \<open>State\<close>

record world =
  w_disk :: disk
  w_store :: kvmap
  w_blocks :: db
  w_crashed :: bool

record node_state =
  etcdHealth :: bool
  redpandaHealth :: bool
  isLeader :: bool
  raftTerm :: string
  LLease :: bool
  n_count :: nat
  n_world :: world
  n_leader :: leader

section \<open>Health\<close>

definition healthy_lines :: "string \<Rightarrow> nat" where
  "healthy_lines output = length (filter (\<lambda>line. contains line ''is healthy'') (getline_all (CHR 0x0A) output))"

definition isEtcdClusterHealthy :: "string \<Rightarrow> int \<Rightarrow> bool" where
  "isEtcdClusterHealthy output memCount =
     (let failedNodes = memCount - int (healthy_lines output) in failedNodes \<le> memCount div 3)"

text \<open>One pass of the loop of \<open>etcdMonitorFunc\<close>, with whether it ends, and of \<open>redpandaMonitorFunc\<close>.\<close>

definition etcdMonitor_pass :: "string \<Rightarrow> int \<Rightarrow> node_state \<Rightarrow> bool \<times> node_state" where
  "etcdMonitor_pass output memCount s =
     (if isEtcdClusterHealthy output memCount then (False, s) else (True, s\<lparr>etcdHealth := False\<rparr>))"

definition redpandaMonitor_pass :: "string \<Rightarrow> node_state \<Rightarrow> node_state" where
  "redpandaMonitor_pass output s =
     foldl (\<lambda>s word. if word = ''false'' then s\<lparr>redpandaHealth := False\<rparr> else s) s (words_of output)"

section \<open>Who leads\<close>

definition blank :: "char \<Rightarrow> bool" where
  "blank c \<longleftrightarrow> c = CHR '' '' \<or> c = CHR 0x09"

definition trim_item :: "string \<Rightarrow> string" where
  "trim_item item = rev (dropWhile blank (rev (dropWhile blank item)))"

definition findLeader :: "string \<Rightarrow> node_state \<Rightarrow> bool \<times> node_state" where
  "findLeader output s =
     (if output = [] then (False, s\<lparr>etcdHealth := False\<rparr>)
      else
        (let values = map trim_item (getline_all (CHR '','') output)
         in if length values < 7 then (False, s\<lparr>etcdHealth := False\<rparr>)
            else
              (let s' = s\<lparr>etcdHealth := True, raftTerm := values ! 6\<rparr>
               in if values ! 4 = ''true'' then (True, s'\<lparr>isLeader := True\<rparr>)
                  else (False, s'\<lparr>isLeader := False\<rparr>))))"

text \<open>One pass of the loop of \<open>leaderTTL\<close>: whether it goes on, and the key it renews under a lease.\<close>

definition leaderTTL_pass :: "fenv \<Rightarrow> string \<Rightarrow> node_state \<Rightarrow> bool \<times> node_state" where
  "leaderTTL_pass F output s =
     (if \<not> etcdHealth s then (False, s\<lparr>LLease := False\<rparr>)
      else
        (let (lead, s1) = findLeader output s
         in if lead then
              (True, s1\<lparr>n_world := (n_world s1)\<lparr>w_store :=
                 snd (etcd_put (fe_etcd F) (w_store (n_world s1)) ''CurrentLeader'' (fe_node F))\<rparr>\<rparr>)
            else (False, s1\<lparr>LLease := False\<rparr>)))"

section \<open>A round as follower\<close>

definition new_follower :: "nat \<Rightarrow> nat \<Rightarrow> disk \<Rightarrow> world \<Rightarrow> follower" where
  "new_follower txns threads d w =
     \<lparr>f_Leader = [], f_sched = new_sched txns threads (w_store w), f_tmpCache = Map.empty, f_disk = d,
      stopWatcher = False, leaderCrashed = w_crashed w\<rparr>"

text \<open>The follower goes out of scope at the end of the pass.\<close>

definition drop_follower :: "fenv \<Rightarrow> db \<Rightarrow> follower \<Rightarrow> world" where
  "drop_follower F bl f =
     \<lparr>w_disk = close_follower F (f_disk f), w_store = fstore f, w_blocks = bl, w_crashed = leaderCrashed f\<rparr>"

definition run_block ::
    "fenv \<Rightarrow> nat \<Rightarrow> threads_run \<Rightarrow> nat \<Rightarrow> string \<Rightarrow> string \<Rightarrow> string \<Rightarrow> int \<Rightarrow> db \<Rightarrow> follower \<Rightarrow> unit outcome \<times> world" where
  "run_block F threads run clusterSize mode leader_id term_no blockNum bl f =
     (case startBlock F threads run clusterSize leader_id term_no blockNum f of
        (Ret blockText, f') \<Rightarrow>
          (Ret (), drop_follower F
            (if \<not> leaderCrashed f' \<and> mode = ''validation''
             then snd (storeBlock (fe_env F) (CHR ''B'' # to_string blockNum) blockText bl) else bl) f')
      | (r, f') \<Rightarrow> (bind_outcome r (\<lambda>_. Ret ()), drop_follower F bl f'))"

definition follower_branch ::
    "fenv \<Rightarrow> nat \<Rightarrow> threads_run \<Rightarrow> nat \<Rightarrow> string \<Rightarrow> string \<Rightarrow> db \<Rightarrow> follower \<Rightarrow> unit outcome \<times> world" where
  "follower_branch F threads run clusterSize mode term_no bl f =
     (let (leader_id, f1) = getLeaderID F f
      in if leader_id = [] then (Ret (), drop_follower F bl f1)
         else
           (let f2 = f1\<lparr>leaderCrashed := False\<rparr>;
                blockNum = getLargestBlockNumber (getNamespaces F leader_id term_no f2)
            in case etcd_get (fe_etcd F) (fstore f2) (block_path leader_id term_no blockNum @ ''/run'') of
                 Raised \<Rightarrow> (Throw Runtime_error, drop_follower F bl f2)
               | response \<Rightarrow>
                   if blockNum \<ge> 0 \<and> as_string response = ''start''
                   then run_block F threads run clusterSize mode leader_id term_no blockNum bl f2
                   else (Ret (), drop_follower F bl f2)))"

definition follower_round ::
    "fenv \<Rightarrow> nat \<Rightarrow> nat \<Rightarrow> threads_run \<Rightarrow> nat \<Rightarrow> string \<Rightarrow> string \<Rightarrow> (world, unit) op" where
  "follower_round F txns threads run clusterSize mode term_no w =
     (case open_follower F (w_disk w) of
        (Ret _, d) \<Rightarrow>
          follower_branch F threads run clusterSize mode term_no (w_blocks w) (new_follower txns threads d w)
      | (r, d) \<Rightarrow> (bind_outcome r (\<lambda>_. Ret ()), w\<lparr>w_disk := d\<rparr>))"

section \<open>A pass of the main loop\<close>

text \<open>
  The leader keeps the same state database and block store as the follower; the lease thread it starts is
  \<open>leaderTTL_pass\<close>. \<open>None\<close> is a leader that waits for its followers for ever.
\<close>

record pass_input =
  p_status :: string
  p_members :: "(string list \<times> string) list"
  p_hostname :: string
  p_round :: round_input
  p_polls :: "kvmap \<Rightarrow> nat \<Rightarrow> kvmap"
  p_txns :: nat
  p_threads :: nat
  p_run :: threads_run
  p_cluster :: nat
  p_mode :: string

definition leader_view :: "node_state \<Rightarrow> leader" where
  "leader_view s =
     (n_leader s)\<lparr>gstore := w_store (n_world s), gdisk := db_content (w_disk (n_world s)) state_path,
        blocks := w_blocks (n_world s), componentCount := 0, stopMonitor := False\<rparr>"

definition leader_done :: "bool \<times> leader \<Rightarrow> node_state \<Rightarrow> node_state" where
  "leader_done = (\<lambda>(status, l) s.
     s\<lparr>n_leader := l, n_count := (if status then Suc (n_count s) else n_count s),
       n_world := (n_world s)\<lparr>w_store := gstore l, w_blocks := blocks l,
         w_disk := (if status then set_db_content state_path (gdisk l) (w_disk (n_world s)) else w_disk (n_world s))\<rparr>\<rparr>)"

definition main_pass :: "fenv \<Rightarrow> leader_env \<Rightarrow> pass_input \<Rightarrow> node_state \<Rightarrow> node_state outcome option" where
  "main_pass F V i s =
     (case snd (nodeDetails (p_hostname i) (p_members i)) of
        None \<Rightarrow> Some (Ret s)
      | Some name \<Rightarrow>
          (let (lead, s1) = findLeader (p_status i) s
           in if lead then
                map_option (\<lambda>r. bind_outcome r (\<lambda>x. Ret (leader_done x (s1\<lparr>LLease := True\<rparr>))))
                  (leaderProtocol (fe_env F) (fe_blocks F) (fe_codec F) V (fe_etcd F) (p_polls i)
                    ((p_round i)\<lparr>r_raftTerm := raftTerm s1, r_count := n_count s1\<rparr>) (leader_view s1))
              else
                (let (r, w) = follower_round F (p_txns i) (p_threads i) (p_run i) (p_cluster i) (p_mode i)
                       (raftTerm s1) (n_world s1)
                 in Some (bind_outcome r (\<lambda>_. Ret (s1\<lparr>n_world := w\<rparr>))))))"

definition main_goes_on :: "nat \<Rightarrow> node_state \<Rightarrow> bool" where
  "main_goes_on blocksCount s \<longleftrightarrow> etcdHealth s \<and> redpandaHealth s \<and> n_count s < blocksCount"

text \<open>The main loop over the inputs of its passes, up to the first failure or until its condition fails.\<close>

fun main_loop :: "fenv \<Rightarrow> leader_env \<Rightarrow> nat \<Rightarrow> pass_input list \<Rightarrow> node_state \<Rightarrow> node_state outcome option" where
  "main_loop F V blocksCount [] s = Some (Ret s)"
| "main_loop F V blocksCount (i # is) s =
     (if main_goes_on blocksCount s
      then (case main_pass F V i s of
              Some (Ret s') \<Rightarrow> main_loop F V blocksCount is s'
            | r \<Rightarrow> r)
      else Some (Ret s))"
end
