(* ===== verification/Follower_Facts.thy ===== *)
theory Follower_Facts
  imports Follower Cluster_Execution
begin

text \<open>
  What a follower does to the state tree (nothing it should), what its transactions read (nothing), and how
  it finds the newest block.
\<close>

section \<open>The state on disk\<close>

definition unlocks :: "fenv \<Rightarrow> bool" where
  "unlocks F \<longleftrightarrow> rocks_law (fe_rocks F) \<and> lawful (fe_env F)"

lemma unlocksD: "unlocks F \<Longrightarrow> rocks_law (fe_rocks F)" "unlocks F \<Longrightarrow> lawful (fe_env F)"
  by (simp_all add: unlocks_def)

lemma state_tmp [simp]: "state_path \<noteq> tmp_path" "tmp_path \<noteq> state_path"
  by (simp_all add: state_path_def tmp_path_def)

text \<open>A follower holds its own state open, so the second object of \<open>saveData\<close> cannot be made.\<close>

lemma saveData_fails:
  "unlocks F \<Longrightarrow> state_path \<in> locked (f_disk f) \<Longrightarrow> saveData F path clusterSize f = (Throw Runtime_error, f)"
  by (simp add: saveData_def GlobalState_locked unlocksD)

lemma try_sched_frame:
  "try_sched a b r f = (r', f') \<Longrightarrow> f_disk f' = f_disk f \<and> stopWatcher f' = stopWatcher f"
  by (auto simp: try_sched_def split: outcome.splits)

lemma readBlock_frame:
  "readBlock F threads l t n f = (r, f') \<Longrightarrow> f_disk f' = f_disk f \<and> stopWatcher f' = stopWatcher f"
  by (auto simp: readBlock_def split: response.splits dest: try_sched_frame)

lemma getComponents_frame:
  "getComponents F l t n f = (r, f') \<Longrightarrow> f_disk f' = f_disk f \<and> stopWatcher f' = stopWatcher f"
  by (auto simp: getComponents_def split: response.splits dest: try_sched_frame)

lemma executeTransactions_frame:
  "executeTransactions F run f = (r, f') \<Longrightarrow> f_disk f' = f_disk f \<and> stopWatcher f' = stopWatcher f"
  by (auto simp: executeTransactions_def split: outcome.splits)

lemma and_then_cases:
  assumes "and_then m h s = (r, t)"
  obtains a s' where "m s = (Ret a, s')" "h a s' = (r, t)"
  | r' where "m s = (r', t)" "\<And>a. r' \<noteq> Ret a" "\<And>b. r \<noteq> Ret b"
proof -
  obtain r' s' where m: "m s = (r', s')" by fastforce
  show thesis
  proof (cases r')
    case (Ret a) then show thesis using that(1) [of a s'] m assms by (simp add: and_then_def)
  qed (use that(2) [of r'] m assms in \<open>auto simp: and_then_def\<close>)
qed

definition says_commit :: "fenv \<Rightarrow> string \<Rightarrow> string \<Rightarrow> int \<Rightarrow> follower \<Rightarrow> bool" where
  "says_commit F l t n f \<longleftrightarrow> as_string (etcd_get (fe_etcd F) (fstore f) (block_path l t n @ ''/commit'')) = ''1''"

text \<open>What the last part of a block leaves on disk.\<close>

definition disk_kept :: "fenv \<Rightarrow> bool \<Rightarrow> follower \<Rightarrow> follower \<Rightarrow> bool" where
  "disk_kept F commit f f' \<longleftrightarrow>
     f_disk f' = f_disk f \<and> (commit \<longrightarrow> stopWatcher f' = stopWatcher f) \<or>
     \<not> commit \<and> db_content (f_disk f') state_path = with_root (fe_env F) Map.empty \<and>
       locked (f_disk f') = locked (f_disk f) \<and> (\<forall>p. p \<noteq> state_path \<longrightarrow> dirs (f_disk f') p = dirs (f_disk f) p)"

lemma execute_and_save_disk:
  assumes F: "unlocks F" and l: "state_path \<in> locked (f_disk f)"
    and e: "execute_and_save F run clusterSize l t n f = (r, f')"
  shows "disk_kept F (says_commit F l t n f') f f'"
  using e unfolding execute_and_save_def
proof (cases rule: and_then_cases)
  case (1 u f1)
  have f1: "f_disk f1 = f_disk f" "stopWatcher f1 = stopWatcher f" using getComponents_frame [OF 1(1)] by simp_all
  from 1(2) show ?thesis
  proof (cases rule: and_then_cases)
    case (1 ok f2)
    have f2: "f_disk f2 = f_disk f" "stopWatcher f2 = stopWatcher f"
      using executeTransactions_frame [OF 1(1)] f1 by simp_all
    let ?resp = "etcd_get (fe_etcd F) (fstore f2) (block_path l t n @ ''/commit'')"
    show ?thesis
    proof (cases "?resp = Raised \<or> \<not> ok")
      case True
      then have "f' = f2" using 1(2) by (auto split: response.splits)
      then show ?thesis using f2 by (simp add: disk_kept_def)
    next
      case False
      then have ok: "ok" and rest: "and_then (if as_string ?resp = ''1'' then saveData F (block_path l t n) clusterSize
            else reset_state F) (\<lambda>_ f. (Ret (), f\<lparr>stopWatcher := True\<rparr>)) f2 = (r, f')"
        using 1(2) by (auto split: response.splits)
      show ?thesis
      proof (cases "as_string ?resp = ''1''")
        case True
        then have "f' = f2" using rest saveData_fails [OF F, of f2] l f2 by (simp add: and_then_def)
        then show ?thesis using f2 by (simp add: disk_kept_def)
      next
        case False
        obtain w where w: "resetTree (fe_rocks F) (fe_env F) state_path (f_disk f2) = (Ret (), w)"
          "locked w = insert state_path (locked (f_disk f2))" "db_content w state_path = with_root (fe_env F) Map.empty"
          "\<And>q. q \<noteq> state_path \<Longrightarrow> dirs w q = dirs (f_disk f2) q"
          by (rule reset_effect [OF unlocksD [OF F]]) blast
        have f': "f' = f2\<lparr>f_disk := w, stopWatcher := True\<rparr>"
          using rest False w(1) by (simp add: reset_state_def and_then_def)
        have "\<not> says_commit F l t n f'" using False by (simp add: says_commit_def f')
        then show ?thesis using w f2 l by (auto simp: disk_kept_def f' insert_absorb)
      qed
    qed
  next
    case (2 r')
    then show ?thesis using executeTransactions_frame [OF 2(1)] f1 by (simp add: disk_kept_def)
  qed
next
  case (2 r')
  then show ?thesis using getComponents_frame [OF 2(1)] by (simp add: disk_kept_def)
qed

lemma catch_state: "snd (catch_with b m s) = snd (m s)"
  by (simp add: catch_with_def split: prod.split outcome.split)

lemma startBlock_disk:
  assumes F: "unlocks F" and l: "state_path \<in> locked (f_disk f)"
    and e: "startBlock F threads run clusterSize l t n f = (r, f')"
  shows "f_disk f' = f_disk f \<or> \<not> says_commit F l t n f' \<and>
       db_content (f_disk f') state_path = with_root (fe_env F) Map.empty \<and>
       locked (f_disk f') = locked (f_disk f) \<and> (\<forall>p. p \<noteq> state_path \<longrightarrow> dirs (f_disk f') p = dirs (f_disk f) p)"
  using e unfolding startBlock_def
proof (cases rule: and_then_cases)
  case (1 sb f1)
  have f1: "f_disk f1 = f_disk f" using readBlock_frame [OF 1(1)] by simp
  show ?thesis
  proof (cases "totalTxns (cdag (f_sched f1)) = 0 \<or> totalTxns (cdag (f_sched f1)) > 10000")
    case True
    then have "f' = f1\<lparr>stopWatcher := True\<rparr>" using 1(2) by auto
    then show ?thesis using f1 by simp
  next
    case False
    obtain r2 f2 where es: "execute_and_save F run clusterSize l t n f1 = (r2, f2)" by fastforce
    have "snd (and_then (catch_with () (execute_and_save F run clusterSize l t n)) (\<lambda>_. ret sb) f1) = f2"
      by (auto simp: and_then_def es catch_with_def split: outcome.split)
    then have f': "f' = f2" using 1(2) False by (auto split: if_splits)
    have "disk_kept F (says_commit F l t n f2) f1 f2"
      by (rule execute_and_save_disk [OF F _ es]) (simp add: f1 l)
    then show ?thesis by (auto simp: disk_kept_def f1 f')
  qed
next
  case (2 r')
  then show ?thesis using readBlock_frame [OF 2(1)] by simp
qed

section \<open>What the transactions read\<close>

definition bare :: "db \<Rightarrow> bool" where
  "bare m \<longleftrightarrow> dom m \<subseteq> {root_key}"

lemma bare_reads_nothing: "bare m \<Longrightarrow> getValue E m = (\<lambda>_. [])"
proof
  fix k assume "bare m"
  then have "m (computeHash E k) = None" by (auto simp: bare_def domIff)
  then show "getValue E m k = []" by (simp add: getValue_def getNode_def no_node_def)
qed

lemma bare_with_root: "bare m \<Longrightarrow> bare (with_root E m)"
  by (auto simp: bare_def with_root_def split: option.split)

text \<open>
  \<open>tmp\<close> is open before the state is asked to copy itself into \<open>tmp\<close>'s database, so the copy is refused.
\<close>

lemma open_follower_effect:
  assumes F: "unlocks F" and l: "state_path \<notin> locked w" "tmp_path \<notin> locked w"
  obtains w' where "open_follower F w = (Ret False, w')" "locked w' = insert tmp_path (insert state_path (locked w))"
    "db_content w' state_path = with_root (fe_env F) (db_content w state_path)"
    "db_content w' tmp_path = with_root (fe_env F) (db_content w tmp_path)"
proof -
  obtain w1 where w1: "GlobalState (fe_rocks F) (fe_env F) state_path False w = (Ret (), w1)"
    "locked w1 = insert state_path (locked w)"
    "db_content w1 state_path = with_root (fe_env F) (if False then Map.empty else db_content w state_path)"
    "\<And>q. q \<noteq> state_path \<Longrightarrow> dirs w1 q = dirs w q"
    by (rule GlobalState_opens [where fresh = False, OF unlocksD [OF F] l(1)]) blast
  have l1: "tmp_path \<notin> locked w1" using l(2) w1(2) by simp
  obtain w2 where w2: "GlobalState (fe_rocks F) (fe_env F) tmp_path False w1 = (Ret (), w2)"
    "locked w2 = insert tmp_path (locked w1)"
    "db_content w2 tmp_path = with_root (fe_env F) (if False then Map.empty else db_content w1 tmp_path)"
    "\<And>q. q \<noteq> tmp_path \<Longrightarrow> dirs w2 q = dirs w1 q"
    by (rule GlobalState_opens [where fresh = False, OF unlocksD [OF F] l1]) blast
  have "duplicateState (fe_rocks F) (fe_env F) state_path tmp_path w2 = (False, w2)"
    by (rule duplicate_locked [OF unlocksD(1) [OF F]]) (simp add: w2(2))
  then show thesis
    using w1 w2 by (intro that [of w2]) (simp_all add: open_follower_def, simp_all add: db_content_def)
qed

lemma executeTransactions_bare:
  "bare (db_content (f_disk f) tmp_path) \<Longrightarrow> executeTransactions F run f = executeTransactions F (\<lambda>_. run (\<lambda>_. [])) f"
  by (simp add: executeTransactions_def bare_reads_nothing)

lemma and_then_cong:
  assumes "m s = m' s" "\<And>a s'. m s = (Ret a, s') \<Longrightarrow> h a s' = h' a s'"
  shows "and_then m h s = and_then m' h' s"
  using assms by (auto simp: and_then_def split: prod.split outcome.split)

lemma startBlock_bare:
  assumes "bare (db_content (f_disk f) tmp_path)"
  shows "startBlock F threads run clusterSize l t n f = startBlock F threads (\<lambda>_. run (\<lambda>_. [])) clusterSize l t n f"
proof -
  have ex: "execute_and_save F run clusterSize l t n f2 = execute_and_save F (\<lambda>_. run (\<lambda>_. [])) clusterSize l t n f2"
    if "f_disk f2 = f_disk f" for f2
    unfolding execute_and_save_def
  proof (intro and_then_cong HOL.refl)
    fix u f3 assume "getComponents F l t n f2 = (Ret u, f3)"
    then have "f_disk f3 = f_disk f" using getComponents_frame that by simp
    then show "executeTransactions F run f3 = executeTransactions F (\<lambda>_. run (\<lambda>_. [])) f3"
      using assms by (intro executeTransactions_bare) simp
  qed
  show ?thesis
    unfolding startBlock_def
  proof (rule and_then_cong [OF HOL.refl])
    fix sb f2 assume rb: "readBlock F threads l t n (f\<lparr>stopWatcher := False\<rparr>) = (Ret sb, f2)"
    have "f_disk f2 = f_disk f" using readBlock_frame [OF rb] by simp
    then have "execute_and_save F run clusterSize l t n f2 = execute_and_save F (\<lambda>_. run (\<lambda>_. [])) clusterSize l t n f2"
      by (rule ex)
    then have "catch_with () (execute_and_save F run clusterSize l t n) f2 =
        catch_with () (execute_and_save F (\<lambda>_. run (\<lambda>_. [])) clusterSize l t n) f2"
      by (simp only: catch_with_def)
    then show "(if totalTxns (cdag (f_sched f2)) = 0 \<or> totalTxns (cdag (f_sched f2)) > 10000
         then (Ret [], f2\<lparr>stopWatcher := True\<rparr>)
         else and_then (catch_with () (execute_and_save F run clusterSize l t n)) (\<lambda>_. ret sb) f2) =
        (if totalTxns (cdag (f_sched f2)) = 0 \<or> totalTxns (cdag (f_sched f2)) > 10000
         then (Ret [], f2\<lparr>stopWatcher := True\<rparr>)
         else and_then (catch_with () (execute_and_save F (\<lambda>_. run (\<lambda>_. [])) clusterSize l t n)) (\<lambda>_. ret sb) f2)"
      by (simp only: and_then_def)
  qed
qed

section \<open>Finding the newest block\<close>

lemma largest_max: "getLargestBlockNumber ns = Max (insert (- 1) {i. \<exists>k\<in>set ns. key_block k = Some i})"
proof -
  have fin: "finite {i. \<exists>k\<in>set ns. key_block k = Some i}" for ns
    by (rule finite_subset [of _ "the ` key_block ` set ns"]) force+
  have "fold (\<lambda>k m. case key_block k of Some i \<Rightarrow> max m i | None \<Rightarrow> m) ns a =
      Max (insert a {i. \<exists>k\<in>set ns. key_block k = Some i})" for a
  proof (induction ns arbitrary: a)
    case (Cons k ns)
    let ?S = "{i. \<exists>k\<in>set ns. key_block k = Some i}"
    show ?case
    proof (cases "key_block k")
      case None
      then have "{i. \<exists>k\<in>set (k # ns). key_block k = Some i} = ?S" by auto
      then show ?thesis using Cons None by simp
    next
      case (Some i)
      then have "{i. \<exists>k\<in>set (k # ns). key_block k = Some i} = insert i ?S" by auto
      moreover have "Max (insert (max a i) ?S) = Max (insert a (insert i ?S))"
        using fin [of ns] by (cases "?S = {}") (simp_all add: max.assoc max.commute)
      ultimately show ?thesis using Cons Some by simp
    qed
  qed simp
  then show ?thesis by (simp add: getLargestBlockNumber_def)
qed

lemma key_block_path:
  assumes "CHR ''/'' \<notin> set l" "CHR ''/'' \<notin> set t" "in_int n"
  shows "key_block (block_path l t n @ CHR ''/'' # rest) = Some n"
proof -
  have n: "CHR ''/'' \<notin> set (to_string n)"
    using to_string_chars [of "CHR ''/''" n] by (auto simp: isdigit_def)
  have "getline_all (CHR ''/'') (block_path l t n @ CHR ''/'' # rest) = l # t # to_string n # getline_all (CHR ''/'') rest"
    using assms(1,2) n by (simp add: block_path_def getline_all_segment)
  then show ?thesis using assms(3) by (simp add: key_block_def)
qed

section \<open>The thread count read too early\<close>

text \<open>With a thread count of 0 no thread fills the matrix, and no transaction waits for another.\<close>

lemma no_threads_no_graph:
  "createfollower C b 0 d = Ret (d\<lparr>threadCount := 0, CurrentTransactions := CurrentTransactions d @ extract_all C (b_transactions b) 0,
     totalTxns := length (b_transactions b), completedTxns := int (length (b_transactions b)),
     adjacencyMatrix := resize (length (b_transactions b)) (replicate (length (b_transactions b)) 0) (adjacencyMatrix d),
     inDegree := Some (replicate (length (b_transactions b)) (- 1))\<rparr>)"
  by (simp add: createfollower_def Let_def)
end
