(* ===== verification/Follower_Properties.thy ===== *)
theory Follower_Properties
  imports Node Follower_Facts Cluster_Round "HOL-Library.Char_ord" "HOL-Library.List_Lexorder"
begin

text \<open>
  The properties of a follower and of the main program of a member: that a block is run as the properties
  of the cluster assume, what becomes of the state tree, how the newest block is found, and how the health
  of the cluster is judged.
\<close>

section \<open>Running a block\<close>

lemma extractBlock_store: "extractBlock C K threads d s = Ret s' \<Longrightarrow> store s' = store s"
  by (auto simp: extractBlock_def bind_outcome_Ret_iff split: option.splits)

text \<open>Nothing but the threads writes to the store.\<close>

lemma each_keeps:
  assumes "\<And>x s s'. f x s = Ret s' \<Longrightarrow> P s' = P s" "each f xs s = Ret s'"
  shows "P s' = P s"
  using assms(2) by (induction xs arbitrary: s) (auto simp: bind_outcome_Ret_iff dest: assms(1))

lemma ExtractComponents_store: "ExtractComponents M d i s = Ret s' \<Longrightarrow> store s' = store s"
  by (auto simp: ExtractComponents_def bind_outcome_Ret_iff take_component_def CheckForNewComponents_def
      split: option.splits if_splits dest!: each_keeps [where P = store, rotated])

lemma readBlock_store: "readBlock F threads l t n f = (r, f') \<Longrightarrow> fstore f' = fstore f"
  by (auto simp: readBlock_def try_sched_def split: response.splits outcome.splits dest: extractBlock_store)

lemma getComponents_store: "getComponents F l t n f = (r, f') \<Longrightarrow> fstore f' = fstore f"
  by (auto simp: getComponents_def try_sched_def bind_outcome_Ret_iff split: response.splits outcome.splits
      dest: ExtractComponents_store)

definition member_of :: "fenv \<Rightarrow> site \<Rightarrow> bool" where
  "member_of F S \<longleftrightarrow> s_codec S = fe_codec F \<and> s_messages S = fe_messages F"

text \<open>The threads make a run of the step relation.\<close>

definition runs_threads :: "site \<Rightarrow> threads_run \<Rightarrow> bool" where
  "runs_threads S run \<longleftrightarrow>
     (\<forall>gv c. \<exists>st crashed. run gv c = Ret (fs_sched st, crashed) \<and>
        follower_reach S \<lparr>fs_sched = c, fs_held = (\<lambda>t. None), fs_log = []\<rparr> st)"

lemma executes:
  assumes "runs_threads S run"
  obtains st crashed where "follower_reach S (follower_start (f_sched f)) st"
    "executeTransactions F run f =
      (Ret (flag (fs_sched st)), f\<lparr>f_sched := fs_sched st, leaderCrashed := (leaderCrashed f \<or> crashed)\<rparr>)"
proof -
  let ?gv = "getValue (fe_env F) (db_content (f_disk f) tmp_path)"
  obtain st crashed where "run ?gv (start_schedule (f_sched f)) = Ret (fs_sched st, crashed)"
    "follower_reach S (follower_start (f_sched f)) st"
    using assms unfolding runs_threads_def follower_start_def by blast
  then show thesis by (intro that [of st crashed]) (simp_all add: executeTransactions_def)
qed

lemma saveData_sched: "saveData F path cs f = (r, f') \<Longrightarrow> f_sched f' = f_sched f"
  by (auto simp: saveData_def replace_state_def Let_def split: if_splits outcome.splits prod.splits)

lemma reset_sched: "reset_state F f = (r, f') \<Longrightarrow> f_sched f' = f_sched f"
  by (auto simp: reset_state_def split: prod.splits)

lemma save_keeps_sched:
  assumes "(if c then saveData F path cs else reset_state F) f = (r, f')"
  shows "f_sched f' = f_sched f"
  using assms by (auto split: if_splits dest: saveData_sched reset_sched)

lemma after_run_sched:
  assumes "executeTransactions F run f = (Ret ok, f1)" "getComponents F l t n f0 = (Ret (), f)"
  shows "\<exists>f2 r. catch_with () (execute_and_save F run cs l t n) f0 = (r, f2) \<and> f_sched f2 = f_sched f1"
proof -
  obtain r f2 where e: "execute_and_save F run cs l t n f0 = (r, f2)" by fastforce
  let ?resp = "etcd_get (fe_etcd F) (fstore f1) (block_path l t n @ ''/commit'')"
  have "f_sched f2 = f_sched f1"
  proof (cases "?resp = Raised \<or> \<not> ok")
    case True
    then show ?thesis using e assms by (auto simp: execute_and_save_def and_then_def split: response.splits)
  next
    case False
    obtain r' f' where s: "(if as_string ?resp = ''1'' then saveData F (block_path l t n) cs else reset_state F) f1 = (r', f')"
      by fastforce
    have "f_sched f2 = f_sched f'"
      using e assms False s by (auto simp: execute_and_save_def and_then_def split: response.splits outcome.splits if_splits)
    then show ?thesis using save_keeps_sched [OF s] by simp
  qed
  then show ?thesis by (cases r) (auto simp: catch_with_def e)
qed

lemma startBlock_store:
  assumes "\<And>gv c c' x. run gv c = Ret (c', x) \<Longrightarrow> store c' = store c"
  shows "fstore (snd (startBlock F threads run cs l t n f)) = fstore f"
proof -
  have ex: "fstore f' = fstore f" if "executeTransactions F run f = (r, f')" for f f' r
    using that assms by (auto simp: executeTransactions_def start_schedule_def split: outcome.splits dest!: assms)
  have last: "fstore f' = fstore f" if "execute_and_save F run cs l t n f = (r, f')" for f f' r
    using that unfolding execute_and_save_def
  proof (cases rule: and_then_cases)
    case (1 u f1)
    note gc = getComponents_store [OF 1(1)]
    from 1(2) show ?thesis
    proof (cases rule: and_then_cases)
      case (1 ok f2)
      then have "f_sched f' = f_sched f2"
        by (auto simp: and_then_def split: response.splits if_splits prod.splits outcome.splits dest: saveData_sched reset_sched)
      then show ?thesis using ex [OF 1(1)] gc by simp
    next
      case 2 then show ?thesis using ex [OF 2(1)] gc by simp
    qed
  next
    case 2 then show ?thesis using getComponents_store [OF 2(1)] by simp
  qed
  obtain r f1 where rb: "readBlock F threads l t n (f\<lparr>stopWatcher := False\<rparr>) = (r, f1)" by fastforce
  obtain r2 f2 where e: "execute_and_save F run cs l t n f1 = (r2, f2)" by fastforce
  show ?thesis
    using readBlock_store [OF rb] last [OF e]
    by (cases r; cases r2) (simp_all add: startBlock_def and_then_def rb catch_with_def e)
qed


section \<open>A member for the witnesses\<close>

definition sample_rocks :: rocks where
  "sample_rocks =
     \<lparr>open_db = (\<lambda>w p. if p \<in> locked w then (False, w)
         else (True, w\<lparr>dirs := (dirs w)(p \<mapsto> db_content w p), locked := insert p (locked w)\<rparr>)),
      close_db = (\<lambda>w p. w\<lparr>locked := locked w - {p}\<rparr>),
      destroy_db = (\<lambda>w p. if p \<in> locked w then w else w\<lparr>dirs := (dirs w)(p := None)\<rparr>),
      entries = (\<lambda>m. map (\<lambda>k. (k, the (m k))) (sorted_list_of_set (dom m)))\<rparr>"

lemma sample_rocks_law [simp]: "rocks_law sample_rocks"
proof -
  have "map_of (map (\<lambda>k. (k, the (m k))) (sorted_list_of_set (dom m))) = m" if "finite (dom m)" for m :: db
  proof
    fix k
    have "k \<in> set (sorted_list_of_set (dom m)) \<longleftrightarrow> m k \<noteq> None" using that by auto
    then show "map_of (map (\<lambda>k. (k, the (m k))) (sorted_list_of_set (dom m))) k = m k"
      by (cases "m k") (auto simp: map_of_map_restrict restrict_map_def)
  qed
  then show ?thesis by (simp add: rocks_law_def sample_rocks_def comp_def)
qed

definition sample_fenv :: fenv where
  "sample_fenv =
     \<lparr>fe_rocks = sample_rocks, fe_env = sample_env, fe_etcd = sample_etcd, fe_ls = (\<lambda>m p. Some []),
      fe_codec = sample_codec, fe_blocks = sample_blocks, fe_messages = sample_messages, fe_node = ''s1''\<rparr>"

definition idle_run :: threads_run where
  "idle_run gv c = Ret (c, False)"

definition block_store :: kvmap where
  "block_store = [''s0/2/7/block'' \<mapsto> enc_block sample_block, ''s0/2/7/components'' \<mapsto> ''t'', ''s0/2/7/commit'' \<mapsto> ''1'']"

definition sample_disk :: disk where
  "sample_disk = \<lparr>dirs = [state_path \<mapsto> [''k'' \<mapsto> ''v'']], locked = {}\<rparr>"

definition sample_follower :: follower where
  "sample_follower =
     \<lparr>f_Leader = ''s0'', f_sched = new_sched 0 0 block_store, f_tmpCache = Map.empty,
      f_disk = snd (open_follower sample_fenv sample_disk), stopWatcher = False, leaderCrashed = False\<rparr>"

lemma sample_fenv_simps [simp]:
  "fe_rocks sample_fenv = sample_rocks" "fe_env sample_fenv = sample_env" "fe_etcd sample_fenv = sample_etcd"
  "fe_codec sample_fenv = sample_codec" "fe_blocks sample_fenv = sample_blocks" "fe_messages sample_fenv = sample_messages"
  "fe_node sample_fenv = ''s1''"
  by (simp_all add: sample_fenv_def)

lemma sample_unlocks [simp]: "unlocks sample_fenv"
  by (simp add: unlocks_def)

lemma sample_idle: "runs_threads sample_site idle_run"
  unfolding runs_threads_def idle_run_def by (metis f_refl fstate.select_convs(1))

lemma to_string_7: "to_string 7 = ''7''"
  by (simp add: to_string_def show_nat.simps digit_char_def char_of_eq_iff)

lemma block_store_keys:
  "block_store (block_path ''s0'' ''2'' 7 @ ''/block'') = Some (enc_block sample_block)"
  "block_store (block_path ''s0'' ''2'' 7 @ ''/components'') = Some ''t''"
  "block_store (block_path ''s0'' ''2'' 7 @ ''/commit'') = Some ''1''"
  by (simp_all add: block_path_def to_string_7 block_store_def)

lemma node_number_s1: "node_number ''s1'' = Ret 1"
  using stoi_to_string [of 1] by (simp add: node_number_def to_string_1 in_int_def)


section \<open>The state tree of a follower\<close>

text \<open>C4: A follower never applies a block to its state tree: while a block is run, the databases on disk
  stay as they are, and at the end, when the commit key says 1, they are still the same, because the
  second object \<open>saveData\<close> makes over the state's database cannot open what the follower itself has open,
  and the exception is swallowed. When the key does not say 1 the whole tree is thrown away. So after a
  block the disk is unchanged or the tree has only its root.\<close>

theorem follower_never_commits:
  assumes "rocks_law (fe_rocks F)" "lawful (fe_env F)" "state_path \<in> locked (f_disk f)"
    and "startBlock F threads run clusterSize l t n f = (r, f')"
  shows "f_disk f' = f_disk f \<or>
    as_string (etcd_get (fe_etcd F) (fstore f') (block_path l t n @ ''/commit'')) \<noteq> ''1'' \<and>
    db_content (f_disk f') state_path = with_root (fe_env F) Map.empty"
  using startBlock_disk [OF _ assms(3,4)] assms(1,2) by (auto simp: unlocks_def says_commit_def)

lemma sample_follower_locked: "state_path \<in> locked (f_disk sample_follower)"
proof -
  obtain w' where "open_follower sample_fenv sample_disk = (Ret False, w')"
    "locked w' = insert tmp_path (insert state_path (locked sample_disk))"
    by (rule open_follower_effect [OF sample_unlocks, of sample_disk]) (simp_all add: sample_disk_def)
  then show ?thesis by (simp add: sample_follower_def)
qed

lemma sample_follower_store:
  "fstore (snd (startBlock sample_fenv 2 idle_run 1 ''s0'' ''2'' 7 sample_follower)) = block_store"
  using startBlock_store [of idle_run sample_fenv 2 1 "''s0''" "''2''" 7 sample_follower]
  by (simp add: idle_run_def sample_follower_def new_sched_def)

theorem follower_never_commits_witness:
  "f_disk (snd (startBlock sample_fenv 2 idle_run 1 ''s0'' ''2'' 7 sample_follower)) = f_disk sample_follower"
  using follower_never_commits [OF _ _ sample_follower_locked, of sample_fenv 2 idle_run 1 "''s0''" "''2''" 7]
    sample_follower_store block_store_keys(3)
  by (cases "startBlock sample_fenv 2 idle_run 1 ''s0'' ''2'' 7 sample_follower") (simp add: etcd_lawD)

section \<open>Rounds as follower\<close>

definition disk_step :: "fenv \<Rightarrow> disk \<Rightarrow> disk \<Rightarrow> bool" where
  "disk_step F d d' \<longleftrightarrow> d' = d \<or>
     db_content d' state_path = with_root (fe_env F) Map.empty \<and> locked d' = locked d \<and>
     (\<forall>p. p \<noteq> state_path \<longrightarrow> dirs d' p = dirs d p)"

lemma run_block_disk:
  assumes F: "unlocks F" and l: "state_path \<in> locked (f_disk f)"
    and e: "run_block F threads run clusterSize mode lid t n bl f = (r, w')"
  obtains f' :: follower where "w_disk w' = close_follower F (f_disk f')" "disk_step F (f_disk f) (f_disk f')"
proof -
  obtain r2 f' where s: "startBlock F threads run clusterSize lid t n f = (r2, f')" by fastforce
  have "w_disk w' = close_follower F (f_disk f')"
    using e s by (cases r2) (auto simp: run_block_def drop_follower_def)
  moreover have "disk_step F (f_disk f) (f_disk f')"
    using startBlock_disk [OF F l s] by (auto simp: disk_step_def)
  ultimately show thesis by (rule that)
qed

lemma getLeaderID_frame: "getLeaderID F f = (v, f') \<Longrightarrow> f_disk f' = f_disk f"
  by (auto simp: getLeaderID_def split: response.splits)

lemma branch_disk:
  assumes F: "unlocks F" and l: "state_path \<in> locked (f_disk f)"
    and e: "follower_branch F threads run clusterSize mode t bl f = (r, w')"
  obtains d' where "w_disk w' = close_follower F d'" "disk_step F (f_disk f) d'"
proof -
  obtain lid f1 where lid: "getLeaderID F f = (lid, f1)" by fastforce
  note fr = getLeaderID_frame [OF lid]
  let ?f2 = "f1\<lparr>leaderCrashed := False\<rparr>"
  have l2: "state_path \<in> locked (f_disk ?f2)" using l fr by simp
  consider "w_disk w' = close_follower F (f_disk f)"
    | n where "run_block F threads run clusterSize mode lid t n bl ?f2 = (r, w')"
    using e fr by (auto simp: follower_branch_def lid Let_def drop_follower_def split: if_splits response.splits)
  then show thesis
  proof cases
    case 1
    then show thesis by (rule that) (simp add: disk_step_def)
  next
    case (2 n)
    obtain f' :: follower where "w_disk w' = close_follower F (f_disk f')" "disk_step F (f_disk ?f2) (f_disk f')"
      by (rule run_block_disk [OF F l2 2]) blast
    then show thesis using fr by (intro that [of "f_disk f'"]) simp_all
  qed
qed

lemma branch_bare:
  assumes b: "bare (db_content (f_disk f) tmp_path)"
  shows "follower_branch F threads run clusterSize mode t bl f =
    follower_branch F threads (\<lambda>_. run (\<lambda>_. [])) clusterSize mode t bl f"
proof -
  obtain lid f1 where lid: "getLeaderID F f = (lid, f1)" by fastforce
  have "run_block F threads run clusterSize mode lid t n bl (f1\<lparr>leaderCrashed := False\<rparr>) =
      run_block F threads (\<lambda>_. run (\<lambda>_. [])) clusterSize mode lid t n bl (f1\<lparr>leaderCrashed := False\<rparr>)" for n
    unfolding run_block_def
    by (subst startBlock_bare [where run = run]) (simp_all add: getLeaderID_frame [OF lid] b)
  then show ?thesis by (simp only: follower_branch_def lid Let_def prod.case)
qed

text \<open>C3: A follower reads nothing and keeps nothing. In a round as follower, started with neither database
  open and no values in \<open>globalState_tmp\<close>, the transactions of the block are executed over the empty state
  whatever the state tree holds: the round is the one in which every lookup gives the empty string,
  because the copy of the tree into \<open>globalState_tmp\<close> is refused while \<open>tmp\<close> has it open. After the round
  neither database is open, \<open>globalState_tmp\<close> still has no values, and the state tree is what it was or
  empty. So the same holds for every later round.\<close>

theorem follower_round_state:
  assumes "rocks_law (fe_rocks F)" "lawful (fe_env F)"
    and "state_path \<notin> locked (w_disk w)" "tmp_path \<notin> locked (w_disk w)" "bare (db_content (w_disk w) tmp_path)"
    and "follower_round F txns threads run clusterSize mode term_no w = (r, w')"
  shows "follower_round F txns threads (\<lambda>_. run (\<lambda>_. [])) clusterSize mode term_no w = (r, w') \<and>
    state_path \<notin> locked (w_disk w') \<and> tmp_path \<notin> locked (w_disk w') \<and> bare (db_content (w_disk w') tmp_path) \<and>
    (db_content (w_disk w') state_path = with_root (fe_env F) (db_content (w_disk w) state_path) \<or>
     db_content (w_disk w') state_path = with_root (fe_env F) Map.empty)"
proof -
  have F: "unlocks F" using assms(1,2) by (simp add: unlocks_def)
  obtain d where d: "open_follower F (w_disk w) = (Ret False, d)"
    "locked d = insert tmp_path (insert state_path (locked (w_disk w)))"
    "db_content d state_path = with_root (fe_env F) (db_content (w_disk w) state_path)"
    "db_content d tmp_path = with_root (fe_env F) (db_content (w_disk w) tmp_path)"
    by (rule open_follower_effect [OF F assms(3,4)]) blast
  let ?f = "new_follower txns threads d w"
  have f: "f_disk ?f = d" by (simp add: new_follower_def)
  have b: "bare (db_content d tmp_path)" using assms(5) by (simp add: d(4) bare_with_root)
  have br: "follower_branch F threads run clusterSize mode term_no (w_blocks w) ?f = (r, w')"
    using assms(6) by (simp add: follower_round_def d(1))
  obtain d' where d': "w_disk w' = close_follower F d'" "disk_step F d d'"
    by (rule branch_disk [OF F _ br]) (auto simp: f d(2))
  have "follower_round F txns threads (\<lambda>_. run (\<lambda>_. [])) clusterSize mode term_no w = (r, w')"
    using br branch_bare [of ?f F threads run clusterSize mode term_no "w_blocks w"] b f
    by (simp add: follower_round_def d(1))
  moreover have "db_content (close_follower F d') p = db_content d' p" for p
    using assms(1) by (simp add: close_follower_def)
  moreover have "bare (db_content d' tmp_path)" using d'(2) b by (auto simp: disk_step_def db_content_def)
  moreover have "locked (close_follower F d') = locked d' - {tmp_path} - {state_path}"
    using assms(1) by (simp add: close_follower_def rocksD)
  ultimately show ?thesis using d' d(3) by (auto simp: disk_step_def)
qed

definition sample_world :: world where
  "sample_world = \<lparr>w_disk = sample_disk, w_store = block_store(''CurrentLeader'' \<mapsto> ''s0'', ''s0/2/7/run'' \<mapsto> ''start''),
     w_blocks = Map.empty, w_crashed = False\<rparr>"

definition member_fenv :: fenv where
  "member_fenv = sample_fenv\<lparr>fe_ls := (\<lambda>m p. Some [''s0/2/7/block'', ''s0/2/7/run''])\<rparr>"

theorem follower_round_state_witness:
  "\<exists>r w'. follower_round member_fenv 0 0 idle_run 1 ''validation'' ''2'' sample_world = (r, w') \<and>
     bare (db_content (w_disk w') tmp_path) \<and> locked sample_disk = {} \<and> \<not> bare (db_content sample_disk state_path)"
proof -
  obtain r w' where e: "follower_round member_fenv 0 0 idle_run 1 ''validation'' ''2'' sample_world = (r, w')"
    by fastforce
  have "bare (db_content (w_disk w') tmp_path)"
    using follower_round_state [OF _ _ _ _ _ e]
    by (simp add: member_fenv_def sample_world_def sample_disk_def db_content_def bare_def)
  moreover have "\<not> bare (db_content sample_disk state_path)"
    by (simp add: sample_disk_def db_content_def bare_def root_key_def)
  ultimately show ?thesis using e by (simp add: sample_disk_def)
qed

section \<open>Finding the newest block\<close>

text \<open>A follower finds the newest block of the leader's term: when the store lists, under the leader's name and
  term, the keys the leader has published for its blocks, the number the follower goes on with is the largest of
  their numbers.\<close>

lemma newest_block_found:
  assumes "CHR ''/'' \<notin> set leader_id" "CHR ''/'' \<notin> set term_no" "bs \<noteq> []" "\<forall>(n, key)\<in>set bs. 0 \<le> n \<and> in_int n"
    and "fe_ls F (fstore f) (leader_id @ ''/'' @ term_no @ ''/'') =
      Some (map (\<lambda>(n, key). block_path leader_id term_no n @ ''/'' @ key) bs)"
  shows "getLargestBlockNumber (getNamespaces F leader_id term_no f) = Max (fst ` set bs)"
proof -
  let ?ks = "map (\<lambda>(n, key). block_path leader_id term_no n @ ''/'' @ key) bs"
  have kb: "key_block (block_path leader_id term_no n @ ''/'' @ key) = Some n" if "(n, key) \<in> set bs" for n key
    using key_block_path [OF assms(1,2), of n key] assms(4) that by auto
  have "{i. \<exists>k\<in>set ?ks. key_block k = Some i} = fst ` set bs"
    using kb by (auto simp: image_iff) force+
  moreover have "- 1 \<le> Max (fst ` set bs)"
  proof -
    obtain n key where "(n, key) \<in> set bs" using assms(3) by (cases bs) auto
    then have n: "0 \<le> n" "n \<in> fst ` set bs" using assms(4) by force+
    have "n \<le> Max (fst ` set bs)" using n(2) by (intro Max_ge) simp_all
    then show ?thesis using n(1) by simp
  qed
  moreover have "fst ` set bs \<noteq> {}" using assms(3) by simp
  ultimately show ?thesis using assms(5) by (simp add: getNamespaces_def largest_max max_def)
qed

lemma newest_block_found_witness:
  "getLargestBlockNumber (getNamespaces (sample_fenv\<lparr>fe_ls := (\<lambda>m p. Some [''s0/2/9/run'', ''s0/2/7/run''])\<rparr>) ''s0'' ''2'' sample_follower) = 9"
proof -
  have 9: "to_string 9 = ''9''" by (simp add: to_string_def show_nat.simps digit_char_def char_of_eq_iff)
  show ?thesis
    using newest_block_found [of "''s0''" "''2''" "[(9, ''run''), (7, ''run'')]"
        "sample_fenv\<lparr>fe_ls := (\<lambda>m p. Some [''s0/2/9/run'', ''s0/2/7/run''])\<rparr>" sample_follower]
    by (simp add: block_path_def to_string_7 9 in_int_def)
qed

section \<open>Health\<close>

text \<open>C27: The health test lets at most a third of the members fail: it passes exactly when three times the
  number of members that did not report health is at most the number of members, and then, unless there are
  none, a majority of the members, which etcd needs to go on, has reported health.\<close>

theorem health_means_majority:
  "(isEtcdClusterHealthy output memCount \<longleftrightarrow> 3 * (memCount - int (healthy_lines output)) \<le> memCount) \<and>
   (isEtcdClusterHealthy output memCount \<and> 0 < memCount \<longrightarrow> memCount < 2 * int (healthy_lines output))"
  by (auto simp: isEtcdClusterHealthy_def Let_def)

definition health_report :: string where
  "health_report = ''a is healthy'' @ [CHR 0x0A] @ ''b is healthy'' @ [CHR 0x0A] @ ''c is unhealthy'' @ [CHR 0x0A]"

lemma report_lines: "getline_all (CHR 0x0A) health_report = [''a is healthy'', ''b is healthy'', ''c is unhealthy'']"
  by (simp add: health_report_def getline_all.simps)

lemma report_healthy: "healthy_lines health_report = 2"
proof -
  have "contains ''a is healthy'' ''is healthy''" "contains ''b is healthy'' ''is healthy''"
    "\<not> contains ''c is unhealthy'' ''is healthy''"
    by (simp_all add: contains_def upt_rec)
  then show ?thesis by (simp add: healthy_lines_def report_lines)
qed

theorem health_means_majority_witness:
  "isEtcdClusterHealthy health_report 3 \<and> \<not> isEtcdClusterHealthy health_report 4"
  using health_means_majority [of health_report 3] health_means_majority [of health_report 4] by (simp add: report_healthy)

text \<open>The verdict of the health monitor can be lost: once \<open>etcdMonitorFunc\<close> has found the cluster unhealthy it
  clears the flag and ends, but the next \<open>findLeader\<close> that gets a status line of seven fields sets the flag
  again, and with it the condition of the main loop, and nothing checks the cluster any more.\<close>

lemma health_verdict_lost:
  assumes "etcdMonitor_pass output memCount s = (True, s1)"
    and "status \<noteq> []" "7 \<le> length (getline_all (CHR '','') status)"
    and "redpandaHealth s" "n_count s < blocksCount"
  shows "\<not> main_goes_on blocksCount s1 \<and> main_goes_on blocksCount (snd (findLeader status s1))"
  using assms by (auto simp: etcdMonitor_pass_def main_goes_on_def findLeader_def Let_def split: if_splits)

definition sample_node :: node_state where
  "sample_node =
     \<lparr>etcdHealth = True, redpandaHealth = True, isLeader = False, raftTerm = ''2'', LLease = False, n_count = 0,
      n_world = sample_world, n_leader = sample_leader\<rparr>"

definition status_line :: string where
  "status_line = ''127.0.0.1:2379, 8e9e, 3.5, 20 kB, true, false, 2, 9''"

lemma status_fields:
  "getline_all (CHR '','') status_line = [''127.0.0.1:2379'', '' 8e9e'', '' 3.5'', '' 20 kB'', '' true'', '' false'', '' 2'', '' 9'']"
  by (simp add: status_line_def getline_all.simps)

lemma health_verdict_lost_witness:
  "\<not> main_goes_on 1 (snd (etcdMonitor_pass [] 3 sample_node)) \<and>
   main_goes_on 1 (snd (findLeader status_line (snd (etcdMonitor_pass [] 3 sample_node))))"
proof -
  have "etcdMonitor_pass [] 3 sample_node = (True, snd (etcdMonitor_pass [] 3 sample_node))"
    by (simp add: etcdMonitor_pass_def isEtcdClusterHealthy_def healthy_lines_def)
  then show ?thesis
    using health_verdict_lost [of "[]" 3 sample_node "snd (etcdMonitor_pass [] 3 sample_node)" status_line 1]
    by (simp add: status_fields, simp add: sample_node_def status_line_def)
qed
end
