(* ===== verification/Value_Types.thy ===== *)
theory Value_Types
  imports Scheduler_Serial
begin

text \<open>
  The type of a balance. Wallet accounts and votes live in the same string map as carts and NFT lists; what
  makes a balance one is that its text is that of a 32-bit \<open>int\<close>. Wallet and voting handlers keep this
  type on every outcome, whatever their payload says, and so does a block of transactions whose other
  families stay away from the accounts.
\<close>

section \<open>Weakest preconditions of map operations\<close>

text \<open>
  \<open>wp N m Q s\<close>: run from \<open>s\<close>, \<open>m\<close> returns a value and a map that satisfy \<open>Q\<close>, or ends otherwise in a map
  that satisfies \<open>N\<close>.
\<close>

definition wp :: "(kvmap \<Rightarrow> bool) \<Rightarrow> (kvmap, 'a) op \<Rightarrow> ('a \<Rightarrow> kvmap \<Rightarrow> bool) \<Rightarrow> kvmap \<Rightarrow> bool" where
  "wp N m Q s = (case m s of (Ret a, s') \<Rightarrow> Q a s' | (r, s') \<Rightarrow> N s')"

lemma wp_simps [simp]:
  "wp N (ret a) Q s \<longleftrightarrow> Q a s"
  "wp N (and_then m f) Q s \<longleftrightarrow> wp N m (\<lambda>a. wp N (f a) Q) s"
  "wp N (lookup_op k) P s \<longleftrightarrow> P (s k) s"
  "wp N (store_op k v) R s \<longleftrightarrow> R () (s(k \<mapsto> v))"
  "wp N (find_op k) B s \<longleftrightarrow> B (s k \<noteq> None) s"
  "wp N (insert_op k) B s \<longleftrightarrow> (if s k = None then B True (s(k \<mapsto> [])) else B False s)"
  by (auto simp: wp_def and_then_def insert_op_def split: prod.splits outcome.splits option.splits)

lemma wp_lift: "N s \<Longrightarrow> (\<And>a. r = Ret a \<Longrightarrow> Q a s) \<Longrightarrow> wp N (lift r) Q s"
  by (cases r) (simp_all add: wp_def)

lemma wp_catch: "wp (\<lambda>s'. N s' \<and> Q b s') m Q s \<Longrightarrow> wp N (catch_with b m) Q s"
  by (auto simp: wp_def catch_with_def split: prod.splits outcome.splits)

lemma wp_mono: "wp N m Q s \<Longrightarrow> (\<And>a s'. Q a s' \<Longrightarrow> Q' a s') \<Longrightarrow> wp N m Q' s"
  by (auto simp: wp_def split: prod.splits outcome.splits)

lemma wp_keeps: "wp N m (\<lambda>_. N) s \<longleftrightarrow> N (snd (m s))"
  by (auto simp: wp_def split: prod.splits outcome.splits)

section \<open>The type\<close>

definition int_text :: "string \<Rightarrow> bool" where
  "int_text s = (case stoi s of Ret i \<Rightarrow> s = to_string i | _ \<Rightarrow> False)"

text \<open>On the names \<open>S\<close>, every entry of the map is a number; a committed value may also be missing.\<close>

definition typed_on :: "string set \<Rightarrow> kvmap \<Rightarrow> bool" where
  "typed_on S m \<longleftrightarrow> (\<forall>k\<in>S. \<forall>v. m k = Some v \<longrightarrow> int_text v)"

definition typed_state :: "string set \<Rightarrow> (string \<Rightarrow> string) \<Rightarrow> bool" where
  "typed_state S gv \<longleftrightarrow> (\<forall>k\<in>S. gv k = [] \<or> int_text (gv k))"

lemma int_text_to_string [simp]: "in_int i \<Longrightarrow> int_text (to_string i)"
  by (simp add: int_text_def)

lemma int_textE:
  assumes "int_text s" obtains i where "in_int i" "s = to_string i"
  using assms by (cases "stoi s") (auto simp: int_text_def dest: stoi_in_int)

lemma int_text_no_comma: "int_text s \<Longrightarrow> takeWhile (\<lambda>x. x \<noteq> CHR '','') s = s"
  by (auto elim!: int_textE)

lemma int_text_literals [simp]: "int_text ''0''" "int_text ''1''" "int_text ''10000''"
proof -
  have "to_string 0 = ''0''" "to_string 1 = ''1''" "to_string 10000 = ''10000''"
    by (simp_all add: to_string_def show_nat.simps digit_char_def char_of_eq_iff)
  then show "int_text ''0''" "int_text ''1''" "int_text ''10000''"
    using int_text_to_string [of 0] int_text_to_string [of 1] int_text_to_string [of 10000]
    by (simp_all add: in_int_def)
qed

lemma typed_empty [simp]: "typed_on S Map.empty"
  by (simp add: typed_on_def)

lemma typed_store [simp]: "typed_on S m \<Longrightarrow> int_text v \<Longrightarrow> typed_on S (m(k \<mapsto> v))"
  by (simp add: typed_on_def)

text \<open>Every account of a typed map over a typed state has a balance.\<close>

lemma typed_numeric: "typed_on S m \<Longrightarrow> typed_state S gv \<Longrightarrow> numeric gv m S"
  by (force simp: numeric_def typed_on_def typed_state_def balance_of_def split: option.split elim: int_textE)

section \<open>The handlers keep it\<close>

text \<open>A loaded balance is a 32-bit number, and its name is in the map from then on.\<close>

definition loaded :: "string set \<Rightarrow> kvmap \<Rightarrow> string \<Rightarrow> int \<Rightarrow> kvmap \<Rightarrow> bool" where
  "loaded S s n b s' \<longleftrightarrow> typed_on S s' \<and> in_int b \<and> s' n \<noteq> None \<and> (\<forall>k. s' k = None \<longrightarrow> s k = None)"

lemma loadedI:
  "typed_on S s \<Longrightarrow> s n \<noteq> None \<Longrightarrow> in_int b \<Longrightarrow> loaded S s n b s"
  "typed_on S s \<Longrightarrow> in_int b \<Longrightarrow> loaded S s n b (s(n \<mapsto> to_string b))"
  by (auto simp: loaded_def)

lemma wp_load_balance:
  assumes "typed_on S s" "\<And>b s'. loaded S s n b s' \<Longrightarrow> Q b s'"
  shows "wp (typed_on S) (getOrLoadBalance gv n) Q s"
  using assms
  by (auto simp: getOrLoadBalance_def split: option.split intro!: wp_lift assms(2) loadedI dest: stoi_in_int)

lemma wp_load_votes:
  "typed_on S s \<Longrightarrow> (\<And>b s'. loaded S s n b s' \<Longrightarrow> Q b s') \<Longrightarrow> wp (typed_on S) (getOrLoadVoteCount gv n) Q s"
  unfolding getOrLoadVoteCount_eq by (rule wp_load_balance)

lemma stoi_or_zero_in_int: "stoi_or_zero s = Ret i \<Longrightarrow> in_int i"
  by (auto simp: stoi_or_zero_def stoi_in_int split: outcome.splits)

lemma wp_load_votes_parallel:
  assumes "typed_on S s" "\<And>b s'. loaded S s n b s' \<Longrightarrow> Q b s'"
  shows "wp (typed_on S) (getOrLoadVoteCount_parallel gv n) Q s"
  using assms
  by (auto simp: getOrLoadVoteCount_parallel_def split: option.split if_splits
      intro!: wp_lift assms(2) loadedI dest: stoi_or_zero_in_int)

lemmas wp_load = wp_load_balance wp_load_votes wp_load_votes_parallel

definition keeps_type :: "string set \<Rightarrow> (kvmap, bool) op \<Rightarrow> bool" where
  "keeps_type S m \<longleftrightarrow> (\<forall>s. typed_on S s \<longrightarrow> typed_on S (snd (m s)))"

lemma keeps_typeI: "(\<And>s. typed_on S s \<Longrightarrow> wp (typed_on S) m (\<lambda>_. typed_on S) s) \<Longrightarrow> keeps_type S m"
  by (simp add: keeps_type_def wp_keeps)

lemma keeps_typeD: "keeps_type S m \<Longrightarrow> typed_on S s \<Longrightarrow> wp (typed_on S) m (\<lambda>_. typed_on S) s"
  by (simp add: keeps_type_def wp_keeps)

lemma deposit_type: "keeps_type S (deposit gv n val)"
  by (rule keeps_typeI) (auto simp: deposit_def loaded_def intro!: wp_load_balance wp_lift)

lemma withdraw_type: "keeps_type S (withdraw gv n val)"
  by (rule keeps_typeI) (auto simp: withdraw_def loaded_def intro!: wp_load_balance wp_lift)

lemma transfer_type: "keeps_type S (transfer gv n1 n2 val)"
  by (rule keeps_typeI) (auto simp: transfer_def loaded_def intro!: wp_load_balance wp_lift)

lemma register_types:
  "keeps_type S (registerVoter n)" "keeps_type S (registerVoter_serial n)" "keeps_type S (registerVoter_parallel n)"
  "keeps_type S (registerCandidate n)"
  by (rule keeps_typeI; auto simp: registerVoter_def registerVoter_serial_def registerVoter_parallel_def
      registerCandidate_def)+

lemma transferVote_type: "keeps_type S (transferVote gv n1 n2 val)"
  by (rule keeps_typeI) (auto simp: transferVote_def loaded_def intro!: wp_load_votes wp_lift)

lemma castVote_type: "keeps_type S (castVote gv n1 n2)"
  by (rule keeps_typeI) (auto simp: castVote_def loaded_def intro!: wp_load_votes wp_lift)

lemma transferVote_parallel_type: "keeps_type S (transferVote_parallel gv n1 n2 val)"
  by (rule keeps_typeI)
    (auto simp: transferVote_parallel_def loaded_def split: outcome.split
      intro!: wp_load_votes_parallel wp_lift)

lemma castVote_parallel_type: "keeps_type S (castVote_parallel gv n1 n2)"
  by (rule keeps_typeI)
    (auto simp: castVote_parallel_def loaded_def intro!: wp_load_votes_parallel wp_lift)

section \<open>Transactions and blocks keep it\<close>

lemma process_txn_type:
  assumes "\<And>p verb. keeps_type S (d p verb)"
  shows "keeps_type S (process_txn C d t)"
  using keeps_typeD [OF assms]
  by (intro keeps_typeI) (auto simp: process_txn_def intro!: wp_catch wp_lift split: option.split)

lemma dispatch_lift_type: "(\<And>a. keeps_type S (f a)) \<Longrightarrow> keeps_type S (and_then (lift r) f)"
  by (intro keeps_typeI) (auto intro!: wp_lift dest: keeps_typeD)

lemma ret_type: "keeps_type S (ret b)"
  by (simp add: keeps_type_def)

lemmas handler_types = deposit_type withdraw_type transfer_type register_types transferVote_type castVote_type
  transferVote_parallel_type castVote_parallel_type ret_type

lemma wallet_type: "keeps_type S (wallet_process C gv t)"
  unfolding wallet_process_def wallet_dispatch_def
  by (intro process_txn_type) (auto intro!: dispatch_lift_type handler_types)

lemma voting_types:
  "keeps_type S (voting_process C gv t)" "keeps_type S (voting_process_serial C gv t)"
  "keeps_type S (voting_process_parallel C gv t)"
  unfolding voting_process_def voting_process_serial_def voting_process_parallel_def voting_dispatch_def
  by (intro process_txn_type; auto intro!: dispatch_lift_type handler_types)+

lemma confined_type: "confined F m \<Longrightarrow> F \<inter> S = {} \<Longrightarrow> keeps_type S m"
  using confined_frame [of F m] by (fastforce simp: keeps_type_def typed_on_def)

text \<open>
  A transaction that minds the accounts \<open>S\<close>: it is one of the two families that compute with numbers, or
  its payload names none of them.
\<close>

definition minds_accounts :: "codec \<Rightarrow> string set \<Rightarrow> transaction \<Rightarrow> bool" where
  "minds_accounts C S t \<longleftrightarrow>
     (case parse_header C (t_header t) of
        Some h \<Rightarrow> family_name h \<in> {''wallet'', ''voting''}
      | None \<Rightarrow> True) \<or> txn_keys C all_fields t \<inter> S = {}"

lemma execute_type:
  assumes t: "minds_accounts C S t" "parse_header C (t_header t) = Some h"
  shows "keeps_type S (execute_serial C I gv h t)" "keeps_type S (execute_parallel C I gv h t)"
    "keeps_type S (execute_cluster C I gv h t)"
proof -
  have c: "keeps_type S m" if "confined (txn_keys C all_fields t) m" "family_name h \<notin> {''wallet'', ''voting''}" for m
    using that t by (auto simp: minds_accounts_def intro: confined_type)
  show "keeps_type S (execute_serial C I gv h t)"
    using c [OF execute_serial_confined [where h = h and I = I and gv = gv]]
    by (cases "family_name h \<in> {''wallet'', ''voting''}")
      (auto simp: execute_serial_def run_family_def wallet_type voting_types)
  show "keeps_type S (execute_parallel C I gv h t)"
    using c [OF execute_parallel_confined [where h = h and I = I and gv = gv]]
    by (cases "family_name h \<in> {''wallet'', ''voting''}")
      (auto simp: execute_parallel_def run_family_def wallet_type voting_types)
  show "keeps_type S (execute_cluster C I gv h t)"
    using c [OF execute_cluster_confined [where h = h and I = I and gv = gv]]
    by (cases "family_name h \<in> {''wallet'', ''voting''}")
      (auto simp: execute_cluster_def run_family_def wallet_type voting_types)
qed

text \<open>The loop of the serial scheduler, by induction on its computation.\<close>

lemma executeTxns_type:
  "executeTxns ex C txns s = Some r \<Longrightarrow>
   (\<forall>t\<in>set txns. \<forall>h. parse_header C (t_header t) = Some h \<longrightarrow> keeps_type S (ex h t)) \<longrightarrow>
   typed_on S (ss_map s) \<longrightarrow> (\<forall>s'. r = Ret s' \<longrightarrow> typed_on S (ss_map s'))"
proof (induction rule: executeTxns.raw_induct [rotated, consumes 1, case_names 1])
  case (1 f ex C txns s r)
  note IH = 1(1) [rule_format]
  show ?case
  proof (intro impI allI)
    fix s'
    assume ex: "\<forall>t\<in>set txns. \<forall>h. parse_header C (t_header t) = Some h \<longrightarrow> keeps_type S (ex h t)"
      and ty: "typed_on S (ss_map s)" and r: "r = Ret s'"
    have go: "f ex C txns s2 = Some (Ret s') \<Longrightarrow> typed_on S (ss_map s2) \<Longrightarrow> typed_on S (ss_map s')" for s2
      using IH ex by blast
    have step: "typed_on S (ss_map s')" if "\<not> length txns \<le> i" "parse_header C (t_header (txns ! i)) = Some h"
        "ex h (txns ! i) (ss_map s) = (x, m')" "f ex C txns \<lparr>ss_dag = d, ss_flag = b, ss_map = m'\<rparr> = Some (Ret s')"
      for i h x m' d b
    proof -
      have "keeps_type S (ex h (txns ! i))" using ex that(1,2) by simp
      then have "typed_on S m'" using ty that(3) by (auto simp: keeps_type_def dest: spec [of _ "ss_map s"])
      then show ?thesis using go [OF that(4)] by simp
    qed
    show "typed_on S (ss_map s')"
      using 1(2) r ty
      by (auto split: if_splits outcome.splits prod.splits option.splits dest: go intro: step)
  qed
qed

end
