(* ===== verification/Sample_Commands.thy ===== *)
theory Sample_Commands
  imports Test_Producer Samples
begin

text \<open>The sample command file and the block the parallel producer makes of it.\<close>

definition command_file :: string where
  "command_file = ''walletClientMain deposit a b 5''"

lemma command_words: "words_of command_file = [''walletClientMain'', ''deposit'', ''a'', ''b'', ''5'']"
  by (simp add: command_file_def words_of.simps isspace_def)

lemma command_lines: "getline_all (CHR 0x0A) command_file = [command_file]"
  using getline_all_last [of "CHR 0x0A" command_file] by (simp add: command_file_def)

lemma command_block:
  "\<exists>b. produce_parallel sample_env sample_blocks sample_show (\<lambda>_. ''7'') 0 Map.empty Map.empty 5 (Some command_file) Map.empty =
     Ret b \<and> b_transactions b = [sample_txn]"
  "\<exists>b. produce_serial sample_env sample_blocks sample_show (\<lambda>_. ''7'') 0 Map.empty Map.empty 5 (Some command_file) Map.empty =
     Ret b \<and> b_transactions b = [sample_txn]"
proof -
  have "command_loop (clients_parallel sample_env Map.empty sample_show) (\<lambda>_. ''7'') (to_uint64 5) [command_file] [] =
      Ret [sample_txn]"
    "command_loop (clients_serial Map.empty sample_show) (\<lambda>_. ''7'') (to_uint64 5) [command_file] [] = Ret [sample_txn]"
    using sample_client
    by (simp_all add: to_uint64_def blank_line_def split_line_def command_words clients_parallel_def clients_serial_def
        sample_commands_def) (simp_all add: command_file_def)
  moreover have "\<exists>b. assemble sample_env sample_blocks r 0 Map.empty [sample_txn] = Ret b \<and> b_transactions b = [sample_txn]" for r
    using assemble_number [OF sample_codec_ok, of Map.empty sample_env r 0 "[sample_txn]"]
    by (auto simp: getLatestBlockNum_def last_block_num_missing)
  ultimately show "\<exists>b. produce_parallel sample_env sample_blocks sample_show (\<lambda>_. ''7'') 0 Map.empty Map.empty 5 (Some command_file)
      Map.empty = Ret b \<and> b_transactions b = [sample_txn]"
    "\<exists>b. produce_serial sample_env sample_blocks sample_show (\<lambda>_. ''7'') 0 Map.empty Map.empty 5 (Some command_file)
      Map.empty = Ret b \<and> b_transactions b = [sample_txn]"
    by (simp_all add: produce_parallel_def produce_serial_def produce_single_def command_lines)
qed

end
