(* ===== verification/Sample_Node.thy ===== *)
theory Sample_Node
  imports Scheduler_Serial Execution_Properties Sample_Commands
begin

text \<open>The map the sample block leaves, and its entries.\<close>

lemma map_of_entries:
  assumes "set (order m) = dom m"
  shows "map_of (map_entries order m) k = m k" "fst ` set (map_entries order m) = dom m"
proof -
  have "map_of (map (\<lambda>k. (k, the (m k))) ks) k = (if k \<in> set ks then Some (the (m k)) else None)" for ks
    by (induction ks) auto
  then show "map_of (map_entries order m) k = m k"
    using assms by (cases "m k") (auto simp: map_entries_def)
  show "fst ` set (map_entries order m) = dom m"
    using assms by (force simp: map_entries_def)
qed

definition ab_order :: "kvmap \<Rightarrow> string list" where
  "ab_order m = (if m ''walletab'' = None then [] else [''walletab''])"

lemma sample_map:
  "\<exists>m. wallet_process sample_codec (\<lambda>_. []) sample_txn Map.empty = (Ret True, m) \<and>
     set (ab_order m) = dom m \<and> distinct (ab_order m) \<and> dom m \<subseteq> {''walletab''}"
proof -
  obtain m where m: "wallet_process sample_codec (\<lambda>_. []) sample_txn Map.empty = (Ret True, m)"
    using sample_deposit by blast
  have "m k = None" if "k \<noteq> ''walletab''" for k
    using confined_frame [OF wallet_confined [of sample_codec sample_txn "\<lambda>_. []"], of k Map.empty] that m
      by (auto simp: txn_keys_def sample_keys split: option.splits)
  then have d: "dom m \<subseteq> {''walletab''}" by fastforce
  then have "set (ab_order m) = dom m" "distinct (ab_order m)" by (auto simp: ab_order_def)
  then show ?thesis using m d by blast
qed

lemma sample_flush: "\<exists>st. flushMapToState sample_env (map_entries ab_order m) d = Ret st"
  using flush_eq [of "map_entries ab_order m"] by (auto simp: map_entries_def ab_order_def)

end
