(* ===== verification/Type_Properties.thy ===== *)
theory Type_Properties
  imports Value_Types Sample_Node
begin

text \<open>
  The type of the balances across a block of the serial node: from the committed state through the map of
  the block to the state it leaves.
\<close>

lemma flush_typed:
  assumes E: "lawful E" and o: "distinct (order m)" "set (order m) = dom m"
    and inj: "inj_on (computeHash E) (S \<union> dom m)"
    and t: "typed_on S m" "typed_state S (getValue E st)"
    and f: "flushMapToState E (map_entries order m) st = Ret st'"
  shows "typed_state S (getValue E st')"
proof -
  note entries = map_of_entries [where order = order and m = m, OF o(2)]
  have "getValue E st' k = [] \<or> int_text (getValue E st' k)" if k: "k \<in> S" for k
  proof -
    have ne: "\<forall>(k, v)\<in>set (map_entries order m). k \<noteq> []" using flush_keys [OF f] by auto
    have d: "distinct (map fst (map_entries order m))" using o(1) by (simp add: map_entries_def comp_def)
    have i: "inj_on (computeHash E) (insert k (fst ` set (map_entries order m)))"
      using k by (intro inj_on_subset [OF inj]) (auto simp: entries)
    show ?thesis
      using t k f by (rule_tac getValue_flush [OF E d ne i, of st])
        (auto simp: entries typed_on_def typed_state_def int_text_no_comma split: option.splits)
  qed
  then show ?thesis by (simp add: typed_state_def)
qed

text \<open>C10: Type preservation and progress for balances, on the serial node: let the names in S be accounts (a
  committed value that is missing or the text of a 32-bit number), and let every transaction of a block be
  one of the wallet or voting family, with any payload, or name no account. Whenever the scheduler comes
  back, with either verdict, every account has a number in the block's map and balances can be read
  from it, and every account committed to the state is again missing or a number, ready for the next block.
  No comma, empty text or foreign value gets into an account.\<close>

theorem balances_keep_their_type:
  assumes "lawful E" "typed_state S (getValue E st)" "typed_on S m"
    and "\<forall>t\<in>set txns. minds_accounts C S t"
    and "schedulTxns_serial E C I order txns d m st = Some (Ret (ok, m', st'))"
    and "distinct (order m')" "set (order m') = dom m'" "inj_on (computeHash E) (S \<union> dom m')"
  shows "typed_on S m' \<and> numeric (getValue E st) m' S \<and> typed_state S (getValue E st')"
proof -
  obtain s where s: "executeTxns (execute_serial C I (getValue E st)) C txns \<lparr>ss_dag = d, ss_flag = True, ss_map = m\<rparr> =
      Some (Ret s)"
    and m': "m' = ss_map s" and st': "ok \<longrightarrow> flushMapToState E (map_entries order m') st = Ret st'" "\<not> ok \<longrightarrow> st' = st"
    using assms(5)
    by (auto simp: schedulTxns_serial_def bind_outcome_Ret_iff split: option.splits if_splits)
  have t: "typed_on S m'"
    using executeTxns_type [OF s, of S] assms(3,4) m' by (auto simp: execute_type)
  then have "typed_state S (getValue E st')"
    using st' assms(2) flush_typed [where order = order and m = m', OF assms(1,6,7,8) t assms(2)] by (cases ok) auto
  with t show ?thesis using typed_numeric [OF t assms(2)] by simp
qed

theorem balances_keep_their_type_witness:
  "\<exists>g m st'. schedulTxns_serial sample_env sample_codec sample_image ab_order [sample_txn] g Map.empty Map.empty =
       Some (Ret (True, m, st')) \<and> numeric (getValue sample_env Map.empty) m {''walletab''} \<and>
     typed_state {''walletab''} (getValue sample_env st')"
proof -
  obtain m where m: "wallet_process sample_codec (\<lambda>_. []) sample_txn Map.empty = (Ret True, m)"
    and dom: "set (ab_order m) = dom m" "distinct (ab_order m)" "dom m \<subseteq> {''walletab''}"
    using sample_map by blast
  have run: "serial_run (block_run (execute_serial sample_codec sample_image (getValue sample_env Map.empty))
      sample_codec (b_transactions sample_block)) [0..<length (b_transactions sample_block)] Map.empty = (Ret True, m)"
    by (simp add: sample_block_def block_run_def execute_serial_def run_family_def new_header_def no_value
        and_then_run [where m = "wallet_process sample_codec (\<lambda>_. []) sample_txn", OF m])
  obtain st' where st': "flushMapToState sample_env (map_entries ab_order m) Map.empty = Ret st'"
    using sample_flush by blast
  obtain g where g: "schedulTxns_serial sample_env sample_codec sample_image ab_order [sample_txn] g Map.empty Map.empty =
       Some (Ret (True, m, st'))"
    using serial_scheduler_spec [OF _ cleaned_sample run, of ab_order] st' by (auto simp: sample_block_def)
  have "minds_accounts sample_codec {''walletab''} sample_txn"
    by (simp add: minds_accounts_def new_header_def)
  moreover have "inj_on (computeHash sample_env) ({''walletab''} \<union> dom m)"
    using dom(3) by (auto simp: inj_on_def)
  ultimately show ?thesis
    using balances_keep_their_type [OF _ _ _ _ g dom(2,1), of "{''walletab''}"] g
    by (auto simp: typed_state_def no_value)
qed

end
