(* ===== verification/Commit_Parallel.thy ===== *)
theory Commit_Parallel
  imports Commit
begin

text \<open>
  \<open>flushMapToState\<close> of the parallel single node (\<open>singleNode-parallel/scheduler/scheduler.h\<close>), which is also
  \<open>parallelInsertFromMap\<close> of \<open>MerkleTreeExperiments/parallelMerkleTree.h\<close>: several threads insert their
  share of the map's entries into one database, with no lock. A thread is modelled access by access, so
  another thread's write may fall between its reading a node and writing it back.
\<close>

section \<open>One thread\<close>

text \<open>
  Where a thread is: before its next entry, before reading a parent to which it may have to add a child, or
  about to write back the parent it read. The digits that remain give the rest of the path.
\<close>

datatype writer =
    Next "(string \<times> string) list"
  | Read_parent string string string "(string \<times> string) list"
  | Write_parent string string node string "(string \<times> string) list"

definition next_level :: "string \<Rightarrow> string \<Rightarrow> (string \<times> string) list \<Rightarrow> writer" where
  "next_level currentHash rest es =
     (case rest of [] \<Rightarrow> Next es | c # cs \<Rightarrow> Read_parent currentHash (currentHash @ [c]) cs es)"

fun writer_step :: "env \<Rightarrow> db \<times> writer \<Rightarrow> db \<times> writer" where
  "writer_step E (m, Next []) = (m, Next [])"
| "writer_step E (m, Next ((key, val) # es)) =
     (let keyHash = computeHash E key;
          newNode = \<lparr>nvalue = val, nhash = computeHash E val, nchildren = []\<rparr>;
          (ok, m1) = put E m keyHash (serializeNode newNode)
      in (m1, if ok then Read_parent root_key [first_char keyHash] (tl keyHash) es else Next es))"
| "writer_step E (m, Read_parent parentKey child rest es) =
     (m, if child \<in> set (nchildren (getNode m parentKey)) then next_level child rest es
         else Write_parent parentKey child (getNode m parentKey) rest es)"
| "writer_step E (m, Write_parent parentKey child parentNode rest es) =
     (snd (put E m parentKey (serializeNode (parentNode\<lparr>nchildren := nchildren parentNode @ [child]\<rparr>))),
      next_level child rest es)"

section \<open>The threads\<close>

text \<open>The share of thread \<open>t\<close>, by index as in the code.\<close>

definition chunk :: "'a list \<Rightarrow> nat \<Rightarrow> nat \<Rightarrow> 'a list" where
  "chunk entries thCount t =
     (let chunkSize = (length entries + thCount - 1) div thCount;
          start = t * chunkSize;
          stop = min (start + chunkSize) (length entries)
      in map ((!) entries) [start..<stop])"

type_synonym writers = "db \<times> (nat \<Rightarrow> writer)"

definition flush_start :: "(string \<times> string) list \<Rightarrow> nat \<Rightarrow> db \<Rightarrow> writers" where
  "flush_start entries thCount m = (m, \<lambda>t. if t < thCount then Next (chunk entries thCount t) else Next [])"

inductive flush_step :: "env \<Rightarrow> writers \<Rightarrow> writers \<Rightarrow> bool" for E where
  "ws t \<noteq> Next [] \<Longrightarrow> writer_step E (m, ws t) = (m', w) \<Longrightarrow> flush_step E (m, ws) (m', ws(t := w))"

inductive flush_reach :: "env \<Rightarrow> writers \<Rightarrow> writers \<Rightarrow> bool" for E where
  refl: "flush_reach E s s"
| step: "flush_reach E s s' \<Longrightarrow> flush_step E s' s'' \<Longrightarrow> flush_reach E s s''"

definition joined :: "writers \<Rightarrow> bool" where
  "joined = (\<lambda>(m, ws). \<forall>t. ws t = Next [])"

text \<open>The threads run and are joined; the parent hashes are recomputed by one thread.\<close>

inductive parallel_flush :: "env \<Rightarrow> nat \<Rightarrow> (string \<times> string) list \<Rightarrow> db \<Rightarrow> db \<Rightarrow> bool" for E where
  "0 < thCount \<Longrightarrow> flush_reach E (flush_start entries thCount m) (m1, ws) \<Longrightarrow> joined (m1, ws) \<Longrightarrow>
   each (\<lambda>(key, val). updateParentHashes E key) entries m1 = Ret m2 \<Longrightarrow>
   parallel_flush E thCount entries m m2"

inductive_cases flush_stepE: "flush_step E s s'"
inductive_cases parallel_flushE: "parallel_flush E thCount entries m m2"

section \<open>The shares\<close>

text \<open>Every entry belongs to exactly one share: put together they are the entries in order.\<close>

lemma chunk_drop: "chunk xs n t = take ((length xs + n - 1) div n) (drop (t * ((length xs + n - 1) div n)) xs)"
proof -
  have "map ((!) xs) [i..<min (i + k) (length xs)] = take k (drop i xs)" for i k
  proof (cases "i \<le> length xs")
    case True
    then show ?thesis by (intro nth_equalityI) (auto simp: min_def split: if_splits)
  qed simp
  then show ?thesis by (simp add: chunk_def Let_def)
qed

lemma concat_takes: "concat (map (\<lambda>t. take c (drop (t * c) xs)) [0..<n]) = take (n * c) xs"
proof (induction n)
  case (Suc n)
  have "take (n * c + c) xs = take (n * c) xs @ take c (drop (n * c) xs)" by (rule take_add)
  then show ?case using Suc by (simp add: add.commute)
qed simp

lemma chunks_cover: "0 < n \<Longrightarrow> concat (map (chunk xs n) [0..<n]) = xs"
proof -
  assume n: "0 < n"
  have "length xs \<le> n * ((length xs + n - 1) div n)"
  proof -
    have "n * ((length xs + n - 1) div n) + (length xs + n - 1) mod n = length xs + n - 1" by simp
    moreover have "(length xs + n - 1) mod n \<le> n - 1" using n by (simp add: Suc_leI less_Suc_eq_le [symmetric])
    ultimately show ?thesis using n by linarith
  qed
  then show ?thesis
    using concat_takes [of "(length xs + n - 1) div n" xs n] by (simp add: chunk_drop [abs_def])
qed

section \<open>A thread that is not disturbed\<close>

text \<open>The accesses of one entry, in one go, are \<open>insert\<close>.\<close>

lemma link_alone:
  "\<exists>n. (writer_step E ^^ n) (m, Read_parent p c rest es) = (link_path E rest c (add_child E m p c), Next es)"
proof (induction rest arbitrary: m p c)
  case Nil
  show ?case
  proof (cases "c \<in> set (nchildren (getNode m p))")
    case True
    then have "(writer_step E ^^ 1) (m, Read_parent p c [] es) = (m, Next es)" by (simp add: next_level_def)
    then show ?thesis using True by (intro exI [of _ 1]) (simp add: add_child_def)
  next
    case False
    then show ?thesis
      by (intro exI [of _ 2]) (simp add: add_child_def next_level_def eval_nat_numeral Let_def)
  qed
next
  case (Cons x rest)
  let ?m = "add_child E m p c"
  obtain n where n: "(writer_step E ^^ n) (?m, Read_parent c (c @ [x]) rest es) =
      (link_path E rest (c @ [x]) (add_child E ?m c (c @ [x])), Next es)"
    using Cons.IH by blast
  have "\<exists>k. (writer_step E ^^ k) (m, Read_parent p c (x # rest) es) = (?m, Read_parent c (c @ [x]) rest es)"
  proof (cases "c \<in> set (nchildren (getNode m p))")
    case True
    then show ?thesis by (intro exI [of _ 1]) (simp add: add_child_def next_level_def)
  next
    case False
    then show ?thesis by (intro exI [of _ 2]) (simp add: add_child_def next_level_def eval_nat_numeral Let_def)
  qed
  then obtain k where "(writer_step E ^^ k) (m, Read_parent p c (x # rest) es) = (?m, Read_parent c (c @ [x]) rest es)"
    by blast
  then have "(writer_step E ^^ (n + k)) (m, Read_parent p c (x # rest) es) =
      (link_path E (x # rest) c ?m, Next es)"
    using n by (simp add: funpow_add)
  then show ?case by blast
qed

lemma writer_alone: "\<exists>n. (writer_step E ^^ n) (m, Next ((k, v) # es)) = (snd (insert_kv E k v m), Next es)"
proof -
  obtain ok m1 where p: "put E m (computeHash E k) (serializeNode \<lparr>nvalue = v, nhash = computeHash E v, nchildren = []\<rparr>) = (ok, m1)"
    by fastforce
  show ?thesis
  proof (cases ok)
    case True
    have "snd (insert_kv E k v m) = link_path E (tl (computeHash E k)) [first_char (computeHash E k)]
        (add_child E m1 root_key [first_char (computeHash E k)])"
      using True p by (simp add: insert_kv_def Let_def)
    then obtain n where "(writer_step E ^^ n) (m1, Read_parent root_key [first_char (computeHash E k)] (tl (computeHash E k)) es) =
        (snd (insert_kv E k v m), Next es)"
      using link_alone [of E m1 root_key] by metis
    then show ?thesis using True p by (intro exI [of _ "Suc n"]) (simp add: funpow_Suc_right Let_def del: funpow.simps)
  next
    case False
    then show ?thesis using p by (intro exI [of _ 1]) (simp add: insert_kv_def Let_def)
  qed
qed

lemma writer_share: "\<exists>n. (writer_step E ^^ n) (m, Next es) = (flush_inserts E es m, Next [])"
proof (induction es arbitrary: m)
  case Nil
  show ?case by (intro exI [of _ 0]) (simp add: flush_inserts_def)
next
  case (Cons e es)
  obtain k v where e: "e = (k, v)" by fastforce
  obtain a where "(writer_step E ^^ a) (m, Next ((k, v) # es)) = (snd (insert_kv E k v m), Next es)"
    using writer_alone by blast
  moreover obtain b where "(writer_step E ^^ b) (snd (insert_kv E k v m), Next es) =
      (flush_inserts E es (snd (insert_kv E k v m)), Next [])"
    using Cons.IH by blast
  ultimately have "(writer_step E ^^ (b + a)) (m, Next (e # es)) = (flush_inserts E (e # es) m, Next [])"
    by (simp add: funpow_add e flush_inserts_def)
  then show ?case by blast
qed

section \<open>What holds between two accesses\<close>

text \<open>
  Parents that are read or written are the root or keys shorter than a hash, so leaves are written by their
  own thread only.
\<close>

fun left :: "writer \<Rightarrow> (string \<times> string) list" where
  "left (Next es) = es"
| "left (Read_parent p c rest es) = es"
| "left (Write_parent p c nd rest es) = es"

definition on_path :: "string \<Rightarrow> string \<Rightarrow> string \<Rightarrow> bool" where
  "on_path p c rest \<longleftrightarrow> length p < 64 \<and> length c + length rest = 64"

fun path_ok :: "writer \<Rightarrow> bool" where
  "path_ok (Next es) \<longleftrightarrow> True"
| "path_ok (Read_parent p c rest es) \<longleftrightarrow> on_path p c rest"
| "path_ok (Write_parent p c nd rest es) \<longleftrightarrow> on_path p c rest"

definition leaf_text :: "env \<Rightarrow> string \<Rightarrow> string" where
  "leaf_text E v = serializeNode \<lparr>nvalue = v, nhash = computeHash E v, nchildren = []\<rparr>"

definition flush_inv :: "env \<Rightarrow> (string \<times> string) list \<Rightarrow> db \<Rightarrow> writers \<Rightarrow> bool" where
  "flush_inv E entries m0 = (\<lambda>(m, ws).
     (\<forall>t. path_ok (ws t) \<and> set (left (ws t)) \<subseteq> set entries) \<and>
     (\<forall>(k, v)\<in>set entries. (\<exists>t. (k, v) \<in> set (left (ws t))) \<or> m (computeHash E k) = Some (leaf_text E v)) \<and>
     (\<forall>h. length h = 64 \<longrightarrow> h \<notin> computeHash E ` fst ` set entries \<longrightarrow> m h = m0 h))"

lemma root_key_length [simp]: "length root_key < 64"
  by (simp add: root_key_def)

lemma next_level_left [simp]: "left (next_level c rest es) = es"
  by (simp add: next_level_def split: list.split)

lemma next_level_path: "on_path p c rest \<Longrightarrow> path_ok (next_level c rest es)"
  by (auto simp: next_level_def on_path_def split: list.split)

lemma first_level: "lawful E \<Longrightarrow> on_path root_key [first_char (computeHash E k)] (tl (computeHash E k))"
  using hash_length [of E k] by (simp add: on_path_def)

lemma flush_inv_leaves:
  assumes E: "lawful E" and inv: "flush_inv E entries m0 (m, ws)" and w: "left w = left (ws t)" "path_ok w"
    and m': "\<And>h. length h = 64 \<Longrightarrow> m' h = m h"
  shows "flush_inv E entries m0 (m', ws(t := w))"
proof -
  have l: "left ((ws(t := w)) u) = left (ws u)" for u using w(1) by simp
  have p: "path_ok ((ws(t := w)) u)" if "path_ok (ws u)" for u using w(2) that by simp
  show ?thesis
    using inv hash_length [OF E] by (simp add: flush_inv_def l p m' del: fun_upd_apply)
qed

lemma flush_inv_step:
  assumes E: "lawful E" and d: "distinct (map fst entries)" and inj: "inj_on (computeHash E) (fst ` set entries)"
    and inv: "flush_inv E entries m0 (m, ws)" and w: "writer_step E (m, ws t) = (m', w)"
  shows "flush_inv E entries m0 (m', ws(t := w))"
proof (cases "ws t")
  case (Next es)
  show ?thesis
  proof (cases es)
    case Nil
    then show ?thesis using inv w Next by (simp add: fun_upd_idem)
  next
    case (Cons e r)
    obtain k v where e: "e = (k, v)" by fastforce
    have m': "m' = m(computeHash E k \<mapsto> leaf_text E v)"
      and w': "w = Read_parent root_key [first_char (computeHash E k)] (tl (computeHash E k)) r"
      using w by (simp_all add: Next Cons e put_eq [OF E] leaf_text_def Let_def split: prod.splits)
    have kv: "(k, v) \<in> set entries" and r: "set r \<subseteq> set entries"
    proof -
      have "set (left (ws t)) \<subseteq> set entries" using inv by (simp add: flush_inv_def)
      then show "(k, v) \<in> set entries" "set r \<subseteq> set entries" by (simp_all add: Next Cons e)
    qed
    have other: "m' (computeHash E k') = Some (leaf_text E v')"
      if "(k', v') \<in> set entries" "(\<exists>u. (k', v') \<in> set (left (ws u))) \<or> m (computeHash E k') = Some (leaf_text E v')"
        "\<not> (\<exists>u. (k', v') \<in> set (left ((ws(t := w)) u)))" for k' v'
    proof (cases "k' = k")
      case True
      then have "v' = v" using that(1) kv eq_key_imp_eq_value [OF d] by blast
      then show ?thesis by (simp add: True m')
    next
      case False
      then have "computeHash E k' \<noteq> computeHash E k" using inj_onD [OF inj, of k' k] kv that(1)
        by (metis fst_conv image_eqI)
      moreover have "\<not> (\<exists>u. (k', v') \<in> set (left (ws u)))"
      proof
        assume "\<exists>u. (k', v') \<in> set (left (ws u))"
        then obtain u where u: "(k', v') \<in> set (left (ws u))" by blast
        have "(k', v') \<in> set (left ((ws(t := w)) u))"
          using u False by (cases "u = t") (simp_all add: Next Cons e w')
        then show False using that(3) by blast
      qed
      ultimately show ?thesis using that(2) by (simp add: m')
    qed
    show ?thesis
      unfolding flush_inv_def prod.case
    proof (intro conjI allI ballI impI)
      fix u show "path_ok ((ws(t := w)) u)" using inv first_level [OF E] by (auto simp: flush_inv_def w')
    next
      fix u show "set (left ((ws(t := w)) u)) \<subseteq> set entries" using inv r by (auto simp: flush_inv_def w')
    next
      fix x assume x: "x \<in> set entries"
      then show "case x of (k, v) \<Rightarrow> (\<exists>u. (k, v) \<in> set (left ((ws(t := w)) u))) \<or> m' (computeHash E k) = Some (leaf_text E v)"
      proof -
        obtain k v where Pair: "x = (k, v)" by fastforce
        have "(\<exists>u. (k, v) \<in> set (left (ws u))) \<or> m (computeHash E k) = Some (leaf_text E v)"
          using inv x Pair by (simp add: flush_inv_def split_beta) force
        then show ?thesis using other [of k v] x Pair by (simp only: prod.case) blast
      qed
    next
      fix h assume "length (h :: string) = 64" "h \<notin> computeHash E ` fst ` set entries"
      then show "m' h = m0 h" using inv kv by (force simp: flush_inv_def m')
    qed
  qed
next
  case (Read_parent p c rest es)
  then have "m' = m" "left w = left (ws t)"
    using w by (auto split: if_splits)
  moreover have "path_ok w"
  proof -
    have "path_ok (ws t)" using inv by (simp add: flush_inv_def)
    then show ?thesis using w Read_parent next_level_path by (auto split: if_splits)
  qed
  ultimately show ?thesis using flush_inv_leaves [OF E inv] by blast
next
  case (Write_parent p c nd rest es)
  have "path_ok (ws t)" using inv by (simp add: flush_inv_def)
  then have p: "length p < 64" "path_ok w" "left w = left (ws t)"
    using w next_level_path Write_parent by (auto simp: on_path_def)
  obtain d where "m' = m(p \<mapsto> d)" using w Write_parent by (auto simp: put_eq [OF E])
  then have "m' h = m h" if "length h = 64" for h using that p(1) by auto
  then show ?thesis using flush_inv_leaves [OF E inv p(3,2)] by blast
qed

lemma chunk_subset: "set (chunk xs n t) \<subseteq> set xs"
  by (auto simp: chunk_drop dest: in_set_takeD in_set_dropD)

lemma in_some_chunk: "0 < n \<Longrightarrow> x \<in> set xs \<Longrightarrow> \<exists>t<n. x \<in> set (chunk xs n t)"
proof -
  assume n: "0 < n" and x: "x \<in> set xs"
  have "x \<in> set (concat (map (chunk xs n) [0..<n]))" unfolding chunks_cover [OF n] by (rule x)
  then show ?thesis by auto
qed

lemma flush_inv_start: "0 < thCount \<Longrightarrow> flush_inv E entries m (flush_start entries thCount m)"
  unfolding flush_inv_def flush_start_def prod.case
proof (intro conjI allI ballI impI)
  fix x assume n: "0 < thCount" and x: "x \<in> set entries"
  obtain t where "t < thCount" "x \<in> set (chunk entries thCount t)" using in_some_chunk [OF n x] by blast
  then show "case x of (k, v) \<Rightarrow>
      (\<exists>t. (k, v) \<in> set (left (if t < thCount then Next (chunk entries thCount t) else Next []))) \<or>
      m (computeHash E k) = Some (leaf_text E v)"
    by (cases x) (auto intro!: exI [of _ t])
qed (use chunk_subset [of entries thCount] in auto)

lemma flush_inv_reach:
  assumes "lawful E" "distinct (map fst entries)" "inj_on (computeHash E) (fst ` set entries)"
  shows "flush_reach E s s' \<Longrightarrow> flush_inv E entries m0 s \<Longrightarrow> flush_inv E entries m0 s'"
proof (induction rule: flush_reach.induct)
  case (step s s' s'')
  then show ?case using flush_inv_step [OF assms] by (auto elim!: flush_stepE)
qed

text \<open>When all threads are joined, every leaf is written and no other leaf has changed.\<close>

lemma joined_leaves:
  assumes E: "lawful E" and d: "distinct (map fst entries)" and inj: "inj_on (computeHash E) (insert key (fst ` set entries))"
    and th: "0 < thCount" and r: "flush_reach E (flush_start entries thCount m) (m1, ws)" and j: "joined (m1, ws)"
  shows "getValue E m1 key = (case map_of entries key of Some v \<Rightarrow> takeWhile (\<lambda>x. x \<noteq> CHR '','') v
                              | None \<Rightarrow> getValue E m key)"
proof -
  have i: "inj_on (computeHash E) (fst ` set entries)" using inj by (rule inj_on_subset) auto
  have inv: "flush_inv E entries m (m1, ws)"
    by (rule flush_inv_reach [OF E d i r flush_inv_start [OF th]])
  have written: "m1 (computeHash E k) = Some (leaf_text E v)" if "(k, v) \<in> set entries" for k v
    using inv j that by (auto simp: flush_inv_def joined_def)
  show ?thesis
  proof (cases "map_of entries key")
    case None
    then have "computeHash E key \<notin> computeHash E ` fst ` set entries"
      using inj by (auto simp: inj_on_def map_of_eq_None_iff)
    then have "m1 (computeHash E key) = m (computeHash E key)"
      using inv hash_length [OF E, of key] by (simp add: flush_inv_def)
    then show ?thesis using None by (simp add: getValue_def getNode_def)
  next
    case (Some v)
    then have "m1 (computeHash E key) = Some (leaf_text E v)" using written map_of_SomeD by fastforce
    then show ?thesis using Some by (simp add: getValue_def getNode_def leaf_text_def deserialize_value)
  qed
qed

section \<open>The threads come to an end\<close>

text \<open>Accesses that are left: at most two for each level of a path, and one for the leaf.\<close>

fun work :: "writer \<Rightarrow> nat" where
  "work (Next es) = 130 * length es"
| "work (Read_parent p c rest es) = 2 * length rest + 2 + 130 * length es"
| "work (Write_parent p c nd rest es) = 2 * length rest + 1 + 130 * length es"

lemma next_level_work: "work (next_level c rest es) = 2 * length rest + 130 * length es"
  by (cases rest) (simp_all add: next_level_def)

lemma writer_works: "lawful E \<Longrightarrow> w \<noteq> Next [] \<Longrightarrow> writer_step E (m, w) = (m', w') \<Longrightarrow> work w' < work w"
proof (induction E "(m, w)" rule: writer_step.induct)
  case (2 E key val es)
  from 2(1) [symmetric] 2(2-) hash_length [of E key] show ?case by (auto simp: put_eq Let_def)
qed (auto simp: next_level_work)

definition total_work :: "nat \<Rightarrow> writers \<Rightarrow> nat" where
  "total_work thCount = (\<lambda>(m, ws). \<Sum>t<thCount. work (ws t))"

definition idle_above :: "nat \<Rightarrow> writers \<Rightarrow> bool" where
  "idle_above thCount = (\<lambda>(m, ws). \<forall>t\<ge>thCount. ws t = Next [])"

lemma total_work_step:
  assumes "lawful E" "flush_step E s s'" "idle_above n s"
  shows "idle_above n s' \<and> total_work n s' < total_work n s"
  using assms(2)
proof (cases rule: flush_step.cases)
  case (1 ws t m m' w)
  have t: "t < n" using 1(1,3) assms(3) by (cases "t < n") (simp_all add: idle_above_def)
  have "(\<Sum>u<n. work ((ws(t := w)) u)) = work w + (\<Sum>u\<in>{..<n} - {t}. work (ws u))"
    using t by (subst sum.remove [of _ t]) auto
  moreover have "(\<Sum>u<n. work (ws u)) = work (ws t) + (\<Sum>u\<in>{..<n} - {t}. work (ws u))"
    using t by (subst sum.remove [of _ t]) auto
  ultimately show ?thesis
    using 1 assms(3) t writer_works [OF assms(1) 1(3,4)] by (auto simp: total_work_def idle_above_def)
qed

lemma idle_start: "idle_above n (flush_start entries n m)"
  by (simp add: idle_above_def flush_start_def)

lemma start_work: "0 < n \<Longrightarrow> total_work n (flush_start entries n m) = 130 * length entries"
proof -
  assume n: "0 < n"
  have "length entries = (\<Sum>t<n. length (chunk entries n t))"
    by (subst chunks_cover [OF n, of entries, symmetric])
      (simp add: length_concat comp_def interv_sum_list_conv_sum_set_nat atLeast0LessThan)
  then show ?thesis by (simp add: total_work_def flush_start_def sum_distrib_left)
qed

lemma steps_bound:
  assumes "lawful E"
  shows "(flush_step E ^^ k) s s' \<Longrightarrow> idle_above n s \<Longrightarrow> idle_above n s' \<and> k + total_work n s' \<le> total_work n s"
proof (induction k arbitrary: s')
  case (Suc k)
  then obtain u where "(flush_step E ^^ k) s u" "flush_step E u s'" by auto
  then show ?case using Suc.IH [of u] Suc.prems(2) total_work_step [OF assms, of u s' n] by simp
qed simp

lemma not_joined_step: "\<not> joined s \<Longrightarrow> \<exists>s'. flush_step E s s'"
proof -
  assume "\<not> joined s"
  then obtain m ws t where s: "s = (m, ws)" "ws t \<noteq> Next []" by (cases s) (auto simp: joined_def)
  obtain m' w where "writer_step E (m, ws t) = (m', w)" by fastforce
  then show ?thesis using s flush_step.intros [of ws t E m m' w] by blast
qed

end
