(* ===== verification/Commit_Race.thy ===== *)
theory Commit_Race
  imports Commit_Parallel Merkle_Update
begin

text \<open>
  The interleavings of the parallel flush at their two ends: one after the other the threads do what the
  serial flush does, and when two of them read the root before either writes it back, the link of the one
  that writes first is lost.
\<close>

section \<open>Putting runs together\<close>

lemma flush_reach_trans: "flush_reach E s' s'' \<Longrightarrow> flush_reach E s s' \<Longrightarrow> flush_reach E s s''"
  by (induction rule: flush_reach.induct) (auto intro: flush_reach.step)

lemma flush_reach_then [trans]: "flush_reach E s s' \<Longrightarrow> flush_reach E s' s'' \<Longrightarrow> flush_reach E s s''"
  by (rule flush_reach_trans)

lemma flush_reach_one: "ws t \<noteq> Next [] \<Longrightarrow> writer_step E (m, ws t) = (m', w) \<Longrightarrow> flush_reach E (m, ws) (m', ws(t := w))"
  by (rule flush_reach.step [OF flush_reach.refl flush_step.intros])

lemma run_alone:
  "(writer_step E ^^ n) (m, ws t) = (m', w) \<Longrightarrow> flush_reach E (m, ws) (m', ws(t := w))"
proof (induction n arbitrary: m' w)
  case 0
  then show ?case by (simp add: fun_upd_idem flush_reach.refl)
next
  case (Suc n)
  obtain m1 w1 where s: "(writer_step E ^^ n) (m, ws t) = (m1, w1)" by fastforce
  then have r: "flush_reach E (m, ws) (m1, ws(t := w1))" by (rule Suc.IH)
  have w: "writer_step E (m1, w1) = (m', w)" using Suc.prems s by simp
  show ?case
  proof (cases "w1 = Next []")
    case True
    then show ?thesis using r w by (simp del: fun_upd_apply)
  next
    case False
    then have "flush_reach E (m1, ws(t := w1)) (m', ws(t := w))"
      using flush_reach_one [of "ws(t := w1)" t E m1 m' w] w by simp
    then show ?thesis using r flush_reach_trans by blast
  qed
qed

section \<open>One thread after the other\<close>

lemma flush_inserts_append: "flush_inserts E (xs @ ys) m = flush_inserts E ys (flush_inserts E xs m)"
  by (simp add: flush_inserts_def)

lemma serial_interleaving:
  assumes "n \<le> thCount"
  shows "flush_reach E (flush_start entries thCount m)
    (flush_inserts E (concat (map (chunk entries thCount) [0..<n])) m,
     \<lambda>t. if n \<le> t \<and> t < thCount then Next (chunk entries thCount t) else Next [])"
  using assms
proof (induction n)
  case 0
  then show ?case by (simp add: flush_start_def flush_inserts_def flush_reach.refl)
next
  case (Suc n)
  let ?m = "flush_inserts E (concat (map (chunk entries thCount) [0..<n])) m"
  let ?ws = "\<lambda>t. if n \<le> t \<and> t < thCount then Next (chunk entries thCount t) else Next []"
  obtain k where "(writer_step E ^^ k) (?m, ?ws n) = (flush_inserts E (chunk entries thCount n) ?m, Next [])"
    using writer_share [of E ?m "chunk entries thCount n"] Suc.prems by auto
  then have "flush_reach E (?m, ?ws) (flush_inserts E (chunk entries thCount n) ?m, ?ws(n := Next []))"
    by (rule run_alone)
  moreover have "?ws(n := Next []) =
      (\<lambda>t. if Suc n \<le> t \<and> t < thCount then Next (chunk entries thCount t) else Next [])"
    by (auto simp: fun_eq_iff)
  ultimately show ?case
    using Suc flush_reach_trans by (simp add: flush_inserts_append)
qed

lemma serial_flush_possible:
  assumes "0 < thCount" "flushMapToState E entries m = Ret m2"
  shows "parallel_flush E thCount entries m m2"
proof -
  have "flush_reach E (flush_start entries thCount m) (flush_inserts E entries m, \<lambda>t. Next [])"
  proof -
    have "(\<lambda>t. if thCount \<le> t \<and> t < thCount then Next (chunk entries thCount t) else Next []) = (\<lambda>t. Next [])"
      by (rule ext) auto
    then show ?thesis
      using serial_interleaving [of thCount thCount E entries m] by (simp add: chunks_cover [OF assms(1)])
  qed
  then show ?thesis
    using assms parallel_flush.intros [OF assms(1)] by (simp add: flushMapToState_def joined_def)
qed

section \<open>A lost link\<close>

lemma link_path_root:
  assumes E: "lawful E" and x: "is_hex x"
  shows "link_path E xs [x] m root_key = m root_key"
proof (rule link_path_frame [OF E], intro allI impI notI)
  fix i assume "i < length xs" "root_key = [x] @ take i xs"
  then show False using x by (auto simp: root_key_def is_hex_def isdigit_def)
qed

text \<open>A serial insertion keeps the children of the root.\<close>

lemma inserted_root_mono:
  assumes E: "lawful E" and m: "tree_ok m"
  shows "set (nchildren (getNode m root_key)) \<subseteq> set (nchildren (getNode (inserted E key v m) root_key))"
proof -
  obtain x xs m1 m2 where h: "is_hex x" "inserted E key v m = link_path E xs [x] m2" "m2 = add_child E m1 root_key [x]"
    "m1 = m(computeHash E key \<mapsto> serializeNode \<lparr>nvalue = v, nhash = computeHash E v, nchildren = []\<rparr>)" "tree_ok m1"
    using inserted_steps [OF E m, of key v] by metis
  have r: "getNode m1 root_key = getNode m root_key"
    using hash_not_root [of E key, symmetric] by (simp add: h(4) getNode_def)
  have c: "CHR '','' \<notin> set [x]" using h(1) not_hex_comma by auto
  have t: "tidy (getNode m1 root_key) \<or> m1 root_key = None" using h(5) by (simp add: tree_ok_def root_ok_def)
  have "set (nchildren (getNode m1 root_key)) \<subseteq> set (nchildren (getNode m2 root_key))"
    using add_child_node(1) [OF E t c] h(3) by auto
  moreover have "getNode (link_path E xs [x] m2) root_key = getNode m2 root_key"
    using link_path_root [OF E h(1)] by (rule getNode_other)
  ultimately show ?thesis by (simp add: h(2) r)
qed

lemma next_level_alone:
  assumes E: "lawful E" and x: "is_hex x" "list_all is_hex xs"
  shows "\<exists>n m'. (writer_step E ^^ n) (m, next_level [x] xs []) = (m', Next []) \<and> m' root_key = m root_key"
proof (cases xs)
  case Nil
  then show ?thesis by (intro exI [of _ 0]) (simp add: next_level_def)
next
  case (Cons y ys)
  obtain n where "(writer_step E ^^ n) (m, next_level [x] xs []) = (link_path E xs [x] m, Next [])"
    using link_alone [of E m "[x]" "[x, y]" ys "[]"] by (auto simp: next_level_def Cons)
  then show ?thesis using link_path_root [OF E x(1)] by blast
qed

lemma root_rehash_node:
  assumes E: "lawful E" and t: "tidy (getNode m root_key)"
  shows "nchildren (getNode (rehash_node E m p) root_key) = nchildren (getNode m root_key) \<and>
    tidy (getNode (rehash_node E m p) root_key)"
proof (cases "p = root_key")
  case True
  then show ?thesis using t tidy_hash [OF t, of "computeHash E _"] by (simp add: rehash_node_eq [OF E])
next
  case False
  then show ?thesis using t by (simp add: rehash_node_eq [OF E] getNode_def)
qed

lemma root_climb:
  assumes E: "lawful E"
  shows "tidy (getNode m root_key) \<Longrightarrow>
    nchildren (getNode (climb_hashes E cur m) root_key) = nchildren (getNode m root_key) \<and>
    tidy (getNode (climb_hashes E cur m) root_key)"
proof (induction cur arbitrary: m rule: rev_induct)
  case Nil
  then show ?case by (simp add: climb_hashes.simps)
next
  case (snoc x xs)
  then show ?case using root_rehash_node [OF E snoc.prems, of "xs @ [x]"]
    by (subst (1 2) climb_hashes.simps) simp
qed

lemma root_parents:
  assumes E: "lawful E" and t: "tidy (getNode m root_key)"
  shows "nchildren (getNode (parents_updated E key m) root_key) = nchildren (getNode m root_key) \<and>
    tidy (getNode (parents_updated E key m) root_key)"
proof -
  let ?m = "climb_hashes E (butlast key) m"
  have c: "nchildren (getNode ?m root_key) = nchildren (getNode m root_key)" "tidy (getNode ?m root_key)"
    using root_climb [OF E t] by blast+
  show ?thesis using c(1) tidy_hash [OF c(2), of "computeHash E _"]
    by (simp add: parents_updated_def rehash_root_eq [OF E])
qed

lemma root_parents_fold:
  assumes E: "lawful E"
  shows "tidy (getNode m root_key) \<Longrightarrow>
    nchildren (getNode (fold (\<lambda>(k, v). parents_updated E k) es m) root_key) = nchildren (getNode m root_key)"
proof (induction es arbitrary: m)
  case (Cons e es)
  then show ?case using root_parents [OF E Cons.prems, of "fst e"] by (simp add: split_beta)
qed simp

text \<open>Two threads.\<close>

definition two :: "writer \<Rightarrow> writer \<Rightarrow> nat \<Rightarrow> writer" where
  "two w1 w2 = (\<lambda>t. if t = 0 then w1 else if t = 1 then w2 else Next [])"

lemma two_upd: "(two w1 w2)(0 := w) = two w w2" "(two w1 w2)(1 := w) = two w1 w"
  by (auto simp: two_def fun_eq_iff)

lemma two_apply: "two w1 w2 0 = w1" "two w1 w2 1 = w2"
  by (simp_all add: two_def)

lemma two_runs:
  "(writer_step E ^^ n) (m, w1) = (m', w) \<Longrightarrow> flush_reach E (m, two w1 w2) (m', two w w2)"
  "(writer_step E ^^ n) (m, w2) = (m', w) \<Longrightarrow> flush_reach E (m, two w1 w2) (m', two w1 w)"
  using run_alone [where t = 0 and ws = "two w1 w2"] run_alone [where t = 1 and ws = "two w1 w2"]
  by (simp_all add: two_upd [unfolded One_nat_def] two_apply [unfolded One_nat_def] del: fun_upd_apply)

lemma two_steps:
  "writer_step E (m, w1) = (m', w) \<Longrightarrow> flush_reach E (m, two w1 w2) (m', two w w2)"
  "writer_step E (m, w2) = (m', w) \<Longrightarrow> flush_reach E (m, two w1 w2) (m', two w1 w)"
  using two_runs [where n = 1] by simp_all

lemma two_start: "flush_start [a, b] 2 m = (m, two (Next [a]) (Next [b]))"
  by (auto simp: flush_start_def chunk_def Let_def fun_eq_iff two_def less_2_cases_iff)

lemma link_lost:
  assumes E: "lawful E" and m: "tree_ok m" and ks: "k1 \<noteq> []" "k2 \<noteq> []"
    and x: "hd (computeHash E k1) \<noteq> hd (computeHash E k2)"
    and new: "[hd (computeHash E k1)] \<notin> set (nchildren (getNode m root_key))"
      "[hd (computeHash E k2)] \<notin> set (nchildren (getNode m root_key))"
  shows "\<exists>m2. parallel_flush E 2 [(k1, v1), (k2, v2)] m m2 \<and>
    [hd (computeHash E k1)] \<notin> set (nchildren (getNode m2 root_key))"
proof -
  obtain x1 r1 where h1: "computeHash E k1 = x1 # r1" "is_hex x1" "list_all is_hex r1" using hash_cons [OF E] by metis
  obtain x2 r2 where h2: "computeHash E k2 = x2 # r2" "is_hex x2" "list_all is_hex r2" using hash_cons [OF E] by metis
  let ?es = "[(k1, v1), (k2, v2)]"
  let ?R = "getNode m root_key"
  let ?m1 = "m(computeHash E k1 \<mapsto> leaf_text E v1)"
  let ?m2 = "?m1(computeHash E k2 \<mapsto> leaf_text E v2)"
  let ?n2 = "?R\<lparr>nchildren := nchildren ?R @ [[x2]]\<rparr>"
  let ?m3 = "?m2(root_key \<mapsto> serializeNode (?R\<lparr>nchildren := nchildren ?R @ [[x1]]\<rparr>))"
  let ?m4 = "?m3(root_key \<mapsto> serializeNode ?n2)"
  have root: "getNode ?m2 root_key = ?R"
    using hash_not_root [of E k1, symmetric] hash_not_root [of E k2, symmetric] by (simp add: getNode_def)
  have absent: "[x1] \<notin> set (nchildren ?R)" "[x2] \<notin> set (nchildren ?R)" using new by (simp_all add: h1 h2)
  have "flush_reach E (m, two (Next [(k1, v1)]) (Next [(k2, v2)])) (?m1, two (Read_parent root_key [x1] r1 []) (Next [(k2, v2)]))"
    by (rule two_steps) (simp add: put_eq [OF E] h1 first_char_def leaf_text_def Let_def)
  also have "flush_reach E \<dots> (?m2, two (Read_parent root_key [x1] r1 []) (Read_parent root_key [x2] r2 []))"
    by (rule two_steps) (simp add: put_eq [OF E] h2 first_char_def leaf_text_def Let_def)
  also have "flush_reach E \<dots> (?m2, two (Write_parent root_key [x1] ?R r1 []) (Read_parent root_key [x2] r2 []))"
    by (rule two_steps) (simp add: root absent)
  also have "flush_reach E \<dots> (?m2, two (Write_parent root_key [x1] ?R r1 []) (Write_parent root_key [x2] ?R r2 []))"
    by (rule two_steps) (simp add: root absent)
  also have "flush_reach E \<dots> (?m3, two (next_level [x1] r1 []) (Write_parent root_key [x2] ?R r2 []))"
    by (rule two_steps) (simp add: put_eq [OF E])
  also have "flush_reach E \<dots> (?m4, two (next_level [x1] r1 []) (next_level [x2] r2 []))"
    by (rule two_steps) (simp add: put_eq [OF E])
  finally have go: "flush_reach E (flush_start ?es 2 m) (?m4, two (next_level [x1] r1 []) (next_level [x2] r2 []))"
    by (simp only: two_start)
  obtain n m5 where m5: "(writer_step E ^^ n) (?m4, next_level [x1] r1 []) = (m5, Next [])" "m5 root_key = ?m4 root_key"
    using next_level_alone [OF E h1(2,3)] by blast
  obtain n' m6 where m6: "(writer_step E ^^ n') (m5, next_level [x2] r2 []) = (m6, Next [])" "m6 root_key = m5 root_key"
    using next_level_alone [OF E h2(2,3)] by blast
  have fin: "flush_reach E (flush_start ?es 2 m) (m6, two (Next []) (Next []))"
    using go two_runs(1) [OF m5(1)] two_runs(2) [OF m6(1)] flush_reach_then by blast
  have t: "tidy ?R" using m by (simp add: tree_ok_def root_ok_def)
  have "x2 \<noteq> CHR '',''" using h2(2) not_hex_comma by auto
  then have "tidy ?n2" using tidy_add [of ?R "[x2]"] t by simp
  then have n6: "getNode m6 root_key = ?n2"
    using getNode_tidy_upd [of ?n2 ?m3 root_key root_key] by (simp add: m6(2) m5(2) getNode_def)
  let ?m7 = "fold (\<lambda>(k, v). parents_updated E k) ?es m6"
  have "parallel_flush E 2 ?es m ?m7"
    using ks by (intro parallel_flush.intros [OF _ fin] each_parents) (auto simp: joined_def two_def)
  moreover have "nchildren (getNode ?m7 root_key) = nchildren ?R @ [[x2]]"
    using root_parents_fold [OF E, of m6 ?es] \<open>tidy ?n2\<close> by (simp add: n6)
  ultimately show ?thesis using new(1) x by (auto simp: h1 h2)
qed

end
