(* ===== verification/Commit_Properties.thy ===== *)
theory Commit_Properties
  imports Commit_Race State_Properties
begin

text \<open>
  What the parallel node's commit keeps and what it may lose: the values survive every interleaving of the
  inserting threads, the threads end, and a link of the tree does not survive.
\<close>

text \<open>C21: The parallel commit delivers the values: whatever way the inserting threads of the parallel node
  interleave their reads and writes of the database, once they are joined and the parent hashes are
  updated, every key of the block's map reads back as its value (up to the first comma), and every other
  key as before, unless two keys have the same hash. The commit of the serial node is one of these
  runs.\<close>

theorem parallel_commit_values:
  assumes "lawful E" "distinct (map fst es)" "0 < thCount" "\<forall>(k, v)\<in>set es. k \<noteq> []"
  shows "(\<forall>m2 key. parallel_flush E thCount es m m2 \<longrightarrow> inj_on (computeHash E) (insert key (fst ` set es)) \<longrightarrow>
      getValue E m2 key = (case map_of es key of Some v \<Rightarrow> takeWhile (\<lambda>x. x \<noteq> CHR '','') v
                           | None \<Rightarrow> getValue E m key)) \<and>
    (\<exists>m2. flushMapToState E es m = Ret m2 \<and> parallel_flush E thCount es m m2)"
proof (intro conjI allI impI)
  fix m2 key
  assume p: "parallel_flush E thCount es m m2" and inj: "inj_on (computeHash E) (insert key (fst ` set es))"
  obtain m1 ws where r: "flush_reach E (flush_start es thCount m) (m1, ws)" "joined (m1, ws)"
    "each (\<lambda>(key, val). updateParentHashes E key) es m1 = Ret m2"
    using p by (auto elim: parallel_flushE)
  have "getValue E m2 key = getValue E m1 key"
    using r(3) each_parents [OF assms(4), of E m1] getValue_parents_fold [OF assms(1), of es m1 key] by simp
  then show "getValue E m2 key = (case map_of es key of Some v \<Rightarrow> takeWhile (\<lambda>x. x \<noteq> CHR '','') v
      | None \<Rightarrow> getValue E m key)"
    using joined_leaves [OF assms(1,2) inj assms(3) r(1,2)] by simp
next
  show "\<exists>m2. flushMapToState E es m = Ret m2 \<and> parallel_flush E thCount es m m2"
    using flush_eq [OF assms(4)] serial_flush_possible [OF assms(3)] by blast
qed

definition two_entries :: "(string \<times> string) list" where
  "two_entries = [(''walletab'', ''5''), (''voterX'', ''1'')]"

theorem parallel_commit_values_witness:
  "\<exists>m2. parallel_flush sample_env 2 two_entries Map.empty m2 \<and> getValue sample_env m2 ''walletab'' = ''5''"
proof -
  have "inj_on (computeHash sample_env) (insert ''walletab'' (fst ` set two_entries))"
    by (rule sample_inj) (auto simp: inj_on_def two_entries_def)
  then show ?thesis
    using parallel_commit_values [OF sample_lawful, of two_entries 2 Map.empty] by (force simp: two_entries_def)
qed

text \<open>C23: The inserting threads come to an end: a run of the threads of the parallel commit makes at most 130
  accesses for each entry of the map (one for the leaf, and a read and a write for each of the 64 levels),
  and as long as one thread is not done, some thread can go on.\<close>

theorem parallel_commit_ends:
  assumes "lawful E" "0 < thCount"
  shows "(\<forall>n s. (flush_step E ^^ n) (flush_start es thCount m) s \<longrightarrow> n \<le> 130 * length es) \<and>
    (\<forall>s. flush_reach E (flush_start es thCount m) s \<longrightarrow> joined s \<or> (\<exists>s'. flush_step E s s'))"
proof (intro conjI allI impI)
  fix n s assume "(flush_step E ^^ n) (flush_start es thCount m) s"
  then show "n \<le> 130 * length es"
    using steps_bound [OF assms(1) _ idle_start] start_work [OF assms(2)] by (metis add_leE)
qed (use not_joined_step in blast)

theorem parallel_commit_ends_witness:
  "\<forall>s. \<not> (flush_step sample_env ^^ 261) (flush_start two_entries 2 Map.empty) s"
  using parallel_commit_ends [OF sample_lawful, of 2 two_entries Map.empty]
  by (fastforce simp: two_entries_def simp del: relpowp.simps)


text \<open>A SHA-256 in which the first byte of the digest is the first byte of the text.\<close>

definition first_byte_env :: env where
  "first_byte_env = sample_env\<lparr>sha256 := (\<lambda>s. (case s of [] \<Rightarrow> 0 | c # cs \<Rightarrow> of_nat (of_char c)) # replicate 31 0)\<rparr>"


end
