(* ===== verification/Single_Node.thy ===== *)
theory Single_Node
  imports Test_Producer Scheduler_Serial Commit_Parallel Storage
begin

text \<open>
  The main programs of the two single nodes, \<open>singleNode-parallel/node/node.cpp\<close> and
  \<open>singleNode-serial/node/node.cpp\<close>: a loop that produces a block from a file of commands, builds the
  graph (twice: \<open>main\<close> creates it and \<open>extractBlock\<close> creates it again), executes the block, commits the
  map and files the block.
\<close>

section \<open>What the programs are given\<close>

text \<open>
  \<open>config.json\<close>, the two command files, and the libraries. A command file that does not open is \<open>None\<close>.
\<close>

record node_config =
  n_env :: env
  n_blocks :: block_codec
  n_codec :: codec
  n_image :: image_env
  n_show :: show_header
  n_threadCount :: nat
  n_txnCount :: int
  n_blocksCount :: nat
  n_setup :: "string option"
  n_testFile :: "string option"

definition command_file_of :: "node_config \<Rightarrow> nat \<Rightarrow> string option" where
  "command_file_of N cnt = (if cnt mod 2 = 0 then n_setup N else n_testFile N)"

text \<open>How a pass through the loop ends: with the next pass, with \<open>break\<close>, or with \<open>return\<close>.\<close>

datatype pass_end = Goes_on | Breaks | Returns

text \<open>A scheduler that has just been constructed; \<open>totalTxns\<close> is not initialised before \<open>create\<close> sets it.\<close>

definition new_dag :: dag where
  "new_dag = \<lparr>CurrentTransactions = [], adjacencyMatrix = [], inDegree = None, completedTxns = 0, lastTxn = 0,
     totalTxns = 0, threadCount = 2\<rparr>"

definition stored :: "node_config \<Rightarrow> block \<Rightarrow> block_header \<Rightarrow> db \<Rightarrow> db" where
  "stored N newBlock header blocks =
     snd (storeBlock (n_env N) (CHR ''B'' # to_string (int (block_num header)))
       (serialized (show_block (n_blocks N) newBlock)) blocks)"

section \<open>The parallel node\<close>

record parallel_node =
  pn_state :: db
  pn_blocks :: db

text \<open>
  A pass, for some nonces and some time, some interleaving of the threads and some order of the map's
  entries. The scheduler is constructed anew in every pass.
\<close>

inductive parallel_pass :: "node_config \<Rightarrow> nat \<Rightarrow> parallel_node \<Rightarrow> pass_end \<Rightarrow> parallel_node \<Rightarrow> bool" for N where
  bad_header: "produce_parallel (n_env N) (n_blocks N) (n_show N) nonces now (pn_state s) (pn_state s) (n_txnCount N)
      (command_file_of N cnt) (pn_blocks s) = Ret newBlock \<Longrightarrow>
    parse_block_header (n_blocks N) (b_header newBlock) = None \<Longrightarrow>
    parallel_pass N cnt s Returns s"
| refused: "produce_parallel (n_env N) (n_blocks N) (n_show N) nonces now (pn_state s) (pn_state s) (n_txnCount N)
      (command_file_of N cnt) (pn_blocks s) = Ret newBlock \<Longrightarrow>
    parse_block_header (n_blocks N) (b_header newBlock) = Some header \<Longrightarrow>
    create_dag (n_codec N) newBlock (n_threadCount N) new_dag = Ret d1 \<Longrightarrow>
    create_dag (n_codec N) newBlock (n_threadCount N) d1 = Ret d2 \<Longrightarrow>
    J = block_job (execute_parallel (n_codec N) (n_image N) (getValue (n_env N) (pn_state s))) (n_codec N) d2
      (b_transactions newBlock) \<Longrightarrow>
    sched_reach J (sched_start J (n_threadCount N) Map.empty) sc \<Longrightarrow> \<forall>t. sc_phase sc t = Stopped \<Longrightarrow> \<not> sc_flag sc \<Longrightarrow>
    parallel_pass N cnt s Breaks s"
| committed: "produce_parallel (n_env N) (n_blocks N) (n_show N) nonces now (pn_state s) (pn_state s) (n_txnCount N)
      (command_file_of N cnt) (pn_blocks s) = Ret newBlock \<Longrightarrow>
    parse_block_header (n_blocks N) (b_header newBlock) = Some header \<Longrightarrow>
    create_dag (n_codec N) newBlock (n_threadCount N) new_dag = Ret d1 \<Longrightarrow>
    create_dag (n_codec N) newBlock (n_threadCount N) d1 = Ret d2 \<Longrightarrow>
    J = block_job (execute_parallel (n_codec N) (n_image N) (getValue (n_env N) (pn_state s))) (n_codec N) d2
      (b_transactions newBlock) \<Longrightarrow>
    sched_reach J (sched_start J (n_threadCount N) Map.empty) sc \<Longrightarrow> \<forall>t. sc_phase sc t = Stopped \<Longrightarrow> sc_flag sc \<Longrightarrow>
    distinct (map fst es) \<Longrightarrow> map_of es = sc_map sc \<Longrightarrow>
    parallel_flush (n_env N) (n_threadCount N) es (pn_state s) st \<Longrightarrow>
    parallel_pass N cnt s Goes_on \<lparr>pn_state = st, pn_blocks = stored N newBlock header (pn_blocks s)\<rparr>"

inductive parallel_main :: "node_config \<Rightarrow> nat \<Rightarrow> parallel_node \<Rightarrow> parallel_node \<Rightarrow> bool" for N where
  done_: "\<not> cnt < n_blocksCount N \<Longrightarrow> parallel_main N cnt s s"
| broken: "cnt < n_blocksCount N \<Longrightarrow> parallel_pass N cnt s r s' \<Longrightarrow> r \<noteq> Goes_on \<Longrightarrow> parallel_main N cnt s s'"
| again: "cnt < n_blocksCount N \<Longrightarrow> parallel_pass N cnt s Goes_on s' \<Longrightarrow> parallel_main N (Suc cnt) s' s'' \<Longrightarrow>
    parallel_main N cnt s s''"

section \<open>The serial node\<close>

text \<open>
  One scheduler serves all passes, and \<open>dagClean\<close> does not empty its map. The node works on the copy
  \<open>globalState_tmp\<close>; the commands are built over the state it was copied from.
\<close>

record serial_node =
  sn_dag :: dag
  sn_map :: kvmap
  sn_state :: db
  sn_blocks :: db

text \<open>
  \<open>None\<close>: the pass does not return. \<open>executeTxns\<close> changes of the graph nothing that \<open>dagClean\<close> leaves, and
  after \<open>break\<close> the graph is not read any more.
\<close>

definition serial_pass ::
    "node_config \<Rightarrow> (kvmap \<Rightarrow> string list) \<Rightarrow> db \<Rightarrow> (nat \<Rightarrow> string) \<Rightarrow> int \<Rightarrow> nat \<Rightarrow> serial_node \<Rightarrow>
     (pass_end \<times> serial_node) outcome option" where
  "serial_pass N order committed nonces now cnt s =
     (case produce_serial (n_env N) (n_blocks N) (n_show N) nonces now committed (sn_state s) (n_txnCount N)
            (command_file_of N cnt) (sn_blocks s) of
        Ret newBlock \<Rightarrow>
          (case parse_block_header (n_blocks N) (b_header newBlock) of
             None \<Rightarrow> Some (Ret (Returns, s))
           | Some header \<Rightarrow>
               (case bind_outcome (create_serial (n_codec N) newBlock (sn_dag s)) (extractBlock_serial (n_codec N) newBlock) of
                  Ret (transactions, d) \<Rightarrow>
                    map_option (\<lambda>r. bind_outcome r (\<lambda>(ok, m, st).
                        if ok then Ret (Goes_on, \<lparr>sn_dag = dagClean d, sn_map = m, sn_state = st,
                                sn_blocks = stored N newBlock header (sn_blocks s)\<rparr>)
                        else Ret (Breaks, s\<lparr>sn_map := m, sn_state := st\<rparr>)))
                      (schedulTxns_serial (n_env N) (n_codec N) (n_image N) order transactions d (sn_map s) (sn_state s))
                | Throw e \<Rightarrow> Some (Throw e)
                | Undef \<Rightarrow> Some Undef
                | Stuck \<Rightarrow> Some Stuck))
      | Throw e \<Rightarrow> Some (Throw e)
      | Undef \<Rightarrow> Some Undef
      | Stuck \<Rightarrow> Some Stuck)"

text \<open>
  The loop, over the numbers of the passes that are left and what the random generator and the clock give in each pass;
  after the loop the block store is destroyed, but not on \<open>return\<close>.
\<close>

fun serial_loop ::
    "node_config \<Rightarrow> (kvmap \<Rightarrow> string list) \<Rightarrow> db \<Rightarrow> (nat \<Rightarrow> (nat \<Rightarrow> string) \<times> int) \<Rightarrow> nat list \<Rightarrow> serial_node \<Rightarrow>
     (pass_end \<times> serial_node) outcome option" where
  "serial_loop N order committed chance [] s = Some (Ret (Goes_on, s))"
| "serial_loop N order committed chance (cnt # cnts) s =
     (case serial_pass N order committed (fst (chance cnt)) (snd (chance cnt)) cnt s of
        None \<Rightarrow> None
      | Some (Ret (r, s')) \<Rightarrow>
          (if r = Goes_on then serial_loop N order committed chance cnts s' else Some (Ret (r, s')))
      | Some (Throw e) \<Rightarrow> Some (Throw e)
      | Some Undef \<Rightarrow> Some Undef
      | Some Stuck \<Rightarrow> Some Stuck)"

definition serial_main ::
    "node_config \<Rightarrow> (kvmap \<Rightarrow> string list) \<Rightarrow> db \<Rightarrow> (nat \<Rightarrow> (nat \<Rightarrow> string) \<times> int) \<Rightarrow> serial_node \<Rightarrow>
     serial_node outcome option" where
  "serial_main N order committed chance s =
     map_option (\<lambda>r. bind_outcome r (\<lambda>(e, s').
         Ret (if e = Returns then s' else s'\<lparr>sn_blocks := destroyDB (sn_blocks s')\<rparr>)))
       (serial_loop N order committed chance [0..<n_blocksCount N] s)"

text \<open>The start: the state is duplicated and the copy opened, whether or not that worked.\<close>

definition serial_start :: "rocks \<Rightarrow> env \<Rightarrow> string \<Rightarrow> (disk, unit) op" where
  "serial_start R E dbPath w = GlobalState R E ''globalState_tmp'' False (snd (duplicateState R E dbPath ''globalState_tmp'' w))"

end
