(* ===== verification/State_Reads.thy ===== *)
theory State_Reads
  imports Execution
begin

text \<open>
  What a transaction sees of the committed state: the values of the keys it names that the block's map does
  not hold yet. Two states that agree on these give the same run, and no handler takes a key out of the map.
\<close>

named_theorems reads_intros "rules showing that two runs over different committed states agree"

section \<open>Two runs\<close>

definition same_view :: "string set \<Rightarrow> (string \<Rightarrow> string) \<Rightarrow> (string \<Rightarrow> string) \<Rightarrow> kvmap \<Rightarrow> bool" where
  "same_view F gv gv' m \<longleftrightarrow> (\<forall>k\<in>F. m k = None \<longrightarrow> gv k = gv' k)"

definition runs_agree ::
    "string set \<Rightarrow> (string \<Rightarrow> string) \<Rightarrow> (string \<Rightarrow> string) \<Rightarrow> (kvmap, 'a) op \<Rightarrow> (kvmap, 'a) op \<Rightarrow> bool" where
  "runs_agree F gv gv' m m' \<longleftrightarrow> (\<forall>s. same_view F gv gv' s \<longrightarrow> m s = m' s \<and> dom s \<subseteq> dom (snd (m s)))"

lemma runs_agreeI:
  "(\<And>s. same_view F gv gv' s \<Longrightarrow> m s = m' s \<and> dom s \<subseteq> dom (snd (m s))) \<Longrightarrow> runs_agree F gv gv' m m'"
  unfolding runs_agree_def by blast

lemma runs_agreeD:
  "runs_agree F gv gv' m m' \<Longrightarrow> same_view F gv gv' s \<Longrightarrow> m s = m' s"
  "runs_agree F gv gv' m m' \<Longrightarrow> same_view F gv gv' s \<Longrightarrow> dom s \<subseteq> dom (snd (m s))"
  unfolding runs_agree_def by blast+

lemma same_view_grows: "same_view F gv gv' s \<Longrightarrow> dom s \<subseteq> dom s' \<Longrightarrow> same_view F gv gv' s'"
  unfolding same_view_def by (meson domIff subset_iff)

lemma runs_agree_basic [reads_intros]:
  "runs_agree F gv gv' (ret a) (ret a)"
  "runs_agree F gv gv' (lift r) (lift r)"
  "runs_agree F gv gv' (lookup_op k) (lookup_op k)"
  "runs_agree F gv gv' (find_op k) (find_op k)"
  "runs_agree F gv gv' (store_op k v) (store_op k v)"
  "runs_agree F gv gv' (insert_op k) (insert_op k)"
  by (auto simp: runs_agree_def insert_op_def split: option.split)

lemma runs_agree_and_then:
  assumes m: "runs_agree F gv gv' m m'" and f: "\<And>a s s'. m s = (Ret a, s') \<Longrightarrow> runs_agree F gv gv' (f a) (f' a)"
  shows "runs_agree F gv gv' (and_then m f) (and_then m' f')"
proof (rule runs_agreeI)
  fix s assume v: "same_view F gv gv' s"
  obtain r s' where ms: "m s = (r, s')" by fastforce
  have ms': "m' s = (r, s')" using runs_agreeD(1) [OF m v] ms by simp
  have d: "dom s \<subseteq> dom s'" using runs_agreeD(2) [OF m v] unfolding ms by simp
  show "and_then m f s = and_then m' f' s \<and> dom s \<subseteq> dom (snd (and_then m f s))"
  proof (cases r)
    case (Ret a)
    have "runs_agree F gv gv' (f a) (f' a)" using f ms Ret by blast
    from runs_agreeD [OF this same_view_grows [OF v d]]
    have "f a s' = f' a s'" "dom s \<subseteq> dom (snd (f a s'))" using d by (simp, blast)
    then show ?thesis by (simp add: and_then_def ms ms' Ret)
  qed (use d in \<open>simp_all add: and_then_def ms ms'\<close>)
qed

text \<open>The value a lifted outcome hands on is known; everything else is arbitrary.\<close>

lemma runs_agree_lift [reads_intros]:
  "(\<And>a. r = Ret a \<Longrightarrow> runs_agree F gv gv' (f a) (f' a)) \<Longrightarrow>
   runs_agree F gv gv' (and_then (lift r) f) (and_then (lift r) f')"
  by (rule runs_agree_and_then [OF runs_agree_basic(2)]) simp

lemma runs_agree_then [reads_intros]:
  "runs_agree F gv gv' m m' \<Longrightarrow> (\<And>a. runs_agree F gv gv' (f a) (f' a)) \<Longrightarrow>
   runs_agree F gv gv' (and_then m f) (and_then m' f')"
  by (rule runs_agree_and_then)

lemma runs_agree_cases [reads_intros]:
  "(P \<Longrightarrow> runs_agree F gv gv' m m') \<Longrightarrow> (\<not> P \<Longrightarrow> runs_agree F gv gv' n n') \<Longrightarrow>
     runs_agree F gv gv' (if P then m else n) (if P then m' else n')"
  "runs_agree F gv gv' m m' \<Longrightarrow> (\<And>a. runs_agree F gv gv' (h a) (h' a)) \<Longrightarrow>
     runs_agree F gv gv' (case x of None \<Rightarrow> m | Some a \<Rightarrow> h a) (case x of None \<Rightarrow> m' | Some a \<Rightarrow> h' a)"
  "(\<And>a b. runs_agree F gv gv' (k a b) (k' a b)) \<Longrightarrow>
     runs_agree F gv gv' (case y of (a, b) \<Rightarrow> k a b) (case y of (a, b) \<Rightarrow> k' a b)"
  "(\<And>a. runs_agree F gv gv' (h a) (h' a)) \<Longrightarrow> runs_agree F gv gv' n1 n1' \<Longrightarrow> runs_agree F gv gv' n2 n2' \<Longrightarrow>
     runs_agree F gv gv' n3 n3' \<Longrightarrow>
     runs_agree F gv gv' (case r of Ret a \<Rightarrow> h a | Throw e \<Rightarrow> n1 | Undef \<Rightarrow> n2 | Stuck \<Rightarrow> n3)
       (case r of Ret a \<Rightarrow> h' a | Throw e \<Rightarrow> n1' | Undef \<Rightarrow> n2' | Stuck \<Rightarrow> n3')"
  by (auto split: option.split prod.split outcome.split)

lemma runs_agree_catch [reads_intros]:
  assumes m: "runs_agree F gv gv' m m'"
  shows "runs_agree F gv gv' (catch_with b m) (catch_with b m')"
proof (rule runs_agreeI)
  fix s assume v: "same_view F gv gv' s"
  show "catch_with b m s = catch_with b m' s \<and> dom s \<subseteq> dom (snd (catch_with b m s))"
    using runs_agreeD [OF m v] by (auto simp: catch_with_def split: prod.split outcome.split)
qed

section \<open>Loading a value\<close>

lemma runs_agree_load:
  assumes "k \<in> F"
    and "\<And>v. runs_agree F gv gv' (h v) (h v)" and "gv k = gv' k \<Longrightarrow> runs_agree F gv gv' n n'"
  shows "runs_agree F gv gv' (and_then (lookup_op k) (\<lambda>x. case x of None \<Rightarrow> n | Some v \<Rightarrow> h v))
    (and_then (lookup_op k) (\<lambda>x. case x of None \<Rightarrow> n' | Some v \<Rightarrow> h v))"
proof (rule runs_agreeI)
  fix s assume v: "same_view F gv gv' s"
  show "and_then (lookup_op k) (\<lambda>x. case x of None \<Rightarrow> n | Some v \<Rightarrow> h v) s =
      and_then (lookup_op k) (\<lambda>x. case x of None \<Rightarrow> n' | Some v \<Rightarrow> h v) s \<and>
      dom s \<subseteq> dom (snd (and_then (lookup_op k) (\<lambda>x. case x of None \<Rightarrow> n | Some v \<Rightarrow> h v) s))"
  proof (cases "s k")
    case None
    then have "gv k = gv' k" using v assms(1) by (simp add: same_view_def)
    then show ?thesis using runs_agreeD [OF assms(3) v] None by simp
  next
    case (Some x)
    then show ?thesis using runs_agreeD [OF assms(2) v] by simp
  qed
qed

lemma runs_agree_loads [reads_intros]:
  assumes "k \<in> F"
  shows "runs_agree F gv gv' (getOrLoadBalance gv k) (getOrLoadBalance gv' k)"
    "runs_agree F gv gv' (getOrLoadVoteCount gv k) (getOrLoadVoteCount gv' k)"
    "runs_agree F gv gv' (getOrLoadVoteCount_parallel gv k) (getOrLoadVoteCount_parallel gv' k)"
    "runs_agree F gv gv' (getOrLoadValue gv k) (getOrLoadValue gv' k)"
    "runs_agree F gv gv' (getOrLoadOwnerNFTList C gv k) (getOrLoadOwnerNFTList C gv' k)"
    "runs_agree F gv gv' (getOrLoadOwnerNFTList_single C gv k) (getOrLoadOwnerNFTList_single C gv' k)"
  unfolding getOrLoadBalance_def getOrLoadVoteCount_def getOrLoadVoteCount_parallel_def getOrLoadValue_def
    getOrLoadOwnerNFTList_def getOrLoadOwnerNFTList_single_def
  by (rule runs_agree_load [OF assms]; (simp only:)?; intro reads_intros)+

section \<open>Transactions\<close>

lemma runs_agree_process_txn:
  assumes "\<And>p verb. jparse C (t_payload t) = Some p \<Longrightarrow> runs_agree (named_keys fs p) gv gv' (d p verb) (d' p verb)"
  shows "runs_agree (txn_keys C fs t) gv gv' (process_txn C d t) (process_txn C d' t)"
proof (cases "jparse C (t_payload t)")
  case None
  then show ?thesis
    by (auto simp: process_txn_def json_parse_def intro!: reads_intros split: option.split)
next
  case (Some p)
  then show ?thesis using assms [OF Some]
    by (auto simp: process_txn_def json_parse_def txn_keys_def intro!: reads_intros split: option.split)
qed

lemma wallet_reads: "runs_agree (txn_keys C wallet_fields t) gv gv' (wallet_process C gv t) (wallet_process C gv' t)"
  unfolding wallet_process_def
  by (rule runs_agree_process_txn, unfold wallet_dispatch_def deposit_def withdraw_def transfer_def, intro reads_intros)
    (auto simp: named_keys_def wallet_fields_def)

lemma voting_reads:
  "runs_agree (txn_keys C voting_fields t) gv gv' (voting_process C gv t) (voting_process C gv' t)"
  "runs_agree (txn_keys C voting_fields t) gv gv' (voting_process_serial C gv t) (voting_process_serial C gv' t)"
  "runs_agree (txn_keys C voting_fields t) gv gv' (voting_process_parallel C gv t) (voting_process_parallel C gv' t)"
  unfolding voting_process_def voting_process_serial_def voting_process_parallel_def
  by (rule runs_agree_process_txn, unfold voting_dispatch_def vote_handlers, intro reads_intros;
      auto simp: named_keys_def voting_fields_def)+

lemma ecomm_reads: "runs_agree (txn_keys C ecomm_fields t) gv gv' (ecomm_process C gv t) (ecomm_process C gv' t)"
  unfolding ecomm_process_def
  by (rule runs_agree_process_txn,
      unfold ecomm_dispatch_def checkout_def addToCart_def removeFromCart_def refillItem_def updateValue_def, intro reads_intros)
    (auto simp: named_keys_def ecomm_fields_def dest: jfield_const_Ret)

lemma nft_reads:
  "runs_agree (txn_keys C nft_fields t) gv gv' (nft_process C I gv t) (nft_process C I gv' t)"
  "runs_agree (txn_keys C nft_fields t) gv gv' (nft_process_single C I gv t) (nft_process_single C I gv' t)"
  unfolding nft_process_def nft_process_single_def
  by (rule runs_agree_process_txn, unfold nft_dispatch_def createNFT_def transferNFT_def createNFT_single_def
      transferNFT_single_def Let_def, intro reads_intros;
      auto simp: named_keys_def nft_fields_def)+

lemma runs_agree_mono: "runs_agree F gv gv' m m' \<Longrightarrow> F \<subseteq> G \<Longrightarrow> runs_agree G gv gv' m m'"
  unfolding runs_agree_def same_view_def by (meson subset_iff)

lemmas reads_widen = runs_agree_mono [OF _ txn_keys_mono]

lemma runs_agree_family:
  "runs_agree F gv gv' w w' \<Longrightarrow> runs_agree F gv gv' e e' \<Longrightarrow> runs_agree F gv gv' v v' \<Longrightarrow> runs_agree F gv gv' f f' \<Longrightarrow>
   runs_agree F gv gv' (run_family w e v f fam) (run_family w' e' v' f' fam)"
  by (simp add: run_family_def reads_intros)

lemma all_fields_parts:
  "set wallet_fields \<subseteq> set all_fields" "set voting_fields \<subseteq> set all_fields"
  "set ecomm_fields \<subseteq> set all_fields" "set nft_fields \<subseteq> set all_fields"
  by (simp_all add: all_fields_def) blast+

lemma execute_reads:
  "runs_agree (txn_keys C all_fields t) gv gv' (execute_serial C I gv h t) (execute_serial C I gv' h t)"
  "runs_agree (txn_keys C all_fields t) gv gv' (execute_parallel C I gv h t) (execute_parallel C I gv' h t)"
  "runs_agree (txn_keys C all_fields t) gv gv' (execute_cluster C I gv h t) (execute_cluster C I gv' h t)"
  unfolding execute_serial_def execute_parallel_def execute_cluster_def
  by (rule runs_agree_family reads_widen [OF wallet_reads all_fields_parts(1)]
      reads_widen [OF ecomm_reads all_fields_parts(3)] reads_widen [OF voting_reads(1) all_fields_parts(2)]
      reads_widen [OF voting_reads(2) all_fields_parts(2)] reads_widen [OF voting_reads(3) all_fields_parts(2)]
      reads_widen [OF nft_reads(1) all_fields_parts(4)] reads_widen [OF nft_reads(2) all_fields_parts(4)])+

text \<open>Whole serial runs.\<close>

lemma serial_run_reads:
  assumes "\<And>t. t \<in> set ts \<Longrightarrow> runs_agree F gv gv' (run t) (run' t)"
  shows "runs_agree F gv gv' (serial_run run ts) (serial_run run' ts)"
  using assms
proof (induction ts)
  case (Cons t ts)
  have "runs_agree F gv gv' (run t) (run' t)" using Cons.prems by simp
  then show ?case using Cons by (auto intro!: runs_agree_then reads_intros)
qed (simp add: reads_intros)

end
