(* ===== verification/Ledger.thy ===== *)
theory Ledger
  imports State_Reads Scheduler_Parallel
begin

text \<open>
  The abstract ledger a single node implements: a function from keys to values, to which a block is applied
  by running its transactions one after the other and then committing the values they leave. There are
  no threads, no graph, no tree and no database in it.
\<close>

section \<open>The ledger\<close>

type_synonym executor = "(string \<Rightarrow> string) \<Rightarrow> txn_header \<Rightarrow> transaction \<Rightarrow> (kvmap, bool) op"

definition txn_run :: "(txn_header \<Rightarrow> transaction \<Rightarrow> (kvmap, bool) op) \<Rightarrow> codec \<Rightarrow> transaction \<Rightarrow> (kvmap, bool) op" where
  "txn_run ex C t = (case parse_header C (t_header t) of None \<Rightarrow> ret False | Some h \<Rightarrow> ex h t)"

text \<open>What the tree gives back of a value: the text up to the first comma.\<close>

definition committed_text :: "string \<Rightarrow> string" where
  "committed_text v = takeWhile (\<lambda>x. x \<noteq> CHR '','') v"

definition commit :: "kvmap \<Rightarrow> (string \<Rightarrow> string) \<Rightarrow> string \<Rightarrow> string" where
  "commit m gv k = (case m k of Some v \<Rightarrow> committed_text v | None \<Rightarrow> gv k)"

definition apply_block :: "executor \<Rightarrow> codec \<Rightarrow> (string \<Rightarrow> string) \<Rightarrow> transaction list \<Rightarrow> (string \<Rightarrow> string) option" where
  "apply_block ex C gv txns =
     (case serial_run (txn_run (ex gv) C) txns Map.empty of
        (Ret ok, m) \<Rightarrow> if ok then Some (commit m gv) else None
      | _ \<Rightarrow> None)"

fun apply_blocks :: "executor \<Rightarrow> codec \<Rightarrow> (string \<Rightarrow> string) \<Rightarrow> transaction list list \<Rightarrow> (string \<Rightarrow> string) option" where
  "apply_blocks ex C gv [] = Some gv"
| "apply_blocks ex C gv (b # bs) = Option.bind (apply_block ex C gv b) (\<lambda>gv'. apply_blocks ex C gv' bs)"

lemma apply_block_Some:
  "apply_block ex C gv txns = Some g \<longleftrightarrow>
     (\<exists>m. serial_run (txn_run (ex gv) C) txns Map.empty = (Ret True, m) \<and> g = commit m gv)"
  by (auto simp: apply_block_def split: prod.splits outcome.splits if_splits)

lemma apply_blocks_snoc:
  "apply_blocks ex C gv (bs @ [b]) = Option.bind (apply_blocks ex C gv bs) (\<lambda>g. apply_block ex C g b)"
  by (induction bs arbitrary: gv) (auto split: bind_splits)

text \<open>Serial runs over positions, as the schedulers have them, and over transactions.\<close>

lemma serial_run_map: "serial_run run (map f xs) = serial_run (\<lambda>x. run (f x)) xs"
  by (induction xs) (simp_all cong: if_cong)

lemma serial_run_cong: "(\<And>x. x \<in> set xs \<Longrightarrow> run x = run' x) \<Longrightarrow> serial_run run xs = serial_run run' xs"
  by (induction xs) (simp_all cong: if_cong)

lemma block_run_serial: "serial_run (block_run ex C txns) [0..<length txns] = serial_run (txn_run ex C) txns"
proof -
  have "serial_run (block_run ex C txns) [0..<length txns] = serial_run (\<lambda>i. txn_run ex C (txns ! i)) [0..<length txns]"
    by (rule serial_run_cong) (auto simp: block_run_def txn_run_def)
  also have "\<dots> = serial_run (txn_run ex C) (map ((!) txns) [0..<length txns])" by (simp add: serial_run_map)
  finally show ?thesis by (simp only: map_nth)
qed

lemma serial_run_append:
  "serial_run run (xs @ ys) = and_then (serial_run run xs) (\<lambda>ok. if ok then serial_run run ys else ret False)"
proof (induction xs)
  case (Cons x xs)
  show ?case
    unfolding append_Cons serial_run.simps Cons.IH
    by (rule ext) (auto simp: and_then_def split: prod.split outcome.split)
qed (rule ext, simp add: and_then_def)

section \<open>The keys of a block\<close>

definition block_keys :: "codec \<Rightarrow> transaction list \<Rightarrow> string set" where
  "block_keys C txns = (\<Union>t\<in>set txns. txn_keys C all_fields t)"

locale executing =
  fixes ex :: executor and C :: codec
  assumes confined_ex: "confined (txn_keys C all_fields t) (ex gv h t)"
    and reads_ex: "runs_agree (txn_keys C all_fields t) gv gv' (ex gv h t) (ex gv' h t)"
begin

lemma txn_confined: "confined (txn_keys C all_fields t) (txn_run (ex gv) C t)"
  by (simp add: txn_run_def confined_ret confined_ex split: option.split)

lemma txn_reads: "runs_agree (txn_keys C all_fields t) gv gv' (txn_run (ex gv) C t) (txn_run (ex gv') C t)"
  by (simp add: txn_run_def reads_intros reads_ex split: option.split)

lemma run_frame: "k \<notin> block_keys C txns \<Longrightarrow> snd (serial_run (txn_run (ex gv) C) txns m) k = m k"
proof (induction txns arbitrary: m)
  case (Cons t ts)
  obtain r m1 where r: "txn_run (ex gv) C t m = (r, m1)" by fastforce
  have "m1 k = m k"
    using confined_frame [OF txn_confined, of k t gv m] Cons.prems r by (simp add: block_keys_def)
  then show ?case using Cons by (cases r) (simp_all add: and_then_def r block_keys_def)
qed simp

lemma run_reads:
  assumes "same_view (block_keys C txns) gv gv' m"
  shows "serial_run (txn_run (ex gv) C) txns m = serial_run (txn_run (ex gv') C) txns m"
    and "dom m \<subseteq> dom (snd (serial_run (txn_run (ex gv) C) txns m))"
proof -
  have "runs_agree (block_keys C txns) gv gv' (serial_run (txn_run (ex gv) C) txns) (serial_run (txn_run (ex gv') C) txns)"
    by (rule serial_run_reads, rule runs_agree_mono [OF txn_reads]) (auto simp: block_keys_def)
  from runs_agreeD [OF this assms] show "serial_run (txn_run (ex gv) C) txns m = serial_run (txn_run (ex gv') C) txns m"
    and "dom m \<subseteq> dom (snd (serial_run (txn_run (ex gv) C) txns m))"
    by blast+
qed

text \<open>What a block does on a set of keys depends on that set alone.\<close>

lemma apply_block_on:
  assumes K: "block_keys C txns \<subseteq> K" and eq: "\<forall>k\<in>K. gv k = gv' k" and g: "apply_block ex C gv txns = Some g"
  shows "\<exists>g'. apply_block ex C gv' txns = Some g' \<and> (\<forall>k\<in>K. g k = g' k)"
proof -
  have v: "same_view (block_keys C txns) gv gv' Map.empty" using K eq by (auto simp: same_view_def)
  obtain m where m: "serial_run (txn_run (ex gv) C) txns Map.empty = (Ret True, m)" "g = commit m gv"
    using g by (auto simp: apply_block_Some)
  then have "apply_block ex C gv' txns = Some (commit m gv')" using run_reads(1) [OF v] by (simp add: apply_block_Some)
  moreover have "commit m gv k = commit m gv' k" if "k \<in> K" for k
    using that eq by (simp add: commit_def split: option.split)
  ultimately show ?thesis using m(2) by blast
qed

lemma apply_blocks_on:
  "\<forall>b\<in>set bs. block_keys C b \<subseteq> K \<Longrightarrow> \<forall>k\<in>K. gv k = gv' k \<Longrightarrow> apply_blocks ex C gv bs = Some g \<Longrightarrow>
   \<exists>g'. apply_blocks ex C gv' bs = Some g' \<and> (\<forall>k\<in>K. g k = g' k)"
proof (induction bs arbitrary: gv gv')
  case (Cons b bs)
  obtain g1 where g1: "apply_block ex C gv b = Some g1" "apply_blocks ex C g1 bs = Some g"
    using Cons.prems(3) by (auto split: bind_splits)
  obtain g1' where g1': "apply_block ex C gv' b = Some g1'" "\<forall>k\<in>K. g1 k = g1' k"
    using apply_block_on [of b K gv gv' g1] Cons.prems(1,2) g1(1) by auto
  then show ?case using Cons.IH [OF _ g1'(2) g1(2)] Cons.prems(1) by simp
qed simp

end

interpretation parallel_ex: executing "execute_parallel C I" C for C I
  by unfold_locales (rule execute_parallel_confined, rule execute_reads(2))

interpretation serial_ex: executing "execute_serial C I" C for C I
  by unfold_locales (rule execute_serial_confined, rule execute_reads(1))

end
