(* ===== verification/Single_Node_Facts.thy ===== *)
theory Single_Node_Facts
  imports Single_Node Execution_Properties Commit_Race Ledger
begin

text \<open>
  One pass of a single node, put together from its parts: the producer's block declares what it touches,
  the threads execute it like a serial run, the commit delivers the values, and the block is filed
  under the next number.
\<close>

section \<open>Filing\<close>

lemma stored_eq:
  assumes "lawful (n_env N)" "block_num h = nat n" "0 \<le> n"
  shows "stored N b h blocks = filed blocks n (serialized (show_block (n_blocks N) b))"
  using assms storeBlock_eq [OF assms(1)] by (simp add: stored_def filed_def block_key_def)

text \<open>A block that holds transactions was assembled with the next number.\<close>

lemma produced_number:
  assumes "codec_ok K" "0 \<le> height bl" "height bl < max_num"
    and p: "produce_single clients E K nonces now gs cnt file bl = Ret b" and ne: "b_transactions b \<noteq> []"
  shows "map_option block_num (parse_block_header K (b_header b)) = Some (nat (height bl + 1))"
proof -
  obtain txs where a: "assemble E K (getRootHash gs) now bl txs = Ret b"
    using p ne by (auto simp: produce_single_def bind_outcome_Ret_iff empty_block_def split: option.splits if_splits)
  then show ?thesis using assemble_number [OF assms(1-3), of E "getRootHash gs" now txs] by auto
qed

section \<open>A pass of the parallel node\<close>

definition plain_commands :: "string \<Rightarrow> bool" where
  "plain_commands content \<longleftrightarrow>
     list_all (\<lambda>line. \<not> nft_line line \<and> list_all plain (words_of line)) (getline_all (CHR 0x0A) content)"

definition node_laws :: "node_config \<Rightarrow> bool" where
  "node_laws N \<longleftrightarrow> lawful (n_env N) \<and> codec_ok (n_blocks N) \<and> json_law (n_codec N) \<and> header_law (n_codec N) (n_show N) \<and>
     0 < n_threadCount N"

lemma node_lawsD:
  assumes "node_laws N"
  shows "lawful (n_env N)" "codec_ok (n_blocks N)" "json_law (n_codec N)" "header_law (n_codec N) (n_show N)"
    "0 < n_threadCount N"
  using assms by (simp_all add: node_laws_def)

lemma parallel_pass_parts:
  assumes laws: "node_laws N" and cf: "command_file_of N cnt = Some content" "plain_commands content"
    and pass: "parallel_pass N cnt s Goes_on s'"
  obtains b h es m nonces now where
    "produce_parallel (n_env N) (n_blocks N) (n_show N) nonces now (pn_state s) (pn_state s) (n_txnCount N) (Some content)
       (pn_blocks s) = Ret b"
    "parse_block_header (n_blocks N) (b_header b) = Some h"
    "serial_run (block_run (execute_parallel (n_codec N) (n_image N) (getValue (n_env N) (pn_state s))) (n_codec N) (b_transactions b))
       [0..<length (b_transactions b)] Map.empty = (Ret True, m)"
    "distinct (map fst es)" "map_of es = m" "parallel_flush (n_env N) (n_threadCount N) es (pn_state s) (pn_state s')"
    "pn_blocks s' = stored N b h (pn_blocks s)"
  using pass
proof cases
  case 1: (committed nonces now newBlock header d1 d2 J sc es st)
  note l = node_lawsD [OF laws]
  have p: "produce_parallel (n_env N) (n_blocks N) (n_show N) nonces now (pn_state s) (pn_state s) (n_txnCount N)
      (Some content) (pn_blocks s) = Ret newBlock"
    using 1 cf(1) by simp
  have "serial_run (block_run (execute_parallel (n_codec N) (n_image N) (getValue (n_env N) (pn_state s))) (n_codec N)
        (b_transactions newBlock)) [0..<length (b_transactions newBlock)] Map.empty = (Ret True, sc_map sc)"
    using parallel_run_serial [of "n_codec N" "execute_parallel (n_codec N) (n_image N) (getValue (n_env N) (pn_state s))"
        newBlock "n_threadCount N" d1 d2 Map.empty sc, OF execute_parallel_confined]
      produced_declares_parallel [OF l(3,4) cf(2) [unfolded plain_commands_def] p] 1 l(5) by simp
  then show ?thesis using that [OF p, of header "sc_map sc" es] 1 by simp
qed

lemma parallel_flush_values:
  assumes "lawful E" "distinct (map fst es)" "parallel_flush E thCount es m m2"
    and inj: "inj_on (computeHash E) (insert key (fst ` set es))"
  shows "getValue E m2 key = (case map_of es key of Some v \<Rightarrow> takeWhile (\<lambda>x. x \<noteq> CHR '','') v
      | None \<Rightarrow> getValue E m key)"
  using assms(3)
proof cases
  case (1 m1 ws)
  have "\<forall>(k, v)\<in>set es. k \<noteq> []" using each_parents_keys [OF 1(4)] by blast
  then have "getValue E m2 key = getValue E m1 key"
    using 1(4) each_parents [of es E m1] getValue_parents_fold [OF assms(1), of es m1 key] by simp
  then show ?thesis using joined_leaves [OF assms(1,2) inj 1(1-3)] by simp
qed

text \<open>The commands of both files make transactions, whatever the nonces and the committed state are.\<close>

definition makes_commands :: "node_config \<Rightarrow> bool" where
  "makes_commands N \<longleftrightarrow> (\<forall>cnt. \<exists>content. command_file_of N cnt = Some content \<and> plain_commands content \<and>
     (\<forall>E st nonces txs. command_loop (clients_parallel E st (n_show N)) nonces (to_uint64 (n_txnCount N))
        (getline_all (CHR 0x0A) content) [] = Ret txs \<longrightarrow> txs \<noteq> []))"

abbreviation node_executor :: "node_config \<Rightarrow> executor" where
  "node_executor N \<equiv> execute_parallel (n_codec N) (n_image N)"

abbreviation node_value :: "node_config \<Rightarrow> db \<Rightarrow> string \<Rightarrow> string" where
  "node_value N st \<equiv> getValue (n_env N) st"

text \<open>A pass that goes on applies a block to the ledger and files it under the next number.\<close>

lemma parallel_pass_applies:
  assumes laws: "node_laws N" and cmds: "makes_commands N"
    and pass: "parallel_pass N cnt s Goes_on s'" and h: "0 \<le> height (pn_blocks s)" "height (pn_blocks s) < max_num"
  obtains b g where "apply_block (node_executor N) (n_codec N) (node_value N (pn_state s)) (b_transactions b) = Some g"
    "\<And>K k. block_keys (n_codec N) (b_transactions b) \<subseteq> K \<Longrightarrow> inj_on (computeHash (n_env N)) K \<Longrightarrow> k \<in> K \<Longrightarrow>
       node_value N (pn_state s') k = g k"
    "height (pn_blocks s') = height (pn_blocks s) + 1" "has_block (n_blocks N) (pn_blocks s') (height (pn_blocks s) + 1) b"
    "\<And>n. n \<le> height (pn_blocks s) \<Longrightarrow> pn_blocks s' (block_key n) = pn_blocks s (block_key n)"
proof -
  note l = node_lawsD [OF laws]
  let ?h = "height (pn_blocks s)"
  obtain content where content: "command_file_of N cnt = Some content" "plain_commands content"
      "\<And>E st nonces txs. command_loop (clients_parallel E st (n_show N)) nonces (to_uint64 (n_txnCount N))
        (getline_all (CHR 0x0A) content) [] = Ret txs \<Longrightarrow> txs \<noteq> []"
    using cmds unfolding makes_commands_def by metis
  show thesis
  proof (rule parallel_pass_parts [OF laws content(1,2) pass])
    fix b h es m nonces now
    assume p: "produce_parallel (n_env N) (n_blocks N) (n_show N) nonces now (pn_state s) (pn_state s) (n_txnCount N)
        (Some content) (pn_blocks s) = Ret b"
      and hd: "parse_block_header (n_blocks N) (b_header b) = Some h"
      and run: "serial_run (block_run (node_executor N (node_value N (pn_state s))) (n_codec N) (b_transactions b))
        [0..<length (b_transactions b)] Map.empty = (Ret True, m)"
      and es: "distinct (map fst es)" "map_of es = m" "parallel_flush (n_env N) (n_threadCount N) es (pn_state s) (pn_state s')"
      and bl: "pn_blocks s' = stored N b h (pn_blocks s)"
    have ne: "b_transactions b \<noteq> []"
      using produced_txns [OF p [unfolded produce_parallel_def]] content(3) by auto
    have run': "serial_run (txn_run (node_executor N (node_value N (pn_state s))) (n_codec N)) (b_transactions b) Map.empty =
        (Ret True, m)"
      using run by (simp add: block_run_serial)
    have dom: "dom m \<subseteq> block_keys (n_codec N) (b_transactions b)"
      using parallel_ex.run_frame [of _ "n_codec N" "b_transactions b" "n_image N" "node_value N (pn_state s)" Map.empty] run'
      by fastforce
    have keys: "fst ` set es = dom m" using es(2) dom_map_of_conv_image_fst [of es] by simp
    have vals: "node_value N (pn_state s') k = commit m (node_value N (pn_state s)) k"
      if K: "block_keys (n_codec N) (b_transactions b) \<subseteq> K" "inj_on (computeHash (n_env N)) K" "k \<in> K" for K k
    proof -
      have "inj_on (computeHash (n_env N)) (insert k (fst ` set es))"
        by (rule inj_on_subset [OF K(2)]) (use K(1,3) dom keys in auto)
      from parallel_flush_values [OF l(1) es(1,3) this] show ?thesis by (simp add: es(2) commit_def committed_text_def split: option.split)
    qed
    have num: "map_option block_num (parse_block_header (n_blocks N) (b_header b)) = Some (nat (?h + 1))"
      by (rule produced_number [OF l(2) h p[unfolded produce_parallel_def] ne])
    then have st: "pn_blocks s' = filed (pn_blocks s) (?h + 1) (serialized (show_block (n_blocks N) b))"
      using stored_eq [OF l(1), of h "?h + 1"] hd h(1) bl by simp
    have "in_int (?h + 1)" using h by (simp add: in_int_def)
    then have "height (pn_blocks s') = ?h + 1" "has_block (n_blocks N) (pn_blocks s') (?h + 1) b"
        "\<And>n. n \<le> ?h \<Longrightarrow> pn_blocks s' (block_key n) = pn_blocks s (block_key n)"
      using num st height_filed codec_ok_block(1) [OF l(2)] by (simp_all add: has_block_def)
    then show thesis
      using that [of b "commit m (node_value N (pn_state s))"] run' vals by (simp add: apply_block_Some)
  qed
qed

lemma parallel_pass_stops:
  assumes "parallel_pass N cnt s r s'" "r \<noteq> Goes_on"
  shows "s' = s"
  using assms by (auto elim: parallel_pass.cases)

end
