(* ===== verification/Serial_Node_Facts.thy ===== *)
theory Serial_Node_Facts
  imports Single_Node Single_Node_Facts Sample_Node
begin

text \<open>
  The serial node: building the graph a second time changes nothing that is used, its loop gives every
  outcome of the serial run, and since its map lives on from pass to pass, all passes together are one
  serial run over the state the node started with.
\<close>

section \<open>Building the graph twice\<close>

lemma create_serial_again:
  assumes h: "\<forall>t\<in>set (b_transactions b). parse_header C (t_header t) \<noteq> None"
  shows "\<exists>ts. create_serial C b (built C b d) = Ret ((built C b d)\<lparr>CurrentTransactions := ts\<rparr>)"
proof -
  define ts where "ts = extract_all C (b_transactions b) 0"
  define n where "n = length ts"
  let ?D = "dep_rel ts" and ?D2 = "dep_rel (ts @ ts)" and ?ps = "pairs_of n [0..<n]"
  let ?d = "(built C b d)\<lparr>CurrentTransactions := ts @ ts, inDegree := Some (replicate n 0)\<rparr>"
  have D: "?D2 i j = ?D i j" if "i < n" "j < n" for i j
    using that by (simp add: dep_rel_def n_def nth_append)
  have ps: "\<forall>(x, y)\<in>set ?ps. x < n \<and> y < n" by (auto simp: set_pairs_of)
  have adj: "adjacencyMatrix ?d = dep_matrix ?D n" by (simp add: built_def Let_def ts_def n_def)
  have same: "resize n (replicate n 0) (dep_matrix ?D n) = dep_matrix ?D n"
    by (simp add: resize_def dep_matrix_def)
  have "\<forall>t\<in>set ts. counted t" unfolding ts_def by (rule extract_all_counted [OF h])
  then have "each mark_cell_counted ?ps ?d = each mark_cell ?ps ?d"
    by (intro each_mark_cell_counted [OF _ _ ps]) (auto simp: n_def)
  also have "\<dots> = Ret (marked (ts @ ts) ?ps (replicate n 0) ?d)"
    using each_mark_cell [of n n ?d "replicate n 0" ?ps] ps adj by simp
  also have "marked (ts @ ts) ?ps (replicate n 0) ?d = (built C b d)\<lparr>CurrentTransactions := ts @ ts\<rparr>"
  proof -
    have "fold (fill ?D2) ?ps (dep_matrix ?D n) = dep_matrix ?D n"
    proof (rule shaped_eqI [OF shaped_fold [OF shaped_dep_matrix] shaped_dep_matrix])
      fix i j assume ij: "i < n" "j < n"
      show "cell (fold (fill ?D2) ?ps (dep_matrix ?D n)) i j = cell (dep_matrix ?D n) i j"
        using cell_fold_fill [OF shaped_dep_matrix ij ps, of ?D2 ?D] ij D by (auto simp: set_pairs_of)
    qed
    moreover have "in_degrees ?D2 n = in_degrees ?D n"
    proof -
      have "filter (\<lambda>i. i < j \<and> ?D2 i j) [0..<n] = filter (\<lambda>i. i < j \<and> ?D i j) [0..<n]" if "j < n" for j
        using that D by (intro filter_cong) auto
      then show ?thesis by (simp add: in_degrees_def)
    qed
    ultimately show ?thesis
      using tally_all [of "[0..<n]" n ?D2] by (simp add: marked_def built_def Let_def ts_def [symmetric] n_def [symmetric])
  qed
  finally have "each mark_cell_counted ?ps ?d = Ret ((built C b d)\<lparr>CurrentTransactions := ts @ ts\<rparr>)" .
  moreover have "create_serial C b (built C b d) = each mark_cell_counted ?ps ?d"
  proof -
    let ?e = "(built C b d)\<lparr>CurrentTransactions := ts @ ts, totalTxns := n, adjacencyMatrix := dep_matrix ?D n,
        inDegree := Some (replicate n 0)\<rparr>"
    have "CurrentTransactions (built C b d) = ts" "adjacencyMatrix (built C b d) = dep_matrix ?D n"
      by (simp_all add: built_def Let_def ts_def n_def)
    then have "create_serial C b (built C b d) = each mark_cell_counted ?ps ?e"
      using same by (simp add: create_serial_def dependencyMatrix_serial_def Let_def ts_def [symmetric] n_def [symmetric])
    also have "?e = ?d" by (cases d) (simp add: built_def Let_def ts_def n_def)
    finally show ?thesis .
  qed
  ultimately show ?thesis by auto
qed

section \<open>The loop, when it returns\<close>

lemma executeTxns_sound:
  assumes h: "\<forall>t\<in>set txns. parse_header C (t_header t) \<noteq> None" and n: "n = length txns"
  shows "ready_at D n k d \<Longrightarrow> k \<le> n \<Longrightarrow>
    executeTxns ex C txns \<lparr>ss_dag = d, ss_flag = True, ss_map = m\<rparr> = Some (Ret s') \<Longrightarrow>
    serial_run (block_run ex C txns) [k..<n] m = (Ret (ss_flag s'), ss_map s')"
proof (induction "n - k" arbitrary: k d m)
  case 0
  then have "\<not> completedTxns d < int (totalTxns d)" by (simp add: ready_at_def)
  then show ?case using 0 by (simp add: executeTxns.simps [of ex C txns "\<lparr>ss_dag = d, ss_flag = True, ss_map = m\<rparr>"]) auto
next
  case (Suc l)
  then have k: "k < n" by simp
  then have go: "completedTxns d < int (totalTxns d)" using Suc.prems(1) by (simp add: ready_at_def)
  obtain d1 deg where d1: "selectTxn_serial d = Ret (Some k, d1)" "totalTxns d1 = n" "completedTxns d1 = int k"
      "adjacencyMatrix d1 = dep_matrix D n" "inDegree d1 = Some deg" "length deg = n"
      "\<And>j. j < n \<Longrightarrow> deg ! j = (if j < k then - 2 else if j = k then - 1
        else int (card {p. k \<le> p \<and> p < j \<and> D p j}))"
    using ready_select [OF Suc.prems(1) k] by blast
  obtain d2 where d2: "complete_txn (int k) d1 = Ret d2" "ready_at D n (Suc k) d2"
    using ready_complete [OF d1(2-7) k] .
  obtain hd where hd: "parse_header C (t_header (txns ! k)) = Some hd" using h k n by fastforce
  have run: "block_run ex C txns k = ex hd (txns ! k)" using k n hd by (simp add: block_run_def)
  have upt: "[k..<n] = k # [Suc k..<n]" using k by (simp add: upt_conv_Cons)
  obtain x m1 where x: "ex hd (txns ! k) m = (x, m1)" by fastforce
  have step: "executeTxns ex C txns \<lparr>ss_dag = d, ss_flag = True, ss_map = m\<rparr> =
      (case x of Ret b \<Rightarrow> executeTxns ex C txns \<lparr>ss_dag = d2, ss_flag = b, ss_map = m1\<rparr>
       | Throw e \<Rightarrow> Some (Throw e) | Undef \<Rightarrow> Some Undef | Stuck \<Rightarrow> Some Stuck)"
    using go k n by (subst executeTxns.simps) (simp add: d1(1) hd x d2(1) split: outcome.split)
  obtain b where b: "x = Ret b" using step Suc.prems(3) by (cases x) simp_all
  show ?case
  proof (cases b)
    case True
    then have "serial_run (block_run ex C txns) [Suc k..<n] m1 = (Ret (ss_flag s'), ss_map s')"
      using Suc.hyps(1) [OF _ d2(2)] Suc.hyps(2) Suc.prems(3) k step b by simp
    then show ?thesis unfolding upt by (simp add: and_then_def run x b True)
  next
    case False
    then have "s' = \<lparr>ss_dag = d2, ss_flag = False, ss_map = m1\<rparr>"
      using step b Suc.prems(3)
      by (simp add: executeTxns.simps [of ex C txns "\<lparr>ss_dag = d2, ss_flag = False, ss_map = m1\<rparr>"])
    then show ?thesis unfolding upt by (simp add: and_then_def run x b False)
  qed
qed

section \<open>A pass\<close>

lemma finite_block_keys: "finite (block_keys C txns)"
proof -
  have "finite (named_keys fs p)" for fs p
  proof -
    have "named_keys fs p \<subseteq> (\<lambda>f. case jfield p f of Ret k \<Rightarrow> k | _ \<Rightarrow> []) ` set fs"
      by (force simp: named_keys_def)
    then show ?thesis by (rule finite_subset) simp
  qed
  then have "finite (txn_keys C fs t)" for fs t by (simp add: txn_keys_def split: option.split)
  then show ?thesis by (simp add: block_keys_def)
qed

definition lists_keys :: "(kvmap \<Rightarrow> string list) \<Rightarrow> bool" where
  "lists_keys order \<longleftrightarrow> (\<forall>m. finite (dom m) \<longrightarrow> distinct (order m) \<and> set (order m) = dom m)"

definition makes_serial_commands :: "node_config \<Rightarrow> bool" where
  "makes_serial_commands N \<longleftrightarrow> (\<forall>cnt. \<exists>content. command_file_of N cnt = Some content \<and> plain_commands content \<and>
     (\<forall>st nonces txs. command_loop (clients_serial st (n_show N)) nonces (to_uint64 (n_txnCount N))
        (getline_all (CHR 0x0A) content) [] = Ret txs \<longrightarrow> txs \<noteq> []))"

abbreviation serial_executor :: "node_config \<Rightarrow> executor" where
  "serial_executor N \<equiv> execute_serial (n_codec N) (n_image N)"

definition at_rest :: "serial_node \<Rightarrow> bool" where
  "at_rest s \<longleftrightarrow> cleaned (sn_dag s) \<and> completedTxns (sn_dag s) = 0 \<and> finite (dom (sn_map s))"

lemma serial_graph:
  assumes rest: "at_rest s" and parses: "\<forall>t\<in>set (b_transactions b). parse_header C (t_header t) \<noteq> None"
  obtains ts where "bind_outcome (create_serial C b (sn_dag s)) (extractBlock_serial C b) =
      Ret (b_transactions b, (built C b (sn_dag s))\<lparr>CurrentTransactions := ts\<rparr>)"
    "ready_at (dep_rel (extract_all C (b_transactions b) 0)) (length (b_transactions b)) 0
      ((built C b (sn_dag s))\<lparr>CurrentTransactions := ts\<rparr>)"
proof -
  obtain ts where ts: "create_serial C b (built C b (sn_dag s)) = Ret ((built C b (sn_dag s))\<lparr>CurrentTransactions := ts\<rparr>)"
    using create_serial_again [OF parses] by blast
  have "create_serial C b (sn_dag s) = Ret (built C b (sn_dag s))"
    using create_serial_eq [OF _ parses] rest by (simp add: at_rest_def)
  moreover have "ready_at (dep_rel (extract_all C (b_transactions b) 0)) (length (b_transactions b)) 0
      ((built C b (sn_dag s))\<lparr>CurrentTransactions := ts\<rparr>)"
    using ready_built [of "sn_dag s" C b] rest by (simp add: at_rest_def ready_at_def)
  ultimately show thesis using that ts by (simp add: extractBlock_serial_def)
qed

text \<open>A pass returns, and goes on, when the serial run of its block succeeds and leaves no value under the empty key.\<close>

lemma serial_pass_returns:
  assumes rest: "at_rest s" and parses: "\<forall>t\<in>set (b_transactions b). parse_header (n_codec N) (t_header t) \<noteq> None"
    and p: "produce_serial (n_env N) (n_blocks N) (n_show N) nonces now committed (sn_state s) (n_txnCount N)
      (command_file_of N cnt) (sn_blocks s) = Ret b" "parse_block_header (n_blocks N) (b_header b) = Some hdr"
    and run: "serial_run (txn_run (serial_executor N (node_value N (sn_state s))) (n_codec N)) (b_transactions b) (sn_map s) =
      (Ret True, m)" and ne: "[] \<notin> set (order m)"
  shows "\<exists>s'. serial_pass N order committed nonces now cnt s = Some (Ret (Goes_on, s'))"
proof -
  let ?ex = "serial_executor N (node_value N (sn_state s))"
  obtain ts where g: "bind_outcome (create_serial (n_codec N) b (sn_dag s)) (extractBlock_serial (n_codec N) b) =
      Ret (b_transactions b, (built (n_codec N) b (sn_dag s))\<lparr>CurrentTransactions := ts\<rparr>)"
    and ready: "ready_at (dep_rel (extract_all (n_codec N) (b_transactions b) 0)) (length (b_transactions b)) 0
      ((built (n_codec N) b (sn_dag s))\<lparr>CurrentTransactions := ts\<rparr>)"
    by (rule serial_graph [OF rest parses])
  obtain e where e: "executeTxns ?ex (n_codec N) (b_transactions b)
      \<lparr>ss_dag = (built (n_codec N) b (sn_dag s))\<lparr>CurrentTransactions := ts\<rparr>, ss_flag = True, ss_map = sn_map s\<rparr> = Some (Ret e)"
      "ss_flag e" "ss_map e = m"
    using executeTxns_runs [OF parses HOL.refl ready, of ?ex "sn_map s" True m] run by (auto simp: block_run_serial)
  obtain st where "flushMapToState (n_env N) (map_entries order m) (sn_state s) = Ret st"
    using flush_eq [of "map_entries order m" "n_env N" "sn_state s"] ne by (auto simp: map_entries_def)
  then show ?thesis using p g e by (simp add: serial_pass_def schedulTxns_serial_def)
qed

lemma serial_pass_applies:
  assumes laws: "node_laws N" and cmds: "makes_serial_commands N" and o: "lists_keys order" and rest: "at_rest s"
    and pass: "serial_pass N order committed nonces now cnt s = Some (Ret (Goes_on, s'))"
    and h: "0 \<le> height (sn_blocks s)" "height (sn_blocks s) < max_num"
  obtains b where
    "serial_run (txn_run (serial_executor N (node_value N (sn_state s))) (n_codec N)) (b_transactions b) (sn_map s) =
       (Ret True, sn_map s')"
    "\<And>K k. dom (sn_map s') \<subseteq> K \<Longrightarrow> inj_on (computeHash (n_env N)) K \<Longrightarrow> k \<in> K \<Longrightarrow>
       node_value N (sn_state s') k = commit (sn_map s') (node_value N (sn_state s)) k"
    "height (sn_blocks s') = height (sn_blocks s) + 1" "has_block (n_blocks N) (sn_blocks s') (height (sn_blocks s) + 1) b"
    "\<And>n. n \<le> height (sn_blocks s) \<Longrightarrow> sn_blocks s' (block_key n) = sn_blocks s (block_key n)" "at_rest s'"
proof -
  note l = node_lawsD [OF laws]
  let ?h = "height (sn_blocks s)" and ?ex = "serial_executor N (node_value N (sn_state s))"
  obtain content where content: "command_file_of N cnt = Some content" "plain_commands content"
      "\<And>st nonces txs. command_loop (clients_serial st (n_show N)) nonces (to_uint64 (n_txnCount N))
        (getline_all (CHR 0x0A) content) [] = Ret txs \<Longrightarrow> txs \<noteq> []"
    using cmds unfolding makes_serial_commands_def by metis
  obtain b hd where p: "produce_serial (n_env N) (n_blocks N) (n_show N) nonces now committed (sn_state s) (n_txnCount N)
        (Some content) (sn_blocks s) = Ret b"
    and hd: "parse_block_header (n_blocks N) (b_header b) = Some hd"
    using pass content(1) by (auto simp: serial_pass_def split: outcome.splits option.splits)
  have parses: "\<forall>t\<in>set (b_transactions b). parse_header (n_codec N) (t_header t) \<noteq> None"
    using produced_declares_serial [OF l(3,4) content(2)[unfolded plain_commands_def] p]
    by (auto simp: declares_def split: option.splits)
  obtain ts where g: "bind_outcome (create_serial (n_codec N) b (sn_dag s)) (extractBlock_serial (n_codec N) b) =
      Ret (b_transactions b, (built (n_codec N) b (sn_dag s))\<lparr>CurrentTransactions := ts\<rparr>)"
    and ready: "ready_at (dep_rel (extract_all (n_codec N) (b_transactions b) 0)) (length (b_transactions b)) 0
      ((built (n_codec N) b (sn_dag s))\<lparr>CurrentTransactions := ts\<rparr>)"
    by (rule serial_graph [OF rest parses])
  let ?g = "(built (n_codec N) b (sn_dag s))\<lparr>CurrentTransactions := ts\<rparr>"
  obtain m st where r: "schedulTxns_serial (n_env N) (n_codec N) (n_image N) order (b_transactions b) ?g (sn_map s) (sn_state s) =
      Some (Ret (True, m, st))"
    and s': "s' = \<lparr>sn_dag = dagClean ?g, sn_map = m, sn_state = st, sn_blocks = stored N b hd (sn_blocks s)\<rparr>"
    using pass content(1) p hd g by (auto simp: serial_pass_def bind_outcome_Ret_iff split: if_splits)
  obtain e where e: "executeTxns ?ex (n_codec N) (b_transactions b) \<lparr>ss_dag = ?g, ss_flag = True, ss_map = sn_map s\<rparr> = Some (Ret e)"
      "ss_flag e" "ss_map e = m" "flushMapToState (n_env N) (map_entries order m) (sn_state s) = Ret st"
    using r by (auto simp: schedulTxns_serial_def bind_outcome_Ret_iff split: option.splits if_splits)
  from executeTxns_sound [OF parses HOL.refl ready _ e(1)]
  have run: "serial_run (txn_run ?ex (n_codec N)) (b_transactions b) (sn_map s) = (Ret True, m)"
    using e(2,3) by (simp add: block_run_serial)
  have "dom m \<subseteq> dom (sn_map s) \<union> block_keys (n_codec N) (b_transactions b)"
  proof
    fix k assume k: "k \<in> dom m"
    have "m k = sn_map s k" if "k \<notin> block_keys (n_codec N) (b_transactions b)"
      using serial_ex.run_frame [OF that, of "n_image N" "node_value N (sn_state s)" "sn_map s"] run by simp
    then show "k \<in> dom (sn_map s) \<union> block_keys (n_codec N) (b_transactions b)"
      using k by (cases "k \<in> block_keys (n_codec N) (b_transactions b)") (auto simp: domIff)
  qed
  then have fin: "finite (dom m)" by (rule finite_subset) (use rest finite_block_keys in \<open>simp add: at_rest_def\<close>)
  then have om: "distinct (order m)" "set (order m) = dom m" using o by (simp_all add: lists_keys_def)
  note es = map_of_entries [where order = order and m = m, OF om(2)]
  have des: "distinct (map fst (map_entries order m))" using om(1) by (simp add: map_entries_def comp_def)
  have vals: "node_value N st k = commit m (node_value N (sn_state s)) k"
    if K: "dom m \<subseteq> K" "inj_on (computeHash (n_env N)) K" "k \<in> K" for K k
  proof -
    have "\<forall>(k, v)\<in>set (map_entries order m). k \<noteq> []" using flush_keys [OF e(4)] by blast
    moreover have "inj_on (computeHash (n_env N)) (insert k (fst ` set (map_entries order m)))"
      by (rule inj_on_subset [OF K(2)]) (use K(1,3) es(2) in auto)
    ultimately show ?thesis
      using e(4) by (rule_tac getValue_flush [OF l(1) des, of k "sn_state s"])
        (auto simp: es(1) commit_def committed_text_def split: option.split)
  qed
  have ne: "b_transactions b \<noteq> []"
    using produced_txns [OF p [unfolded produce_serial_def]] content(3) by auto
  have num: "map_option block_num (parse_block_header (n_blocks N) (b_header b)) = Some (nat (?h + 1))"
    by (rule produced_number [OF l(2) h p[unfolded produce_serial_def] ne])
  then have bl: "sn_blocks s' = filed (sn_blocks s) (?h + 1) (serialized (show_block (n_blocks N) b))"
    using stored_eq [OF l(1), of hd "?h + 1"] hd h(1) s' by simp
  have "in_int (?h + 1)" using h by (simp add: in_int_def)
  then have "height (sn_blocks s') = ?h + 1" "has_block (n_blocks N) (sn_blocks s') (?h + 1) b"
      "\<And>n. n \<le> ?h \<Longrightarrow> sn_blocks s' (block_key n) = sn_blocks s (block_key n)"
    using num bl height_filed codec_ok_block(1) [OF l(2)] by (simp_all add: has_block_def)
  moreover have "at_rest s'" using fin by (simp add: s' at_rest_def) (simp add: dagClean_def)
  ultimately show thesis using that [of b] run vals by (simp add: s')
qed

section \<open>All passes\<close>

text \<open>
  One more block: \<open>gv\<close> is what the state holds now, \<open>gv0\<close> what it held before the first block, and \<open>m\<close> the
  map of the blocks in between.
\<close>

lemma block_on_top:
  assumes run: "serial_run (txn_run (serial_executor N gv) (n_codec N)) txns m = (Ret True, m')"
    and K: "block_keys (n_codec N) txns \<subseteq> K" "dom m \<subseteq> K" and gv: "\<forall>k\<in>K. gv k = commit m gv0 k"
  shows "serial_run (txn_run (serial_executor N gv0) (n_codec N)) txns m = (Ret True, m')"
    and "dom m' \<subseteq> K" and "\<forall>k\<in>K. commit m' gv k = commit m' gv0 k"
proof -
  have v: "same_view (block_keys (n_codec N) txns) gv gv0 m"
    using K(1) gv by (auto simp: same_view_def commit_def)
  show "serial_run (txn_run (serial_executor N gv0) (n_codec N)) txns m = (Ret True, m')"
    using serial_ex.run_reads(1) [OF v, of "n_image N"] run by simp
  have d: "dom m \<subseteq> dom m'" using serial_ex.run_reads(2) [OF v, of "n_image N"] run by simp
  show "dom m' \<subseteq> K"
  proof
    fix k assume k: "k \<in> dom m'"
    show "k \<in> K"
    proof (rule ccontr)
      assume "k \<notin> K"
      then have "m' k = m k"
        using serial_ex.run_frame [of k "n_codec N" txns "n_image N" gv m] run K(1) by auto
      then show False using k K(2) \<open>k \<notin> K\<close> by (auto simp: domIff)
    qed
  qed
  show "\<forall>k\<in>K. commit m' gv k = commit m' gv0 k"
  proof
    fix k assume k: "k \<in> K"
    show "commit m' gv k = commit m' gv0 k"
    proof (cases "m' k")
      case None
      then have "m k = None" using d by (auto simp: domIff)
      then show ?thesis using None gv k by (simp add: commit_def)
    qed (simp add: commit_def)
  qed
qed

lemma serial_loop_applies:
  assumes laws: "node_laws N" and cmds: "makes_serial_commands N" and o: "lists_keys order"
  shows "serial_loop N order committed chance cnts s = Some (Ret (Goes_on, s')) \<Longrightarrow> at_rest s \<Longrightarrow>
    0 \<le> height (sn_blocks s) \<Longrightarrow> height (sn_blocks s) + int (length cnts) \<le> max_num \<Longrightarrow>
    \<exists>bs. length bs = length cnts \<and> height (sn_blocks s') = height (sn_blocks s) + int (length bs) \<and>
      (\<forall>i<length bs. has_block (n_blocks N) (sn_blocks s') (height (sn_blocks s) + 1 + int i) (bs ! i)) \<and>
      (\<forall>n\<le>height (sn_blocks s). sn_blocks s' (block_key n) = sn_blocks s (block_key n)) \<and>
      (\<forall>K gv0. (\<forall>b\<in>set bs. block_keys (n_codec N) (b_transactions b) \<subseteq> K) \<longrightarrow> dom (sn_map s) \<subseteq> K \<longrightarrow>
        inj_on (computeHash (n_env N)) K \<longrightarrow> (\<forall>k\<in>K. node_value N (sn_state s) k = commit (sn_map s) gv0 k) \<longrightarrow>
        serial_run (txn_run (serial_executor N gv0) (n_codec N)) (concat (map b_transactions bs)) (sn_map s) =
          (Ret True, sn_map s') \<and>
        (\<forall>k\<in>K. node_value N (sn_state s') k = commit (sn_map s') gv0 k))"
proof (induction cnts arbitrary: s)
  case Nil
  then show ?case by (intro exI [of _ "[]"]) simp
next
  case (Cons cnt cnts)
  obtain s1 where pass: "serial_pass N order committed (fst (chance cnt)) (snd (chance cnt)) cnt s = Some (Ret (Goes_on, s1))"
    and loop: "serial_loop N order committed chance cnts s1 = Some (Ret (Goes_on, s'))"
    using Cons.prems(1) by (auto split: option.splits outcome.splits prod.splits if_splits)
  have hh: "0 \<le> height (sn_blocks s)" "height (sn_blocks s) < max_num" using Cons.prems(3,4) by auto
  obtain b where run: "serial_run (txn_run (serial_executor N (node_value N (sn_state s))) (n_codec N)) (b_transactions b) (sn_map s) =
       (Ret True, sn_map s1)"
    and vals: "\<And>K k. dom (sn_map s1) \<subseteq> K \<Longrightarrow> inj_on (computeHash (n_env N)) K \<Longrightarrow> k \<in> K \<Longrightarrow>
       node_value N (sn_state s1) k = commit (sn_map s1) (node_value N (sn_state s)) k"
    and h: "height (sn_blocks s1) = height (sn_blocks s) + 1" "has_block (n_blocks N) (sn_blocks s1) (height (sn_blocks s) + 1) b"
    and old: "\<And>n. n \<le> height (sn_blocks s) \<Longrightarrow> sn_blocks s1 (block_key n) = sn_blocks s (block_key n)" and rest: "at_rest s1"
    by (rule serial_pass_applies [OF laws cmds o Cons.prems(2) pass hh]) blast
  obtain bs where bs: "length bs = length cnts" "height (sn_blocks s') = height (sn_blocks s1) + int (length bs)"
      "\<forall>i<length bs. has_block (n_blocks N) (sn_blocks s') (height (sn_blocks s1) + 1 + int i) (bs ! i)"
      "\<forall>n\<le>height (sn_blocks s1). sn_blocks s' (block_key n) = sn_blocks s1 (block_key n)"
    and K: "\<And>K gv0. \<forall>b\<in>set bs. block_keys (n_codec N) (b_transactions b) \<subseteq> K \<Longrightarrow> dom (sn_map s1) \<subseteq> K \<Longrightarrow>
        inj_on (computeHash (n_env N)) K \<Longrightarrow> \<forall>k\<in>K. node_value N (sn_state s1) k = commit (sn_map s1) gv0 k \<Longrightarrow>
        serial_run (txn_run (serial_executor N gv0) (n_codec N)) (concat (map b_transactions bs)) (sn_map s1) =
          (Ret True, sn_map s') \<and>
        (\<forall>k\<in>K. node_value N (sn_state s') k = commit (sn_map s') gv0 k)"
    using Cons.IH [OF loop rest] Cons.prems(3,4) h(1) by auto
  have first: "has_block (n_blocks N) (sn_blocks s') (height (sn_blocks s) + 1) b"
    using h bs(4) by (simp add: has_block_def)
  have "has_block (n_blocks N) (sn_blocks s') (height (sn_blocks s) + 1 + int i) ((b # bs) ! i)" if "i < length (b # bs)" for i
    using that first bs(3) h(1) by (cases i) (auto simp: add.assoc)
  moreover have "serial_run (txn_run (serial_executor N gv0) (n_codec N)) (concat (map b_transactions (b # bs))) (sn_map s) =
          (Ret True, sn_map s') \<and> (\<forall>k\<in>K'. node_value N (sn_state s') k = commit (sn_map s') gv0 k)"
    if K': "\<forall>c\<in>set (b # bs). block_keys (n_codec N) (b_transactions c) \<subseteq> K'" "dom (sn_map s) \<subseteq> K'"
      "inj_on (computeHash (n_env N)) K'" "\<forall>k\<in>K'. node_value N (sn_state s) k = commit (sn_map s) gv0 k" for K' gv0
  proof -
    have bk: "block_keys (n_codec N) (b_transactions b) \<subseteq> K'" using K'(1) by simp
    note top = block_on_top [OF run bk K'(2,4)]
    have "\<forall>k\<in>K'. node_value N (sn_state s1) k = commit (sn_map s1) gv0 k"
      using vals [OF top(2) K'(3)] top(3) by simp
    then have "serial_run (txn_run (serial_executor N gv0) (n_codec N)) (concat (map b_transactions bs)) (sn_map s1) =
          (Ret True, sn_map s')" "\<forall>k\<in>K'. node_value N (sn_state s') k = commit (sn_map s') gv0 k"
      using K [of K' gv0] K'(1,3) top(2) by auto
    then show ?thesis using top(1) by (simp add: serial_run_append and_then_def)
  qed
  ultimately show ?case using bs(1,2,4) h(1) old
    by (intro exI [of _ "b # bs"] conjI) auto
qed

end
