(* ===== verification/Node_Properties.thy ===== *)
theory Node_Properties
  imports Serial_Node_Facts "HOL-Library.List_Lexorder" "HOL-Library.Char_ord"
begin

text \<open>The single nodes as a whole: the main loop against the abstract ledger.\<close>

section \<open>The parallel node\<close>


definition sample_node :: node_config where
  "sample_node = \<lparr>n_env = sample_env, n_blocks = sample_blocks, n_codec = sample_codec, n_image = sample_image,
     n_show = sample_show, n_threadCount = 1, n_txnCount = 5, n_blocksCount = 1, n_setup = Some command_file,
     n_testFile = Some command_file\<rparr>"

abbreviation empty_node :: parallel_node where
  "empty_node \<equiv> \<lparr>pn_state = Map.empty, pn_blocks = Map.empty\<rparr>"

lemma sample_node_simps [simp]:
  "n_env sample_node = sample_env" "n_blocks sample_node = sample_blocks" "n_codec sample_node = sample_codec"
  "n_image sample_node = sample_image" "n_show sample_node = sample_show" "n_threadCount sample_node = 1"
  "n_txnCount sample_node = 5" "n_blocksCount sample_node = 1" "command_file_of sample_node cnt = Some command_file"
  by (simp_all add: sample_node_def command_file_of_def)

lemma sample_node_laws: "node_laws sample_node" "makes_commands sample_node"
proof -
  show "node_laws sample_node" by (simp add: node_laws_def)
  have "plain_commands command_file"
    by (simp add: plain_commands_def command_lines nft_line_def split_line_def command_words)
  then show "makes_commands sample_node"
    by (auto simp: makes_commands_def command_lines to_uint64_def bind_outcome_Ret_iff split_line_def command_words
        clients_parallel_def blank_line_def split: if_splits) (simp_all add: command_file_def)
qed

lemma sample_pass: "\<exists>s'. parallel_pass sample_node 0 empty_node Goes_on s'"
proof -
  obtain b where b: "produce_parallel sample_env sample_blocks sample_show (\<lambda>_. ''7'') 0 Map.empty Map.empty 5
      (Some command_file) Map.empty = Ret b" "b_transactions b = [sample_txn]"
    using command_block(1) by blast
  obtain h where h: "parse_block_header sample_blocks (b_header b) = Some h"
    using produced_number [OF sample_codec_ok _ _ b(1) [unfolded produce_parallel_def]] b(2)
    by (auto simp: getLatestBlockNum_def last_block_num_missing)
  let ?d1 = "(built sample_codec b new_dag)\<lparr>threadCount := 1\<rparr>"
  let ?d2 = "(built sample_codec b ?d1)\<lparr>threadCount := 1\<rparr>"
  let ?J = "block_job (execute_parallel sample_codec sample_image (getValue sample_env Map.empty)) sample_codec ?d2 (b_transactions b)"
  obtain m where m: "wallet_process sample_codec (\<lambda>_. []) sample_txn Map.empty = (Ret True, m)"
    "set (ab_order m) = dom m" "distinct (ab_order m)"
    using sample_map by blast
  have "\<exists>s. sched_reach ?J (sched_start ?J 1 Map.empty) s \<and> (\<forall>t. sc_phase s t = Stopped) \<and> sc_flag s \<and> sc_map s = m \<and> sc_log s = [0]"
  proof (rule one_txn_run)
    show "j_run ?J 0 Map.empty = (Ret True, m)"
      using m(1) by (simp add: b(2) no_value block_run_def execute_parallel_def run_family_def new_header_def)
  qed (simp_all add: b(2) block_job_def built_def Let_def)
  then obtain sc where sc: "sched_reach ?J (sched_start ?J 1 Map.empty) sc" "\<forall>t. sc_phase sc t = Stopped" "sc_flag sc" "sc_map sc = m"
    by blast
  obtain st where st: "flushMapToState sample_env (map_entries ab_order m) Map.empty = Ret st" using sample_flush by blast
  have es: "distinct (map fst (map_entries ab_order m))" "map_of (map_entries ab_order m) = m"
    using m(3) map_of_entries(1) [where order = ab_order and m = m, OF m(2)] by (simp_all add: map_entries_def comp_def fun_eq_iff)
  have "parallel_pass sample_node 0 empty_node Goes_on
      \<lparr>pn_state = st, pn_blocks = stored sample_node b h Map.empty\<rparr>"
    by (rule parallel_pass.committed [where N = sample_node and s = empty_node and cnt = 0 and newBlock = b and header = h
          and ?d1.0 = ?d1 and ?d2.0 = ?d2 and sc = sc, simplified, OF b(1) h])
      (use sc es serial_flush_possible [OF _ st, of 1] in \<open>simp_all add: create_dag_eq\<close>)
  then show ?thesis by blast
qed


section \<open>The serial node\<close>


definition key_order :: "kvmap \<Rightarrow> string list" where
  "key_order m = sorted_list_of_set (dom m)"

abbreviation empty_serial :: serial_node where
  "empty_serial \<equiv> \<lparr>sn_dag = new_dag, sn_map = Map.empty, sn_state = Map.empty, sn_blocks = Map.empty\<rparr>"

lemma sample_serial_pass:
  "\<exists>s'. serial_pass sample_node key_order Map.empty (\<lambda>_. ''7'') 0 0 empty_serial = Some (Ret (Goes_on, s'))"
proof -
  obtain b where b: "produce_serial sample_env sample_blocks sample_show (\<lambda>_. ''7'') 0 Map.empty Map.empty 5
      (Some command_file) Map.empty = Ret b" "b_transactions b = [sample_txn]"
    using command_block(2) by blast
  obtain h where h: "parse_block_header sample_blocks (b_header b) = Some h"
    using produced_number [OF sample_codec_ok _ _ b(1) [unfolded produce_serial_def]] b(2)
    by (auto simp: getLatestBlockNum_def last_block_num_missing)
  obtain m where m: "wallet_process sample_codec (\<lambda>_. []) sample_txn Map.empty = (Ret True, m)" "dom m \<subseteq> {''walletab''}"
    using sample_map by blast
  have "finite (dom m)" using m(2) by (rule finite_subset) simp
  then have "[] \<notin> set (key_order m)" using m(2) by (auto simp: key_order_def)
  moreover have "serial_run (txn_run (execute_serial sample_codec sample_image (getValue sample_env Map.empty)) sample_codec)
      [sample_txn] Map.empty = (Ret True, m)"
    using m(1) by (simp add: txn_run_def execute_serial_def run_family_def new_header_def no_value and_then_def)
  ultimately show ?thesis
    using serial_pass_returns [where N = sample_node and s = empty_serial and b = b and hdr = h and order = key_order and
        committed = Map.empty and nonces = "\<lambda>_. ''7''" and now = 0 and cnt = 0 and m = m] b h
    by (simp add: at_rest_def new_dag_def cleaned_def)
qed


end
