(* ===== verification/Rest_Clients.thy ===== *)
theory Rest_Clients
  imports Clients
begin

text \<open>
  The command line clients: \<open>processCommand\<close> of \<open>WalletClient\<close>, \<open>votingClient\<close>, \<open>eCommClient\<close> and
  \<open>NFTClient\<close> in \<open>smartContracts/<family>/<family>Client.h\<close>. Each turns a command into a transaction, as the
  clients of the block producers do, but it checks the command first, answers the commands that only read
  by itself, and posts the transaction to the REST interface.
\<close>

section \<open>The object\<close>

text \<open>
  The transaction and its header are members of the object and are not cleared between commands. The third
  field lists the bodies that were handed to \<open>curl_easy_perform\<close>.
\<close>

record rest_client =
  rc_txn :: transaction
  rc_header :: txn_header
  rc_sent :: "string list"

definition new_client :: rest_client where
  "new_client = \<lparr>rc_txn = \<lparr>t_header = [], t_dependencies = [], t_payload = []\<rparr>,
     rc_header = \<lparr>family_name = [], inputs = [], client_ID = [], client_nonce = [], outputs = []\<rparr>, rc_sent = []\<rparr>"

text \<open>The setters of the two messages.\<close>

definition begin_header :: "string \<Rightarrow> string \<Rightarrow> string \<Rightarrow> rest_client \<Rightarrow> rest_client" where
  "begin_header family client nonce rc =
     rc\<lparr>rc_header := (rc_header rc)\<lparr>family_name := family, client_ID := client, client_nonce := nonce\<rparr>\<rparr>"

definition add_keys :: "string list \<Rightarrow> string list \<Rightarrow> rest_client \<Rightarrow> rest_client" where
  "add_keys ins outs rc =
     rc\<lparr>rc_header := (rc_header rc)\<lparr>inputs := inputs (rc_header rc) @ ins, outputs := outputs (rc_header rc) @ outs\<rparr>\<rparr>"

definition set_payload :: "string \<Rightarrow> rest_client \<Rightarrow> rest_client" where
  "set_payload payload rc = rc\<lparr>rc_txn := (rc_txn rc)\<lparr>t_payload := payload\<rparr>\<rparr>"

section \<open>Posting\<close>

text \<open>
  What is called: \<open>SerializeToString\<close> of the header and of the transaction, and curl. The latter is \<open>None\<close>
  when \<open>curl_easy_init\<close> gives no handle, and otherwise says whether the request was performed; the answer's
  status is not looked at.
\<close>

record library =
  show_hdr :: show_header
  show_txn :: "transaction \<Rightarrow> string option"
  curl :: "string \<Rightarrow> bool option"

definition sendTransactionToRestAPI ::
    "library \<Rightarrow> string \<Rightarrow> string \<Rightarrow> string \<Rightarrow> rest_client \<Rightarrow> string outcome \<times> rest_client" where
  "sendTransactionToRestAPI L failed sent serializedTransaction rc =
     (case curl L serializedTransaction of
        None \<Rightarrow> (Ret [], rc)
      | Some ok \<Rightarrow> (Ret (if ok then sent else failed), rc\<lparr>rc_sent := rc_sent rc @ [serializedTransaction]\<rparr>))"

text \<open>The end of \<open>processCommand\<close>, with the four messages of the client.\<close>

definition send_off ::
    "library \<Rightarrow> string \<times> string \<times> string \<times> string \<Rightarrow> rest_client \<Rightarrow> string outcome \<times> rest_client" where
  "send_off L = (\<lambda>(bad_header, bad_txn, failed, sent) rc.
     case show_hdr L (rc_header rc) of
       None \<Rightarrow> (Ret bad_header, rc)
     | Some serializedHeader \<Rightarrow>
         (let rc1 = rc\<lparr>rc_txn := (rc_txn rc)\<lparr>t_header := serializedHeader,
                t_dependencies := t_dependencies (rc_txn rc) @ [[]]\<rparr>\<rparr>
          in case show_txn L (rc_txn rc1) of
               None \<Rightarrow> (Ret bad_txn, rc1)
             | Some serializedTransaction \<Rightarrow> sendTransactionToRestAPI L failed sent serializedTransaction rc1))"

definition long_messages :: "string \<times> string \<times> string \<times> string" where
  "long_messages = (''Failed to serialize TransactionHeader'', ''Failed to serialize Transaction'',
     ''curl_easy_perform() failed'', ''Transaction successfully sent to REST API.'')"

definition voting_messages :: "string \<times> string \<times> string \<times> string" where
  "voting_messages = (''Failed to serialize header'', ''Failed to serialize transaction'',
     ''curl failed'', ''Transaction successfully sent.'')"

text \<open>A branch that ends in a transaction, once its arguments have been read.\<close>

definition post ::
    "library \<Rightarrow> string \<times> string \<times> string \<times> string \<Rightarrow> string list \<Rightarrow> nat list \<Rightarrow>
     (string list \<Rightarrow> string list \<times> string list \<times> member list) \<Rightarrow> (rest_client, string) op" where
  "post L says commands is f rc =
     (case args commands is Ret of
        Ret xs \<Rightarrow> (let (ins, outs, payload) = f xs
                   in send_off L says (set_payload (object_text payload) (add_keys ins outs rc)))
      | Throw e \<Rightarrow> (Throw e, rc)
      | Undef \<Rightarrow> (Undef, rc)
      | Stuck \<Rightarrow> (Stuck, rc))"

definition lines_text :: "string list \<Rightarrow> string" where
  "lines_text ls = concat (map (\<lambda>l. l @ [CHR 0x0A]) (butlast ls)) @ last ls"

section \<open>The four clients\<close>

definition wallet_usage :: string where
  "wallet_usage = lines_text [''Error: Invalid command.'', '' Available commands:'',
     ''  deposit <client_id> <key> <amount>'', ''  withdraw <client_id> <key> <amount>'',
     ''  transfer <sender_id> <sender_key> <receiver_id> <receiver_key> <amount>'', ''  balance <client_id> <key>'']"

definition rest_wallet :: "library \<Rightarrow> env \<Rightarrow> db \<Rightarrow> string \<Rightarrow> string list \<Rightarrow> (rest_client, string) op" where
  "rest_wallet L E globalState nonce commands rc =
     (if length commands < 3 \<or> length commands > 6 then (Ret ''Error: Number of arguments wrong'', rc)
      else
        let rc1 = begin_header ''wallet'' (commands ! 1) nonce rc;
            addr1 = ''wallet'' @ commands ! 1 @ commands ! 2;
            command = commands ! 0
        in if command = ''deposit'' then
             post L long_messages commands [3] (\<lambda>xs. ([addr1], [addr1],
               [([], ''Verb'', '' '', ''deposit''), ('' '', ''Name'', '' '', addr1),
                ('' '', ''Value'', '' '', xs ! 0)])) rc1
           else if command = ''withdraw'' then
             post L long_messages commands [3] (\<lambda>xs. ([addr1], [addr1],
               [([], ''Verb'', '' '', ''withdraw''), ('' '', ''Name'', '' '', addr1),
                ('' '', ''Value'', '' '', xs ! 0)])) rc1
           else if command = ''transfer'' then
             post L long_messages commands [3, 4, 5] (\<lambda>xs.
               let addr2 = ''wallet'' @ xs ! 0 @ xs ! 1 in
               ([addr1, addr2], [addr1, addr2],
                [([], ''Verb'', '' '', ''transfer''), ('' '', ''Name1'', '' '', addr1),
                 ('' '', ''Name2'', '' '', addr2), ('' '', ''Value'', '' '', xs ! 2)])) rc1
           else if command = ''balance'' then
             (let balance = getValue E globalState addr1
              in (Ret (if balance = [] then ''0'' else balance), rc1))
           else (Ret wallet_usage, rc1))"

definition voting_usage :: string where
  "voting_usage = lines_text [''Invalid command. Supported:'', ''  registerVoter <name>'',
     ''  registerCandidate <name>'', ''  transferVote <from> <to> <count>'', ''  castVote <voter> <candidate>'',
     ''  results <candidate>'']"

definition rest_voting :: "library \<Rightarrow> env \<Rightarrow> db \<Rightarrow> string \<Rightarrow> string list \<Rightarrow> (rest_client, string) op" where
  "rest_voting L E globalState nonce commands rc =
     (if commands = [] then (Ret ''No command provided.'', rc)
      else
        let verb = commands ! 0;
            rc1 = begin_header ''voting'' (if length commands > 1 then commands ! 1 else ''unknown'') nonce rc
        in if verb = ''registerVoter'' then
             post L voting_messages commands [1] (\<lambda>xs.
               let voterKey = ''voter'' @ xs ! 0 in
               ([voterKey], [voterKey], [([], ''Verb'', [], ''registerVoter''), ([], ''Name'', [], voterKey)])) rc1
           else if verb = ''registerCandidate'' then
             post L voting_messages commands [1] (\<lambda>xs.
               let candidateKey = ''candidate'' @ xs ! 0 in
               ([candidateKey], [candidateKey],
                [([], ''Verb'', [], ''registerCandidate''), ([], ''Name'', [], candidateKey)])) rc1
           else if verb = ''transferVote'' then
             (if length commands < 4 then (Ret ''Usage: transferVote <from> <to> <count>'', rc1)
              else post L voting_messages commands [1, 2, 3] (\<lambda>xs.
                let fromKey = ''voter'' @ xs ! 0; toKey = ''voter'' @ xs ! 1 in
                ([fromKey, toKey], [fromKey, toKey],
                 [([], ''Verb'', [], ''transferVote''), ([], ''From'', [], fromKey), ([], ''To'', [], toKey),
                  ([], ''Count'', [], xs ! 2)])) rc1)
           else if verb = ''castVote'' then
             (if length commands < 3 then (Ret ''Usage: castVote <voter> <candidate>'', rc1)
              else post L voting_messages commands [1, 2] (\<lambda>xs.
                let voterKey = ''voter'' @ xs ! 0; candidateKey = ''candidate'' @ xs ! 1 in
                ([voterKey, candidateKey], [voterKey, candidateKey],
                 [([], ''Verb'', [], ''castVote''), ([], ''Voter'', [], voterKey),
                  ([], ''Candidate'', [], candidateKey)])) rc1)
           else if verb = ''results'' then
             (case arg commands 1 of
                Ret name \<Rightarrow> (let voteCount = getValue E globalState (''candidate'' @ name)
                             in (Ret (if voteCount = [] then ''0'' else voteCount), rc1))
              | Throw e \<Rightarrow> (Throw e, rc1) | Undef \<Rightarrow> (Undef, rc1) | Stuck \<Rightarrow> (Stuck, rc1))
           else (Ret voting_usage, rc1))"

text \<open>
  The single nodes' e-commerce client splits a cart into a local array of two vectors and returns a pointer
  to it, so that reading the result is undefined; the cluster's returns the pair.
\<close>

definition split_cart :: "string \<Rightarrow> (string list \<times> string list) outcome" where
  "split_cart str = Ret (splitString str)"

definition split_cart_single :: "string \<Rightarrow> (string list \<times> string list) outcome" where
  "split_cart_single str = Undef"

definition ecomm_usage :: "string \<Rightarrow> string \<Rightarrow> string" where
  "ecomm_usage view check = lines_text [''Error: Invalid command.'', '' Available commands:'',
     ''  addToCart <client_id> <item_id> <quantity>'', ''  removeFromCart <client_id> <item_id> <quantity>'',
     view, check, ''  refillItem <item_id> <quantity>'']"

definition rest_ecomm_body ::
    "(string \<Rightarrow> (string list \<times> string list) outcome) \<Rightarrow> string \<Rightarrow> library \<Rightarrow> env \<Rightarrow> db \<Rightarrow> string \<Rightarrow> string list \<Rightarrow>
     (rest_client, string) op" where
  "rest_ecomm_body split usage L E globalState nonce commands rc =
     (if length commands < 2 \<or> length commands > 4 then (Ret ''Error: Number of arguments wrong'', rc)
      else
        let rc1 = begin_header ''eComm'' (commands ! 1) nonce rc;
            command = commands ! 0;
            cartKey = ''eComm'' @ commands ! 1 @ ''Cart''
        in if command = ''addToCart'' then
             post L long_messages commands [2, 3] (\<lambda>xs.
               let addr2 = ''eComm'' @ xs ! 0 in
               ([cartKey, addr2], [cartKey, addr2],
                [([], ''Verb'', '' '', ''addToCart''), ('' '', ''Name'', '' '', cartKey),
                 ([], ''Item'', '' '', addr2), ('' '', ''Value'', '' '', xs ! 1)])) rc1
           else if command = ''removeFromCart'' then
             post L long_messages commands [2, 3] (\<lambda>xs.
               let addr2 = ''eComm'' @ xs ! 0 in
               ([cartKey, addr2], [cartKey, addr2],
                [([], ''Verb'', '' '', ''removeFromCart''), ('' '', ''Name'', '' '', cartKey),
                 ([], ''Item'', '' '', addr2), ('' '', ''Value'', '' '', xs ! 1)])) rc1
           else if command = ''checkout'' then
             (let cart = getValue E globalState cartKey;
                  rc2 = add_keys [cartKey] [cartKey] rc1
              in if cart = [] then (Ret ''empty cart'', rc2)
                 else (case split cart of
                         Ret result \<Rightarrow> post L long_messages commands [] (\<lambda>_. (fst result, fst result,
                           [([], ''Verb'', '' '', ''checkout''), ('' '', ''Name1'', '' '', cartKey)])) rc2
                       | Throw e \<Rightarrow> (Throw e, rc2) | Undef \<Rightarrow> (Undef, rc2) | Stuck \<Rightarrow> (Stuck, rc2)))
           else if command = ''refillItem'' then
             (let addr1 = ''eComm'' @ commands ! 1
              in post L long_messages commands [2] (\<lambda>xs. ([addr1], [addr1],
                   [([], ''Verb'', '' '', ''refillItem''), ('' '', ''Name'', '' '', addr1),
                    ('' '', ''Value'', '' '', xs ! 0)])) rc1)
           else if command = ''viewCart'' then
             (let cart = getValue E globalState cartKey
              in if cart = [] then (Ret ''empty cart'', rc1)
                 else (bind_outcome (split cart) (\<lambda>(first, second).
                         if length first > length second then Undef else Ret cart), rc1))
           else (Ret usage, rc1))"

definition rest_ecomm :: "library \<Rightarrow> env \<Rightarrow> db \<Rightarrow> string \<Rightarrow> string list \<Rightarrow> (rest_client, string) op" where
  "rest_ecomm = rest_ecomm_body split_cart (ecomm_usage ''  viewCart <client_id>'' ''  checkout <client_id>'')"

definition rest_ecomm_single :: "library \<Rightarrow> env \<Rightarrow> db \<Rightarrow> string \<Rightarrow> string list \<Rightarrow> (rest_client, string) op" where
  "rest_ecomm_single =
     rest_ecomm_body split_cart_single (ecomm_usage ''  ViewCart <client_id> '' ''  checkout <client_id> '')"

definition nft_usage :: string where
  "nft_usage = lines_text [''Error: Invalid command.'', '' Available commands:'',
     ''  create <client_id> <image_path>'', ''  transfer <client_id> <image_path> <new_owner_id>'',
     ''  get  <image_path>'']"

text \<open>The owner's list, read back; only its length is answered, the hashes are printed.\<close>

definition list_nfts :: "codec \<Rightarrow> env \<Rightarrow> db \<Rightarrow> string \<Rightarrow> string" where
  "list_nfts C E globalState owner =
     (let value = getValue E globalState owner
      in if value = [] then ''No NFTs found for owner: '' @ owner
         else (case jparse C value of
                 Some nftList \<Rightarrow> ''Listed '' @ to_string (int (length (jitems nftList))) @ '' NFTs.''
               | None \<Rightarrow> ''Error: Failed to parse NFT list for owner: '' @ owner))"

text \<open>Both keys are put together before the verb is looked at, and the third before the number of arguments is.\<close>

definition rest_nft ::
    "codec \<Rightarrow> library \<Rightarrow> env \<Rightarrow> db \<Rightarrow> string \<Rightarrow> string list \<Rightarrow> (rest_client, string) op" where
  "rest_nft C L E globalState nonce commands rc =
     (if length commands < 2 \<or> length commands > 4 then (Ret ''Error: Number of arguments wrong'', rc)
      else if commands ! 0 = ''get'' then (Ret (list_nfts C E globalState (commands ! 1)), rc)
      else
        let verb = commands ! 0;
            rc1 = begin_header ''nft'' (commands ! 1) nonce rc;
            addr1 = ''nft'' @ commands ! 1
        in if length commands \<le> 2 then (Undef, rc1)
           else if verb = ''create'' then
             post L long_messages commands [2] (\<lambda>xs. ([addr1, ''nft'' @ xs ! 0], [addr1],
               [([], ''Verb'', '' '', ''nft_create''), ('' '', ''ImagePath'', '' '', xs ! 0),
                ('' '', ''Owner'', '' '', commands ! 1)])) rc1
           else if verb = ''transfer'' then
             (if length commands \<le> 3 then (Undef, rc1)
              else if length commands \<noteq> 4 then
                (Ret ''Error: transfer requires 4 arguments: transfer <client_id> <image_path> <new_owner_id>'', rc1)
              else post L long_messages commands [2, 3] (\<lambda>xs.
                let addr3 = ''nft'' @ xs ! 1 in
                ([addr1, ''nft'' @ xs ! 0, addr3], [addr1, addr3],
                 [([], ''Verb'', '' '', ''nft_transfer''), ('' '', ''ImagePath'', '' '', xs ! 0),
                  ('' '', ''OldOwner'', '' '', commands ! 1), ([], ''NewOwner'', '' '', xs ! 1)])) rc1)
           else (Ret nft_usage, rc1))"

end
