(* ===== verification/Rest_Api.thy ===== *)
theory Rest_Api
  imports Rest_Clients Block_Producer
begin

text \<open>
  The REST interface, \<open>RestAPI/RestAPI.cpp\<close>: the route \<open>/api/transaction\<close>, which checks a posted body and
  hands the transaction to the pool, the Kafka topic the block producers poll.
\<close>

section \<open>Handing a transaction to the pool\<close>

text \<open>Which calls of the Kafka client succeed; the pool is the topic's messages, oldest first.\<close>

record kafka_producer =
  set_servers :: bool
  new_producer :: bool
  new_topic :: bool
  produce_message :: "string \<Rightarrow> bool"

definition submitTransactionToRedPanda :: "kafka_producer \<Rightarrow> string \<Rightarrow> string list \<Rightarrow> string list" where
  "submitTransactionToRedPanda q transactionData pool =
     (if \<not> set_servers q then pool
      else if \<not> new_producer q then pool
      else if \<not> new_topic q then pool
      else if produce_message q transactionData then pool @ [transactionData] else pool)"

section \<open>The route\<close>

record response =
  status :: nat
  answer :: string

record server =
  srv_codec :: codec
  srv_blocks :: block_codec
  srv_show :: "transaction \<Rightarrow> string option"
  srv_kafka :: kafka_producer

text \<open>The future that \<open>std::async\<close> returns is waited for when it is destroyed, before the answer is sent.\<close>

definition api_transaction :: "server \<Rightarrow> string \<Rightarrow> string list \<Rightarrow> response \<times> string list" where
  "api_transaction V body pool =
     (case parse_txn (srv_blocks V) body of
        None \<Rightarrow> (\<lparr>status = 400, answer = ''Invalid Protobuf format''\<rparr>, pool)
      | Some transaction \<Rightarrow>
          (case parse_header (srv_codec V) (t_header transaction) of
             None \<Rightarrow> (\<lparr>status = 400, answer = ''Invalid Transaction Header format''\<rparr>, pool)
           | Some transactionHeader \<Rightarrow>
               if family_name transactionHeader = ''read-only'' then
                 (\<lparr>status = 200, answer = ''Retrieved data based on read-only transaction request''\<rparr>, pool)
               else
                 (case srv_show V transaction of
                    None \<Rightarrow> (\<lparr>status = 500, answer = ''Failed to serialize transaction''\<rparr>, pool)
                  | Some serializedData \<Rightarrow>
                      (\<lparr>status = 200, answer = ''Transaction received and being processed in transaction pool.''\<rparr>,
                       submitTransactionToRedPanda (srv_kafka V) serializedData pool))))"

text \<open>The requests in the order in which they are handled.\<close>

definition serve :: "server \<Rightarrow> string list \<Rightarrow> string list \<Rightarrow> string list" where
  "serve V bodies pool = fold (\<lambda>body p. snd (api_transaction V body p)) bodies pool"

section \<open>The client programs\<close>

datatype program = WalletMain | VotingMain | ECommMain | NftMain

text \<open>A program makes one object and processes its arguments with it.\<close>

definition client_main ::
    "library \<Rightarrow> codec \<Rightarrow> env \<Rightarrow> db \<Rightarrow> program \<times> string \<times> string list \<Rightarrow> string outcome \<times> rest_client" where
  "client_main L C E globalState = (\<lambda>(prog, nonce, argv).
     (case prog of
        WalletMain \<Rightarrow> rest_wallet L E globalState nonce argv
      | VotingMain \<Rightarrow> rest_voting L E globalState nonce argv
      | ECommMain \<Rightarrow> rest_ecomm L E globalState nonce argv
      | NftMain \<Rightarrow> rest_nft C L E globalState nonce argv) new_client)"

text \<open>The client the block producer of the tests uses for the same command.\<close>

definition producer_client ::
    "show_header \<Rightarrow> env \<Rightarrow> db \<Rightarrow> program \<times> string \<times> string list \<Rightarrow> transaction outcome" where
  "producer_client sh E globalState = (\<lambda>(prog, nonce, argv).
     (case prog of
        WalletMain \<Rightarrow> wallet_client sh nonce argv
      | VotingMain \<Rightarrow> voting_client sh nonce argv
      | ECommMain \<Rightarrow> ecomm_client E globalState sh nonce argv
      | NftMain \<Rightarrow> nft_client sh nonce argv))"

section \<open>What a program posts\<close>

definition bodies :: "library \<Rightarrow> transaction outcome \<Rightarrow> string list" where
  "bodies L r = (case r of Ret t \<Rightarrow> [the (show_txn L t)] | _ \<Rightarrow> [])"

lemma bodies_simps [simp]:
  "bodies L (Ret t) = [the (show_txn L t)]" "bodies L (Throw e) = []" "bodies L Undef = []" "bodies L Stuck = []"
  by (simp_all add: bodies_def)

definition can_post :: "library \<Rightarrow> bool" where
  "can_post L \<longleftrightarrow> (\<forall>h. show_hdr L h \<noteq> None) \<and> (\<forall>t. \<exists>b. show_txn L t = Some b \<and> curl L b \<noteq> None)"

lemma send_off_new:
  assumes "can_post L"
  shows "rc_sent (snd (send_off L says (set_payload p (add_keys ins outs (begin_header fam c n new_client))))) =
    [the (show_txn L (new_txn (show_hdr L) (new_header fam c n ins outs) p))]"
proof -
  obtain s where s: "show_hdr L (new_header fam c n ins outs) = Some s" using assms by (auto simp: can_post_def)
  obtain b ok where b: "show_txn L (new_txn (show_hdr L) (new_header fam c n ins outs) p) = Some b" "curl L b = Some ok"
    using assms by (fastforce simp: can_post_def)
  show ?thesis
    using s b by (auto simp: send_off_def sendTransactionToRestAPI_def set_payload_def add_keys_def begin_header_def
        new_client_def new_txn_def new_header_def Let_def split: prod.splits)
qed

lemma add_keys_add_keys [simp]: "add_keys i o' (add_keys i0 o0 rc) = add_keys (i0 @ i) (o0 @ o') rc"
  by (simp add: add_keys_def)

lemma sent_unchanged [simp]:
  "rc_sent (begin_header fam c n rc) = rc_sent rc" "rc_sent (add_keys i o' rc) = rc_sent rc" "rc_sent new_client = []"
  by (simp_all add: begin_header_def add_keys_def new_client_def)

lemma args_short: "\<not> (\<forall>i\<in>set is. i < length commands) \<Longrightarrow> args commands is f = Undef"
proof (induction "is" arbitrary: f)
  case (Cons i "is")
  then show ?case by (cases "i < length commands") (auto simp: arg_def)
qed simp

lemma args_long: "\<forall>i\<in>set is. i < length commands \<Longrightarrow> args commands is f = f (map ((!) commands) is)"
  by (induction "is" arbitrary: f) (auto simp: arg_def)

lemma args_cases:
  "args commands is f = (if \<forall>i\<in>set is. i < length commands then f (map ((!) commands) is) else Undef)"
  using args_short [of "is" commands f] args_long [of "is" commands f] by (cases "\<forall>i\<in>set is. i < length commands") auto

end
