(* ===== verification/Rest_Properties.thy ===== *)
theory Rest_Properties
  imports Rest_Api Samples
begin

text \<open>The properties of the command line clients and of the REST interface.\<close>

lemma post_sent:
  assumes "can_post L"
  shows "rc_sent (snd (post L says commands is f (begin_header fam c n new_client))) =
    (if \<forall>i\<in>set is. i < length commands then
       (case f (map ((!) commands) is) of (ins, outs, ms) \<Rightarrow>
          [the (show_txn L (new_txn (show_hdr L) (new_header fam c n ins outs) (object_text ms)))])
     else [])"
  using send_off_new [OF assms]
  by (auto simp: post_def args_cases split: prod.splits)

lemma post_sent_keys:
  assumes "can_post L"
  shows "rc_sent (snd (post L says commands is f (add_keys i0 o0 (begin_header fam c n new_client)))) =
    (if \<forall>i\<in>set is. i < length commands then
       (case f (map ((!) commands) is) of (ins, outs, ms) \<Rightarrow>
          [the (show_txn L (new_txn (show_hdr L) (new_header fam c n (i0 @ ins) (o0 @ outs)) (object_text ms)))])
     else [])"
  using send_off_new [OF assms]
  by (auto simp: post_def args_cases split: prod.splits)

lemma wallet_sends:
  assumes "can_post L"
  shows "rc_sent (snd (rest_wallet L E m n cs new_client)) =
    (if 3 \<le> length cs \<and> length cs \<le> 6 \<and> cs ! 0 \<in> {''deposit'', ''withdraw'', ''transfer''}
     then bodies L (wallet_client (show_hdr L) n cs) else [])"
proof -
  have "show_hdr L h \<noteq> None" for h using assms by (simp add: can_post_def)
  then have t: "new_txn_or_throw (show_hdr L) h p = Ret (new_txn (show_hdr L) h p)" for h p
    by (simp add: new_txn_or_throw_def)
  show ?thesis
    by (auto simp: rest_wallet_def wallet_client_def post_sent [OF assms] args_cases arg_def Let_def t)
qed

lemma voting_sends:
  assumes "can_post L"
  shows "rc_sent (snd (rest_voting L E m n cs new_client)) =
    (if cs \<noteq> [] \<and> cs ! 0 \<in> {''registerVoter'', ''registerCandidate'', ''transferVote'', ''castVote''}
     then bodies L (voting_client (show_hdr L) n cs) else [])"
  by (auto simp: rest_voting_def voting_client_def voting_body_def post_sent [OF assms] args_cases arg_def Let_def
      split: outcome.splits)

lemma ecomm_sends:
  assumes "can_post L"
  shows "rc_sent (snd (rest_ecomm L E m n cs new_client)) =
    (if 2 \<le> length cs \<and> length cs \<le> 4 \<and> (cs ! 0 \<in> {''addToCart'', ''removeFromCart'', ''refillItem''} \<or>
         cs ! 0 = ''checkout'' \<and> getValue E m (''eComm'' @ cs ! 1 @ ''Cart'') \<noteq> [])
     then bodies L (ecomm_client E m (show_hdr L) n cs) else [])"
  by (auto simp: rest_ecomm_def rest_ecomm_body_def ecomm_client_def ecomm_body_def post_sent [OF assms]
      post_sent_keys [OF assms] args_cases arg_def Let_def split_cart_def)

lemma nft_sends:
  assumes "can_post L"
  shows "rc_sent (snd (rest_nft C L E m n cs new_client)) =
    (if 2 \<le> length cs \<and> length cs \<le> 4 \<and> cs ! 0 \<in> {''create'', ''transfer''}
     then bodies L (nft_client (show_hdr L) n cs) else [])"
  by (auto simp: rest_nft_def nft_client_def post_sent [OF assms] args_cases arg_def Let_def)

section \<open>What the programs post\<close>

text \<open>The commands a program turns into a transaction; it answers the others itself.\<close>

definition posts :: "env \<Rightarrow> db \<Rightarrow> program \<times> string \<times> string list \<Rightarrow> bool" where
  "posts E globalState = (\<lambda>(prog, nonce, cs).
     case prog of
       WalletMain \<Rightarrow> 3 \<le> length cs \<and> length cs \<le> 6 \<and> cs ! 0 \<in> {''deposit'', ''withdraw'', ''transfer''}
     | VotingMain \<Rightarrow> cs \<noteq> [] \<and> cs ! 0 \<in> {''registerVoter'', ''registerCandidate'', ''transferVote'', ''castVote''}
     | ECommMain \<Rightarrow> 2 \<le> length cs \<and> length cs \<le> 4 \<and> (cs ! 0 \<in> {''addToCart'', ''removeFromCart'', ''refillItem''} \<or>
         cs ! 0 = ''checkout'' \<and> getValue E globalState (''eComm'' @ cs ! 1 @ ''Cart'') \<noteq> [])
     | NftMain \<Rightarrow> 2 \<le> length cs \<and> length cs \<le> 4 \<and> cs ! 0 \<in> {''create'', ''transfer''})"

lemma main_sends:
  assumes "can_post L"
  shows "rc_sent (snd (client_main L C E m r)) =
    (if posts E m r then bodies L (producer_client (show_hdr L) E m r) else [])"
proof (cases r)
  case (fields prog n cs)
  show ?thesis
    unfolding fields client_main_def producer_client_def posts_def prod.case
    by (cases prog) (simp_all only: program.case wallet_sends [OF assms] voting_sends [OF assms] ecomm_sends [OF assms]
      nft_sends [OF assms])
qed

text \<open>C31: The command line programs and the producers of the test blocks build the same transactions: when
  the libraries serialise and curl can be started, a program posts exactly the transaction the client of the
  block producer makes of the same command with the same nonce, serialised, if the command is one that
  changes the state and has an acceptable number of arguments; otherwise, and when the producer's client
  reads outside its arguments, it posts nothing.\<close>

theorem programs_post_what_producers_build:
  assumes "can_post L"
  shows "rc_sent (snd (client_main L C E m (WalletMain, n, cs))) =
      (if 3 \<le> length cs \<and> length cs \<le> 6 \<and> cs ! 0 \<in> {''deposit'', ''withdraw'', ''transfer''}
       then bodies L (wallet_client (show_hdr L) n cs) else []) \<and>
    rc_sent (snd (client_main L C E m (VotingMain, n, cs))) =
      (if cs \<noteq> [] \<and> cs ! 0 \<in> {''registerVoter'', ''registerCandidate'', ''transferVote'', ''castVote''}
       then bodies L (voting_client (show_hdr L) n cs) else []) \<and>
    rc_sent (snd (client_main L C E m (ECommMain, n, cs))) =
      (if 2 \<le> length cs \<and> length cs \<le> 4 \<and> (cs ! 0 \<in> {''addToCart'', ''removeFromCart'', ''refillItem''} \<or>
         cs ! 0 = ''checkout'' \<and> getValue E m (''eComm'' @ cs ! 1 @ ''Cart'') \<noteq> [])
       then bodies L (ecomm_client E m (show_hdr L) n cs) else []) \<and>
    rc_sent (snd (client_main L C E m (NftMain, n, cs))) =
      (if 2 \<le> length cs \<and> length cs \<le> 4 \<and> cs ! 0 \<in> {''create'', ''transfer''}
       then bodies L (nft_client (show_hdr L) n cs) else [])"
  unfolding client_main_def prod.case program.case wallet_sends [OF assms] voting_sends [OF assms] ecomm_sends [OF assms]
    nft_sends [OF assms] by (intro conjI HOL.refl)

definition sample_library :: library where
  "sample_library = \<lparr>show_hdr = sample_show, show_txn = (\<lambda>t. Some (enc_txn t)), curl = (\<lambda>b. Some True)\<rparr>"

lemma sample_can_post: "can_post sample_library"
  by (simp add: can_post_def sample_library_def sample_show_def)

theorem programs_post_what_producers_build_witness:
  "rc_sent (snd (client_main sample_library sample_codec sample_env Map.empty (WalletMain, ''7'', [''deposit'', ''a'', ''b'', ''5'']))) =
     bodies sample_library (wallet_client sample_show ''7'' [''deposit'', ''a'', ''b'', ''5'']) \<and>
   length (bodies sample_library (wallet_client sample_show ''7'' [''deposit'', ''a'', ''b'', ''5''])) = 1"
proof
  show "rc_sent (snd (client_main sample_library sample_codec sample_env Map.empty (WalletMain, ''7'', [''deposit'', ''a'', ''b'', ''5'']))) =
     bodies sample_library (wallet_client sample_show ''7'' [''deposit'', ''a'', ''b'', ''5''])"
    using programs_post_what_producers_build [OF sample_can_post, of sample_codec sample_env Map.empty "''7''" "[''deposit'', ''a'', ''b'', ''5'']"]
    by (simp add: sample_library_def)
  show "length (bodies sample_library (wallet_client sample_show ''7'' [''deposit'', ''a'', ''b'', ''5''])) = 1"
    by (simp add: wallet_client_def arg_def new_txn_or_throw_def sample_show_def Let_def)
qed

section \<open>Commands with too few arguments\<close>

lemma send_off_defined [simp]: "fst (send_off L says rc) \<noteq> Undef"
  by (auto simp: send_off_def sendTransactionToRestAPI_def Let_def split: prod.splits option.splits)

lemma post_undefined:
  "fst (post L says commands is f rc) = Undef \<longleftrightarrow> \<not> (\<forall>i\<in>set is. i < length commands)"
  by (auto simp: post_def args_cases split: prod.splits)

lemma split_words_odd: "length (fst (split_words ws)) > length (snd (split_words ws)) \<longleftrightarrow> odd (length ws)"
  by (induction ws rule: split_words.induct) (auto split: prod.splits)

lemma ecomm_undefined:
  "fst (rest_ecomm_body split usage L E m n cs rc) = Undef \<longleftrightarrow> 2 \<le> length cs \<and> length cs \<le> 4 \<and>
     (cs ! 0 \<in> {''addToCart'', ''removeFromCart''} \<and> length cs < 4 \<or> cs ! 0 = ''refillItem'' \<and> length cs < 3 \<or>
      getValue E m (''eComm'' @ cs ! 1 @ ''Cart'') \<noteq> [] \<and>
       (cs ! 0 = ''checkout'' \<and> split (getValue E m (''eComm'' @ cs ! 1 @ ''Cart'')) = Undef \<or>
        cs ! 0 = ''viewCart'' \<and> bind_outcome (split (getValue E m (''eComm'' @ cs ! 1 @ ''Cart''))) (\<lambda>(first, second).
          if length first > length second then Undef else Ret ([] :: string)) = Undef))"
  by (auto simp: rest_ecomm_body_def post_undefined Let_def bind_outcome_def split: outcome.splits prod.splits)

text \<open>C40: When the programs read outside their arguments: the wallet program accepts three to six words, but a
  deposit or withdrawal needs four and a transfer six; the voting program never counts the words of a
  registration or of \<open>results\<close>; the e-commerce program accepts two to four words, but changing a cart needs
  four and a refill three, and viewing a cart whose text has an odd number of words reads past the second
  list; the NFT program reads the third word of any command but \<open>get\<close>, and the fourth word of a transfer
  before it tests that there is one. The single nodes' e-commerce program also has no defined behaviour on
  any cart that is not empty. In all other cases the programs have a defined behaviour.\<close>

theorem programs_undefined_exactly:
  "(fst (rest_wallet L E m n cs rc) = Undef) = (3 \<le> length cs \<and> length cs \<le> 6 \<and>
     (cs ! 0 \<in> {''deposit'', ''withdraw''} \<and> length cs < 4 \<or> cs ! 0 = ''transfer'' \<and> length cs < 6)) \<and>
   (fst (rest_voting L E m n cs rc) = Undef) =
     (length cs = 1 \<and> cs ! 0 \<in> {''registerVoter'', ''registerCandidate'', ''results''}) \<and>
   (fst (rest_ecomm L E m n cs rc) = Undef) = (2 \<le> length cs \<and> length cs \<le> 4 \<and>
     (cs ! 0 \<in> {''addToCart'', ''removeFromCart''} \<and> length cs < 4 \<or> cs ! 0 = ''refillItem'' \<and> length cs < 3 \<or>
      cs ! 0 = ''viewCart'' \<and> odd (length (getline_all (CHR '' '') (getValue E m (''eComm'' @ cs ! 1 @ ''Cart'')))))) \<and>
   (fst (rest_ecomm_single L E m n cs rc) = Undef) = (2 \<le> length cs \<and> length cs \<le> 4 \<and>
     (cs ! 0 \<in> {''addToCart'', ''removeFromCart''} \<and> length cs < 4 \<or> cs ! 0 = ''refillItem'' \<and> length cs < 3 \<or>
      cs ! 0 \<in> {''checkout'', ''viewCart''} \<and> getValue E m (''eComm'' @ cs ! 1 @ ''Cart'') \<noteq> [])) \<and>
   (fst (rest_nft C L E m n cs rc) = Undef) = (2 \<le> length cs \<and> length cs \<le> 4 \<and> cs ! 0 \<noteq> ''get'' \<and>
     (length cs = 2 \<or> cs ! 0 = ''transfer'' \<and> length cs = 3))"
proof (intro conjI)
  have l: "length cs = Suc 0 \<longleftrightarrow> cs \<noteq> [] \<and> \<not> 1 < length cs" by (cases cs) auto
  show "(fst (rest_wallet L E m n cs rc) = Undef) = (3 \<le> length cs \<and> length cs \<le> 6 \<and>
     (cs ! 0 \<in> {''deposit'', ''withdraw''} \<and> length cs < 4 \<or> cs ! 0 = ''transfer'' \<and> length cs < 6))"
    by (auto simp: rest_wallet_def post_undefined Let_def)
  show "(fst (rest_voting L E m n cs rc) = Undef) =
     (length cs = 1 \<and> cs ! 0 \<in> {''registerVoter'', ''registerCandidate'', ''results''})"
    by (auto simp: rest_voting_def post_undefined Let_def arg_def l)
  show "(fst (rest_ecomm L E m n cs rc) = Undef) = (2 \<le> length cs \<and> length cs \<le> 4 \<and>
     (cs ! 0 \<in> {''addToCart'', ''removeFromCart''} \<and> length cs < 4 \<or> cs ! 0 = ''refillItem'' \<and> length cs < 3 \<or>
      cs ! 0 = ''viewCart'' \<and> odd (length (getline_all (CHR '' '') (getValue E m (''eComm'' @ cs ! 1 @ ''Cart''))))))"
    unfolding rest_ecomm_def ecomm_undefined
    by (auto simp: split_cart_def splitString_def split_words_odd split_def)
  show "(fst (rest_ecomm_single L E m n cs rc) = Undef) = (2 \<le> length cs \<and> length cs \<le> 4 \<and>
     (cs ! 0 \<in> {''addToCart'', ''removeFromCart''} \<and> length cs < 4 \<or> cs ! 0 = ''refillItem'' \<and> length cs < 3 \<or>
      cs ! 0 \<in> {''checkout'', ''viewCart''} \<and> getValue E m (''eComm'' @ cs ! 1 @ ''Cart'') \<noteq> []))"
    unfolding rest_ecomm_single_def ecomm_undefined
    by (auto simp: split_cart_single_def)
  show "(fst (rest_nft C L E m n cs rc) = Undef) = (2 \<le> length cs \<and> length cs \<le> 4 \<and> cs ! 0 \<noteq> ''get'' \<and>
     (length cs = 2 \<or> cs ! 0 = ''transfer'' \<and> length cs = 3))"
    by (auto simp: rest_nft_def post_undefined Let_def)
qed

section \<open>The pool\<close>

definition kafka_up :: "kafka_producer \<Rightarrow> bool" where
  "kafka_up q \<longleftrightarrow> set_servers q \<and> new_producer q \<and> new_topic q \<and> (\<forall>s. produce_message q s)"

text \<open>The bodies the route lets through, and the message it makes of one.\<close>

definition admissible :: "server \<Rightarrow> string \<Rightarrow> bool" where
  "admissible V body \<longleftrightarrow> (\<exists>t h. parse_txn (srv_blocks V) body = Some t \<and> parse_header (srv_codec V) (t_header t) = Some h \<and>
     family_name h \<noteq> ''read-only'' \<and> srv_show V t \<noteq> None)"

definition resent :: "server \<Rightarrow> string \<Rightarrow> string" where
  "resent V body = the (srv_show V (the (parse_txn (srv_blocks V) body)))"

lemma api_pool:
  "snd (api_transaction V body pool) =
     (if admissible V body then submitTransactionToRedPanda (srv_kafka V) (resent V body) pool else pool)"
  by (auto simp: api_transaction_def admissible_def resent_def split: option.splits)

lemma submit_up: "kafka_up q \<Longrightarrow> submitTransactionToRedPanda q s pool = pool @ [s]"
  by (simp add: kafka_up_def submitTransactionToRedPanda_def)

lemma serve_up:
  assumes "kafka_up (srv_kafka V)"
  shows "serve V bs pool = pool @ map (resent V) (filter (admissible V) bs)"
  unfolding serve_def
  by (induction bs arbitrary: pool) (simp_all add: api_pool submit_up [OF assms])

text \<open>The REST interface keeps malformed requests out of the pool and never says whether a transaction
  got in: with Kafka up, the pool grows by the transactions of exactly those requests whose body and header
  parse, that are not read-only and can be serialised, in the order of the requests; and whatever the Kafka
  client does, the answer is the same, also when the topic takes nothing, so a success answer does
  not mean that the transaction is in the pool.\<close>

lemma pool_holds_admissible_requests:
  "(kafka_up (srv_kafka V) \<longrightarrow> serve V bs pool = pool @ map (resent V) (filter (admissible V) bs)) \<and>
   (admissible V body \<longrightarrow> status (fst (api_transaction V body pool)) = 200) \<and>
   fst (api_transaction (V\<lparr>srv_kafka := q\<rparr>) body pool) = fst (api_transaction V body pool) \<and>
   snd (api_transaction (V\<lparr>srv_kafka := q\<lparr>new_topic := False\<rparr>\<rparr>) body pool) = pool"
proof (intro conjI impI)
  show "serve V bs pool = pool @ map (resent V) (filter (admissible V) bs)" if "kafka_up (srv_kafka V)"
    by (rule serve_up [OF that])
  show "status (fst (api_transaction V body pool)) = 200" if "admissible V body"
    using that by (auto simp: api_transaction_def admissible_def)
  show "fst (api_transaction (V\<lparr>srv_kafka := q\<rparr>) body pool) = fst (api_transaction V body pool)"
    by (simp add: api_transaction_def split: option.split)
  show "snd (api_transaction (V\<lparr>srv_kafka := q\<lparr>new_topic := False\<rparr>\<rparr>) body pool) = pool"
    by (simp add: api_pool submitTransactionToRedPanda_def)
qed

definition sample_server :: server where
  "sample_server = \<lparr>srv_codec = sample_codec, srv_blocks = sample_blocks, srv_show = (\<lambda>t. Some (enc_txn t)),
     srv_kafka = \<lparr>set_servers = True, new_producer = True, new_topic = True, produce_message = (\<lambda>s. True)\<rparr>\<rparr>"

lemma sample_server_up: "kafka_up (srv_kafka sample_server)"
  by (simp add: sample_server_def kafka_up_def)

lemma sample_admissible: "admissible sample_server (enc_txn sample_txn)"
proof -
  have "parse_header sample_codec (t_header sample_txn) =
      Some (new_header ''wallet'' ''a'' ''7'' [''walletab''] [''walletab''])"
    unfolding sample_txn_def by (rule client_header) simp
  then show ?thesis by (simp add: admissible_def sample_server_def sample_blocks_def new_header_def)
qed

lemma pool_holds_admissible_requests_witness:
  "serve sample_server [enc_txn sample_txn] [] = [enc_txn sample_txn] \<and>
   status (fst (api_transaction sample_server (enc_txn sample_txn) [])) = 200"
proof -
  have "resent sample_server (enc_txn sample_txn) = enc_txn sample_txn"
    by (simp add: resent_def sample_server_def sample_blocks_def)
  then show ?thesis
    using pool_holds_admissible_requests [of sample_server "[enc_txn sample_txn]" "[]" "enc_txn sample_txn" "srv_kafka sample_server"]
      sample_server_up sample_admissible by simp
qed

section \<open>From a command line to a block\<close>

text \<open>What protobuf promises, of the transactions the clients and the interface serialise.\<close>

definition message_law :: "library \<Rightarrow> server \<Rightarrow> bool" where
  "message_law L V \<longleftrightarrow>
     (\<forall>t. \<exists>s. show_txn L t = Some s \<and> parse_txn (srv_blocks V) s = Some t) \<and>
     (\<forall>t. \<exists>s. srv_show V t = Some s \<and> parse_txn (srv_blocks V) s = Some t)"

text \<open>The consumer is given the messages of the pool, and then none.\<close>

definition polls :: "kafka \<Rightarrow> string list \<Rightarrow> bool" where
  "polls q msgs \<longleftrightarrow> (\<forall>i<length msgs. poll q i = Message (msgs ! i)) \<and> poll q (length msgs) = No_message"

lemma fetch_polled:
  assumes "polls q msgs" "length msgs \<le> to_uint64 n"
  shows "fetch_txns K q n = concat (map (\<lambda>m. parsed K (Message m)) msgs)"
proof -
  let ?k = "length msgs"
  have m: "map (poll q) [0..<?k] = map Message msgs"
    using assms(1) by (auto simp: polls_def intro: nth_equalityI)
  have "takeWhile (\<lambda>r. r \<noteq> No_message) (map (poll q) [0..<to_uint64 n]) = map Message msgs"
  proof (cases "?k = to_uint64 n")
    case True
    then show ?thesis using m by (simp add: takeWhile_eq_all_conv)
  next
    case False
    then have "[0..<to_uint64 n] = [0..<?k] @ ?k # [Suc ?k..<to_uint64 n]"
      using assms(2) upt_add_eq_append [of 0 ?k "to_uint64 n - ?k"] by (simp add: upt_conv_Cons)
    then show ?thesis using m assms(1) by (simp add: polls_def takeWhile_append)
  qed
  then show ?thesis by (simp add: fetch_txns_spec o_def)
qed

lemma resent_law:
  assumes "message_law L V"
  shows "parse_txn (srv_blocks V) (the (show_txn L t)) = Some t" "parse_txn (srv_blocks V) (the (srv_show V t)) = Some t"
    "srv_show V t \<noteq> None"
  using assms unfolding message_law_def by (metis option.sel, metis option.sel, metis option.simps(3))

lemma producer_header:
  assumes "header_law C sh" "producer_client sh E m r = Ret t"
  shows "\<exists>h. parse_header C (t_header t) = Some h \<and> family_name h \<in> {''wallet'', ''voting'', ''eComm'', ''nft''}"
  using assms(2) client_header [OF assms(1)]
  by (cases r) (auto simp: producer_client_def wallet_client_def voting_client_def voting_body_def ecomm_client_def
      ecomm_body_def nft_client_def bind_outcome_Ret_iff Let_def new_txn_or_throw_def split: program.splits if_splits)

lemma producer_declares:
  assumes "json_law C" "header_law C sh" "producer_client sh E m (prog, n, cs) = Ret t" "list_all plain cs" "prog \<noteq> NftMain"
  shows "declares C t"
  using assms(3,5) wallet_declares [OF assms(1,2,4)] voting_declares [OF assms(1,2,4)] ecomm_declares(1) [OF assms(1,2,4)]
  by (auto simp: producer_client_def split: program.splits)


definition sample_polls :: kafka where
  "sample_polls = \<lparr>conf_set = (\<lambda>_ _. True), new_consumer = True, subscribe = (\<lambda>_. True),
     poll = (\<lambda>i. if i = 0 then Message (enc_txn sample_txn) else No_message)\<rparr>"


end
