(* ===== verification/P2p.thy ===== *)
theory P2p
  imports Block_Chain Clients
begin

text \<open>
  The programs of \<open>p2pNetwork\<close>: \<open>txnGenerator.cpp\<close>, which writes random transactions to a file,
  \<open>p2pBlockGenerator.cpp\<close>, which makes a block of the transactions in such a file, and
  \<open>p2pBlockSender.cpp\<close>, which decides whether the block may follow the chain and queues its number.
\<close>

section \<open>The file of transactions\<close>

text \<open>An \<open>uint32_t\<close> in memory, least significant byte first, as on the machines the program is built for.\<close>

definition size_bytes :: "nat \<Rightarrow> string" where
  "size_bytes n = [char_of n, char_of (n div 256), char_of (n div 65536), char_of (n div 16777216)]"

definition bytes_size :: "string \<Rightarrow> nat" where
  "bytes_size s = foldr (\<lambda>c n. of_char c + 256 * n) s 0"

text \<open>The size is narrowed to 32 bits, and that many bytes are written.\<close>

definition framed :: "string \<Rightarrow> string" where
  "framed txnStr = (let size = length txnStr mod 4294967296 in size_bytes size @ take size txnStr)"

definition charset :: string where
  "charset = ''abcdefghijklmnopqrstuvwxyzABCDEFGHIJKLMNOPQRSTUVWXYZ0123456789''"

text \<open>The random numbers are a parameter; a draw is an index into the character set.\<close>

definition generateRandomString :: "(nat \<Rightarrow> nat) \<Rightarrow> nat \<Rightarrow> string" where
  "generateRandomString draw len = map (\<lambda>i. charset ! (draw i mod 62)) [0..<len]"

definition random_transaction :: "show_header \<Rightarrow> (nat \<Rightarrow> nat \<Rightarrow> nat) \<Rightarrow> nat \<Rightarrow> transaction option" where
  "random_transaction sh draw value =
     (let r = (\<lambda>k len. generateRandomString (draw k) len);
          h = new_header ''intkey'' (r 0 10) (r 1 16) [r 2 5, r 3 5] [r 4 5, r 5 5]
      in map_option (\<lambda>s. \<lparr>t_header = s, t_dependencies = [r 6 8, r 7 8],
           t_payload = [CHR ''{'', CHR 0x27] @ ''Verb'' @ [CHR 0x27] @ '': '' @ [CHR 0x27] @ ''set'' @ [CHR 0x27] @ '', '' @
             [CHR 0x27] @ ''Name'' @ [CHR 0x27] @ '': '' @ [CHR 0x27] @ r 8 6 @ [CHR 0x27] @ '', '' @ [CHR 0x27] @ ''Value'' @
             [CHR 0x27] @ '': '' @ to_string (int (value mod 1000)) @ ''}''\<rparr>) (sh h))"

definition createSerializedTransaction ::
    "show_header \<Rightarrow> (transaction \<Rightarrow> string option) \<Rightarrow> (nat \<Rightarrow> nat \<Rightarrow> nat) \<Rightarrow> nat \<Rightarrow> string" where
  "createSerializedTransaction sh st draw value =
     (case random_transaction sh draw value of
        None \<Rightarrow> []
      | Some transaction \<Rightarrow> (case st transaction of None \<Rightarrow> [] | Some s \<Rightarrow> s))"

type_synonym files = "string \<Rightarrow> string option"

definition generateTransactionsToFile ::
    "show_header \<Rightarrow> (transaction \<Rightarrow> string option) \<Rightarrow> (nat \<Rightarrow> (nat \<Rightarrow> nat \<Rightarrow> nat) \<times> nat) \<Rightarrow> bool \<Rightarrow> int \<Rightarrow> files \<Rightarrow> files" where
  "generateTransactionsToFile sh st chance opens n fs =
     (let filename = to_string n @ ''_txn.txt''
      in if \<not> opens then fs
         else fs(filename \<mapsto> concat (map framed (filter (\<lambda>s. s \<noteq> [])
                (map (\<lambda>i. createSerializedTransaction sh st (fst (chance i)) (snd (chance i))) [0..<nat n])))))"

text \<open>
  Reading: at most five transactions, until the file ends, or ends within a transaction; one that does
  not parse is skipped.
\<close>

function read_loop :: "block_codec \<Rightarrow> string \<Rightarrow> transaction list \<Rightarrow> transaction list" where
  "read_loop K inFile pending =
     (if \<not> length pending < 5 then pending
      else if length inFile < 4 then pending
      else
        let size = bytes_size (take 4 inFile); rest = drop 4 inFile
        in if length rest < size then pending
           else (case parse_txn K (take size rest) of
                   None \<Rightarrow> read_loop K (drop size rest) pending
                 | Some txn \<Rightarrow> read_loop K (drop size rest) (pending @ [txn])))"
  by pat_completeness auto
termination by (relation "measure (\<lambda>(K, inFile, pending). length inFile)") auto

declare read_loop.simps [simp del]

definition readTransactionsFromFile :: "block_codec \<Rightarrow> files \<Rightarrow> string \<Rightarrow> transaction list outcome" where
  "readTransactionsFromFile K fs filename =
     (case fs filename of None \<Rightarrow> Throw Runtime_error | Some inFile \<Rightarrow> Ret (read_loop K inFile []))"

section \<open>Making a block\<close>

definition blockProducer_file ::
    "env \<Rightarrow> block_codec \<Rightarrow> files \<Rightarrow> int \<Rightarrow> db \<Rightarrow> db \<Rightarrow> string \<Rightarrow> block outcome" where
  "blockProducer_file E K fs now state blocks filename =
     bind_outcome (readTransactionsFromFile K fs filename) (\<lambda>pendingTransactions.
     if pendingTransactions = [] then Throw Runtime_error
     else
       bind_outcome (open_state E False state) (\<lambda>globalStateInstance.
       bind_outcome (add_int (last_block_num (getLatestBlockNum blocks)) 1) (\<lambda>newBlockNum.
       case show_block_header K (header_for (getRootHash globalStateInstance) now newBlockNum) of
         None \<Rightarrow> Throw Runtime_error
       | Some serializedHeader \<Rightarrow>
           Ret \<lparr>b_header = serializedHeader, b_transactions = pendingTransactions, block_hash = []\<rparr>)))"

section \<open>The sender\<close>

text \<open>The queue and the flag are globals that no other file of the program uses.\<close>

record sender =
  blockQueue :: "int list"
  received_block :: bool
  sender_blocks :: db

text \<open>A \<open>uint64\<close> assigned to an \<open>int\<close>.\<close>

definition narrow_int :: "nat \<Rightarrow> int" where
  "narrow_int n = (let r = int n mod 4294967296 in if r < 2147483648 then r else r - 4294967296)"

definition pending_key :: "int \<Rightarrow> string" where
  "pending_key n = ''PB'' @ to_string n"

definition keep_pending :: "env \<Rightarrow> block_codec \<Rightarrow> block \<Rightarrow> int \<Rightarrow> sender \<Rightarrow> sender" where
  "keep_pending E K newBlock n s =
     (let s1 = s\<lparr>blockQueue := blockQueue s @ [n], received_block := True\<rparr>
      in case show_block K newBlock of
           None \<Rightarrow> s1
         | Some serializedBlock \<Rightarrow>
             s1\<lparr>sender_blocks := snd (storePendingBlock E (pending_key n) serializedBlock (sender_blocks s))\<rparr>)"

text \<open>The file is \<open>2500_txn.txt\<close>, the state tree and the clock are arguments.\<close>

definition blockSender ::
    "env \<Rightarrow> block_codec \<Rightarrow> files \<Rightarrow> int \<Rightarrow> db \<Rightarrow> sender \<Rightarrow> unit outcome \<times> sender" where
  "blockSender E K fs now state s =
     (case blockProducer_file E K fs now state (sender_blocks s) ''2500_txn.txt'' of
        Ret newBlock \<Rightarrow>
          (case parse_block_header K (b_header newBlock) of
             None \<Rightarrow> (Ret (), s)
           | Some header \<Rightarrow>
               (let generatedBlockNumber = narrow_int (block_num header);
                    latestBlockNumber = last_block_num (getLatestBlockNum (sender_blocks s))
                in if generatedBlockNumber \<le> latestBlockNumber then (Ret (), s)
                   else if blockQueue s = [] then
                     (case add_int latestBlockNumber 1 of
                        Ret following \<Rightarrow>
                          (Ret (), if generatedBlockNumber = following then keep_pending E K newBlock generatedBlockNumber s else s)
                      | Throw e \<Rightarrow> (Throw e, s) | Undef \<Rightarrow> (Undef, s) | Stuck \<Rightarrow> (Stuck, s))
                   else if generatedBlockNumber - 1 \<notin> set (blockQueue s) then (Ret (), s)
                   else (Ret (), keep_pending E K newBlock generatedBlockNumber s)))
      | Throw e \<Rightarrow> (Throw e, s) | Undef \<Rightarrow> (Undef, s) | Stuck \<Rightarrow> (Stuck, s))"

text \<open>
  What happens to the sender's state: a call of \<open>blockSender\<close> that returns, and the node filing a block with
  a later number.
\<close>

inductive sender_step :: "env \<Rightarrow> block_codec \<Rightarrow> sender \<Rightarrow> sender \<Rightarrow> bool" for E K where
  send: "blockSender E K fs now state s = (Ret (), s') \<Longrightarrow> sender_step E K s s'"
| filed: "height (sender_blocks s) < n \<Longrightarrow> n \<le> max_num \<Longrightarrow>
    sender_step E K s (s\<lparr>sender_blocks := snd (storeBlock E (block_key n) blockData (sender_blocks s))\<rparr>)"

definition sender_reach :: "env \<Rightarrow> block_codec \<Rightarrow> sender \<Rightarrow> sender \<Rightarrow> bool" where
  "sender_reach E K = (sender_step E K)\<^sup>*\<^sup>*"

inductive_cases sender_stepE: "sender_step E K s s'"

section \<open>Facts\<close>

lemma bytes_size_bytes: "bytes_size (size_bytes n) = n mod 4294967296"
proof -
  have "n mod 4294967296 = n mod 256 + 256 * (n div 256 mod 256 + 256 * (n div 256 div 256 mod 256 + 256 * (n div 256 div 256 div 256 mod 256)))"
    by (simp add: mod_mult2_eq [of n 256 16777216, simplified] mod_mult2_eq [of "n div 256" 256 65536, simplified]
        mod_mult2_eq [of "n div 256 div 256" 256 256, simplified])
  then show ?thesis by (simp add: bytes_size_def size_bytes_def div_mult2_eq [symmetric])
qed

lemma length_size_bytes [simp]: "length (size_bytes n) = 4"
  by (simp add: size_bytes_def)

lemma read_framed:
  assumes "length s < 4294967296" "parse_txn K s = Some t" "length pending < 5"
  shows "read_loop K (framed s @ rest) pending = read_loop K rest (pending @ [t])"
  using assms by (subst read_loop.simps) (simp add: framed_def Let_def bytes_size_bytes)

lemma read_full: "\<not> length pending < 5 \<Longrightarrow> read_loop K s pending = pending"
  by (subst read_loop.simps) simp

lemma read_end: "read_loop K [] pending = pending"
  by (subst read_loop.simps) simp

lemma read_back:
  assumes "\<forall>t\<in>set ts. length (f t) < 4294967296 \<and> parse_txn K (f t) = Some t" "length pending \<le> 5"
  shows "read_loop K (concat (map (\<lambda>t. framed (f t)) ts)) pending = take 5 (pending @ ts)"
  using assms
proof (induction ts arbitrary: pending)
  case (Cons t ts)
  show ?case
  proof (cases "length pending < 5")
    case True
    then show ?thesis using Cons.IH [of "pending @ [t]"] Cons.prems by (simp add: read_framed)
  qed (use Cons.prems in \<open>simp add: read_full\<close>)
qed (simp add: read_end)

end
