(* ===== verification/P2p_Properties.thy ===== *)
theory P2p_Properties
  imports P2p Samples
begin

text \<open>The properties of the programs of \<open>p2pNetwork\<close>.\<close>

section \<open>The block of a file\<close>

text \<open>The block generator is a producer in the sense of \<open>Block_Chain\<close>: it gives the next number.\<close>

type_synonym file_feed = "files \<times> int \<times> db"

definition feed_file :: "env \<Rightarrow> block_codec \<Rightarrow> file_feed \<Rightarrow> db \<Rightarrow> block outcome" where
  "feed_file E K = (\<lambda>(fs, now, state) m. blockProducer_file E K fs now state m ''2500_txn.txt'')"

definition file_ready :: "env \<Rightarrow> block_codec \<Rightarrow> file_feed \<Rightarrow> bool" where
  "file_ready E K = (\<lambda>(fs, now, state).
     (\<exists>t ts. readTransactionsFromFile K fs ''2500_txn.txt'' = Ret (t # ts)) \<and> (\<exists>g. open_state E False state = Ret g))"

lemma file_number:
  assumes "codec_ok K" "0 \<le> height m" "height m < max_num" "blockProducer_file E K fs now state m name = Ret b"
  shows "map_option block_num (parse_block_header K (b_header b)) = Some (nat (height m + 1))"
  using assms(4) header_number [OF assms(1-3)] add_one [OF assms(2,3)]
  by (auto simp: blockProducer_file_def bind_outcome_Ret_iff simp del: add_int_Ret split: if_splits option.splits)

interpretation file_chain: block_source E K "feed_file E K" "file_ready E K" for E K
proof (unfold_locales, goal_cases)
  case (1 i m)
  obtain fs now state where i: "i = (fs, now, state)" by (cases i)
  obtain t ts g where r: "readTransactionsFromFile K fs ''2500_txn.txt'' = Ret (t # ts)" "open_state E False state = Ret g"
    using 1(3) by (auto simp: file_ready_def i)
  obtain s where s: "show_block_header K (header_for (getRootHash g) now (height m + 1)) = Some s"
    using header_shown [OF 1(2)] .
  have "\<exists>b. blockProducer_file E K fs now state m ''2500_txn.txt'' = Ret b"
    using add_one [OF 1(4,5)] by (simp add: blockProducer_file_def r s del: add_int_Ret)
  then show ?case using file_number [OF 1(2,4,5)] by (auto simp: feed_file_def i)
qed

section \<open>The sender's verdict\<close>

lemma narrow_id: "0 \<le> n \<Longrightarrow> n \<le> max_num \<Longrightarrow> narrow_int (nat n) = n"
  by (simp add: narrow_int_def Let_def)

lemma pending_key_simps [simp]: "pending_key n \<noteq> latest_key" "latest_key \<noteq> pending_key n" "pending_key n \<noteq> block_key m"
  by (simp_all add: pending_key_def latest_key_def block_key_def)

definition queued :: "block_codec \<Rightarrow> block \<Rightarrow> sender \<Rightarrow> sender" where
  "queued K b s =
     (let n = height (sender_blocks s) + 1
      in s\<lparr>blockQueue := blockQueue s @ [n], received_block := True,
           sender_blocks := (sender_blocks s)(pending_key n \<mapsto> serialized (show_block K b))\<rparr>)"

lemma send_effect:
  assumes "lawful E" "codec_ok K" "0 \<le> height (sender_blocks s)" "height (sender_blocks s) < max_num"
    and "blockProducer_file E K fs now state (sender_blocks s) ''2500_txn.txt'' = Ret b"
  shows "blockSender E K fs now state s =
    (Ret (), if blockQueue s = [] \<or> height (sender_blocks s) \<in> set (blockQueue s) then queued K b s else s)"
proof -
  obtain h where h: "parse_block_header K (b_header b) = Some h" "block_num h = nat (height (sender_blocks s) + 1)"
    using file_number [OF assms(2-5)] by auto
  have n: "narrow_int (nat (height (sender_blocks s) + 1)) = height (sender_blocks s) + 1"
    by (rule narrow_id) (use assms(3,4) in auto)
  obtain t where t: "show_block K b = Some t" using codec_ok_block(2) [OF assms(2)] by blast
  have "keep_pending E K b (height (sender_blocks s) + 1) s = queued K b s"
    by (simp add: keep_pending_def queued_def storePendingBlock_def put_lawful [OF assms(1)] Let_def t serialized_def)
  then show ?thesis
    using add_one [OF assms(3,4)] by (simp add: blockSender_def assms(5) h n Let_def del: add_int_Ret)
qed

lemma height_queued [simp]: "height (sender_blocks (queued K b s)) = height (sender_blocks s)"
  by (simp add: queued_def Let_def getLatestBlockNum_def)

lemma send_returns:
  assumes "blockSender E K fs now state s = (Ret (), s')"
  obtains b where "blockProducer_file E K fs now state (sender_blocks s) ''2500_txn.txt'' = Ret b"
  using assms by (auto simp: blockSender_def split: outcome.splits)

lemma height_bound:
  assumes "blockProducer_file E K fs now state m name = Ret b"
  shows "height m < max_num"
  using assms by (auto simp: blockProducer_file_def bind_outcome_Ret_iff add_int_def in_int_def split: if_splits)

section \<open>The invariant\<close>

abbreviation creeping :: "int list \<Rightarrow> bool" where
  "creeping \<equiv> successively (\<lambda>a b. b = a \<or> b = a + 1)"

definition sender_ok :: "sender \<Rightarrow> bool" where
  "sender_ok s \<longleftrightarrow> 0 \<le> height (sender_blocks s) \<and> received_block s = (blockQueue s \<noteq> []) \<and> creeping (blockQueue s) \<and>
     (\<forall>n\<in>set (blockQueue s). n \<le> height (sender_blocks s) + 1 \<and> sender_blocks s (pending_key n) \<noteq> None)"

lemma creeping_last: "creeping q \<Longrightarrow> n \<in> set q \<Longrightarrow> n \<le> last q"
proof (induction q arbitrary: n rule: induct_list012)
  case (3 a b q)
  have "creeping (b # q)" "b = a \<or> b = a + 1" using "3.prems"(1) by auto
  then have "m \<in> set (b # q) \<Longrightarrow> m \<le> last (b # q)" for m using "3.IH"(2) by blast
  then show ?case using "3.prems"(2) \<open>b = a \<or> b = a + 1\<close> by force
qed auto

lemma sender_ok_queued:
  assumes "sender_ok s" "blockQueue s = [] \<or> height (sender_blocks s) \<in> set (blockQueue s)"
  shows "sender_ok (queued K b s)"
proof -
  let ?h = "height (sender_blocks s)"
  have "creeping (blockQueue s @ [?h + 1])"
  proof (cases "blockQueue s = []")
    case False
    then have "?h \<le> last (blockQueue s)" using assms creeping_last by (auto simp: sender_ok_def)
    moreover have "last (blockQueue s) \<le> ?h + 1" using assms(1) False by (simp add: sender_ok_def)
    ultimately show ?thesis using assms(1) by (auto simp: sender_ok_def successively_append_iff)
  qed simp
  then show ?thesis using assms(1) by (auto simp: sender_ok_def) (auto simp: queued_def Let_def getLatestBlockNum_def)
qed

lemma sender_ok_filed:
  assumes "lawful E" "sender_ok s" "height (sender_blocks s) < n" "n \<le> max_num"
  shows "sender_ok (s\<lparr>sender_blocks := snd (storeBlock E (block_key n) d (sender_blocks s))\<rparr>)"
proof -
  have h: "height (snd (storeBlock E (block_key n) d (sender_blocks s))) = n"
    using assms by (simp add: storeBlock_latest last_block_num_key in_int_def sender_ok_def)
  show ?thesis using assms(2,3) unfolding sender_ok_def
    by (auto simp: h) (fastforce simp: storeBlock_eq [OF assms(1)])+
qed

lemma sender_ok_step:
  assumes "lawful E" "codec_ok K" "sender_ok s" "sender_step E K s s'"
  shows "sender_ok s'"
  using assms(4)
proof (rule sender_stepE)
  fix fs now state assume s: "blockSender E K fs now state s = (Ret (), s')"
  then obtain b where b: "blockProducer_file E K fs now state (sender_blocks s) ''2500_txn.txt'' = Ret b"
    by (rule send_returns)
  show ?thesis
    using send_effect [OF assms(1,2) _ height_bound [OF b] b] s sender_ok_queued [OF assms(3)] assms(3)
    by (auto simp: sender_ok_def split: if_splits)
qed (use sender_ok_filed [OF assms(1,3)] in auto)


section \<open>Round trip\<close>

text \<open>C33: What the transaction generator writes, the block generator reads back: of a file written for a
  number of random transactions the block generator gets the first five, unchanged and in order, provided
  that their messages are serialised, are not empty, parse to what they were and are shorter than \<open>2^32\<close>; as
  it opens the file anew for every block, every block holds the same five.\<close>

theorem transaction_file_round_trip:
  assumes "\<forall>i<nat n. \<exists>t s. random_transaction sh (fst (chance i)) (snd (chance i)) = Some t \<and> st t = Some s \<and> s \<noteq> [] \<and>
    length s < 4294967296 \<and> parse_txn K s = Some t"
  shows "readTransactionsFromFile K (generateTransactionsToFile sh st chance True n fs) (to_string n @ ''_txn.txt'') =
    Ret (take 5 (map (\<lambda>i. the (random_transaction sh (fst (chance i)) (snd (chance i)))) [0..<nat n]))"
proof -
  let ?t = "\<lambda>i. the (random_transaction sh (fst (chance i)) (snd (chance i)))"
  let ?s = "\<lambda>i. createSerializedTransaction sh st (fst (chance i)) (snd (chance i))"
  have c: "?s i = the (st (?t i))" and i: "the (st (?t i)) \<noteq> []" "length (the (st (?t i))) < 4294967296"
      "parse_txn K (the (st (?t i))) = Some (?t i)" if "i < nat n" for i
    using assms that by (fastforce simp: createSerializedTransaction_def)+
  have "filter (\<lambda>s. s \<noteq> []) (map ?s [0..<nat n]) = filter (\<lambda>s. s \<noteq> []) (map (\<lambda>t. the (st t)) (map ?t [0..<nat n]))"
    using c by (intro arg_cong [where f = "filter (\<lambda>s. s \<noteq> [])"]) simp
  also have "\<dots> = map (\<lambda>t. the (st t)) (map ?t [0..<nat n])" using i(1) by (auto simp: filter_id_conv)
  finally have "filter (\<lambda>s. s \<noteq> []) (map ?s [0..<nat n]) = map (\<lambda>t. the (st t)) (map ?t [0..<nat n])" .
  moreover have "read_loop K (concat (map (\<lambda>t. framed (the (st t))) (map ?t [0..<nat n]))) [] = take 5 ([] @ map ?t [0..<nat n])"
    by (rule read_back) (use i in auto)
  ultimately show ?thesis
    by (simp add: readTransactionsFromFile_def generateTransactionsToFile_def Let_def o_def)
qed

definition first_draw :: "nat \<Rightarrow> (nat \<Rightarrow> nat \<Rightarrow> nat) \<times> nat" where
  "first_draw i = (\<lambda>k j. k + j, i)"

lemma length_enc_str [simp]: "length (enc_str s) = 2 * length s + 1"
  by (induction s) simp_all

lemma length_generated [simp]: "length (generateRandomString draw len) = len"
  by (simp add: generateRandomString_def)

lemma drawn_short: "length (enc_txn (the (random_transaction sample_show (fst (first_draw 0)) (snd (first_draw 0))))) < 4294967296"
proof -
  have "length (to_string 0) = 1" by (simp add: to_string_def show_nat.simps)
  then show ?thesis
    by (simp add: random_transaction_def sample_show_def Let_def enc_txn_def enc_header_def enc_list_def enc_nat_def
        first_draw_def new_header_def)
qed

theorem transaction_file_round_trip_witness:
  "readTransactionsFromFile sample_blocks
     (generateTransactionsToFile sample_show (\<lambda>t. Some (enc_txn t)) first_draw True 1 Map.empty) (to_string 1 @ ''_txn.txt'') =
   Ret [the (random_transaction sample_show (fst (first_draw 0)) (snd (first_draw 0)))]"
proof -
  have "\<exists>t. random_transaction sample_show d v = Some t" for d v
    by (simp add: random_transaction_def sample_show_def Let_def)
  then obtain t where t: "random_transaction sample_show (fst (first_draw 0)) (snd (first_draw 0)) = Some t" by blast
  moreover have "enc_txn t \<noteq> []" for t
    by (cases "t_header t") (simp_all add: enc_txn_def)
  ultimately have "\<forall>i<nat 1. \<exists>t s. random_transaction sample_show (fst (first_draw i)) (snd (first_draw i)) = Some t \<and>
      (\<lambda>t. Some (enc_txn t)) t = Some s \<and> s \<noteq> [] \<and> length s < 4294967296 \<and> parse_txn sample_blocks s = Some t"
    using drawn_short by (simp add: sample_blocks_def)
  from transaction_file_round_trip [OF this] show ?thesis by simp
qed

section \<open>A run of the sender\<close>

definition short_txn :: transaction where
  "short_txn = \<lparr>t_header = [], t_dependencies = [], t_payload = []\<rparr>"

definition short_files :: files where
  "short_files = [''2500_txn.txt'' \<mapsto> framed (enc_txn short_txn)]"

definition empty_sender :: sender where
  "empty_sender = \<lparr>blockQueue = [], received_block = False, sender_blocks = Map.empty\<rparr>"

lemma short_ready: "file_ready sample_env sample_blocks (short_files, 0, Map.empty)"
proof -
  have "read_loop sample_blocks (framed (enc_txn short_txn) @ []) [] = read_loop sample_blocks [] ([] @ [short_txn])"
  proof (rule read_framed)
    show "length (enc_txn short_txn) < 4294967296" by (simp add: enc_txn_def short_txn_def enc_list_def enc_nat_def)
  qed (simp_all add: sample_blocks_def)
  then show ?thesis
    by (simp add: file_ready_def readTransactionsFromFile_def short_files_def read_end open_state_def sample_env_def)
qed

lemma sample_send:
  assumes "0 \<le> height (sender_blocks s)" "height (sender_blocks s) < max_num"
  shows "\<exists>s'. blockSender sample_env sample_blocks short_files 0 Map.empty s = (Ret (), s') \<and>
    height (sender_blocks s') = height (sender_blocks s)"
proof -
  obtain b where "blockProducer_file sample_env sample_blocks short_files 0 Map.empty (sender_blocks s) ''2500_txn.txt'' = Ret b"
    using file_chain.next_number [OF sample_lawful sample_codec_ok short_ready assms] by (auto simp: feed_file_def)
  then show ?thesis using send_effect [OF sample_lawful sample_codec_ok assms] by auto
qed


end
