(* ===== verification/Thread_Pool.thy ===== *)
theory Thread_Pool
  imports Dag_Facts
begin

text \<open>
  The thread pool of \<open>BlockRAFT-distributed_node/dagModule/threadPool.h\<close>: worker threads that take tasks
  from a queue under a mutex and sleep on a condition variable when there are none, and a destructor that
  lets them empty the queue and joins them. \<open>DAGmodulePool.h\<close> hands it the rows of the graph.
\<close>

section \<open>Workers and owner\<close>

text \<open>
  Where a worker is: about to test the predicate of \<open>wait\<close> with the mutex held, asleep in \<open>wait\<close>, running a
  task with the mutex released, or returned.
\<close>

datatype 'a worker = Checking | Sleeping | Busy 'a | Exited

text \<open>The owner uses the pool, has set the flag in the destructor, or has notified all and joins the threads.\<close>

datatype owner = Using | Stopping | Joining

text \<open>
  \<open>pl_notify\<close> counts the calls of \<open>enqueue\<close> that have released the mutex and have not notified yet. The last
  three fields are a record of the run: the tasks in the order in which they were enqueued, taken and
  finished.
\<close>

record 'a pool =
  pl_tasks :: "'a list"
  pl_stop :: bool
  pl_worker :: "nat \<Rightarrow> 'a worker"
  pl_notify :: nat
  pl_owner :: owner
  pl_given :: "'a list"
  pl_taken :: "'a list"
  pl_done :: "'a list"

definition pool_start :: "'a pool" where
  "pool_start = \<lparr>pl_tasks = [], pl_stop = False, pl_worker = (\<lambda>i. Checking), pl_notify = 0, pl_owner = Using,
     pl_given = [], pl_taken = [], pl_done = []\<rparr>"

definition set_worker :: "nat \<Rightarrow> 'a worker \<Rightarrow> 'a pool \<Rightarrow> 'a pool" where
  "set_worker i x s = s\<lparr>pl_worker := (pl_worker s)(i := x)\<rparr>"

text \<open>
  The steps of a pool of \<open>n\<close> threads. A critical section is one step, and so is \<open>wait\<close>'s releasing the mutex
  and falling asleep; a sleeper may wake without a reason. \<open>enqueue\<close> is called by the owner only while it
  uses the pool, and the destructor starts when all its calls have returned.
\<close>

inductive pool_step :: "nat \<Rightarrow> 'a pool \<Rightarrow> 'a pool \<Rightarrow> bool" for n where
  enqueue: "pl_owner s = Using \<Longrightarrow>
    pool_step n s (s\<lparr>pl_tasks := pl_tasks s @ [t], pl_notify := Suc (pl_notify s), pl_given := pl_given s @ [t]\<rparr>)"
| notify_one: "pl_notify s = Suc k \<Longrightarrow> i < n \<Longrightarrow> pl_worker s i = Sleeping \<Longrightarrow>
    pool_step n s (set_worker i Checking (s\<lparr>pl_notify := k\<rparr>))"
| notify_nobody: "pl_notify s = Suc k \<Longrightarrow> \<forall>i<n. pl_worker s i \<noteq> Sleeping \<Longrightarrow> pool_step n s (s\<lparr>pl_notify := k\<rparr>)"
| take_task: "i < n \<Longrightarrow> pl_worker s i = Checking \<Longrightarrow> pl_tasks s = t # ts \<Longrightarrow>
    pool_step n s (set_worker i (Busy t) (s\<lparr>pl_tasks := ts, pl_taken := pl_taken s @ [t]\<rparr>))"
| leave: "i < n \<Longrightarrow> pl_worker s i = Checking \<Longrightarrow> pl_tasks s = [] \<Longrightarrow> pl_stop s \<Longrightarrow>
    pool_step n s (set_worker i Exited s)"
| sleep: "i < n \<Longrightarrow> pl_worker s i = Checking \<Longrightarrow> pl_tasks s = [] \<Longrightarrow> \<not> pl_stop s \<Longrightarrow>
    pool_step n s (set_worker i Sleeping s)"
| wake: "i < n \<Longrightarrow> pl_worker s i = Sleeping \<Longrightarrow> pool_step n s (set_worker i Checking s)"
| finish: "i < n \<Longrightarrow> pl_worker s i = Busy t \<Longrightarrow>
    pool_step n s (set_worker i Checking (s\<lparr>pl_done := pl_done s @ [t]\<rparr>))"
| stop: "pl_owner s = Using \<Longrightarrow> pl_notify s = 0 \<Longrightarrow> pool_step n s (s\<lparr>pl_stop := True, pl_owner := Stopping\<rparr>)"
| notify_all: "pl_owner s = Stopping \<Longrightarrow>
    pool_step n s (s\<lparr>pl_worker := (\<lambda>i. if pl_worker s i = Sleeping then Checking else pl_worker s i),
      pl_owner := Joining\<rparr>)"

definition pool_reach :: "nat \<Rightarrow> 'a pool \<Rightarrow> 'a pool \<Rightarrow> bool" where
  "pool_reach n = (pool_step n)\<^sup>*\<^sup>*"

text \<open>All threads are joined: the destructor returns.\<close>

definition pool_joined :: "nat \<Rightarrow> 'a pool \<Rightarrow> bool" where
  "pool_joined n s \<longleftrightarrow> pl_owner s = Joining \<and> (\<forall>i<n. pl_worker s i = Exited)"

section \<open>Sums over the workers\<close>

fun busy :: "'a worker \<Rightarrow> 'a multiset" where
  "busy (Busy t) = {#t#}"
| "busy w = {#}"

definition in_hand :: "nat \<Rightarrow> 'a pool \<Rightarrow> 'a multiset" where
  "in_hand n s = (\<Sum>i<n. busy (pl_worker s i))"

lemma sum_set_worker:
  fixes f :: "'a worker \<Rightarrow> 'b::comm_monoid_add"
  assumes "i < n"
  shows "(\<Sum>j<n. f (pl_worker (set_worker i x s) j)) + f (pl_worker s i) = (\<Sum>j<n. f (pl_worker s j)) + f x"
proof -
  have i: "i \<in> {..<n}" "finite {..<n}" using assms by auto
  have "(\<Sum>j\<in>{..<n} - {i}. f (((pl_worker s)(i := x)) j)) = (\<Sum>j\<in>{..<n} - {i}. f (pl_worker s j))"
    by (rule sum.cong) auto
  then show ?thesis
    using sum.remove [OF i(2,1), of "\<lambda>j. f (((pl_worker s)(i := x)) j)"] sum.remove [OF i(2,1), of "\<lambda>j. f (pl_worker s j)"]
    by (simp add: set_worker_def ac_simps)
qed

lemmas in_hand_set = sum_set_worker [where f = busy, folded in_hand_def]

lemma set_worker_simps [simp]:
  "pl_tasks (set_worker i x s) = pl_tasks s" "pl_stop (set_worker i x s) = pl_stop s"
  "pl_notify (set_worker i x s) = pl_notify s" "pl_owner (set_worker i x s) = pl_owner s"
  "pl_given (set_worker i x s) = pl_given s" "pl_taken (set_worker i x s) = pl_taken s"
  "pl_done (set_worker i x s) = pl_done s"
  "pl_worker (set_worker i x s) j = (if j = i then x else pl_worker s j)"
  by (simp_all add: set_worker_def)

lemma in_hand_frame [simp]:
  "in_hand n (s\<lparr>pl_tasks := ts\<rparr>) = in_hand n s" "in_hand n (s\<lparr>pl_notify := k\<rparr>) = in_hand n s"
  "in_hand n (s\<lparr>pl_given := g\<rparr>) = in_hand n s" "in_hand n (s\<lparr>pl_taken := g\<rparr>) = in_hand n s"
  "in_hand n (s\<lparr>pl_done := g\<rparr>) = in_hand n s" "in_hand n (s\<lparr>pl_stop := b\<rparr>) = in_hand n s"
  "in_hand n (s\<lparr>pl_owner := ow\<rparr>) = in_hand n s"
  by (simp_all add: in_hand_def)

section \<open>The invariant\<close>

definition awake :: "'a worker \<Rightarrow> bool" where
  "awake w \<longleftrightarrow> w = Checking \<or> (\<exists>t. w = Busy t)"

definition pool_ok :: "nat \<Rightarrow> 'a pool \<Rightarrow> bool" where
  "pool_ok n s \<longleftrightarrow> pl_given s = pl_taken s @ pl_tasks s \<and> mset (pl_taken s) = mset (pl_done s) + in_hand n s \<and>
     pl_stop s = (pl_owner s \<noteq> Using) \<and> (pl_owner s = Using \<or> pl_notify s = 0) \<and>
     (\<forall>i<n. pl_worker s i = Exited \<longrightarrow> pl_stop s \<and> pl_tasks s = []) \<and>
     (\<forall>i<n. pl_owner s = Joining \<longrightarrow> pl_worker s i \<noteq> Sleeping) \<and>
     (0 < n \<longrightarrow> pl_tasks s \<noteq> [] \<longrightarrow> pl_notify s = 0 \<longrightarrow> (\<exists>i<n. awake (pl_worker s i)))"

lemma pool_ok_start [simp]: "pool_ok n pool_start"
  by (simp add: pool_ok_def pool_start_def in_hand_def)

lemma not_awake: "\<not> awake w \<longleftrightarrow> w = Sleeping \<or> w = Exited"
  by (cases w) (auto simp: awake_def)

lemma pool_ok_step:
  assumes "pool_step n s s'" "pool_ok n s"
  shows "pool_ok n s'"
  using assms
proof (induction rule: pool_step.induct)
  case (notify_one s k i)
  then show ?case using in_hand_set [OF notify_one(2), of Checking "s\<lparr>pl_notify := k\<rparr>"]
    by (auto simp: pool_ok_def awake_def)
next
  case (notify_nobody s k)
  have "\<exists>i<n. awake (pl_worker s i)" if "0 < n" "pl_tasks s \<noteq> []"
    using notify_nobody not_awake [of "pl_worker s 0"] that by (auto simp: pool_ok_def)
  then show ?case using notify_nobody by (auto simp: pool_ok_def)
next
  case (take_task i s t ts)
  then show ?case using in_hand_set [OF take_task(1), of "Busy t" "s\<lparr>pl_tasks := ts, pl_taken := pl_taken s @ [t]\<rparr>"]
    by (auto simp: pool_ok_def awake_def)
next
  case (leave i s)
  then show ?case using in_hand_set [OF leave(1), of Exited s] by (auto simp: pool_ok_def)
next
  case (sleep i s)
  then show ?case using in_hand_set [OF sleep(1), of Sleeping s] by (auto simp: pool_ok_def)
next
  case (wake i s)
  then show ?case using in_hand_set [OF wake(1), of Checking s] by (auto simp: pool_ok_def awake_def)
next
  case (finish i s t)
  then show ?case using in_hand_set [OF finish(1), of Checking "s\<lparr>pl_done := pl_done s @ [t]\<rparr>"]
    by (auto simp: pool_ok_def awake_def)
next
  case (notify_all s)
  have "in_hand n (s\<lparr>pl_worker := (\<lambda>i. if pl_worker s i = Sleeping then Checking else pl_worker s i), pl_owner := Joining\<rparr>) =
      in_hand n s"
    unfolding in_hand_def by (rule sum.cong) auto
  then show ?case using notify_all by (auto simp: pool_ok_def awake_def)
qed (auto simp: pool_ok_def awake_def)

lemma pool_ok_reach:
  assumes "pool_reach n pool_start s"
  shows "pool_ok n s"
  using assms unfolding pool_reach_def
  by (induction rule: rtranclp_induct) (auto intro: pool_ok_step)

section \<open>The destructor\<close>

fun weight :: "'a worker \<Rightarrow> nat" where
  "weight Checking = 1"
| "weight Sleeping = 2"
| "weight (Busy t) = 2"
| "weight Exited = 0"

definition load :: "nat \<Rightarrow> 'a pool \<Rightarrow> nat" where
  "load n s = 3 * length (pl_tasks s) + (\<Sum>i<n. weight (pl_worker s i)) + (if pl_owner s = Stopping then 1 else 0)"

lemma load_bound: "load n s \<le> 3 * length (pl_tasks s) + 2 * n + 1"
proof -
  have "weight w \<le> 2" for w :: "'a worker" by (cases w) auto
  then have "(\<Sum>i<n. weight (pl_worker s i)) \<le> of_nat (card {..<n}) * 2" by (intro sum_bounded_above) simp
  then show ?thesis by (simp add: load_def)
qed

lemma load_decreases:
  assumes "pool_step n s s'" "pool_ok n s" "pl_owner s \<noteq> Using"
  shows "load n s' < load n s \<and> pl_owner s' \<noteq> Using"
  using assms
proof (induction rule: pool_step.induct)
  case (take_task i s t ts)
  then show ?case
    using sum_set_worker [OF take_task(1), of weight "Busy t" "s\<lparr>pl_tasks := ts, pl_taken := pl_taken s @ [t]\<rparr>"]
    by (simp add: load_def del: set_worker_simps(8))
next
  case (leave i s)
  then show ?case using sum_set_worker [OF leave(1), of weight Exited s] by (simp add: load_def del: set_worker_simps(8))
next
  case (wake i s)
  then show ?case using sum_set_worker [OF wake(1), of weight Checking s] by (simp add: load_def del: set_worker_simps(8))
next
  case (finish i s t)
  then show ?case using sum_set_worker [OF finish(1), of weight Checking "s\<lparr>pl_done := pl_done s @ [t]\<rparr>"]
    by (simp add: load_def del: set_worker_simps(8))
next
  case (notify_all s)
  have "(\<Sum>i<n. weight (if pl_worker s i = Sleeping then Checking else pl_worker s i)) \<le> (\<Sum>i<n. weight (pl_worker s i))"
    by (rule sum_mono) simp
  then show ?case using notify_all by (simp add: load_def)
qed (auto simp: pool_ok_def)

lemma shutdown_bound:
  assumes "(pool_step n ^^ k) s s'" "pool_ok n s" "pl_owner s \<noteq> Using"
  shows "k + load n s' \<le> load n s \<and> pl_owner s' \<noteq> Using \<and> pool_ok n s'"
  using assms
proof (induction k arbitrary: s')
  case (Suc k)
  then obtain s1 where "(pool_step n ^^ k) s s1" "pool_step n s1 s'" by auto
  then show ?case using Suc.IH [of s1] Suc.prems load_decreases [of n s1 s'] pool_ok_step [of n s1 s'] by auto
qed simp

lemma shutdown_progress:
  assumes "pool_ok n s" "pl_owner s \<noteq> Using" "\<not> pool_joined n s"
  shows "\<exists>s'. pool_step n s s'"
proof (cases "pl_owner s")
  case Stopping
  then show ?thesis using pool_step.notify_all by blast
next
  case Joining
  then obtain i where i: "i < n" "pl_worker s i \<noteq> Exited" using assms(3) by (auto simp: pool_joined_def)
  then have "pl_worker s i \<noteq> Sleeping" "pl_stop s" using assms(1) Joining by (auto simp: pool_ok_def)
  with i consider "pl_worker s i = Checking" | t where "pl_worker s i = Busy t" by (cases "pl_worker s i") auto
  then show ?thesis
  proof cases
    case 1
    then show ?thesis
      using pool_step.leave [OF i(1) 1] pool_step.take_task [OF i(1) 1] \<open>pl_stop s\<close> by (cases "pl_tasks s") blast+
  next
    case 2
    then show ?thesis using pool_step.finish [OF i(1), of s t] by blast
  qed
qed (use assms(2) in simp)

lemma joined_all_done:
  assumes "pool_ok n s" "pool_joined n s" "0 < n"
  shows "pl_tasks s = [] \<and> pl_taken s = pl_given s \<and> mset (pl_done s) = mset (pl_given s)"
proof -
  have "pl_tasks s = []" using assms by (auto simp: pool_ok_def pool_joined_def)
  moreover have "in_hand n s = {#}" using assms(2) by (simp add: in_hand_def pool_joined_def)
  ultimately show ?thesis using assms(1) by (auto simp: pool_ok_def)
qed

section \<open>The graph and the pool\<close>

text \<open>
  What \<open>create\<close> of \<open>DAGmodulePool.h\<close> has done of the graph when it returns: the tasks that fill the matrix are
  in the queue then.
\<close>

definition prepared :: "codec \<Rightarrow> block \<Rightarrow> dag \<Rightarrow> dag" where
  "prepared C b d =
     (let txns = extract_all C (b_transactions b) 0;
          n = length txns;
          paddedColumns = (n + 15) div 16 * 16
      in d\<lparr>CurrentTransactions := CurrentTransactions d @ txns, totalTxns := n,
           adjacencyMatrix := resize n (replicate paddedColumns 0) (adjacencyMatrix d),
           inDegree := Some (replicate n 0)\<rparr>)"

lemma create_pool_prepared:
  "parse_block s = Some b \<Longrightarrow> create_pool C parse_block s d = each dependencyMatrix_pool [0..<threadCount d] (prepared C b d)"
  by (simp add: create_pool_def prepared_def Let_def)

text \<open>The pairs of positions that a task visits.\<close>

definition task_pairs :: "dag \<Rightarrow> nat \<Rightarrow> (nat \<times> nat) list" where
  "task_pairs d pid = pairs_of (totalTxns d) (row_range_pool (totalTxns d) (threadCount d) pid)"

lemma prepared_simps:
  assumes "cleaned d"
  shows "CurrentTransactions (prepared C b d) = extract_all C (b_transactions b) 0"
    "totalTxns (prepared C b d) = length (b_transactions b)" "threadCount (prepared C b d) = threadCount d"
    "adjacencyMatrix (prepared C b d) =
      replicate (length (b_transactions b)) (replicate ((length (b_transactions b) + 15) div 16 * 16) 0)"
    "inDegree (prepared C b d) = Some (replicate (length (b_transactions b)) 0)" "lastTxn (prepared C b d) = lastTxn d"
  using assms by (simp_all add: prepared_def cleaned_def Let_def)

text \<open>Steps of the tasks on a graph with the shape \<open>create\<close> gives it, in any order.\<close>

lemma padded: "(n :: nat) \<le> (n + 15) div 16 * 16"
  by presburger

lemma tasks_marked:
  assumes h: "\<forall>t\<in>set (b_transactions b). parse_header C (t_header t) \<noteq> None" and "cleaned d"
    and d1: "CurrentTransactions d1 = CurrentTransactions (prepared C b d)" "adjacencyMatrix d1 = adjacencyMatrix (prepared C b d)"
      "inDegree d1 = Some deg" "length deg = length (b_transactions b)"
    and cs: "mset cs = mset (pairs_of (length (b_transactions b)) [0..<length (b_transactions b)])"
  shows "each mark_cell_counted cs d1 = Ret (marked (extract_all C (b_transactions b) 0)
    (pairs_of (length (b_transactions b)) [0..<length (b_transactions b)]) deg d1)"
proof -
  let ?n = "length (b_transactions b)" and ?t = "extract_all C (b_transactions b) 0"
  note p = prepared_simps [OF assms(2), of C b]
  have b: "\<forall>(x, y)\<in>set cs. x < ?n \<and> y < ?n" using mset_eq_setD [OF cs] by (auto simp: set_pairs_of)
  have sh: "shaped ?n ((?n + 15) div 16 * 16) (adjacencyMatrix d1)" by (simp add: d1(2) p)
  have "each mark_cell_counted cs d1 = each mark_cell cs d1"
    using extract_all_counted [OF h] b by (intro each_mark_cell_counted [of _ ?n]) (auto simp: d1(1) p)
  also have "\<dots> = Ret (marked ?t cs deg d1)"
    using each_mark_cell [OF sh d1(3,4) padded b] by (simp add: d1(1) p)
  also have "marked ?t cs deg d1 = marked ?t (pairs_of ?n [0..<?n]) deg d1"
    by (rule marked_perm [OF cs sh padded d1(4) b])
  finally show ?thesis .
qed

lemma all_task_pairs:
  assumes "mset done = mset [0..<threadCount d]" "0 < threadCount d" "cleaned d"
  shows "mset (concat (map (task_pairs (prepared C b d)) done)) =
    mset (pairs_of (length (b_transactions b)) [0..<length (b_transactions b)])"
proof -
  let ?n = "length (b_transactions b)" and ?T = "\<lambda>p. pairs_of (length (b_transactions b)) (row_range_pool (length (b_transactions b)) (threadCount d) p)"
  note p = prepared_simps [OF assms(3), of C b]
  have t: "task_pairs (prepared C b d) = ?T" by (rule ext) (simp add: task_pairs_def p)
  have "mset (concat (map ?T xs)) = sum_mset (image_mset (mset \<circ> ?T) (mset xs))" for xs
    by (induction xs) simp_all
  then have "mset (concat (map ?T done)) = mset (concat (map ?T [0..<threadCount d]))" using assms(1) by simp
  also have "concat (map ?T [0..<threadCount d]) = pairs_of ?n (concat (map (row_range_pool ?n (threadCount d)) [0..<threadCount d]))"
    by (simp add: pairs_of_concat [symmetric] o_def)
  finally show ?thesis by (simp add: t threads_cover_pool [OF assms(2)])
qed

text \<open>The graph that \<open>create\<close> and its tasks build: its rows, and its cells below the padding.\<close>

lemma pool_graph:
  assumes "pb str = Some b" "\<forall>t\<in>set (b_transactions b). parse_header C (t_header t) \<noteq> None"
    and "cleaned d" "0 < threadCount d"
  obtains q where "create_pool C pb str d = Ret q" "length (adjacencyMatrix q) = length (b_transactions b)"
    "\<And>i j. i < length (b_transactions b) \<Longrightarrow> j < length (b_transactions b) \<Longrightarrow>
       cell (adjacencyMatrix q) i j = (if i < j \<and> dep_rel (extract_all C (b_transactions b) 0) i j then 1 else 0)"
proof -
  let ?n = "length (b_transactions b)" and ?t = "extract_all C (b_transactions b) 0"
  let ?w = "(?n + 15) div 16 * 16" and ?ps = "pairs_of ?n [0..<?n]"
  note p = prepared_simps [OF assms(3), of C b]
  let ?q = "marked ?t ?ps (replicate ?n 0) (prepared C b d)"
  have z: "shaped ?n ?w (replicate ?n (replicate ?w 0))" by simp
  have b: "\<forall>(x, y)\<in>set ?ps. x < ?n \<and> y < ?w" using padded [of ?n] by (auto simp: set_pairs_of)
  have q: "adjacencyMatrix ?q = fold (fill (dep_rel ?t)) ?ps (replicate ?n (replicate ?w 0))"
    by (simp add: marked_def p)
  show thesis
  proof (rule that [of ?q])
    show "create_pool C pb str d = Ret ?q"
      using tasks_marked [OF assms(2,3) HOL.refl HOL.refl p(5) _ HOL.refl] threads_cover_pool [OF assms(4), of ?n]
      by (simp add: create_pool_prepared [where parse_block = pb and s = str, OF assms(1)] each_threads_pool p)
    show "length (adjacencyMatrix ?q) = ?n" using shaped_fold [OF z, of "dep_rel ?t" ?ps] by (simp add: q shaped_def)
    show "cell (adjacencyMatrix ?q) i j = (if i < j \<and> dep_rel ?t i j then 1 else 0)" if "i < ?n" "j < ?n" for i j
    proof -
      have "j < ?w" using that(2) padded [of ?n] by simp
      then show ?thesis using cell_fold_fill [OF z that(1) _ b, of j "dep_rel ?t"] that
        by (simp add: q set_pairs_of) (simp add: cell_def)
    qed
  qed
qed

end
