(* ===== verification/Dag_Pool_Components.thy ===== *)
theory Dag_Pool_Components
  imports Dag_Components
begin

text \<open>
  The components of \<open>BlockRAFT-distributed_node/dagModule/DAGmodulePool.h\<close>: a depth-first search that follows
  an edge only from a transaction to the ones that depend on it, and what it finds.
\<close>

section \<open>The search\<close>

text \<open>The guard \<open>adjacencyMatrix[v][i]\<close>.\<close>

definition forward :: "int list list \<Rightarrow> nat \<Rightarrow> nat \<Rightarrow> bool" where
  "forward a v i \<longleftrightarrow> cell a v i \<noteq> 0"

definition DFSUtil_pool :: "int list list \<Rightarrow> nat \<Rightarrow> bool list \<times> nat list \<Rightarrow> (bool list \<times> nat list) option" where
  "DFSUtil_pool a v st = DFSUtil (forward a) (length a) v st"

fun components_loop_pool :: "int list list \<Rightarrow> nat list \<Rightarrow> bool list \<Rightarrow> nat list list option" where
  "components_loop_pool a [] visited = Some []"
| "components_loop_pool a (i # is') visited =
     (if visited ! i then components_loop_pool a is' visited
      else
        Option.bind (DFSUtil_pool a i (visited, [])) (\<lambda>(visited', c).
        Option.bind (components_loop_pool a is' visited') (\<lambda>cs. Some (c # cs))))"

text \<open>The table is appended to, and its encoding returned; a failure of the library gives the empty text.\<close>

definition connectedComponents_pool ::
    "(componentsTable \<Rightarrow> string option) \<Rightarrow> int list list \<Rightarrow> componentsTable \<Rightarrow> (string \<times> componentsTable) option" where
  "connectedComponents_pool show_components a table =
     Option.bind (components_loop_pool a [0..<length a] (replicate (length a) False)) (\<lambda>cs.
     let cTable = \<lparr>totalComponents = length cs,
           componentsList = componentsList table @
             map (\<lambda>c. \<lparr>transactionList = c, assignedFollower = 0, compid = 0\<rparr>) cs\<rparr>
     in Some (case show_components cTable of Some output \<Rightarrow> output | None \<Rightarrow> [], cTable))"

section \<open>What it finds\<close>

text \<open>The transactions that a chain of dependencies leads to from \<open>i\<close>.\<close>

definition reached :: "int list list \<Rightarrow> nat \<Rightarrow> nat set" where
  "reached a i = (links (forward a) (length a))\<^sup>* `` {i}"

text \<open>The search from \<open>i\<close> collects what is reached from \<open>i\<close> and from no earlier transaction.\<close>

definition first_reached :: "int list list \<Rightarrow> nat \<Rightarrow> nat set" where
  "first_reached a i = reached a i - (\<Union>k<i. reached a k)"

lemma reached_refl [simp]: "i \<in> reached a i"
  by (simp add: reached_def)

lemma reached_trans: "y \<in> reached a x \<Longrightarrow> z \<in> reached a y \<Longrightarrow> z \<in> reached a x"
  by (auto simp: reached_def intro: rtrancl_trans)

lemma reached_bound: "i < length a \<Longrightarrow> x \<in> reached a i \<Longrightarrow> x < length a"
  using links_stay by (auto simp: reached_def)

text \<open>Visited before the search from \<open>i\<close>: exactly what an earlier transaction reaches.\<close>

definition visited_upto :: "int list list \<Rightarrow> nat \<Rightarrow> bool list \<Rightarrow> bool" where
  "visited_upto a i vis \<longleftrightarrow> length vis = length a \<and> (\<forall>x<length a. vis ! x \<longleftrightarrow> (\<exists>k<i. x \<in> reached a k))"

lemma reached_closed:
  assumes "\<forall>x<length a. P x \<longrightarrow> (\<forall>y<length a. forward a x y \<longrightarrow> P y)" "P i" "i < length a" "x \<in> reached a i"
  shows "P x"
proof -
  have "(i, x) \<in> (links (forward a) (length a))\<^sup>*" using assms(4) by (simp add: reached_def)
  then show ?thesis using assms(2)
  proof (induction rule: rtrancl_induct)
    case (step y z)
    then show ?case using assms(1) by (auto simp: links_def)
  qed
qed

lemma DFSUtil_pool_first:
  assumes "visited_upto a i vis" "i < length a" "\<not> vis ! i"
  obtains vis' c where "DFSUtil_pool a i (vis, []) = Some (vis', c)" "visited_upto a (Suc i) vis'"
    "distinct c" "hd c = i" "c \<noteq> []" "set c = first_reached a i"
proof -
  let ?E = "forward a" and ?n = "length a"
  have vis: "length vis = ?n" "\<And>x. x < ?n \<Longrightarrow> vis ! x \<longleftrightarrow> (\<exists>k<i. x \<in> reached a k)"
    using assms(1) by (auto simp: visited_upto_def)
  obtain vis' new where r: "dfs_for ?E ?n i 0 (vis[i := True], [i]) = Some (vis', [i] @ new)"
      "dfs_result ?E ?n i 0 (vis[i := True]) vis' new"
    using dfs_for_terminates [of "vis[i := True]" ?n i ?E 0 "[i]"] vis(1) assms(2) by auto
  note D = dfs_resultD [OF r(2)]
  have iff: "vis' ! x \<longleftrightarrow> vis ! x \<or> x = i \<or> x \<in> set new" if "x < ?n" for x
    using D(3) [OF that] vis(1) assms(2) by (auto simp: nth_list_update)
  have fresh: "x < ?n \<and> x \<noteq> i \<and> \<not> vis ! x \<and> x \<in> reached a i" if "x \<in> set new" for x
    using D(4-6) [OF that] vis(1) assms(2) by (auto simp: nth_list_update reached_def split: if_splits)
  have out: "vis' ! y" if xy: "x < ?n" "vis' ! x" "y < ?n" "?E x y" for x y
  proof -
    have "(x, y) \<in> links ?E ?n" using xy by (simp add: links_def)
    then have y: "y \<in> reached a x" by (auto simp: reached_def)
    consider "vis ! x" | "x = i" | "x \<in> set new" using iff xy by blast
    then show ?thesis
    proof cases
      case 1
      then obtain k where "k < i" "x \<in> reached a k" using vis(2) [OF xy(1)] by blast
      then have "vis ! y" using vis(2) [OF xy(3)] reached_trans [OF _ y] by blast
      then show ?thesis using iff [OF xy(3)] by blast
    next
      case 2
      then show ?thesis using D(7) [of y] xy by simp
    next
      case 3
      then show ?thesis using D(8) xy by blast
    qed
  qed
  have all: "vis' ! x" if "x \<in> reached a i" for x
    using reached_closed [of a "\<lambda>x. vis' ! x" i x] out iff [OF assms(2)] assms(2) that by blast
  have up: "vis' ! x \<longleftrightarrow> (\<exists>k<Suc i. x \<in> reached a k)" if "x < ?n" for x
    using iff [OF that] vis(2) [OF that] fresh all by (auto simp: less_Suc_eq)
  have c: "set (i # new) = first_reached a i"
  proof
    show "set (i # new) \<subseteq> first_reached a i"
      using fresh vis(2) assms(2,3) by (auto simp: first_reached_def)
    show "first_reached a i \<subseteq> set (i # new)"
    proof
      fix x assume x: "x \<in> first_reached a i"
      then have "x \<in> reached a i" by (simp add: first_reached_def)
      then have n: "x < ?n" "vis' ! x" using reached_bound [OF assms(2)] all by blast+
      have "\<not> vis ! x" using x vis(2) [OF n(1)] by (auto simp: first_reached_def)
      then show "x \<in> set (i # new)" using iff [OF n(1)] n(2) by auto
    qed
  qed
  show thesis
  proof (rule that [of vis' "i # new"])
    show "DFSUtil_pool a i (vis, []) = Some (vis', i # new)"
      using r(1) by (simp add: DFSUtil_pool_def DFSUtil_def visit_def)
    show "visited_upto a (Suc i) vis'" using up D(1) by (simp add: visited_upto_def)
    show "distinct (i # new)" using fresh D(2) by auto
  qed (use c in simp_all)
qed

lemma components_loop_pool_spec:
  "visited_upto a i vis \<Longrightarrow> i \<le> length a \<Longrightarrow>
    \<exists>cs. components_loop_pool a [i..<length a] vis = Some cs \<and>
      (\<forall>c\<in>set cs. c \<noteq> [] \<and> distinct c \<and> i \<le> hd c \<and> hd c < length a \<and> set c = first_reached a (hd c)) \<and>
      sorted_wrt (<) (map hd cs) \<and>
      (\<forall>x<length a. (\<exists>k<i. x \<in> reached a k) \<or> x \<in> set (concat cs))"
proof (induction "length a - i" arbitrary: i vis)
  case 0
  then have "i = length a" by simp
  then show ?case using reached_refl by (auto simp del: upt_Suc)
next
  case (Suc k)
  then have i: "i < length a" by simp
  then have u: "[i..<length a] = i # [Suc i..<length a]" by (simp add: upt_conv_Cons)
  have "k = length a - Suc i" "Suc i \<le> length a" using Suc.hyps(2) i by simp_all
  note IH = Suc.hyps(1) [OF this(1) _ this(2)]
  show ?case
  proof (cases "vis ! i")
    case True
    then obtain k' where k': "k' < i" "i \<in> reached a k'" using Suc.prems(1) i by (auto simp: visited_upto_def)
    then have e: "(\<exists>k<Suc i. x \<in> reached a k) \<longleftrightarrow> (\<exists>k<i. x \<in> reached a k)" for x
      using reached_trans [OF k'(2)] by (auto simp: less_Suc_eq)
    then have v: "visited_upto a (Suc i) vis" using Suc.prems(1) by (simp add: visited_upto_def)
    obtain cs where "components_loop_pool a [Suc i..<length a] vis = Some cs"
      "\<forall>c\<in>set cs. c \<noteq> [] \<and> distinct c \<and> Suc i \<le> hd c \<and> hd c < length a \<and> set c = first_reached a (hd c)"
      "sorted_wrt (<) (map hd cs)" "\<forall>x<length a. (\<exists>k<Suc i. x \<in> reached a k) \<or> x \<in> set (concat cs)"
      using IH [OF v] by blast
    then show ?thesis using True e by (auto simp: u dest: Suc_leD)
  next
    case False
    obtain vis' c where c: "DFSUtil_pool a i (vis, []) = Some (vis', c)" "visited_upto a (Suc i) vis'"
        "distinct c" "hd c = i" "c \<noteq> []" "set c = first_reached a i"
      using DFSUtil_pool_first [OF Suc.prems(1) i False] by metis
    obtain cs where cs: "components_loop_pool a [Suc i..<length a] vis' = Some cs"
      "\<forall>c\<in>set cs. c \<noteq> [] \<and> distinct c \<and> Suc i \<le> hd c \<and> hd c < length a \<and> set c = first_reached a (hd c)"
      "sorted_wrt (<) (map hd cs)" "\<forall>x<length a. (\<exists>k<Suc i. x \<in> reached a k) \<or> x \<in> set (concat cs)"
      using IH [OF c(2)] by blast
    have "\<forall>x<length a. (\<exists>k<i. x \<in> reached a k) \<or> x \<in> set c \<or> x \<in> set (concat cs)"
      using cs(4) by (auto simp: less_Suc_eq c(6) first_reached_def)
    then show ?thesis
      using cs c i False by (intro exI [of _ "c # cs"]) (auto simp: u)
  qed
qed

lemma first_reached_disjoint: "x \<in> first_reached a i \<Longrightarrow> x \<in> first_reached a k \<Longrightarrow> i = k"
  by (cases i k rule: linorder_cases) (auto simp: first_reached_def)

lemma components_pool_partition:
  obtains cs where "components_loop_pool a [0..<length a] (replicate (length a) False) = Some cs"
    "distinct (concat cs)" "set (concat cs) = {0..<length a}"
    "\<forall>c\<in>set cs. c \<noteq> [] \<and> set c = first_reached a (hd c)"
proof -
  have "visited_upto a 0 (replicate (length a) False)" by (simp add: visited_upto_def)
  from components_loop_pool_spec [OF this] obtain cs where
    cs: "components_loop_pool a [0..<length a] (replicate (length a) False) = Some cs"
      "\<forall>c\<in>set cs. c \<noteq> [] \<and> distinct c \<and> hd c < length a \<and> set c = first_reached a (hd c)"
      "sorted_wrt (<) (map hd cs)" "\<forall>x<length a. x \<in> set (concat cs)" by auto
  have "x < length a" if "x \<in> set c" "c \<in> set cs" for x c
  proof -
    have "x \<in> reached a (hd c)" "hd c < length a" using that cs(2) by (auto simp: first_reached_def)
    then show ?thesis using reached_bound by blast
  qed
  then have "set (concat cs) = {0..<length a}" using cs(4) by auto
  moreover have "distinct (concat ds)"
    if "set ds \<subseteq> set cs" "sorted_wrt (<) (map hd ds)" for ds
    using that
  proof (induction ds)
    case (Cons d ds)
    have "set d \<inter> set e = {}" if "e \<in> set ds" for e
    proof -
      have "hd d < hd e" using Cons.prems(2) that by auto
      then show ?thesis
        using first_reached_disjoint [of _ a "hd d" "hd e"] cs(2) that Cons.prems(1) by fastforce
    qed
    then show ?case using Cons cs(2) by auto
  qed simp
  ultimately show thesis using that [of cs] cs by blast
qed

end
