(* ===== verification/Pool_Properties.thy ===== *)
theory Pool_Properties
  imports Thread_Pool Dag_Pool_Components Samples
begin

text \<open>The properties of the thread pool and of the graph it fills.\<close>

text \<open>C16: The thread pool loses no task and shuts down: in every state that a pool of at least one thread can
  reach, the tasks have been taken in the order in which they were enqueued, each at most once; when a task
  is waiting and no notification is outstanding, some worker is awake, so none is forgotten. Once
  the destructor has set its flag, the threads make at most three steps for each waiting task, two for each
  worker and one more, and some step is possible until all are joined; then every task that was ever
  enqueued has run exactly once.\<close>

theorem pool_loses_no_task:
  assumes "pool_reach n pool_start s" "0 < n"
  shows "pl_given s = pl_taken s @ pl_tasks s \<and> mset (pl_done s) \<subseteq># mset (pl_taken s) \<and>
    (pl_tasks s \<noteq> [] \<longrightarrow> pl_notify s = 0 \<longrightarrow> (\<exists>i<n. awake (pl_worker s i))) \<and>
    (pl_stop s \<longrightarrow>
      (\<forall>k s'. (pool_step n ^^ k) s s' \<longrightarrow> k \<le> 3 * length (pl_tasks s) + 2 * n + 1 \<and>
        (if pool_joined n s' then mset (pl_done s') = mset (pl_given s') else \<exists>s''. pool_step n s' s'')))"
proof -
  have ok: "pool_ok n s" by (rule pool_ok_reach [OF assms(1)])
  have "k \<le> 3 * length (pl_tasks s) + 2 * n + 1 \<and>
      (if pool_joined n s' then mset (pl_done s') = mset (pl_given s') else \<exists>s''. pool_step n s' s'')"
    if "pl_stop s" "(pool_step n ^^ k) s s'" for k s'
  proof -
    have o: "pl_owner s \<noteq> Using" using ok that(1) by (simp add: pool_ok_def)
    have "k + load n s' \<le> load n s" "pl_owner s' \<noteq> Using" "pool_ok n s'"
      using shutdown_bound [OF that(2) ok o] by auto
    then show ?thesis
      using load_bound [of n s] joined_all_done [of n s'] shutdown_progress [of n s'] assms(2) by auto
  qed
  then show ?thesis using ok assms(2) by (auto simp: pool_ok_def)
qed

lemma reach_step: "pool_reach n s s1 \<Longrightarrow> pool_step n s1 s2 \<Longrightarrow> pool_reach n s s2"
  unfolding pool_reach_def by (rule rtranclp.rtrancl_into_rtrancl)

text \<open>A pool of one thread that is given one task: it is stopped before the thread has looked at it.\<close>

definition stopped_pool :: "nat pool" where
  "stopped_pool = \<lparr>pl_tasks = [0], pl_stop = True, pl_worker = (\<lambda>i. Checking), pl_notify = 0, pl_owner = Stopping,
     pl_given = [0], pl_taken = [], pl_done = []\<rparr>"

lemma stopped_reached: "pool_reach 1 pool_start stopped_pool"
proof -
  have r0: "pool_reach 1 pool_start (pool_start :: nat pool)" by (simp add: pool_reach_def)
  note r1 = reach_step [OF r0 pool_step.enqueue [of pool_start 1 0]]
  note r2 = reach_step [OF r1 pool_step.notify_nobody [of _ 0]]
  note r3 = reach_step [OF r2 pool_step.stop]
  show ?thesis using r3 by (simp add: pool_start_def stopped_pool_def)
qed

theorem pool_loses_no_task_witness:
  "pl_given stopped_pool = pl_taken stopped_pool @ pl_tasks stopped_pool \<and> \<not> (\<exists>s'. (pool_step 1 ^^ 7) stopped_pool s')"
proof -
  have "k \<le> 6" if "(pool_step 1 ^^ k) stopped_pool s'" for k s'
    using pool_loses_no_task [OF stopped_reached] that by (simp add: stopped_pool_def)
  from this [of 7] show ?thesis by (auto simp: stopped_pool_def simp del: relpowp.simps)
qed

text \<open>C17: The graph of the pool version is there only when the pool has been joined: for a block whose headers
  parse, once the tasks that \<open>create\<close> enqueued have all run, in any order and with their steps interleaved
  in any way, the graph is the one the builders compute. But \<open>create\<close> returns when the tasks are
  enqueued: if the second transaction depends on the first, the first selection from a new graph before a
  task has run hands out the second transaction, and when the tasks then run, its
  in-degree becomes zero again, so that it can be handed out a second time.\<close>

theorem pool_graph_comes_late:
  assumes "pb str = Some b" "\<forall>t\<in>set (b_transactions b). parse_header C (t_header t) \<noteq> None"
    and "cleaned d" "0 < threadCount d"
  shows "(\<forall>n s cs. 0 < n \<longrightarrow> pool_reach n pool_start s \<longrightarrow> pool_joined n s \<longrightarrow> pl_given s = [0..<threadCount d] \<longrightarrow>
      mset cs = mset (concat (map (task_pairs (prepared C b d)) (pl_done s))) \<longrightarrow>
      each mark_cell_counted cs (prepared C b d) = create_pool C pb str d) \<and>
    (2 \<le> length (b_transactions b) \<longrightarrow> dep_rel (extract_all C (b_transactions b) 0) 0 1 \<longrightarrow> lastTxn d = 0 \<longrightarrow>
      (\<exists>d1 d2 deg. selectTxn_cluster (prepared C b d) = Ret (Some 1, d1) \<and>
        each dependencyMatrix_pool [0..<threadCount d] d1 = Ret d2 \<and> cell (adjacencyMatrix d2) 0 1 = 1 \<and>
        inDegree d2 = Some deg \<and> deg ! 1 = 0))"
proof (intro conjI allI impI)
  let ?n = "length (b_transactions b)" and ?t = "extract_all C (b_transactions b) 0"
  let ?ps = "pairs_of ?n [0..<?n]"
  note p = prepared_simps [OF assms(3), of C b]
  note marks = tasks_marked [OF assms(2,3)]
  have tasks: "each dependencyMatrix_pool [0..<threadCount d] d1 = each mark_cell_counted ?ps d1"
    if "totalTxns d1 = ?n" "threadCount d1 = threadCount d" for d1
    using that threads_cover_pool [OF assms(4), of ?n] by (simp add: each_threads_pool)
  {
    fix n s cs
    assume s: "0 < n" "pool_reach n pool_start s" "pool_joined n s" "pl_given s = [0..<threadCount d]"
      "mset cs = mset (concat (map (task_pairs (prepared C b d)) (pl_done s)))"
    have "mset (pl_done s) = mset [0..<threadCount d]"
      using joined_all_done [OF pool_ok_reach [OF s(2)] s(3,1)] s(4) by simp
    then have "mset cs = mset ?ps" using all_task_pairs [OF _ assms(4,3)] s(5) by simp
    from marks [OF HOL.refl HOL.refl p(5) _ this] marks [OF HOL.refl HOL.refl p(5) _ HOL.refl]
    show "each mark_cell_counted cs (prepared C b d) = create_pool C pb str d"
      using tasks [of "prepared C b d"] p by (simp add: create_pool_prepared [where parse_block = pb and s = str, OF assms(1)])
  }
  assume n: "2 \<le> ?n" and dep: "dep_rel ?t 0 1" and l: "lastTxn d = 0"
  let ?d1 = "take_txn 1 (replicate ?n 0) (prepared C b d)"
  let ?deg = "(replicate ?n 0)[1 := - 1] :: int list"
  have "[Suc 0..<?n] = 1 # [Suc 1..<?n]" using n by (simp add: upt_conv_Cons)
  then have "scan_zero (replicate ?n 0) [lastTxn d + 1..<?n] = Some 1" using n by (simp add: scan_zero_def l)
  then have sel: "selectTxn_cluster (prepared C b d) = Ret (Some 1, ?d1)"
    by (simp add: selectTxn_cluster_def p)
  have m: "each dependencyMatrix_pool [0..<threadCount d] ?d1 = Ret (marked ?t ?ps ?deg ?d1)"
    using marks [of ?d1 ?deg ?ps] tasks [of ?d1] p by (simp add: take_txn_def)
  have b: "\<forall>(x, y)\<in>set ?ps. x < ?n \<and> y < (?n + 15) div 16 * 16" using padded [of ?n] by (auto simp: set_pairs_of)
  have "b_transactions b \<noteq> []" using n by auto
  then have "cell (adjacencyMatrix (marked ?t ?ps ?deg ?d1)) 0 1 = 1"
    using cell_fold_fill [OF shaped_zero [of ?n "(?n + 15) div 16 * 16"] _ _ b, of 0 1 "dep_rel ?t"] n dep padded [of ?n]
    by (simp add: marked_def take_txn_def p set_pairs_of)
  moreover have "fold (tally (dep_rel ?t)) ?ps ?deg ! 1 = 0"
  proof -
    have "length (filter (hits (dep_rel ?t) 1) ?ps) = 1"
    proof -
      have "[0..<?n] = 0 # [1..<?n]" using n by (subst upt_rec) auto
      moreover have "filter (\<lambda>i. i < 1 \<and> dep_rel ?t i 1) [1..<?n] = []" by (simp add: filter_empty_conv)
      ultimately show ?thesis using dep n hits_pairs [of 1 ?n "dep_rel ?t" "[0..<?n]"] by simp
    qed
    then show ?thesis using nth_fold_tally [of 1 ?deg ?ps "dep_rel ?t"] n by (simp add: set_pairs_of)
  qed
  ultimately show "\<exists>d1 d2 deg. selectTxn_cluster (prepared C b d) = Ret (Some 1, d1) \<and>
        each dependencyMatrix_pool [0..<threadCount d] d1 = Ret d2 \<and> cell (adjacencyMatrix d2) 0 1 = 1 \<and>
        inDegree d2 = Some deg \<and> deg ! 1 = 0"
    using sel m by (intro exI [of _ ?d1] exI [of _ "marked ?t ?ps ?deg ?d1"] exI [of _ "fold (tally (dep_rel ?t)) ?ps ?deg"])
      (simp add: marked_def)
qed

definition twice :: block where
  "twice = \<lparr>b_header = [], b_transactions = [sample_txn, sample_txn], block_hash = []\<rparr>"

definition fresh_graph :: dag where
  "fresh_graph = \<lparr>CurrentTransactions = [], adjacencyMatrix = [], inDegree = None, completedTxns = 0, lastTxn = 0,
     totalTxns = 0, threadCount = 28\<rparr>"

theorem pool_graph_comes_late_witness:
  "\<exists>d1 d2 deg. selectTxn_cluster (prepared sample_codec twice fresh_graph) = Ret (Some 1, d1) \<and>
     each dependencyMatrix_pool [0..<28] d1 = Ret d2 \<and> inDegree d2 = Some deg \<and> deg ! 1 = 0"
proof -
  have h: "parse_header sample_codec (t_header sample_txn) =
      Some (new_header ''wallet'' ''a'' ''7'' [''walletab''] [''walletab''])"
    unfolding sample_txn_def by (rule client_header) simp
  have dep: "dep_rel (extract_all sample_codec (b_transactions twice) 0) 0 1"
    by (simp add: dep_rel_def twice_def extractTransaction_def h depends_def new_header_def)
  show ?thesis
    using pool_graph_comes_late [where pb = "\<lambda>_. Some twice" and str = "[]" and b = twice and C = sample_codec and d = fresh_graph]
      dep h by (simp add: twice_def fresh_graph_def cleaned_def) blast
qed

section \<open>The components of the pool version\<close>

lemma reached_upward:
  assumes "\<And>i j. i < length a \<Longrightarrow> j < length a \<Longrightarrow> forward a i j \<longleftrightarrow> i < j \<and> D i j"
    and "(i, x) \<in> (links (forward a) (length a))\<^sup>*"
  shows "i \<le> x \<and> (i < x \<longrightarrow> (\<exists>y<x. i \<le> y \<and> D y x))"
  using assms(2)
proof (induction rule: rtrancl_induct)
  case (step y z)
  then have "y < z" "D y z" using assms(1) by (auto simp: links_def)
  then show ?case using step.IH by (auto intro: exI [of _ y])
qed simp

text \<open>C18: The pool version cuts components apart: its search returns for the graph of every block whose headers
  parse, and its components together hold every transaction once, but it follows
  dependencies forwards only. A component holds what its first transaction leads to
  and no earlier one does. When the third transaction depends on the first and on the second, which are
  independent, the second and the third are in different components, to be executed in any order or at the
  same time. (The other versions keep them together: theorem \<open>components_by_union_find\<close>.)\<close>

theorem pool_components_cut:
  assumes "pb str = Some b" "\<forall>t\<in>set (b_transactions b). parse_header C (t_header t) \<noteq> None"
    and "cleaned d" "0 < threadCount d"
  shows "\<exists>q output cTable cs. create_pool C pb str d = Ret q \<and>
    connectedComponents_pool show_components (adjacencyMatrix q) \<lparr>totalComponents = 0, componentsList = []\<rparr> = Some (output, cTable) \<and>
    map transactionList (componentsList cTable) = cs \<and> distinct (concat cs) \<and>
    set (concat cs) = {0..<length (b_transactions b)} \<and>
    (\<forall>c\<in>set cs. c \<noteq> [] \<and> set c = first_reached (adjacencyMatrix q) (hd c)) \<and>
    (3 \<le> length (b_transactions b) \<longrightarrow> dep_rel (extract_all C (b_transactions b) 0) 0 2 \<longrightarrow>
      dep_rel (extract_all C (b_transactions b) 0) 1 2 \<longrightarrow> \<not> dep_rel (extract_all C (b_transactions b) 0) 0 1 \<longrightarrow>
      \<not> (\<exists>c\<in>set cs. 1 \<in> set c \<and> 2 \<in> set c))"
proof -
  let ?D = "dep_rel (extract_all C (b_transactions b) 0)" and ?n = "length (b_transactions b)"
  obtain q where q: "create_pool C pb str d = Ret q" "length (adjacencyMatrix q) = ?n"
    "\<And>i j. i < ?n \<Longrightarrow> j < ?n \<Longrightarrow> cell (adjacencyMatrix q) i j = (if i < j \<and> ?D i j then 1 else 0)"
    by (rule pool_graph [where pb = pb, OF assms]) blast
  let ?a = "adjacencyMatrix q"
  have f: "forward ?a i j \<longleftrightarrow> i < j \<and> ?D i j" if "i < length ?a" "j < length ?a" for i j
    using q(3) [of i j] that q(2) by (simp add: forward_def)
  obtain cs where cs: "components_loop_pool ?a [0..<length ?a] (replicate (length ?a) False) = Some cs"
    "distinct (concat cs)" "set (concat cs) = {0..<length ?a}" "\<forall>c\<in>set cs. c \<noteq> [] \<and> set c = first_reached ?a (hd c)"
    by (rule components_pool_partition)
  have cut: "\<not> (\<exists>c\<in>set cs. 1 \<in> set c \<and> 2 \<in> set c)" if h: "3 \<le> ?n" "?D 0 2" "?D 1 2" "\<not> ?D 0 1"
  proof
    assume "\<exists>c\<in>set cs. 1 \<in> set c \<and> 2 \<in> set c"
    then obtain i where i: "1 \<in> first_reached ?a i" "2 \<in> first_reached ?a i" using cs(4) by blast
    have l: "0 < length ?a" "2 < length ?a" using h(1) unfolding q(2) by arith+
    then have "(0, 2) \<in> links (forward ?a) (length ?a)" using f [OF l] h(2) by (simp add: links_def)
    then have "2 \<in> reached ?a 0" by (auto simp: reached_def)
    then have "i = 0" using i(2) by (auto simp: first_reached_def)
    then have "(0, 1) \<in> (links (forward ?a) (length ?a))\<^sup>*" using i(1) by (simp add: first_reached_def reached_def)
    from reached_upward [OF f this] show False using h(4) by auto
  qed
  show ?thesis
    using q(1,2) cs cut
    by (intro exI [of _ q] exI [of _ cs]) (simp add: connectedComponents_pool_def Let_def comp_def)
qed

text \<open>Two deposits to different accounts and a transfer between these.\<close>

definition over :: "string list \<Rightarrow> transaction" where
  "over keys = new_txn sample_show (new_header ''wallet'' ''a'' ''7'' keys keys) []"

definition three :: block where
  "three = \<lparr>b_header = [], b_transactions = [over [''a''], over [''b''], over [''a'', ''b'']], block_hash = []\<rparr>"

lemma over_parses: "parse_header sample_codec (t_header (over keys)) = Some (new_header ''wallet'' ''a'' ''7'' keys keys)"
  unfolding over_def by (rule client_header) simp

theorem pool_components_cut_witness:
  "\<exists>q output cTable. create_pool sample_codec (\<lambda>_. Some three) [] fresh_graph = Ret q \<and>
     connectedComponents_pool (\<lambda>_. None) (adjacencyMatrix q) \<lparr>totalComponents = 0, componentsList = []\<rparr> = Some (output, cTable) \<and>
     \<not> (\<exists>c\<in>set (map transactionList (componentsList cTable)). 1 \<in> set c \<and> 2 \<in> set c)"
proof -
  let ?t = "extract_all sample_codec (b_transactions three) 0"
  have "dep_rel ?t 0 2" "dep_rel ?t 1 2" "\<not> dep_rel ?t 0 1"
    by (simp_all add: dep_rel_def three_def extractTransaction_def over_parses depends_def new_header_def)
  then show ?thesis
    using pool_components_cut [where pb = "\<lambda>_. Some three" and str = "[]" and b = three and C = sample_codec
        and d = fresh_graph and show_components = "\<lambda>_. None"]
    by (simp add: over_parses fresh_graph_def cleaned_def) (simp add: three_def over_parses, blast)
qed

end
