(* ===== verification/Merkle_Experiment.thy ===== *)
theory Merkle_Experiment
  imports Commit_Properties
begin

text \<open>
  The experiment of \<open>MerkleTreeExperiments/experiments.cpp\<close>, which puts the same records into a serial and
  into a parallel Merkle tree: \<open>readJsonFile\<close>, and \<open>expCount\<close> without its clocks. The parallel tree first
  takes the records into its concurrent map, with several threads, and then inserts the map's entries.
\<close>

section \<open>The records\<close>

text \<open>\<open>item.at(k).get<string>()\<close>.\<close>

definition member_string :: "json \<Rightarrow> string \<Rightarrow> string outcome" where
  "member_string item k =
     (case item of
        JObj ms \<Rightarrow> (case map_of ms k of None \<Rightarrow> Throw Out_of_range | Some (JStr s) \<Rightarrow> Ret s | Some _ \<Rightarrow> Throw Type_error)
      | _ \<Rightarrow> Throw Type_error)"

fun read_items :: "json list \<Rightarrow> (string \<times> string) list \<Rightarrow> (string \<times> string) list outcome" where
  "read_items [] records = Ret records"
| "read_items (item # items) records =
     bind_outcome (member_string item ''address'') (\<lambda>address.
     bind_outcome (member_string item ''data'') (\<lambda>value. read_items items (records @ [(address, value)])))"

text \<open>A file that does not open gives no records.\<close>

definition readJsonFile :: "codec \<Rightarrow> string option \<Rightarrow> (string \<times> string) list outcome" where
  "readJsonFile C file =
     (case file of
        None \<Rightarrow> Ret []
      | Some content \<Rightarrow> bind_outcome (json_parse C content) (\<lambda>j. read_items (jitems j) []))"

section \<open>Filling the concurrent map\<close>

text \<open>The map and what each thread has left; \<open>updateValue\<close> holds the element while it assigns to it.\<close>

type_synonym updaters = "kvmap \<times> (nat \<Rightarrow> (string \<times> string) list)"

definition update_start :: "(string \<times> string) list \<Rightarrow> nat \<Rightarrow> updaters" where
  "update_start records thCount = (Map.empty, \<lambda>t. if t < thCount then chunk records thCount t else [])"

inductive update_step :: "updaters \<Rightarrow> updaters \<Rightarrow> bool" where
  "ws t = (key, val) # rest \<Longrightarrow> update_step (myMap, ws) (myMap(key \<mapsto> val), ws(t := rest))"

definition updated :: "(string \<times> string) list \<Rightarrow> nat \<Rightarrow> kvmap \<Rightarrow> bool" where
  "updated records thCount myMap \<longleftrightarrow> update_step\<^sup>*\<^sup>* (update_start records thCount) (myMap, \<lambda>t. [])"

section \<open>The experiment\<close>

text \<open>
  Both trees are opened on an empty directory. The serial tree rehashes the path of every insertion; the
  entries of the map come in some order.
\<close>

inductive expCount :: "env \<Rightarrow> (string \<times> string) list \<Rightarrow> nat \<Rightarrow> db \<Rightarrow> db \<Rightarrow> bool" for E where
  "open_state E False Map.empty = Ret m \<Longrightarrow> each (insert_step E) records m = Ret serialState \<Longrightarrow>
   updated records thCount myMap \<Longrightarrow> distinct (map fst items) \<Longrightarrow> map_of items = myMap \<Longrightarrow>
   parallel_flush E thCount items m parallelState \<Longrightarrow>
   expCount E records thCount serialState parallelState"

inductive_cases update_stepE: "update_step (myMap, ws) s"
inductive_cases expCountE: "expCount E records thCount m1 m2"

section \<open>What the map holds\<close>

definition map_inv :: "(string \<times> string) list \<Rightarrow> updaters \<Rightarrow> bool" where
  "map_inv records = (\<lambda>(myMap, ws). (\<forall>t. set (ws t) \<subseteq> set records) \<and>
     (\<forall>k v. myMap k = Some v \<longrightarrow> (k, v) \<in> set records) \<and>
     (\<forall>k v. (k, v) \<in> set records \<longrightarrow> myMap k \<noteq> None \<or> (\<exists>t. (k, v) \<in> set (ws t))))"

lemma map_inv_start: "0 < thCount \<Longrightarrow> map_inv records (update_start records thCount)"
  using chunk_subset [of records thCount] in_some_chunk [of thCount _ records]
  by (auto simp: map_inv_def update_start_def)

lemma map_inv_step:
  assumes "map_inv records s" "update_step s s'"
  shows "map_inv records s'"
  using assms(2,1)
proof (cases rule: update_step.cases)
  case (1 ws t key val rest myMap)
  have w: "set (ws t) = insert (key, val) (set rest)" by (simp add: 1(3))
  note inv = assms(1) [unfolded map_inv_def 1(1) prod.case]
  have "\<forall>t'. set ((ws(t := rest)) t') \<subseteq> set records" using inv w by auto
  moreover have "\<forall>k v. (myMap(key \<mapsto> val)) k = Some v \<longrightarrow> (k, v) \<in> set records" using inv w by auto
  moreover have "(myMap(key \<mapsto> val)) k \<noteq> None \<or> (\<exists>t'. (k, v) \<in> set ((ws(t := rest)) t'))"
    if kv: "(k, v) \<in> set records" for k v
  proof (cases "k = key \<or> myMap k \<noteq> None")
    case False
    then obtain t' where t': "(k, v) \<in> set (ws t')" using inv kv by blast
    then have "(k, v) \<in> set ((ws(t := rest)) t')" using False w by (cases "t' = t") auto
    then show ?thesis by blast
  qed auto
  ultimately show ?thesis unfolding map_inv_def 1(2) prod.case by blast
qed

lemma updated_map:
  assumes "updated records thCount myMap" "0 < thCount"
  shows "dom myMap = fst ` set records" "myMap k = Some v \<Longrightarrow> (k, v) \<in> set records"
proof -
  have "update_step\<^sup>*\<^sup>* s s' \<Longrightarrow> map_inv records s \<Longrightarrow> map_inv records s'" for s s'
    by (induction rule: rtranclp_induct) (auto intro: map_inv_step)
  then have "map_inv records (myMap, \<lambda>t. [])"
    using assms map_inv_start by (auto simp: updated_def)
  then have inv: "\<And>k v. myMap k = Some v \<Longrightarrow> (k, v) \<in> set records" "\<And>k v. (k, v) \<in> set records \<Longrightarrow> myMap k \<noteq> None"
    unfolding map_inv_def by auto
  show "myMap k = Some v \<Longrightarrow> (k, v) \<in> set records" by (rule inv(1))
  show "dom myMap = fst ` set records"
  proof
    show "dom myMap \<subseteq> fst ` set records" using inv(1) by (auto simp: image_iff) force
    show "fst ` set records \<subseteq> dom myMap" using inv(2) by auto
  qed
qed

section \<open>What the serial tree holds\<close>

lemma getValue_serial_inserted:
  "lawful E \<Longrightarrow> getValue E (serial_inserted E k v m) key = getValue E (inserted E k v m) key"
  using getValue_parents [of E "computeHash E k" "inserted E k v m" key]
  by (simp add: serial_inserted_def parents_updated_def)

lemma serial_values:
  assumes "lawful E"
  shows "inj_on (computeHash E) (insert key (fst ` set records)) \<Longrightarrow> each (insert_step E) records m = Ret m1 \<Longrightarrow>
    getValue E m1 key = (case map_of (rev records) key of Some v \<Rightarrow> takeWhile (\<lambda>x. x \<noteq> CHR '','') v | None \<Rightarrow> getValue E m key)"
proof (induction records arbitrary: m)
  case (Cons e es)
  obtain k v where e: "e = (k, v)" by fastforce
  have "inj_on (computeHash E) (insert key (fst ` set es))" "computeHash E key = computeHash E k \<longleftrightarrow> key = k"
    using Cons.prems(1) by (auto simp: e inj_on_def)
  then show ?case
    using Cons.IH [of "serial_inserted E k v m"] Cons.prems(2)
    by (auto simp: e insert_step_eq [OF assms] getValue_serial_inserted [OF assms] getValue_inserted [OF assms] map_add_def
        split: option.splits)
qed simp

section \<open>The two trees agree\<close>

text \<open>C20: The experiment compares trees that hold the same: however the threads interleave while they fill the
  concurrent map and while they insert its entries, when the addresses of the records are distinct and
  their hashes too, every address reads back from the parallel tree as it does from the serial one.
  When an address occurs more than once, the serial tree holds its last record (up to the
  first comma) and the parallel tree one of its records.\<close>

theorem experiment_trees_agree:
  assumes "lawful E" "0 < thCount" "expCount E records thCount serialState parallelState"
    and "inj_on (computeHash E) (insert key (fst ` set records))"
  shows "(distinct (map fst records) \<longrightarrow> getValue E parallelState key = getValue E serialState key) \<and>
    (key \<in> fst ` set records \<longrightarrow>
      (\<exists>v. map_of (rev records) key = Some v \<and> getValue E serialState key = takeWhile (\<lambda>x. x \<noteq> CHR '','') v) \<and>
      (\<exists>v. (key, v) \<in> set records \<and> getValue E parallelState key = takeWhile (\<lambda>x. x \<noteq> CHR '','') v))"
proof -
  obtain m myMap items where e: "each (insert_step E) records m = Ret serialState" "updated records thCount myMap"
    "distinct (map fst items)" "map_of items = myMap" "parallel_flush E thCount items m parallelState"
    using assms(3) by (auto elim: expCountE)
  note dom = updated_map(1) [OF e(2) assms(2)] and val = updated_map(2) [OF e(2) assms(2)]
  have keys: "fst ` set items = fst ` set records" using dom e(4) by (metis dom_map_of_conv_image_fst)
  obtain m3 ws where r: "flush_reach E (flush_start items thCount m) (m3, ws)" "joined (m3, ws)"
    "each (\<lambda>(key, val). updateParentHashes E key) items m3 = Ret parallelState"
    using e(5) by (auto elim: parallel_flushE)
  have "\<forall>(k, v)\<in>set items. k \<noteq> []" using each_parents_keys [OF r(3)] by auto
  then have "getValue E parallelState key = getValue E m3 key"
    using r(3) each_parents [of items E m3] getValue_parents_fold [OF assms(1), of items m3 key] by simp
  then have p: "getValue E parallelState key =
      (case myMap key of Some v \<Rightarrow> takeWhile (\<lambda>x. x \<noteq> CHR '','') v | None \<Rightarrow> getValue E m key)"
    using joined_leaves [OF assms(1) e(3) _ assms(2) r(1,2), of key] assms(4) keys e(4) by simp
  note s = serial_values [OF assms(1,4) e(1)]
  have same: "map_of (rev records) key = myMap key" if d: "distinct (map fst records)"
  proof (cases "myMap key")
    case None
    then show ?thesis using dom by (auto simp: map_of_eq_None_iff domIff)
  next
    case (Some v)
    then show ?thesis using val [OF Some] d by (simp add: rev_map [symmetric])
  qed
  show ?thesis
  proof (intro conjI impI)
    show "getValue E parallelState key = getValue E serialState key" if "distinct (map fst records)"
      using p s same [OF that] by simp
    assume k: "key \<in> fst ` set records"
    obtain v where v: "map_of (rev records) key = Some v"
      using k by (cases "map_of (rev records) key") (auto simp: map_of_eq_None_iff)
    then show "\<exists>v. map_of (rev records) key = Some v \<and> getValue E serialState key = takeWhile (\<lambda>x. x \<noteq> CHR '','') v"
      using s by simp
    obtain w where w: "myMap key = Some w" using k dom by blast
    then show "\<exists>v. (key, v) \<in> set records \<and> getValue E parallelState key = takeWhile (\<lambda>x. x \<noteq> CHR '','') v"
      using p val [OF w] by auto
  qed
qed

lemma one_record:
  "updated [(''a'', ''5'')] 1 [''a'' \<mapsto> ''5'']"
proof -
  have "update_step (Map.empty, \<lambda>t. if t < 1 then [(''a'', ''5'')] else []) (Map.empty(''a'' \<mapsto> ''5''),
      (\<lambda>t. if t < 1 then [(''a'', ''5'')] else [])(0 := []))"
    by (rule update_step.intros) simp
  moreover have "(\<lambda>t. if t < 1 then [(''a'', ''5'')] else [])(0 := []) = (\<lambda>t :: nat. [])"
    by (rule ext) simp
  moreover have "update_start [(''a'', ''5'')] 1 = (Map.empty, \<lambda>t. if t < 1 then [(''a'', ''5'')] else [])"
    by (auto simp: update_start_def chunk_def)
  ultimately show ?thesis unfolding updated_def by auto
qed

theorem experiment_trees_agree_witness:
  "\<exists>m1 m2. expCount sample_env [(''a'', ''5'')] 1 m1 m2 \<and> getValue sample_env m2 ''a'' = ''5''"
proof -
  obtain m where m: "open_state sample_env False Map.empty = Ret m" by (simp add: open_state_def sample_env_def Let_def)
  obtain m1 where m1: "each (insert_step sample_env) [(''a'', ''5'')] m = Ret m1"
    by (simp add: insert_step_eq [OF sample_lawful])
  obtain m2 where "parallel_flush sample_env 1 [(''a'', ''5'')] m m2"
    using serial_flush_possible [of 1 sample_env "[(''a'', ''5'')]" m] flush_eq [of "[(''a'', ''5'')]" sample_env m] by simp
  then have e: "expCount sample_env [(''a'', ''5'')] 1 m1 m2"
    by (intro expCount.intros [OF m m1 one_record, of "[(''a'', ''5'')]"]) simp_all
  show ?thesis
    using experiment_trees_agree [OF sample_lawful _ e, of "''a''"] e by auto
qed

end
