(* ===== verification/Header_Race.thy ===== *)
theory Header_Race
  imports Execution_Properties
begin

text \<open>
  The header member of two processors of the parallel single node: \<open>ProcessTxn\<close> of
  \<open>singleNode-parallel/smartContracts/eCommerce/eCommProcessor.h\<close> and of \<open>nft/nftProcessor.h\<close> parses the
  header into a member of the processor, and all threads of the scheduler use the same processors.
\<close>

section \<open>Parsing into the member\<close>

text \<open>
  The processor whose member a thread is about to write: it holds a transaction, has dispatched on the
  family, and \<open>ProcessTxn\<close> begins with the parse. The wallet and the voting processor parse into a local
  variable.
\<close>

definition parses_into :: "codec \<Rightarrow> transaction list \<Rightarrow> phase \<Rightarrow> string option" where
  "parses_into C txns p =
     (case p of
        Chosen i \<Rightarrow>
          (case parse_header C (t_header (txns ! i)) of
             None \<Rightarrow> None
           | Some header \<Rightarrow>
               if family_name header = ''eComm'' \<or> family_name header = ''nft'' then Some (family_name header) else None)
      | _ \<Rightarrow> None)"

text \<open>Two threads about to write the same message, with nothing that orders them: a data race.\<close>

definition header_race :: "codec \<Rightarrow> transaction list \<Rightarrow> nat \<Rightarrow> sched \<Rightarrow> bool" where
  "header_race C txns thCount s =
     list_ex (\<lambda>t. list_ex (\<lambda>u. parses_into C txns (sc_phase s t) \<noteq> None \<and>
       parses_into C txns (sc_phase s t) = parses_into C txns (sc_phase s u)) [0..<t]) [0..<thCount]"

lemma header_race_iff:
  "header_race C txns thCount s \<longleftrightarrow> (\<exists>u t i j f. u < t \<and> t < thCount \<and> sc_phase s u = Chosen i \<and> sc_phase s t = Chosen j \<and>
     parses_into C txns (Chosen i) = Some f \<and> parses_into C txns (Chosen j) = Some f)"
proof -
  have c: "(\<exists>i. p = Chosen i) \<longleftrightarrow> True" if "parses_into C txns p = Some f" for p f
    using that by (cases p) (auto simp: parses_into_def)
  show ?thesis
  proof
    assume "header_race C txns thCount s"
    then obtain t u f where tu: "t < thCount" "u < t" "parses_into C txns (sc_phase s t) = Some f"
      "parses_into C txns (sc_phase s u) = Some f"
      unfolding header_race_def list_ex_iff by (metis (no_types, lifting) atLeastLessThan_iff not_None_eq set_upt)
    then obtain i j where "sc_phase s u = Chosen i" "sc_phase s t = Chosen j" using c by blast
    then show "\<exists>u t i j f. u < t \<and> t < thCount \<and> sc_phase s u = Chosen i \<and> sc_phase s t = Chosen j \<and>
       parses_into C txns (Chosen i) = Some f \<and> parses_into C txns (Chosen j) = Some f" using tu by metis
  next
    assume "\<exists>u t i j f. u < t \<and> t < thCount \<and> sc_phase s u = Chosen i \<and> sc_phase s t = Chosen j \<and>
       parses_into C txns (Chosen i) = Some f \<and> parses_into C txns (Chosen j) = Some f"
    then obtain u t i j f where "u < t" "t < thCount" "sc_phase s u = Chosen i" "sc_phase s t = Chosen j"
       "parses_into C txns (Chosen i) = Some f" "parses_into C txns (Chosen j) = Some f" by blast
    then show "header_race C txns thCount s"
      unfolding header_race_def list_ex_iff by (intro bexI [of _ t] bexI [of _ u]) simp_all
  qed
qed

section \<open>When it can happen\<close>

lemma chosen_facts:
  assumes "sched_inv J thCount m s" "sc_phase s t = Chosen i"
  shows "i < j_txns J" "sc_deg s ! i < 0" "i \<notin> set (sc_log s)" "sc_phase s u = Chosen i \<Longrightarrow> u = t"
proof -
  have p: "phase_ok J s" using assms(1) by (simp add: sched_inv_def)
  have on: "on_txn (sc_phase s t) i" using assms(2) by simp
  show "i < j_txns J" "sc_deg s ! i < 0" using p on unfolding phase_ok_def by blast+
  show "i \<notin> set (sc_log s)" using p assms(2) unfolding phase_ok_def by blast
  show "u = t" if "sc_phase s u = Chosen i"
  proof -
    have "on_txn (sc_phase s u) i" using that by simp
    then show ?thesis using p on unfolding phase_ok_def by blast
  qed
qed

lemma chosen_independent:
  assumes "sched_inv J thCount m s" "sc_phase s t = Chosen i" "sc_phase s u = Chosen j" "i < j"
  shows "\<not> j_edge J i j"
proof
  assume e: "j_edge J i j"
  note j = chosen_facts(1,2) [OF assms(1,3)] and i = chosen_facts(3) [OF assms(1,2)]
  then have "waiting_for J (sc_released s) j = {}" using assms(1) by (auto simp: sched_inv_def deg_ok_def)
  then have "(i, j) \<in> sc_released s" using e assms(4) by (auto simp: waiting_for_def)
  then show False using assms(1) i by (auto simp: sched_inv_def log_ok_def)
qed

lemma chosen_distinct:
  assumes "sched_inv J thCount m s" "sc_phase s t = Chosen i" "sc_phase s u = Chosen j" "u \<noteq> t"
  shows "i \<noteq> j" "i < j_txns J" "j < j_txns J"
  using chosen_facts [OF assms(1,2)] chosen_facts(1) [OF assms(1,3)] assms(3,4) by auto

lemma free_at_start:
  assumes "k < j_txns J" "\<forall>p<k. \<not> j_edge J p k"
  shows "sc_deg (sched_start J thCount m) ! k = 0"
  using assms by (simp add: sched_start_def in_degrees_def)

lemma two_chosen:
  assumes "1 < thCount" "i \<noteq> j" "i < j_txns J" "j < j_txns J" "\<forall>p<i. \<not> j_edge J p i" "\<forall>p<j. \<not> j_edge J p j"
  shows "\<exists>s. sched_reach J (sched_start J thCount m) s \<and> sc_phase s 0 = Chosen i \<and> sc_phase s 1 = Chosen j"
proof -
  let ?s0 = "sched_start J thCount m"
  have start: "sc_phase ?s0 0 = AtLoop" "sc_phase ?s0 1 = AtLoop" "sc_completed ?s0 = 0" "sc_flag ?s0"
    using assms(1) by (simp_all add: sched_start_def)
  have deg: "sc_deg ?s0 ! i = 0" "sc_deg ?s0 ! j = 0"
    by (rule free_at_start; use assms in simp)+
  let ?s1 = "goto 0 Scanning ?s0"
  let ?s2 = "goto 0 (Chosen i) (?s1\<lparr>sc_deg := (sc_deg ?s1)[i := - 1]\<rparr>)"
  let ?s3 = "goto 1 Scanning ?s2"
  let ?s4 = "goto 1 (Chosen j) (?s3\<lparr>sc_deg := (sc_deg ?s3)[j := - 1]\<rparr>)"
  have s1: "sched_step J ?s0 ?s1" using start assms(3) by (intro sched_step.enter) auto
  have s2: "sched_step J ?s1 ?s2" using deg assms(3) by (intro sched_step.select) auto
  have s3: "sched_step J ?s2 ?s3" using start assms(3) by (intro sched_step.enter) auto
  have s4: "sched_step J ?s3 ?s4" using deg assms(2,4) by (intro sched_step.select) auto
  have "sched_reach J ?s0 ?s4"
    by (rule sched_reach.step [OF sched_reach.step [OF sched_reach.step [OF sched_reach.step [OF sched_reach.refl s1] s2] s3] s4])
  then show ?thesis by (intro exI [of _ ?s4]) simp
qed


text \<open>Two customers fill different carts.\<close>

definition shopping :: "string \<Rightarrow> transaction" where
  "shopping key = new_txn sample_show (new_header ''eComm'' ''a'' ''7'' [key] [key]) []"

definition carts :: block where
  "carts = \<lparr>b_header = [], b_transactions = [shopping ''a'', shopping ''b''], block_hash = []\<rparr>"

lemma shopping_parses: "parse_header sample_codec (t_header (shopping key)) = Some (new_header ''eComm'' ''a'' ''7'' [key] [key])"
  unfolding shopping_def by (rule client_header) simp


end
