(* ===== verification/Utilities.thy ===== *)
theory Utilities
  imports Dag_Components Merkle_Tree
begin

text \<open>
  Small parts of the program: \<open>executeCommand\<close> and \<open>int64ToHex\<close> (\<open>leader/node.cpp\<close>, \<open>leader/leader.h\<close>), the
  message of a graph (\<open>serializeDAG\<close> of \<open>dagModule/DAGmodule.h\<close>), and the command line tools of
  \<open>protos/protosUtils\<close> that write and print sample messages.
\<close>

section \<open>Reading a pipe\<close>

text \<open>\<open>fgets\<close> into a buffer of 128 bytes: up to and with the next newline, and no more than 127 bytes.\<close>

definition fgets :: "string \<Rightarrow> string" where
  "fgets s = (let line = takeWhile (\<lambda>c. c \<noteq> CHR 0x0A) s
              in if length line < length s \<and> length line < 127 then line @ [CHR 0x0A] else take 127 line)"

text \<open>\<open>result += buffer\<close> takes the buffer as a C string, which ends at a zero byte.\<close>

function read_pipe :: "string \<Rightarrow> string" where
  "read_pipe s = (if s = [] then [] else takeWhile (\<lambda>c. c \<noteq> CHR 0x00) (fgets s) @ read_pipe (drop (length (fgets s)) s))"
  by pat_completeness auto
termination
proof (relation "measure length")
  fix s :: string
  assume s: "s \<noteq> []"
  have "0 < length (fgets s)"
  proof (cases "length (takeWhile (\<lambda>c. c \<noteq> CHR 0x0A) s) < length s \<and> length (takeWhile (\<lambda>c. c \<noteq> CHR 0x0A) s) < 127")
    case False
    then have "takeWhile (\<lambda>c. c \<noteq> CHR 0x0A) s \<noteq> []" using s by auto
    then show ?thesis using False by (simp add: fgets_def Let_def del: takeWhile_eq_Nil_iff)
  qed (simp add: fgets_def)
  then show "(drop (length (fgets s)) s, s) \<in> measure length" using s by simp
qed simp

declare read_pipe.simps [simp del]

text \<open>The command's output, or \<open>None\<close> if \<open>popen\<close> fails, and whether \<open>pclose\<close> succeeds.\<close>

definition executeCommand :: "string option \<Rightarrow> bool \<Rightarrow> string" where
  "executeCommand pipe closes =
     (case pipe of
        None \<Rightarrow> ''popen failed!''
      | Some output \<Rightarrow> if closes then read_pipe output else ''Error closing the pipe!'')"

lemma fgets_prefix: "take (length (fgets s)) s = fgets s"
proof -
  let ?line = "takeWhile (\<lambda>c. c \<noteq> CHR 0x0A) s"
  have t: "take (length ?line) s = ?line" by (metis takeWhile_eq_take)
  have "s ! length ?line = CHR 0x0A" if "length ?line < length s" using nth_length_takeWhile [OF that] by simp
  then have "take (Suc (length ?line)) s = ?line @ [CHR 0x0A]" if "length ?line < length s"
    using that t by (simp add: take_Suc_conv_app_nth)
  moreover have "take (length (take 127 ?line)) s = take 127 ?line"
    using t by (metis length_take min.commute take_take)
  ultimately show ?thesis by (simp add: fgets_def Let_def)
qed

text \<open>The whole output is returned, in whatever pieces it is read, if it holds no zero byte.\<close>

lemma read_pipe_all: "CHR 0x00 \<notin> set s \<Longrightarrow> read_pipe s = s"
proof (induction s rule: read_pipe.induct)
  case (1 s)
  show ?case
  proof (cases "s = []")
    case False
    have "CHR 0x00 \<notin> set (take (length (fgets s)) s)" "CHR 0x00 \<notin> set (drop (length (fgets s)) s)"
      using 1(2) by (meson in_set_takeD, meson in_set_dropD)
    then have "takeWhile (\<lambda>c. c \<noteq> CHR 0x00) (fgets s) = fgets s" "read_pipe (drop (length (fgets s)) s) = drop (length (fgets s)) s"
      using 1(1) [OF False] by (simp_all add: fgets_prefix)
    then show ?thesis using fgets_prefix [of s] False by (subst read_pipe.simps) (metis append_take_drop_id)
  qed (simp add: read_pipe.simps)
qed

lemma executeCommand_output: "CHR 0x00 \<notin> set output \<Longrightarrow> executeCommand (Some output) True = output"
  by (simp add: executeCommand_def read_pipe_all)

section \<open>Hexadecimal text of a lease\<close>

fun show_hex :: "nat \<Rightarrow> string" where
  "show_hex n = (if n < 16 then [hex_digit n] else show_hex (n div 16) @ [hex_digit (n mod 16)])"

declare show_hex.simps [simp del]

text \<open>\<open>std::hex\<close> shows a negative number by its two's complement.\<close>

definition int64ToHex :: "64 word \<Rightarrow> string" where
  "int64ToHex leaseID = show_hex (unat leaseID)"

lemma show_hex_length: "n < 16 ^ Suc k \<Longrightarrow> 1 \<le> length (show_hex n) \<and> length (show_hex n) \<le> Suc k"
proof (induction k arbitrary: n)
  case (Suc k)
  show ?case
  proof (cases "n < 16")
    case False
    have "n div 16 < 16 ^ Suc k" using Suc.prems by (simp add: less_mult_imp_div_less mult.commute)
    then show ?thesis using Suc.IH [of "n div 16"] False by (subst (1 2) show_hex.simps) simp
  qed (simp add: show_hex.simps)
qed (simp add: show_hex.simps)

lemma int64ToHex_length: "1 \<le> length (int64ToHex w) \<and> length (int64ToHex w) \<le> 16"
proof -
  have "unat w < 16 ^ Suc 15" using unsigned_less [of w] by simp
  from show_hex_length [OF this] show ?thesis by (simp add: int64ToHex_def)
qed

section \<open>The message of a graph\<close>

record DirectedGraph =
  num_nodes :: nat
  graph_rows :: "int list list"

definition graph_message :: "dag \<Rightarrow> DirectedGraph" where
  "graph_message d = \<lparr>num_nodes = length (adjacencyMatrix d), graph_rows = adjacencyMatrix d\<rparr>"

text \<open>\<open>SerializeToString\<close> of the message is a parameter; a failure gives the empty text.\<close>

definition serializeDAG :: "(DirectedGraph \<Rightarrow> string option) \<Rightarrow> dag \<Rightarrow> string" where
  "serializeDAG show_graph d = (case show_graph (graph_message d) of Some s \<Rightarrow> s | None \<Rightarrow> [])"

section \<open>The tools\<close>

definition row_text :: "int list \<Rightarrow> string" where
  "row_text row = concat (map (\<lambda>e. to_string e @ '' '') row) @ [CHR 0x0A]"

text \<open>What \<open>matrixReader\<close> prints; \<open>None\<close> is a file that does not parse.\<close>

definition readGraphFromFile :: "(string \<Rightarrow> DirectedGraph option) \<Rightarrow> string \<Rightarrow> string option" where
  "readGraphFromFile parse_graph input =
     map_option (\<lambda>DAG. ''Number of nodes: '' @ to_string (int (num_nodes DAG)) @ [CHR 0x0A] @
       concat (map row_text (graph_rows DAG))) (parse_graph input)"

definition sampleGraph :: DirectedGraph where
  "sampleGraph = \<lparr>num_nodes = 3, graph_rows = [[0, 1, 0], [0, 0, 1], [1, 0, 0]]\<rparr>"

definition writeGraphToFile :: "(DirectedGraph \<Rightarrow> string option) \<Rightarrow> string option" where
  "writeGraphToFile show_graph = show_graph sampleGraph"

fun components_text :: "nat \<Rightarrow> component list \<Rightarrow> string" where
  "components_text i [] = []"
| "components_text i (c # cs) =
     ''Component '' @ to_string (int i + 1) @ '': '' @ concat (map (\<lambda>t. to_string (int t) @ '' '') (transactionList c)) @
     [CHR 0x0A] @ components_text (Suc i) cs"

definition readComponentFromFile :: "(string \<Rightarrow> componentsTable option) \<Rightarrow> string \<Rightarrow> string option" where
  "readComponentFromFile parse_components input =
     map_option (\<lambda>cTable. ''Number of components: '' @ to_string (int (totalComponents cTable)) @ [CHR 0x0A] @
       components_text 0 (componentsList cTable)) (parse_components input)"

text \<open>The writer's matrix, without the entries that are -1; the last component stays empty.\<close>

definition sampleComponent :: "int list list" where
  "sampleComponent = [[1, 2, - 1], [3, 4, 5], [- 1, - 1, - 1]]"

definition writecomponentToFile :: "(componentsTable \<Rightarrow> string option) \<Rightarrow> string option" where
  "writecomponentToFile show_components =
     show_components \<lparr>totalComponents = 3,
       componentsList = map (\<lambda>row. \<lparr>transactionList = map nat (filter (\<lambda>x. x \<noteq> - 1) row), assignedFollower = 0, compid = 0\<rparr>)
         sampleComponent\<rparr>"

text \<open>What a tool writes its counterpart prints, when the library parses what it has shown.\<close>

lemma graph_tools:
  assumes "\<forall>g. \<exists>s. show_graph g = Some s \<and> parse_graph s = Some g"
  shows "\<exists>s. writeGraphToFile show_graph = Some s \<and>
      readGraphFromFile parse_graph s = Some (''Number of nodes: 3'' @ [CHR 0x0A] @ concat (map row_text (graph_rows sampleGraph)))"
    and "parse_graph (serializeDAG show_graph d) = Some (graph_message d)"
proof -
  have three: "to_string 3 = ''3''" by (simp add: to_string_def show_nat.simps digit_char_def char_of_def bit_0)
  obtain s where "show_graph sampleGraph = Some s" "parse_graph s = Some sampleGraph" using assms by blast
  then show "\<exists>s. writeGraphToFile show_graph = Some s \<and>
      readGraphFromFile parse_graph s = Some (''Number of nodes: 3'' @ [CHR 0x0A] @ concat (map row_text (graph_rows sampleGraph)))"
    by (simp add: writeGraphToFile_def readGraphFromFile_def three) (simp add: sampleGraph_def three)
  obtain s' where "show_graph (graph_message d) = Some s'" "parse_graph s' = Some (graph_message d)" using assms by blast
  then show "parse_graph (serializeDAG show_graph d) = Some (graph_message d)" by (simp add: serializeDAG_def)
qed

end
