(* ===== verification/Old_Clients.thy ===== *)
theory Old_Clients
  imports Rest_Api Utilities
begin

text \<open>
  The older clients, \<open>client/client.cpp\<close> and \<open>client/simplewalletClient.cpp\<close> of the single nodes (the two
  copies are equal): one posts a fixed transaction, the other reads choices from a menu. Their families are
  \<open>intkey\<close> and \<open>simplewallet\<close>, which no processor handles.
\<close>

section \<open>The fixed transaction\<close>

definition intkey_header :: txn_header where
  "intkey_header = \<lparr>family_name = ''intkey'', inputs = [''input1'', ''input2''], client_ID = ''client_12345'',
     client_nonce = ''random_nonce'', outputs = [''output1'', ''output2'']\<rparr>"

definition intkey_txn :: "string \<Rightarrow> transaction" where
  "intkey_txn serializedHeader = \<lparr>t_header = serializedHeader, t_dependencies = [''dependency1'', ''dependency2''],
     t_payload = ''{'Verb': 'set', 'Name': 'value', 'Value': 123}''\<rparr>"

definition createSerializedTransaction_old :: "library \<Rightarrow> string" where
  "createSerializedTransaction_old L =
     (case show_hdr L intkey_header of
        None \<Rightarrow> []
      | Some serializedHeader \<Rightarrow>
          (case show_txn L (intkey_txn serializedHeader) of None \<Rightarrow> [] | Some serializedTransaction \<Rightarrow> serializedTransaction))"

text \<open>The exit code and the bodies that were posted.\<close>

definition intkey_main :: "library \<Rightarrow> nat \<times> string list" where
  "intkey_main L =
     (let serializedTransaction = createSerializedTransaction_old L
      in if serializedTransaction = [] then (1, [])
         else (0, if curl L serializedTransaction = None then [] else [serializedTransaction]))"

section \<open>The simple wallet\<close>

record simple_wallet =
  baseUrl :: string
  clientID :: string
  address :: string

definition new_simple_wallet :: "image_env \<Rightarrow> string \<Rightarrow> simple_wallet" where
  "new_simple_wallet I url =
     (let client = take 8 (sha512 I ''simplewallet'')
      in \<lparr>baseUrl = url, clientID = client,
          address = take 6 (sha512 I ''simplewallet'') @ take 64 (sha512 I client)\<rparr>)"

text \<open>Sixteen numbers from \<open>rand\<close>, each shown without leading zeros.\<close>

definition random_hex :: "nat list \<Rightarrow> string" where
  "random_hex rands = concat (map (\<lambda>r. show_hex (r mod 256)) rands)"

definition wrap_txn :: "show_header \<Rightarrow> simple_wallet \<Rightarrow> string \<Rightarrow> string \<Rightarrow> string \<Rightarrow> string \<Rightarrow> transaction" where
  "wrap_txn sh w nonce action val clientToKey =
     \<lparr>t_header = (case sh (new_header ''simplewallet'' (clientID w) nonce [address w] [address w]) of Some s \<Rightarrow> s | None \<Rightarrow> []),
      t_dependencies = [],
      t_payload = action @ '','' @ val @ (if clientToKey = [] then [] else '','' @ clientToKey)\<rparr>"

text \<open>The address and the body of the request; the body is the encoding of a list of transactions.\<close>

definition wrap_and_send ::
    "show_header \<Rightarrow> (transaction list \<Rightarrow> string option) \<Rightarrow> simple_wallet \<Rightarrow> string \<Rightarrow> string \<Rightarrow> string \<Rightarrow> string \<Rightarrow> string \<times> string" where
  "wrap_and_send sh show_list w nonce action val clientToKey =
     (baseUrl w @ ''/api/transaction'',
      case show_list [wrap_txn sh w nonce action val clientToKey] of Some s \<Rightarrow> s | None \<Rightarrow> [])"

definition simple_transfer ::
    "show_header \<Rightarrow> (transaction list \<Rightarrow> string option) \<Rightarrow> simple_wallet \<Rightarrow> string \<Rightarrow> int \<Rightarrow> string \<Rightarrow> string \<times> string" where
  "simple_transfer sh show_list w nonce val clientToKey =
     wrap_and_send sh show_list w nonce ''transfer'' (to_string val) clientToKey"

section \<open>The menu\<close>

datatype wish = Deposit int | Withdraw int | Balance

text \<open>The requests of the three choices; the balance is asked for without a body.\<close>

definition wish_request ::
    "show_header \<Rightarrow> (transaction list \<Rightarrow> string option) \<Rightarrow> simple_wallet \<Rightarrow> string \<Rightarrow> wish \<Rightarrow> string \<times> string" where
  "wish_request sh show_list w nonce x =
     (case x of
        Deposit v \<Rightarrow> wrap_and_send sh show_list w nonce ''deposit'' (to_string v) []
      | Withdraw v \<Rightarrow> wrap_and_send sh show_list w nonce ''withdraw'' (to_string v) []
      | Balance \<Rightarrow> (baseUrl w @ ''/balance'', []))"

text \<open>
  \<open>std::cin >> x\<close> for an \<open>int\<close>. A stream that has failed, or has only white space left, leaves \<open>x\<close> as it is
  (\<open>None\<close> before its first assignment); text that is no number makes it zero, and a number that does not fit
  the nearest limit. The stream fails in all these cases.
\<close>

record istream =
  unread :: string
  failed :: bool

definition read_int :: "istream \<Rightarrow> int option \<Rightarrow> istream \<times> int option" where
  "read_int s x =
     (if failed s then (s, x)
      else let t = dropWhile isspace (unread s)
           in if t = [] then (\<lparr>unread = [], failed = True\<rparr>, x)
              else let (neg, u) = split_sign t;
                       ds = takeWhile isdigit u;
                       r = drop (length ds) u;
                       n = int (digits_value ds);
                       v = (if neg then - n else n)
                   in if ds = [] then (\<lparr>unread = u, failed = True\<rparr>, Some 0)
                      else if in_int v then (\<lparr>unread = r, failed = False\<rparr>, Some v)
                      else (\<lparr>unread = r, failed = True\<rparr>, Some (if neg then - 2147483648 else 2147483647)))"

text \<open>The loop of \<open>main\<close>, with what has been asked for; reading an unassigned variable is undefined.\<close>

partial_function (option) menu :: "wish list \<Rightarrow> int option \<Rightarrow> istream \<Rightarrow> wish list outcome option" where
  "menu wishes choice s =
     (case read_int s choice of (s1, choice1) \<Rightarrow>
      case choice1 of
        None \<Rightarrow> Some Undef
      | Some c \<Rightarrow>
          if c = 1 then
            (case read_int s1 None of (s2, val) \<Rightarrow>
             case val of None \<Rightarrow> Some Undef | Some v \<Rightarrow> menu (wishes @ [Deposit v]) (Some c) s2)
          else if c = 2 then
            (case read_int s1 None of (s2, val) \<Rightarrow>
             case val of None \<Rightarrow> Some Undef | Some v \<Rightarrow> menu (wishes @ [Withdraw v]) (Some c) s2)
          else if c = 3 then menu (wishes @ [Balance]) (Some c) s1
          else if c = 4 then Some (Ret wishes)
          else menu wishes (Some c) s1)"

text \<open>A session: the program's input.\<close>

fun wish_text :: "wish \<Rightarrow> string" where
  "wish_text (Deposit v) = to_string 1 @ CHR '' '' # to_string v @ [CHR 0x0A]"
| "wish_text (Withdraw v) = to_string 2 @ CHR '' '' # to_string v @ [CHR 0x0A]"
| "wish_text Balance = to_string 3 @ [CHR 0x0A]"

fun fits :: "wish \<Rightarrow> bool" where
  "fits (Deposit v) = in_int v"
| "fits (Withdraw v) = in_int v"
| "fits Balance = True"

fun choice_of :: "wish \<Rightarrow> int" where
  "choice_of (Deposit v) = 1"
| "choice_of (Withdraw v) = 2"
| "choice_of Balance = 3"

lemma takeWhile_show_nat:
  assumes "\<not> isdigit d"
  shows "takeWhile isdigit (show_nat n @ d # r) = show_nat n"
  using show_nat_digits [of n] assms by (simp add: list_all_iff)

lemma read_shown:
  assumes "in_int v" "\<not> isdigit d" "list_all isspace ws"
  shows "read_int \<lparr>unread = ws @ to_string v @ d # r, failed = False\<rparr> x = (\<lparr>unread = d # r, failed = False\<rparr>, Some v)"
proof -
  have ws: "dropWhile isspace (ws @ t) = dropWhile isspace t" for t
    using assms(3) by (simp add: list_all_iff)
  have m: "\<not> isspace (CHR ''-'')" by (simp add: isspace_def)
  obtain c cs where c: "show_nat (nat v) = c # cs" by (cases "show_nat (nat v)") auto
  then have d: "isdigit c" using show_nat_digits [of "nat v"] by simp
  show ?thesis
  proof (cases "v < 0")
    case True
    then show ?thesis using assms(1) takeWhile_show_nat [OF assms(2), of "nat (- v)" r] m
      by (simp add: read_int_def ws to_string_def split_sign_def Let_def)
  next
    case False
    have "split_sign (show_nat (nat v) @ d # r) = (False, show_nat (nat v) @ d # r)"
      using isdigit_sign [OF d] by (simp add: split_sign_def c)
    moreover have "dropWhile isspace (show_nat (nat v) @ d # r) = show_nat (nat v) @ d # r"
      using isdigit_not_isspace [OF d] by (simp add: c)
    ultimately show ?thesis using False assms(1) takeWhile_show_nat [OF assms(2), of "nat v" r]
      by (simp add: read_int_def ws to_string_def Let_def)
  qed
qed

lemma newline_facts [simp]: "\<not> isdigit (CHR 0x0A)" "isspace (CHR 0x0A)" "\<not> isdigit (CHR '' '')" "isspace (CHR '' '')"
  by (simp_all add: isdigit_def isspace_def)

lemma menu_wish:
  assumes "fits x" "list_all isspace ws"
  shows "menu wishes c \<lparr>unread = ws @ wish_text x @ r, failed = False\<rparr> =
    menu (wishes @ [x]) (Some (choice_of x)) \<lparr>unread = CHR 0x0A # r, failed = False\<rparr>"
proof -
  have i: "in_int 1" "in_int 2" "in_int 3" by (simp_all add: in_int_def)
  show ?thesis
  proof (cases x)
    case Balance
    then show ?thesis using read_shown [OF i(3) _ assms(2), of "CHR 0x0A" r c]
      by (subst menu.simps) simp
  next
    case (Deposit v)
    then have v: "in_int v" using assms(1) by simp
    show ?thesis
      using read_shown [OF i(1) _ assms(2), of "CHR '' ''" "to_string v @ CHR 0x0A # r" c]
        read_shown [OF v, of "CHR 0x0A" "[CHR '' '']" r None] Deposit
      by (subst menu.simps) simp
  next
    case (Withdraw v)
    then have v: "in_int v" using assms(1) by simp
    show ?thesis
      using read_shown [OF i(2) _ assms(2), of "CHR '' ''" "to_string v @ CHR 0x0A # r" c]
        read_shown [OF v, of "CHR 0x0A" "[CHR '' '']" r None] Withdraw
      by (subst menu.simps) simp
  qed
qed

lemma menu_session:
  assumes "list_all fits xs" "list_all isspace ws"
  shows "menu wishes c \<lparr>unread = ws @ concat (map wish_text xs) @ r, failed = False\<rparr> =
    menu (wishes @ xs) (if xs = [] then c else Some (choice_of (last xs)))
      \<lparr>unread = (if xs = [] then ws else [CHR 0x0A]) @ r, failed = False\<rparr>"
  using assms
proof (induction xs arbitrary: wishes c ws)
  case (Cons x xs)
  then show ?case
    using menu_wish [of x ws wishes c "concat (map wish_text xs) @ r"]
      Cons.IH [of "[CHR 0x0A]" "wishes @ [x]" "Some (choice_of x)"] by simp
qed simp

text \<open>A stream that has failed keeps the choice as it was; if that is none of 1, 2 and 4, the loop never ends.\<close>

lemma menu_failed:
  "menu wishes choice s = Some y \<Longrightarrow> failed s \<longrightarrow> choice \<noteq> None \<longrightarrow> the choice \<in> {1, 2, 4}"
proof (induction rule: menu.raw_induct [rotated, consumes 1])
  case (1 menu wishes choice s y)
  show ?case
  proof (intro impI)
    assume f: "failed s" and c: "choice \<noteq> None"
    then have r: "read_int s choice = (s, choice)" by (simp add: read_int_def)
    show "the choice \<in> {1, 2, 4}"
    proof (rule ccontr)
      assume n: "the choice \<notin> {1, 2, 4}"
      then obtain wishes' where "menu wishes' choice s = Some y"
        using 1(2) c r by (auto split: if_splits)
      then show False using 1(1) f c n by blast
    qed
  qed
qed

lemma menu_stuck: "failed s \<Longrightarrow> c \<noteq> 1 \<Longrightarrow> c \<noteq> 2 \<Longrightarrow> c \<noteq> 4 \<Longrightarrow> menu wishes (Some c) s = None"
  using menu_failed [of wishes "Some c" s] by (cases "menu wishes (Some c) s") auto

text \<open>
  What the menu does with a session, depending on how it ends: with the choice 4 it returns what has been
  asked for; with a word that is no number it never returns; and at the end of the input it never returns
  if the balance was asked for last, and otherwise reads a variable that was never assigned.
\<close>

lemma menu_ends:
  assumes "list_all fits xs"
  shows "menu [] None \<lparr>unread = concat (map wish_text xs) @ to_string 4 @ [CHR 0x0A], failed = False\<rparr> = Some (Ret xs)"
    and "menu [] None \<lparr>unread = concat (map wish_text xs) @ ''x'', failed = False\<rparr> = None"
    and "menu [] None \<lparr>unread = concat (map wish_text xs), failed = False\<rparr> =
      (if xs \<noteq> [] \<and> last xs = Balance then None else Some Undef)"
proof -
  let ?ws = "if xs = [] then [] else [CHR 0x0A]" and ?c = "if xs = [] then None else Some (choice_of (last xs))"
  note go = menu_session [OF assms, of "[]" "[]" None, simplified]
  have ws: "list_all isspace ?ws" by simp
  have "in_int 4" by (simp add: in_int_def)
  from read_shown [OF this newline_facts(1) ws, of "[]" ?c]
  show "menu [] None \<lparr>unread = concat (map wish_text xs) @ to_string 4 @ [CHR 0x0A], failed = False\<rparr> = Some (Ret xs)"
    unfolding go by (subst menu.simps) simp
  have x: "\<not> isspace (CHR ''x'')" "\<not> isdigit (CHR ''x'')" by (simp_all add: isspace_def isdigit_def)
  then have "read_int \<lparr>unread = ?ws @ ''x'', failed = False\<rparr> ?c = (\<lparr>unread = ''x'', failed = True\<rparr>, Some 0)"
    by (simp add: read_int_def split_sign_def)
  then show "menu [] None \<lparr>unread = concat (map wish_text xs) @ ''x'', failed = False\<rparr> = None"
    unfolding go by (subst menu.simps) (simp add: menu_stuck)
  have e: "read_int \<lparr>unread = ?ws, failed = False\<rparr> ?c = (\<lparr>unread = [], failed = True\<rparr>, ?c)"
    by (simp add: read_int_def)
  have f: "read_int \<lparr>unread = [], failed = True\<rparr> c = (\<lparr>unread = [], failed = True\<rparr>, c)" for c
    by (simp add: read_int_def)
  have "menu [] None \<lparr>unread = concat (map wish_text xs), failed = False\<rparr> = menu xs ?c \<lparr>unread = ?ws, failed = False\<rparr>"
    using go [of "[]"] by simp
  also have "\<dots> = (if xs \<noteq> [] \<and> last xs = Balance then None else Some Undef)"
    using e f by (subst menu.simps) (cases "last xs"; simp add: menu_stuck)
  finally show "menu [] None \<lparr>unread = concat (map wish_text xs), failed = False\<rparr> =
      (if xs \<noteq> [] \<and> last xs = Balance then None else Some Undef)" .
qed

end
