(* ===== verification/Family_Properties.thy ===== *)
theory Family_Properties
  imports Old_Clients Rest_Properties Execution_Properties
begin

text \<open>
  What a transaction of a family that no processor handles does to the block it ends up in; the older
  client of \<open>client/client.cpp\<close> posts such transactions.
\<close>

lemma serial_run_fails:
  assumes "i \<in> set xs" "\<And>m. run i m = (Ret False, m)"
  shows "fst (serial_run run xs m) \<noteq> Ret True"
  using assms(1)
proof (induction xs arbitrary: m)
  case (Cons x xs)
  show ?case
  proof (cases "x = i")
    case True
    then show ?thesis using assms(2) [of m] by (simp add: and_then_def ret_def)
  next
    case False
    obtain r m1 where r: "run x m = (r, m1)" by fastforce
    show ?thesis using Cons False by (cases r) (auto simp: and_then_def r ret_def)
  qed
qed simp

lemma outcome_of_member: "i \<in> set xs \<Longrightarrow> \<exists>m'. (i, fst (run i m')) \<in> set (outcomes run xs m)"
  by (induction xs arbitrary: m) auto

definition handled :: "string \<Rightarrow> bool" where
  "handled family \<longleftrightarrow> family \<in> {''wallet'', ''eComm'', ''voting'', ''nft''}"

lemma unhandled_run:
  assumes "\<not> handled (family_name h)"
  shows "execute_parallel C I gv h t = ret False" "execute_serial C I gv h t = ret False" "execute_cluster C I gv h t = ret False"
  using assms by (simp_all add: handled_def execute_parallel_def execute_serial_def execute_cluster_def run_family_def)

lemma unhandled_block_run:
  assumes "i < length ts" "parse_header C (t_header (ts ! i)) = Some h" "\<not> handled (family_name h)"
    and "ex \<in> {execute_parallel C I gv, execute_serial C I gv, execute_cluster C I gv}"
  shows "block_run ex C ts i m = (Ret False, m)"
  using assms unhandled_run [OF assms(3)] by (auto simp: block_run_def ret_def)

lemma unhandled_fails_parallel:
  assumes "0 < thCount" "create_dag C b thCount d = Ret g"
    and "i < length (b_transactions b)" "parse_header C (t_header (b_transactions b ! i)) = Some h" "\<not> handled (family_name h)"
    and J: "J = block_job (execute_parallel C I gv) C g (b_transactions b)"
    and "sched_reach J (sched_start J thCount m) s" "sc_phase s t = Stopped" "t < thCount"
  shows "\<not> sc_flag s"
proof
  assume f: "sc_flag s"
  have g: "g = (built C b d)\<lparr>threadCount := thCount\<rparr>"
    using assms(2) create_dag_eq [OF assms(1), of C b d] by simp
  have "set (sc_log s) = {0..<j_txns J}" using run_history [OF assms(7)] assms(8,9) f by blast
  moreover have "j_txns J = length (b_transactions b)" by (simp add: J block_job_def g built_def Let_def)
  ultimately have "i \<in> set (sc_log s)" using assms(3) by simp
  then obtain m' where m': "(i, fst (j_run J i m')) \<in> set (outcomes (j_run J) (sc_log s) m)"
    using outcome_of_member [of i "sc_log s" "j_run J" m] by blast
  have "fst (j_run J i m') = Ret False"
    using unhandled_block_run [OF assms(3-5), of _ I gv m'] by (simp add: J block_job_def)
  moreover have "sched_inv J thCount m s" by (rule sched_inv_reach [OF assms(7)]) simp
  ultimately show False using m' f by (auto simp: sched_inv_def effect_ok_def)
qed

text \<open>C30: One foreign transaction costs everyone the block: what the program of \<open>client.cpp\<close> posts, when it
  ends with exit code 0, is accepted by the REST interface with status 200 and goes to the pool, though no
  processor handles its family; every block that holds it fails: serial execution does not succeed
  with the handlers of the serial node or of the cluster, and whenever a thread of the parallel node has left the loop,
  the failure flag is set, so that none of the block's values is committed.\<close>

theorem foreign_transaction_fails_block:
  assumes "intkey_main L = (0, [body])" "message_law L V" "kafka_up (srv_kafka V)" "header_law (srv_codec V) (show_hdr L)"
  shows "\<exists>t msg. status (fst (api_transaction V body pool)) = 200 \<and> snd (api_transaction V body pool) = pool @ [msg] \<and>
    parse_txn (srv_blocks V) msg = Some t \<and>
    (\<forall>b I gv m. t \<in> set (b_transactions b) \<longrightarrow>
      fst (serial_run (block_run (execute_serial (srv_codec V) I gv) (srv_codec V) (b_transactions b))
        [0..<length (b_transactions b)] m) \<noteq> Ret True \<and>
      fst (serial_run (block_run (execute_cluster (srv_codec V) I gv) (srv_codec V) (b_transactions b))
        [0..<length (b_transactions b)] m) \<noteq> Ret True \<and>
      (\<forall>thCount d g s u. 0 < thCount \<longrightarrow> create_dag (srv_codec V) b thCount d = Ret g \<longrightarrow>
        sched_reach (block_job (execute_parallel (srv_codec V) I gv) (srv_codec V) g (b_transactions b))
          (sched_start (block_job (execute_parallel (srv_codec V) I gv) (srv_codec V) g (b_transactions b)) thCount m) s \<longrightarrow>
        sc_phase s u = Stopped \<longrightarrow> u < thCount \<longrightarrow> \<not> sc_flag s))"
proof -
  let ?C = "srv_codec V"
  obtain hdr where hdr: "show_hdr L intkey_header = Some hdr" "parse_header ?C hdr = Some intkey_header"
    using assms(4) by (auto simp: header_law_def)
  let ?t = "intkey_txn hdr"
  obtain ser where ser: "show_txn L ?t = Some ser" "parse_txn (srv_blocks V) ser = Some ?t"
    using assms(2) by (auto simp: message_law_def)
  obtain msg where msg: "srv_show V ?t = Some msg" "parse_txn (srv_blocks V) msg = Some ?t"
    using assms(2) by (auto simp: message_law_def)
  have "body = ser" using assms(1) hdr ser
    by (auto simp: intkey_main_def createSerializedTransaction_old_def Let_def split: if_splits)
  then have api: "api_transaction V body pool =
      (\<lparr>status = 200, answer = ''Transaction received and being processed in transaction pool.''\<rparr>, pool @ [msg])"
    using ser hdr msg assms(3)
    by (simp add: api_transaction_def intkey_txn_def intkey_header_def submitTransactionToRedPanda_def kafka_up_def)
  have h: "parse_header ?C (t_header ?t) = Some intkey_header" "\<not> handled (family_name intkey_header)"
    using hdr by (simp_all add: intkey_txn_def intkey_header_def handled_def)
  have serial: "fst (serial_run (block_run ex ?C (b_transactions b)) [0..<length (b_transactions b)] m) \<noteq> Ret True"
    if mem: "?t \<in> set (b_transactions b)" and ex: "ex \<in> {execute_parallel ?C I gv, execute_serial ?C I gv, execute_cluster ?C I gv}"
    for b ex I gv m
  proof -
    obtain i where i: "i < length (b_transactions b)" "b_transactions b ! i = ?t" using mem by (meson in_set_conv_nth)
    have "block_run ex ?C (b_transactions b) i m' = (Ret False, m')" for m'
      by (rule unhandled_block_run [OF i(1) _ h(2) ex]) (simp add: i(2) h(1))
    then show ?thesis using i(1) by (intro serial_run_fails [of i]) simp_all
  qed
  have parallel: "\<not> sc_flag s"
    if mem: "?t \<in> set (b_transactions b)" and "0 < thCount" "create_dag ?C b thCount d = Ret g"
      "sched_reach (block_job (execute_parallel ?C I gv) ?C g (b_transactions b))
          (sched_start (block_job (execute_parallel ?C I gv) ?C g (b_transactions b)) thCount m) s"
      "sc_phase s u = Stopped" "u < thCount" for b thCount d g I gv m s u
  proof -
    obtain i where i: "i < length (b_transactions b)" "b_transactions b ! i = ?t" using mem by (meson in_set_conv_nth)
    show ?thesis
      by (rule unhandled_fails_parallel [OF that(2,3) i(1) _ h(2) HOL.refl that(4-6)]) (simp add: i(2) h(1))
  qed
  show ?thesis
  proof (rule exI [of _ ?t], rule exI [of _ msg], intro conjI allI impI)
    fix b :: block and I gv m
    assume mem: "?t \<in> set (b_transactions b)"
    show "fst (serial_run (block_run (execute_serial ?C I gv) ?C (b_transactions b)) [0..<length (b_transactions b)] m) \<noteq> Ret True"
      "fst (serial_run (block_run (execute_cluster ?C I gv) ?C (b_transactions b)) [0..<length (b_transactions b)] m) \<noteq> Ret True"
      by (rule serial [OF mem, of _ I gv]; simp)+
    show "\<not> sc_flag s"
      if "0 < thCount" "create_dag ?C b thCount d = Ret g"
        "sched_reach (block_job (execute_parallel ?C I gv) ?C g (b_transactions b))
          (sched_start (block_job (execute_parallel ?C I gv) ?C g (b_transactions b)) thCount m) s"
        "sc_phase s u = Stopped" "u < thCount" for thCount d g s u
      by (rule parallel [OF mem that])
  qed (simp_all add: api msg(2))
qed

theorem foreign_transaction_fails_block_witness:
  "\<exists>body t msg. intkey_main sample_library = (0, [body]) \<and> snd (api_transaction sample_server body []) = [msg] \<and>
     parse_txn sample_blocks msg = Some t \<and>
     fst (serial_run (block_run (execute_serial sample_codec \<lparr>files = (\<lambda>_. None), sha512_raw = (\<lambda>_. [])\<rparr> (\<lambda>_. [])) sample_codec [sample_txn, t]) [0, 1] Map.empty) \<noteq> Ret True"
proof -
  obtain hdr where "show_hdr sample_library intkey_header = Some hdr" by (simp add: sample_library_def sample_show_def)
  moreover have "enc_txn t \<noteq> []" for t by (cases "t_header t") (simp_all add: enc_txn_def)
  ultimately have m: "intkey_main sample_library = (0, [enc_txn (intkey_txn hdr)])"
    by (simp add: intkey_main_def createSerializedTransaction_old_def sample_library_def)
  have law: "message_law sample_library sample_server"
    by (simp add: message_law_def sample_library_def sample_server_def sample_blocks_def)
  have h: "header_law (srv_codec sample_server) (show_hdr sample_library)"
    by (simp add: sample_server_def sample_library_def)
  obtain t msg where t: "snd (api_transaction sample_server (enc_txn (intkey_txn hdr)) []) = [msg]"
    "parse_txn sample_blocks msg = Some t"
    "\<And>(b :: block) I gv m. t \<in> set (b_transactions b) \<Longrightarrow>
      fst (serial_run (block_run (execute_serial sample_codec I gv) sample_codec (b_transactions b)) [0..<length (b_transactions b)] m) \<noteq> Ret True"
  proof -
    have s: "srv_codec sample_server = sample_codec" "srv_blocks sample_server = sample_blocks"
      by (simp_all add: sample_server_def)
    show thesis
      by (rule exE [OF foreign_transaction_fails_block [OF m law sample_server_up h, of "[]", unfolded s append_Nil]],
          erule exE, (erule conjE)+, rule that, assumption, assumption, blast)
  qed
  have two: "[0..<Suc (Suc 0)] = [0, 1]" by (simp add: upt_rec)
  show ?thesis
    using m t(1,2) t(3) [of "\<lparr>b_header = [], b_transactions = [sample_txn, t], block_hash = []\<rparr>"
      "\<lparr>files = (\<lambda>_. None), sha512_raw = (\<lambda>_. [])\<rparr>" "\<lambda>_. []" Map.empty]
    by (auto simp: two)
qed

end
