(* ===== verification/Unit_Tests.thy ===== *)
theory Unit_Tests
  imports Utilities Dag_Pool_Components Voting ECommerce Clients
begin

text \<open>
  Unit tests of the repository as definitions over the model: each gives the truth values of its
  expectations, in order. Every processor test starts on an empty committed state. Where an expectation does
  not hold, the code and its test disagree.
\<close>

section \<open>The graph\<close>

text \<open>\<open>CreateMockTransaction\<close>, and a graph object, whose thread count the cluster leaves unassigned.\<close>

definition CreateMockTransaction :: "show_header \<Rightarrow> string list \<Rightarrow> string list \<Rightarrow> transaction" where
  "CreateMockTransaction sh ins outs =
     \<lparr>t_header = (case sh (new_header [] [] [] ins outs) of Some s \<Rightarrow> s | None \<Rightarrow> []), t_dependencies = [], t_payload = []\<rparr>"

definition new_graph :: "nat \<Rightarrow> dag" where
  "new_graph tc = \<lparr>CurrentTransactions = [], adjacencyMatrix = [], inDegree = None, completedTxns = 0, lastTxn = 0,
     totalTxns = 0, threadCount = tc\<rparr>"

definition ExtractTransactionValid :: "codec \<Rightarrow> show_header \<Rightarrow> bool list" where
  "ExtractTransactionValid C sh =
     (let ins = [''input1'', ''input2'']; outs = [''output1'', ''output2''];
          txn = extractTransaction C (CreateMockTransaction sh ins outs) 1
      in [txn_no txn = 1, inputscount txn = Some (length ins), outputcount txn = Some (length outs),
          ts_inputs txn = ins, ts_outputs txn = outs])"

definition two_transactions :: "nat \<Rightarrow> dag" where
  "two_transactions tc = (new_graph tc)\<lparr>totalTxns := 2,
     CurrentTransactions := [\<lparr>txn_no = 0, inputscount = Some 1, ts_inputs = [''A''], outputcount = Some 1, ts_outputs = [''B'']\<rparr>,
       \<lparr>txn_no = 1, inputscount = Some 1, ts_inputs = [''B''], outputcount = Some 1, ts_outputs = [''C'']\<rparr>],
     adjacencyMatrix := [[0, 0], [0, 0]], inDegree := Some [0, 0]\<rparr>"

definition degree :: "dag \<Rightarrow> nat \<Rightarrow> int option" where
  "degree d i = map_option (\<lambda>deg. deg ! i) (inDegree d)"

text \<open>Called twice, for the first and the second thread; the serial version has no thread number.\<close>

definition DependencyMatrix_cluster :: "nat \<Rightarrow> bool list outcome" where
  "DependencyMatrix_cluster tc =
     bind_outcome (dependencyMatrix_cluster 0 (two_transactions tc)) (\<lambda>d1.
     bind_outcome (dependencyMatrix_cluster 1 d1) (\<lambda>d2.
     Ret [cell (adjacencyMatrix d1) 0 1 = 1, cell (adjacencyMatrix d2) 1 0 = 0]))"

definition DependencyMatrix_parallel :: "bool list outcome" where
  "DependencyMatrix_parallel =
     bind_outcome (dependencyMatrix 0 (two_transactions 2)) (\<lambda>d1.
     bind_outcome (dependencyMatrix 1 d1) (\<lambda>d2.
     Ret [cell (adjacencyMatrix d1) 0 1 = 1, degree d1 1 = Some 1, cell (adjacencyMatrix d2) 1 0 = 0, degree d2 0 = Some 0]))"

definition DependencyMatrix_serial :: "bool list outcome" where
  "DependencyMatrix_serial =
     bind_outcome (dependencyMatrix_serial (two_transactions 0)) (\<lambda>d1.
     bind_outcome (dependencyMatrix_serial d1) (\<lambda>d2.
     Ret [cell (adjacencyMatrix d1) 0 1 = 1, degree d1 1 = Some 1, cell (adjacencyMatrix d2) 1 0 = 0, degree d2 0 = Some 0]))"

definition DependencyMatrix_pool :: "bool list outcome" where
  "DependencyMatrix_pool =
     bind_outcome (dependencyMatrix_pool 0 (two_transactions 28)) (\<lambda>d.
     Ret [cell (adjacencyMatrix d) 0 1 = 1, degree d 1 = Some 1])"

definition DependencyMatrix_SingleTransaction :: "(nat \<Rightarrow> dag \<Rightarrow> dag outcome) \<Rightarrow> nat \<Rightarrow> bool list outcome" where
  "DependencyMatrix_SingleTransaction dependency_matrix tc =
     bind_outcome (dependency_matrix 0 ((new_graph tc)\<lparr>totalTxns := 1,
       CurrentTransactions := [\<lparr>txn_no = 0, inputscount = Some 1, ts_inputs = [''A''], outputcount = Some 1, ts_outputs = [''B'']\<rparr>],
       adjacencyMatrix := [[0]], inDegree := Some [0]\<rparr>)) (\<lambda>d.
     Ret [cell (adjacencyMatrix d) 0 0 = 0, degree d 0 = Some 0])"

definition SerializationTest :: "(DirectedGraph \<Rightarrow> string option) \<Rightarrow> (string \<Rightarrow> DirectedGraph option) \<Rightarrow> bool list" where
  "SerializationTest show_graph parse_graph =
     (let a = [[0, 1, 0], [1, 0, 1], [0, 1, 0]];
          serializedProto = serializeDAG show_graph ((new_graph 0)\<lparr>adjacencyMatrix := a\<rparr>)
      in (serializedProto \<noteq> []) #
         (case parse_graph serializedProto of
            None \<Rightarrow> [False]
          | Some g \<Rightarrow> [num_nodes g = 3, length (graph_rows g) = 3, list_all (\<lambda>row. length row = 3) (graph_rows g), graph_rows g = a]))"

definition CreateBlockValid :: "codec \<Rightarrow> show_header \<Rightarrow> dag \<Rightarrow> bool list outcome" where
  "CreateBlockValid C sh d =
     bind_outcome (create_cluster C \<lparr>b_header = [], b_transactions = [CreateMockTransaction sh [''A''] [''B''],
        CreateMockTransaction sh [''B''] [''C'']], block_hash = []\<rparr> 2 d) (\<lambda>d.
     Ret [totalTxns d = 2, length (CurrentTransactions d) = 2, length (adjacencyMatrix d) = 2, cell (adjacencyMatrix d) 0 1 = 1])"

text \<open>The chain of three, whose components are searched and which is worked off.\<close>

definition chain :: "int list list" where
  "chain = [[0, 1, 0], [0, 0, 1], [0, 0, 0]]"

definition one_of_three :: "componentsTable option \<Rightarrow> bool list" where
  "one_of_three r =
     (case r of
        None \<Rightarrow> []
      | Some t \<Rightarrow> [totalComponents t = 1, length (componentsList t) = 1, length (transactionList (componentsList t ! 0)) = 3])"

definition ConnectedComponents :: "bool list" where
  "ConnectedComponents = one_of_three (connectedComponents chain \<lparr>totalComponents = 0, componentsList = []\<rparr>)"

definition ConnectedComponents_pool :: "bool list" where
  "ConnectedComponents_pool = one_of_three (map_option snd
     (connectedComponents_pool (\<lambda>_. None) chain \<lparr>totalComponents = 0, componentsList = []\<rparr>))"

definition SelectTxn :: "(dag \<Rightarrow> (nat option \<times> dag) outcome) \<Rightarrow> bool list outcome" where
  "SelectTxn select =
     bind_outcome (select ((new_graph 28)\<lparr>totalTxns := 3, inDegree := Some [0, 1, 1]\<rparr>)) (\<lambda>(a, d1).
     bind_outcome (select d1) (\<lambda>(b, d2).
     bind_outcome (fetch_add 1 (- 1) (inDegree d2)) (\<lambda>deg.
     bind_outcome (select (d2\<lparr>inDegree := deg\<rparr>)) (\<lambda>(c, d3).
     Ret [a = Some 0, degree d1 0 = Some (- 1), b = None, c = Some 1]))))"

definition chain_graph :: dag where
  "chain_graph = (new_graph 28)\<lparr>totalTxns := 3, adjacencyMatrix := chain, inDegree := Some [0, 1, 1]\<rparr>"

definition CompleteTransaction :: "bool list outcome" where
  "CompleteTransaction =
     bind_outcome (complete_txn 0 chain_graph) (\<lambda>d1.
     bind_outcome (complete_txn (- 1) d1) (\<lambda>d2.
     bind_outcome (complete_txn 1 d2) (\<lambda>d3.
     Ret [degree d1 1 = Some 0, degree d1 2 = Some 1, degree d3 1 = Some (- 1), degree d3 2 = Some 0])))"

definition CompleteTransaction_single :: "bool list outcome" where
  "CompleteTransaction_single =
     bind_outcome (complete_txn 0 chain_graph) (\<lambda>d1.
     bind_outcome (complete_txn (- 1) d1) (\<lambda>d2.
     bind_outcome (complete_txn 0 d2) (\<lambda>d3.
     Ret [degree d1 1 = Some 0, degree d1 2 = Some 1, degree d3 2 = Some 1])))"

definition CompleteTransaction_pool :: "bool list outcome" where
  "CompleteTransaction_pool =
     bind_outcome (complete_pool 0 chain_graph) (\<lambda>d. Ret [degree d 1 = Some 0, degree d 2 = Some 1])"

text \<open>All expectations hold.\<close>

definition all_hold :: "bool list outcome \<Rightarrow> bool" where
  "all_hold r = (case r of Ret bs \<Rightarrow> list_all (\<lambda>b. b) bs | _ \<Rightarrow> False)"

lemma upts: "[0..<Suc 0] = [0]" "[0..<2] = [0, 1]" "[0..<3] = [0, 1, 2]" "[Suc 0..<2] = [1]" "[Suc 0..<3] = [1, 2]" "[2..<2] = []"
  by (simp_all add: upt_rec)

lemmas graph_defs = bind_outcome_def two_transactions_def new_graph_def pairs_of_def depends_def depends_counted_def match_upto_def
  mark_cell_def mark_cell_cluster_def mark_cell_counted_def set_cell_def fetch_add_def cell_def degree_def all_hold_def

lemma select_tests:
  "all_hold (SelectTxn selectTxn)" "all_hold (SelectTxn selectTxn_cluster)" "all_hold (SelectTxn selectTxn_serial)"
  by (simp_all add: SelectTxn_def selectTxn_def selectTxn_cluster_def selectTxn_serial_def scan_zero_def take_txn_def upts graph_defs
      numeral_2_eq_2 numeral_3_eq_3)

lemma complete_tests: "all_hold CompleteTransaction" "all_hold CompleteTransaction_single" "all_hold CompleteTransaction_pool"
  by (simp_all add: CompleteTransaction_def CompleteTransaction_single_def CompleteTransaction_pool_def complete_txn_def
      complete_pool_def release_def release_pool_def chain_graph_def chain_def upts graph_defs numeral_2_eq_2 numeral_3_eq_3)

lemma matrix_tests: "0 < tc \<Longrightarrow> all_hold (DependencyMatrix_cluster tc)" "all_hold DependencyMatrix_parallel"
  "all_hold DependencyMatrix_serial" "all_hold DependencyMatrix_pool"
proof -
  have rows: "row_range_cluster 2 tc 0 = (if tc = 1 then [0, 1] else [0])" "row_range_cluster 2 tc 1 = (if tc = 1 then [] else [1])"
    if "0 < tc"
  proof -
    have "tc = 1 \<or> tc = 2 \<or> 2 < tc" using that by arith
    then show "row_range_cluster 2 tc 0 = (if tc = 1 then [0, 1] else [0])" "row_range_cluster 2 tc 1 = (if tc = 1 then [] else [1])"
      by (auto simp: row_range_cluster_def Let_def upts)
  qed
  have pairs: "pairs_of 2 [0] = [(0, 1)]" "pairs_of 2 [0, 1] = [(0, 1)]" "pairs_of 2 [1] = []" "pairs_of 2 [] = []"
    by (simp_all add: pairs_of_def upts)
  show "all_hold (DependencyMatrix_cluster tc)" if "0 < tc"
  proof -
    have one: "dependencyMatrix_cluster 0 (two_transactions tc) = mark_cell_cluster (0, 1) (two_transactions tc)"
    proof -
      have "each f [x] s = f x s" for f :: "nat \<times> nat \<Rightarrow> dag \<Rightarrow> dag outcome" and x s by (cases "f x s") simp_all
      moreover have "threadCount (two_transactions tc) = tc" "totalTxns (two_transactions tc) = 2"
        by (simp_all add: two_transactions_def new_graph_def)
      ultimately show ?thesis using rows(1) [OF that] pairs by (simp add: dependencyMatrix_cluster_def del: One_nat_def)
    qed
    have "dependencyMatrix_cluster 1 d = Ret d" if "totalTxns d = 2" "threadCount d = tc" for d
      using rows(2) [OF \<open>0 < tc\<close>] that by (simp only: dependencyMatrix_cluster_def) (simp add: pairs pairs [simplified])
    then show ?thesis
      unfolding DependencyMatrix_cluster_def one
      by (simp add: mark_cell_cluster_def two_transactions_def new_graph_def depends_def set_cell_def bind_outcome_def cell_def all_hold_def)
  qed
  show "all_hold DependencyMatrix_parallel"
    by (simp add: DependencyMatrix_parallel_def dependencyMatrix_def row_range_def Let_def upts graph_defs numeral_2_eq_2)
  show "all_hold DependencyMatrix_serial"
    by (simp add: DependencyMatrix_serial_def dependencyMatrix_serial_def Let_def upts graph_defs numeral_2_eq_2)
  show "all_hold DependencyMatrix_pool"
    by (simp add: DependencyMatrix_pool_def dependencyMatrix_pool_def row_range_pool_def Let_def upts graph_defs numeral_2_eq_2)
qed

lemma single_tests: "all_hold (DependencyMatrix_SingleTransaction dependencyMatrix_cluster tc)"
  "all_hold (DependencyMatrix_SingleTransaction dependencyMatrix tc)"
  "all_hold (DependencyMatrix_SingleTransaction dependencyMatrix_pool tc)"
proof -
  have p: "pairs_of (Suc 0) rows = []" for rows by (induction rows) (simp_all add: pairs_of_def)
  show "all_hold (DependencyMatrix_SingleTransaction dependencyMatrix_cluster tc)"
    "all_hold (DependencyMatrix_SingleTransaction dependencyMatrix tc)"
    "all_hold (DependencyMatrix_SingleTransaction dependencyMatrix_pool tc)"
    by (simp_all add: DependencyMatrix_SingleTransaction_def dependencyMatrix_cluster_def dependencyMatrix_def
        dependencyMatrix_pool_def new_graph_def p bind_outcome_def cell_def degree_def all_hold_def)
qed

lemma serialization_test:
  assumes "\<forall>g. \<exists>s. show_graph g = Some s \<and> s \<noteq> [] \<and> parse_graph s = Some g"
  shows "list_all (\<lambda>b. b) (SerializationTest show_graph parse_graph)"
proof -
  let ?g = "graph_message ((new_graph 0)\<lparr>adjacencyMatrix := [[0, 1, 0], [1, 0, 1], [0, 1, 0]]\<rparr>)"
  obtain s where "show_graph ?g = Some s" "s \<noteq> []" "parse_graph s = Some ?g" using assms by blast
  then show ?thesis by (simp add: SerializationTest_def Let_def serializeDAG_def) (simp add: graph_message_def)
qed

lemma mock_header: "header_law C sh \<Longrightarrow> parse_header C (t_header (CreateMockTransaction sh ins outs)) = Some (new_header [] [] [] ins outs)"
  using client_header [of C sh "new_header [] [] [] ins outs" "[]"] by (simp add: CreateMockTransaction_def new_txn_def)

lemma extract_test: "header_law C sh \<Longrightarrow> list_all (\<lambda>b. b) (ExtractTransactionValid C sh)"
  by (simp add: ExtractTransactionValid_def extractTransaction_def mock_header new_header_def)

lemma create_test:
  assumes "header_law C sh" "cleaned d"
  shows "all_hold (CreateBlockValid C sh d)"
proof -
  have "dep_rel [extractTransaction C (CreateMockTransaction sh [''A''] [''B'']) 0,
      extractTransaction C (CreateMockTransaction sh [''B''] [''C'']) (Suc 0)] 0 (Suc 0)"
    by (simp add: dep_rel_def extractTransaction_def mock_header [OF assms(1)] new_header_def depends_def)
  moreover have "length (dep_matrix D 2) = 2" for D by (simp add: dep_matrix_def)
  ultimately show ?thesis
    using create_cluster_eq [OF _ assms(2), of 2 C]
    by (simp add: CreateBlockValid_def built_def Let_def all_hold_def bind_outcome_def numeral_2_eq_2)
qed

lemma components_tests: "list_all (\<lambda>b. b) ConnectedComponents" "list_all (\<lambda>b. b) ConnectedComponents_pool"
proof -
  show "list_all (\<lambda>b. b) ConnectedComponents"
    by (simp add: ConnectedComponents_def connectedComponents_def chain_def DFSUtil_def visit_def upts adjacent_def cell_def
        one_of_three_def dfs_for.simps numeral_2_eq_2 numeral_3_eq_3 Let_def)
  show "list_all (\<lambda>b. b) ConnectedComponents_pool"
    by (simp add: ConnectedComponents_pool_def connectedComponents_pool_def chain_def DFSUtil_pool_def DFSUtil_def visit_def
        upts forward_def cell_def one_of_three_def dfs_for.simps numeral_2_eq_2 numeral_3_eq_3 Let_def)
qed

section \<open>The wallet\<close>

text \<open>
  The tests share one map, in this order. \<open>getBalance\<close> reads the committed state, which stays empty.
\<close>

definition DepositTest :: "(string \<Rightarrow> string) \<Rightarrow> (kvmap, bool list) op" where
  "DepositTest gv =
     (let balance = getBalance gv ''walletAliceacc1'' in
      and_then (deposit gv ''walletAliceacc1'' ''100'') (\<lambda>_.
      and_then (lift (bind_outcome (stoi balance) (\<lambda>b. add_int b 100))) (\<lambda>expectedBalance.
      and_then (lift (stoi (getBalance gv ''walletAliceacc1''))) (\<lambda>actualBalance.
      ret [actualBalance = expectedBalance]))))"

definition WithdrawTest :: "(string \<Rightarrow> string) \<Rightarrow> (kvmap, bool list) op" where
  "WithdrawTest gv =
     (let balance = getBalance gv ''walletAliceacc1'' in
      and_then (withdraw gv ''walletAliceacc1'' balance) (\<lambda>_.
      and_then (lift (stoi (getBalance gv ''walletAliceacc1''))) (\<lambda>actualBalance.
      ret [actualBalance = 0])))"

definition WithdrawInsufficientFundsTest :: "(string \<Rightarrow> string) \<Rightarrow> (kvmap, bool list) op" where
  "WithdrawInsufficientFundsTest gv =
     and_then (lift (bind_outcome (stoi (getBalance gv ''walletAliceacc2'')) (\<lambda>b. add_int b 10))) (\<lambda>transferAmt.
     and_then (withdraw gv ''walletAliceacc2'' (to_string transferAmt)) (\<lambda>ok. ret [\<not> ok]))"

definition TransferTest :: "(string \<Rightarrow> string) \<Rightarrow> (kvmap, bool list) op" where
  "TransferTest gv =
     (let balanceA = getBalance gv ''walletAliceacc1''; balanceB = getBalance gv ''walletBobacc1'' in
      and_then (transfer gv ''walletAliceacc1'' ''walletBobacc1'' balanceA) (\<lambda>_.
      and_then (lift (bind_outcome (stoi balanceB) (\<lambda>b. bind_outcome (stoi balanceA) (add_int b)))) (\<lambda>expectedBalance.
      and_then (lift (stoi (getBalance gv ''walletBobacc1''))) (\<lambda>actualBalance.
      ret [actualBalance = expectedBalance]))))"

definition TransferInsufficientFundsTest :: "(string \<Rightarrow> string) \<Rightarrow> (kvmap, bool list) op" where
  "TransferInsufficientFundsTest gv =
     and_then (lift (bind_outcome (stoi (getBalance gv ''walletAliceacc2'')) (\<lambda>b. add_int b 10))) (\<lambda>transferAmt.
     and_then (transfer gv ''walletAliceacc1'' ''walletBobacc1'' (to_string transferAmt)) (\<lambda>ok. ret [\<not> ok]))"

text \<open>One test after the other.\<close>

fun run_tests :: "(kvmap, bool list) op list \<Rightarrow> (kvmap, bool list list) op" where
  "run_tests [] = ret []"
| "run_tests (f # fs) = and_then f (\<lambda>bs. and_then (run_tests fs) (\<lambda>bss. ret (bs # bss)))"

definition wallet_tests :: "(string \<Rightarrow> string) \<Rightarrow> (kvmap, bool list list) op" where
  "wallet_tests gv = run_tests [DepositTest gv, WithdrawTest gv, WithdrawInsufficientFundsTest gv, TransferTest gv,
     TransferInsufficientFundsTest gv]"

lemma digits: "show_nat 0 = ''0''" "show_nat 10 = ''10''" "show_nat 90 = ''90''" "show_nat 100 = ''100''"
  "show_nat 1 = ''1''" "show_nat 2 = ''2''" "show_nat 5 = ''5''" "show_nat 9999 = ''9999''" "show_nat 10000 = ''10000''"
  by (simp_all add: show_nat.simps digit_char_def char_of_eq_iff)

lemma shown [simp]: "n < 2147483648 \<Longrightarrow> stoi (show_nat n) = Ret (int n)"
  using stoi_to_string [of "int n"] by (simp add: to_string_def in_int_def)

text \<open>
  The first expectation fails, since the deposit is not in the committed state, and the last one, since Alice
  has the 100 that the first test deposited.
\<close>

lemma wallet_tests_result: "fst (wallet_tests (\<lambda>_. []) Map.empty) = Ret [[False], [True], [True], [True], [False]]"
proof -
  have s: "stoi ''0'' = Ret 0" "stoi ''10'' = Ret 10" "stoi ''100'' = Ret 100" "stoi ''90'' = Ret 90"
    using shown [of 0] shown [of 10] shown [of 100] shown [of 90] by (simp_all add: digits)
  show ?thesis
    by (simp add: wallet_tests_def DepositTest_def WithdrawTest_def WithdrawInsufficientFundsTest_def TransferTest_def
        TransferInsufficientFundsTest_def Let_def getBalance_def deposit_def withdraw_def transfer_def getOrLoadBalance_def
        and_then_def ret_def lift_def lookup_op_def insert_op_def store_op_def find_op_def add_int_def sub_int_def in_int_def
        to_string_def digits s bind_outcome_def)
qed

section \<open>Voting\<close>

text \<open>The operations the tests call, so that they can be run on the versions of the processor.\<close>

record voting =
  v_voter :: "string \<Rightarrow> (kvmap, bool) op"
  v_candidate :: "string \<Rightarrow> (kvmap, bool) op"
  v_transfer :: "string \<Rightarrow> string \<Rightarrow> string \<Rightarrow> (kvmap, bool) op"
  v_cast :: "string \<Rightarrow> string \<Rightarrow> (kvmap, bool) op"
  v_count :: "string \<Rightarrow> (kvmap, int) op"

definition cluster_voting :: voting where
  "cluster_voting = \<lparr>v_voter = registerVoter, v_candidate = registerCandidate, v_transfer = transferVote (\<lambda>_. []),
     v_cast = castVote (\<lambda>_. []), v_count = getOrLoadVoteCount (\<lambda>_. [])\<rparr>"

definition parallel_voting :: voting where
  "parallel_voting = \<lparr>v_voter = registerVoter_parallel, v_candidate = registerCandidate,
     v_transfer = transferVote_parallel (\<lambda>_. []), v_cast = castVote_parallel (\<lambda>_. []),
     v_count = getOrLoadVoteCount_parallel (\<lambda>_. [])\<rparr>"

definition RegisterVoterTest :: "voting \<Rightarrow> (kvmap, bool list) op" where
  "RegisterVoterTest V = and_then (v_voter V ''voterAlice'') (\<lambda>a. and_then (v_voter V ''voterAlice'') (\<lambda>b. ret [a, \<not> b]))"

definition RegisterCandidateTest :: "voting \<Rightarrow> (kvmap, bool list) op" where
  "RegisterCandidateTest V =
     and_then (v_candidate V ''candidateBob'') (\<lambda>a. and_then (v_candidate V ''candidateBob'') (\<lambda>b. ret [a, \<not> b]))"

definition TransferVoteTest :: "voting \<Rightarrow> (kvmap, bool list) op" where
  "TransferVoteTest V =
     and_then (v_voter V ''voter1'') (\<lambda>_. and_then (v_voter V ''voter2'') (\<lambda>_.
     and_then (v_transfer V ''voter1'' ''voter2'' ''1'') (\<lambda>ok.
     and_then (v_count V ''voter1'') (\<lambda>fromVotes. and_then (v_count V ''voter2'') (\<lambda>toVotes.
     ret [ok, fromVotes = 0, toVotes = 2])))))"

definition TransferVoteInsufficientTest :: "voting \<Rightarrow> (kvmap, bool list) op" where
  "TransferVoteInsufficientTest V =
     and_then (v_voter V ''voter3'') (\<lambda>_. and_then (v_transfer V ''voter3'' ''voter4'' ''5'') (\<lambda>ok. ret [\<not> ok]))"

definition CastVoteTest :: "voting \<Rightarrow> (kvmap, bool list) op" where
  "CastVoteTest V =
     and_then (v_voter V ''voterX'') (\<lambda>_. and_then (v_candidate V ''candidateY'') (\<lambda>_.
     and_then (v_cast V ''voterX'' ''candidateY'') (\<lambda>ok.
     and_then (v_count V ''voterX'') (\<lambda>voterVotes. and_then (v_count V ''candidateY'') (\<lambda>candidateVotes.
     ret [ok, voterVotes = 0, candidateVotes = 1])))))"

definition CastVoteNoTokensTest :: "voting \<Rightarrow> (kvmap, bool list) op" where
  "CastVoteNoTokensTest V =
     and_then (v_voter V ''voterZ'') (\<lambda>_. and_then (v_cast V ''voterZ'' ''candidateY'') (\<lambda>_.
     and_then (v_cast V ''voterZ'' ''candidateY'') (\<lambda>ok. ret [\<not> ok])))"

definition voting_tests :: "voting \<Rightarrow> (kvmap, bool list list) op" where
  "voting_tests V = run_tests [RegisterVoterTest V, RegisterCandidateTest V, TransferVoteTest V,
     TransferVoteInsufficientTest V, CastVoteTest V, CastVoteNoTokensTest V]"

lemma more_digits: "show_nat (Suc 0) = ''1''" "show_nat 3 = ''3''" "show_nat 9994 = ''9994''" "show_nat 10001 = ''10001''" "show_nat 9998 = ''9998''"
  by (simp_all add: show_nat.simps digit_char_def char_of_eq_iff)

lemma stoi_texts: "stoi ''0'' = Ret 0" "stoi ''1'' = Ret 1" "stoi ''2'' = Ret 2" "stoi ''3'' = Ret 3" "stoi ''5'' = Ret 5"
  "stoi ''10000'' = Ret 10000" "stoi ''9999'' = Ret 9999" "stoi ''9994'' = Ret 9994" "stoi ''10001'' = Ret 10001"
  "stoi ''9998'' = Ret 9998"
  using shown [of 0] shown [of 1] shown [of 2] shown [of 3] shown [of 5] shown [of 10000] shown [of 9999] shown [of 9994]
    shown [of 10001] shown [of 9998]
  by (simp_all add: digits more_digits del: shown)

lemmas op_defs = and_then_def ret_def lift_def lookup_op_def insert_op_def store_op_def find_op_def add_int_def sub_int_def
  in_int_def to_string_def bind_outcome_def

lemmas voting_defs = voting_tests_def RegisterVoterTest_def RegisterCandidateTest_def TransferVoteTest_def
  TransferVoteInsufficientTest_def CastVoteTest_def CastVoteNoTokensTest_def

text \<open>
  The tests of the cluster, which has no other, describe a voter with a single vote: the parallel node's
  processor passes them all, and the cluster's, which gives 10000 votes, fails five expectations.
\<close>

lemma voting_tests_parallel:
  "fst (voting_tests parallel_voting Map.empty) =
     Ret [[True, True], [True, True], [True, True, True], [True], [True, True, True], [True]]"
  by (simp add: voting_defs parallel_voting_def registerVoter_parallel_def registerCandidate_def transferVote_parallel_def
      castVote_parallel_def getOrLoadVoteCount_parallel_def stoi_or_zero_def op_defs digits more_digits stoi_texts)

lemma voting_tests_cluster:
  "fst (voting_tests cluster_voting Map.empty) =
     Ret [[True, True], [True, True], [True, False, False], [False], [True, False, True], [False]]"
  by (simp add: voting_defs cluster_voting_def registerVoter_def registerCandidate_def transferVote_def castVote_def
      getOrLoadVoteCount_def op_defs digits more_digits stoi_texts)

section \<open>The shop\<close>

text \<open>\<open>createTransaction\<close>; each test has a map of its own, which it may fill before.\<close>

definition createTransaction :: "show_header \<Rightarrow> string \<Rightarrow> transaction" where
  "createTransaction sh payload =
     \<lparr>t_header = (case sh (new_header ''eComm'' ''testClient'' ''12345'' [] []) of Some s \<Rightarrow> s | None \<Rightarrow> []),
      t_dependencies = [], t_payload = payload\<rparr>"

definition shop_members :: "(string \<times> string) list \<Rightarrow> member list" where
  "shop_members kvs = (case kvs of [] \<Rightarrow> [] | (k, v) # r \<Rightarrow> ([], k, '' '', v) # map (\<lambda>(k, v). ('' '', k, '' '', v)) r)"

definition ecomm_payload :: "(string \<times> string) list \<Rightarrow> string" where
  "ecomm_payload kvs =
     object_text (shop_members kvs)"

definition getFromMap :: "kvmap \<Rightarrow> string \<Rightarrow> string" where
  "getFromMap m key = (case m key of Some v \<Rightarrow> v | None \<Rightarrow> [])"

text \<open>A payload, what the map holds, the expected verdict, and an entry expected afterwards.\<close>

definition shop_test ::
    "codec \<Rightarrow> show_header \<Rightarrow> (string \<times> string) list \<Rightarrow> kvmap \<Rightarrow> bool \<Rightarrow> (string \<times> string) option \<Rightarrow> bool list outcome" where
  "shop_test C sh kvs testMap verdict after =
     (case ecomm_process C (\<lambda>_. []) (createTransaction sh (ecomm_payload kvs)) testMap of
        (Ret ok, m) \<Rightarrow> Ret ((ok = verdict) # (case after of None \<Rightarrow> [] | Some (k, v) \<Rightarrow> [getFromMap m k = v]))
      | (Throw e, m) \<Rightarrow> Throw e
      | (Undef, m) \<Rightarrow> Undef
      | (Stuck, m) \<Rightarrow> Stuck)"

definition AddToCart_test :: "codec \<Rightarrow> show_header \<Rightarrow> bool list outcome" where
  "AddToCart_test C sh = shop_test C sh
     [(''Verb'', ''addToCart''), (''Name'', ''eCommTestCart''), (''Item'', ''item123''), (''Value'', ''2'')]
     Map.empty True (Some (''eCommTestCart'', ''item123 2 ''))"

definition AddExistingItem_test :: "codec \<Rightarrow> show_header \<Rightarrow> bool list outcome" where
  "AddExistingItem_test C sh = shop_test C sh
     [(''Verb'', ''addToCart''), (''Name'', ''eCommTestCart''), (''Item'', ''item569''), (''Value'', ''2'')]
     [''eCommTestCart'' \<mapsto> ''item569 5 ''] True (Some (''eCommTestCart'', ''item569 7 ''))"

definition RemoveFromCart_test :: "codec \<Rightarrow> show_header \<Rightarrow> bool list outcome" where
  "RemoveFromCart_test C sh = shop_test C sh
     [(''Verb'', ''removeFromCart''), (''Name'', ''eCommTestCart''), (''Item'', ''item123''), (''Value'', ''2'')]
     [''eCommTestCart'' \<mapsto> ''item123 5 ''] True (Some (''eCommTestCart'', ''item123 3 ''))"

definition RemoveMissingItem_test :: "codec \<Rightarrow> show_header \<Rightarrow> bool list outcome" where
  "RemoveMissingItem_test C sh = shop_test C sh
     [(''Verb'', ''removeFromCart''), (''Name'', ''eCommTestCart''), (''Item'', ''item567''), (''Value'', ''2'')]
     [''eCommTestCart'' \<mapsto> ''item123 5 ''] False None"

definition Checkout_test :: "codec \<Rightarrow> show_header \<Rightarrow> bool list outcome" where
  "Checkout_test C sh = shop_test C sh [(''Verb'', ''checkout''), (''Name'', ''eCommTestCart'')]
     [''eCommTestCart'' \<mapsto> ''item123 3 item456 2 ''] True (Some (''eCommTestCart'', []))"

definition RefillItem_test :: "codec \<Rightarrow> show_header \<Rightarrow> bool list outcome" where
  "RefillItem_test C sh = shop_test C sh [(''Verb'', ''refillItem''), (''Name'', ''eCommitem123''), (''Value'', ''10'')]
     [''eCommitem123'' \<mapsto> ''5''] True (Some (''eCommitem123'', ''15''))"

lemma members_of_shop [simp]: "members_of (shop_members kvs) = kvs"
  by (auto simp: members_of_def shop_members_def comp_def case_prod_unfold split: list.split)

lemma good_shop: "kvs \<noteq> [] \<Longrightarrow> distinct (map fst kvs) \<Longrightarrow> list_all (\<lambda>(k, v). plain k \<and> plain v) kvs \<Longrightarrow> good_members (shop_members kvs)"
  by (cases kvs) (auto simp: good_members_def shop_members_def blanks_def list_all_iff members_of_def comp_def case_prod_unfold)

text \<open>What the processor does with the payload, once it is parsed.\<close>

lemma shop_step:
  assumes "json_law C" "header_law C sh" "kvs \<noteq> []" "distinct (map fst kvs)" "list_all (\<lambda>(k, v). plain k \<and> plain v) kvs"
  obtains xs where "map_of xs = map_of (map (apsnd JStr) kvs)"
    "\<And>m. ecomm_process C (\<lambda>_. []) (createTransaction sh (ecomm_payload kvs)) m =
      catch_with False (and_then (lift (jfield (JObj xs) ''Verb'')) (ecomm_dispatch (\<lambda>_. []) (JObj xs))) m"
proof -
  obtain xs where xs: "jparse C (ecomm_payload kvs) = Some (JObj xs)" "map_of xs = map_of (map (apsnd JStr) kvs)"
    using assms(1) good_shop [OF assms(3-5)] members_of_shop [of kvs] unfolding json_law_def ecomm_payload_def by metis
  obtain s where s: "sh (new_header ''eComm'' ''testClient'' ''12345'' [] []) = Some s"
    "parse_header C s = Some (new_header ''eComm'' ''testClient'' ''12345'' [] [])"
    using assms(2) by (auto simp: header_law_def)
  have "and_then (lift (Ret a)) f = f a" for a :: json and f :: "json \<Rightarrow> (kvmap, bool) op"
    by (rule ext) (simp add: and_then_def lift_def)
  then show thesis
    by (intro that [OF xs(2)]) (simp add: ecomm_process_def process_txn_def createTransaction_def s json_parse_def xs(1))
qed

lemma plain_texts: "plain ''Verb''" "plain ''Name''" "plain ''Item''" "plain ''Value''" "plain ''addToCart''" "plain ''removeFromCart''"
  "plain ''checkout''" "plain ''refillItem''" "plain ''eCommTestCart''" "plain ''item123''" "plain ''item569''" "plain ''item567''"
  "plain ''eCommitem123''" "plain ''2''" "plain ''10''"
  by (simp_all add: plain_def)

lemma cart_words: "words_of [] = []" "words_of ''item569 5 '' = [''item569'', ''5'']" "words_of ''item123 5 '' = [''item123'', ''5'']"
proof -
  show e: "words_of [] = []" by (simp add: words_of.simps)
  have c: "clean ''item569''" "clean ''item123''" "clean ''5''" by (simp_all add: clean_def isspace_def)
  show "words_of ''item569 5 '' = [''item569'', ''5'']"
    using words_of_word [OF c(1), of "''5 ''"] words_of_word [OF c(3), of "[]"] e by simp
  show "words_of ''item123 5 '' = [''item123'', ''5'']"
    using words_of_word [OF c(2), of "''5 ''"] words_of_word [OF c(3), of "[]"] e by simp
qed

lemmas shop_defs = shop_test_def ecomm_dispatch_def jfield_def jfield_const_def catch_with_def op_defs getFromMap_def
  ECommerce.getOrLoadValue_def ECommerce.updateValue_def cart_entry_def

text \<open>
  All tests of the shop hold but one: the checkout test names the cart in the field \<open>Name\<close>, and the code
  reads the field \<open>Name1\<close> of a constant object, which is undefined when there is none.
\<close>

lemma shop_tests:
  assumes "json_law C" "header_law C sh"
  shows "all_hold (AddToCart_test C sh)" "all_hold (AddExistingItem_test C sh)" "all_hold (RemoveFromCart_test C sh)"
    "all_hold (RemoveMissingItem_test C sh)" "all_hold (RefillItem_test C sh)" "Checkout_test C sh = Undef"
proof -
  note step = shop_step [OF assms]
  have t: "show_nat 7 = ''7''" "show_nat 15 = ''15''" by (simp_all add: show_nat.simps digit_char_def char_of_eq_iff)
  have n: "stoi ''10'' = Ret 10" using shown [of 10] by (simp add: digits)
  show "all_hold (AddToCart_test C sh)"
    unfolding AddToCart_test_def
    by (rule step [of "[(''Verb'', ''addToCart''), (''Name'', ''eCommTestCart''), (''Item'', ''item123''), (''Value'', ''2'')]"])
      (simp_all add: plain_texts shop_defs addToCart_def cart_words all_hold_def stoi_texts digits)
  show "all_hold (AddExistingItem_test C sh)"
    unfolding AddExistingItem_test_def
    by (rule step [of "[(''Verb'', ''addToCart''), (''Name'', ''eCommTestCart''), (''Item'', ''item569''), (''Value'', ''2'')]"])
      (simp_all add: plain_texts shop_defs addToCart_def cart_words all_hold_def stoi_texts t)
  show "all_hold (RemoveFromCart_test C sh)"
    unfolding RemoveFromCart_test_def
    by (rule step [of "[(''Verb'', ''removeFromCart''), (''Name'', ''eCommTestCart''), (''Item'', ''item123''), (''Value'', ''2'')]"])
      (simp_all add: plain_texts shop_defs removeFromCart_def cart_words all_hold_def stoi_texts more_digits)
  show "all_hold (RemoveMissingItem_test C sh)"
    unfolding RemoveMissingItem_test_def
    by (rule step [of "[(''Verb'', ''removeFromCart''), (''Name'', ''eCommTestCart''), (''Item'', ''item567''), (''Value'', ''2'')]"])
      (simp_all add: plain_texts shop_defs removeFromCart_def cart_words all_hold_def stoi_texts)
  show "all_hold (RefillItem_test C sh)"
    unfolding RefillItem_test_def
    by (rule step [of "[(''Verb'', ''refillItem''), (''Name'', ''eCommitem123''), (''Value'', ''10'')]"])
      (simp_all add: plain_texts shop_defs refillItem_def all_hold_def stoi_texts n t)
  show "Checkout_test C sh = Undef"
    unfolding Checkout_test_def
    by (rule step [of "[(''Verb'', ''checkout''), (''Name'', ''eCommTestCart'')]"])
      (simp_all add: plain_texts shop_defs checkout_def)
qed

end
