(* ===== verification/Spec2Isabelle.thy ===== *)
theory Spec2Isabelle
  imports Execution_Properties Graph_Properties State_Properties Contract_Properties Chain_Properties
    Cluster_Properties Cluster_Round Follower_Properties Type_Properties
    Commit_Properties Node_Properties Rest_Properties P2p_Properties
    Pool_Properties Merkle_Experiment Header_Race Family_Properties Unit_Tests
begin

text \<open>
  BlockRAFT: a replicated blockchain node and its two single-node variants

  The repository holds three programs. The distributed node (\<open>BlockRAFT-distributed_node\<close>) is a cluster
  of members that share an etcd store: a leader takes a block of transactions from a producer, builds
  the graph of their conflicts, cuts it into connected components and assigns these to its followers;
  each follower executes its transactions with several threads and files the resulting values in etcd;
  the leader waits until the counts add up, inserts the values into its state tree, and stores the
  block. The two single-node programs (\<open>singleNode-parallel\<close> and \<open>singleNode-serial\<close>) do the same in
  one process, with several threads or with one. Below, C, P and S stand for the three directories.

  Components, the theories that model them, and the code they follow

  Prelude                outcomes of C++ calls (a value, an exception, undefined behaviour, a self
                         deadlock), operations that thread a map of strings, what it means that such an
                         operation stays within a set of keys, 32-bit signed arithmetic
  Cxx_Text               the library calls on text: stoi, to_string, getline, words of a stream
  Payload                the protobuf messages as records (C/protos), JSON values, ProcessTxn's frame
  Merkle_Tree            GlobalState (C/merkleTree/globalState.h): the text form of a node, reading and
                         inserting, rehashing along a path, updateTree and its cache, opening
  Merkle_Facts, Merkle_Invariant, Merkle_Hashes
                         what the text form keeps, the shape of the tree, the Merkle property
  Merkle_Update, Merkle_Rehash
                         updateTree on a path, and updateAllNonLeafHashes with its depth-first search
  Storage                the databases on disk: opening, duplicating, resetting and replacing them
  Commit                 flushMapToState (S/scheduler/scheduler.h)
  Commit_Parallel, Commit_Race, Commit_Properties
                         flushMapToState of P, whose threads insert without a lock, access by access
  Merkle_Experiment      the experiment that compares a serial and a parallel tree
                         (C/MerkleTreeExperiments/experiments.cpp)
  Wallet, Voting, ECommerce, Nft
                         the processors of C/smartContracts and their single-node versions
  Value_Types, Type_Properties
                         the type of the values each handler reads and writes
  Execution              the choice of processor, serial execution of a list of transactions, and the
                         locale of handlers confined to their keys, in which reordering is proved
  Dag, Dag_Facts         DAGmodule (dagModule/DAGmodule.h in C, P and S, and C/dagModule/DAGmodulePool.h)
  Dag_Components, Dag_Union_Find, Dag_Pool_Components
                         its connected components, by depth-first search (P), by union-find (C) and by the
                         search of the pool version, which follows edges forwards only
  Thread_Pool, Pool_Properties
                         the thread pool of C/dagModule/threadPool.h and the graph its tasks fill
  Scheduler_Parallel, Scheduler_Progress
                         executeTxns of P/scheduler/scheduler.h as a step relation over any number of
                         threads, its invariant, and the measure that shows it can always finish
  Header_Race            where its threads parse into the same message at the same time
  Scheduler_Serial       executeTxns and schedulTxns of S/scheduler/scheduler.h
  Ring_Queue             the queue of node/transactionQueue.h, on its own and between two threads
  Block_Store            blocksDB (C/blocksDB/blocksDB.h)
  Block_Producer, Block_Chain
                         the Kafka producers (blockProducer), filing of blocks, the chain they form
  Clients, Test_Producer the clients that turn a command into a transaction, and the producer that
                         reads a file of commands (C/leader/testingBlockProducer.h and testBp)
  Single_Node            the main programs of the single nodes (P/node/node.cpp, S/node/node.cpp)
  State_Reads, Ledger    executing a block depends on the committed values alone; the ledger, the
                         specification of a node: values, changed by one block of transactions after another
  Single_Node_Facts, Serial_Node_Facts, Node_Properties
                         that the two single nodes implement the ledger
  Rest_Clients, Rest_Api, Rest_Properties
                         the command line clients (C/smartContracts/*/*Client.h), the REST interface they post
                         to (C/RestAPI/RestAPI.cpp), and the way of a command into a block
  Old_Clients, Family_Properties
                         the two older clients (P/client), and what a transaction of a family without a
                         processor does to a block
  P2p, P2p_Properties    the file of random transactions, the block made of it and the block sender
                         (C/p2pNetwork)
  Utilities              running a command, hexadecimal text, the message of a graph, and the tools of
                         C/protos/protosUtils that write and print sample messages
  Unit_Tests             the unit tests of the graph modules and of three processors, run on the model
  Etcd                   the etcd client as a parameter, with its law
  Cluster_Scheduler      the scheduler of a follower (C/scheduler/scheduler.h)
  Follower_Threads       the worker threads of a follower beside its monitor and the other members
  Leader, Leader_Facts   the leader (C/leader/leader.h)
  Cluster_Execution, Cluster_Round
                         a round of the cluster: the leader's shares executed by all followers
  Follower, Follower_Facts, Follower_Properties
                         the follower (C/follower/follower.h): waiting for a block, executing, saving
  Node                   the cluster member's main program (C/leader/node.cpp): monitors, lease, loop
  Samples, Sample_Commands, Sample_Node
                         concrete instances of everything that is a parameter, for the witnesses
  Execution_Properties, Graph_Properties, State_Properties, Contract_Properties, Chain_Properties,
  Cluster_Properties     the properties of the components, with their witnesses; this theory holds the
                         property that spans them all

  How the state corresponds

  The RocksDB databases are maps from keys to texts (\<open>db\<close>) and writing one is the field \<open>put\<close> of \<open>env\<close>;
  the concurrent hash map of a block is a map from strings to strings (\<open>kvmap\<close>); the graph object is the
  record \<open>dag\<close> with the fields of DAGmodule; etcd is a map behind the record \<open>etcd\<close>. SHA-256, protobuf,
  the JSON library, Kafka, etcd and the file system are not under src: they are parameters, and what is
  assumed of them is stated by \<open>lawful\<close>, \<open>codec_ok\<close>, \<open>json_law\<close>, \<open>header_law\<close>, \<open>hash_codec\<close>,
  \<open>rocks_law\<close> and \<open>etcd_law\<close>, each of which is shown to hold of a concrete instance. An \<open>int\<close> is a HOL integer
  whose additions are checked against 32 bits, with overflow an outcome of its own; the 64-bit indices of
  the ring are words; the digest bytes are words.

  What the lemmas show

  Executing a block with any number of threads, interleaved in any way, is serializable, executes each
  transaction once and after those it depends on, and can always be brought to an end when the headers
  parse; the serial scheduler is serial execution; the graph is the same in all versions and for every
  order of filling it; the two algorithms for components agree with reachability. The thread pool
  loses no task and its destructor returns, but the graph it fills is there only then, and the components
  of the pool version are cut apart. The tree keeps the Merkle property under the serial insertion; updateTree hashes the children as they were before; the
  full rehash returns. A commit stores the block's values, also when several threads insert them in any
  interleaving, though links of the tree may be lost then; the threads end after at most 130 accesses per
  entry. The two trees of the experiment read alike. Over any number of blocks the parallel node
  implements the ledger, from the files of commands to the databases, and the serial node, which never empties its map, is one long serial execution. The
  handlers keep balances, votes and carts of the type their readers expect. The handlers keep
  the supply of money and votes and refine abstract carts and ownership lists. A command given to a client
  program reaches a block as the transaction the test producers build of it. A transaction of a family
  without a processor, such as the oldest client posts, is accepted and makes its block fail.
  The unit tests that are modelled hold, but for the expectations that Unit_Tests names. The queue loses nothing
  between its two threads, the producers number and link the blocks, followers execute exactly the share
  the leader gave them, and its completion test is exact; a round of the cluster computes what serial
  execution computes; a follower reaches the block the leader filed, keeps its databases closed or open
  as it found them, and never commits a value. Where the code does not do what it means to,
  a property states what it does: leaves read back with children, values cut at a comma, root hashes
  that ignore values, loops that never end, failures that are forgotten.

  Bounds and fuel

  No definition of the program takes fuel: loops over data are structural or have a measure, and the
  loops that may not end (\<open>executeTxns\<close>, \<open>checkComponents\<close>, the depth-first searches and the
  union-find) are partial functions into option, with theorems that say when they return. Only the sample JSON
  reader takes fuel, the length of its input. The numbers 29999, 30000, 2147483647 and 2^64 are those
  of the code.

  Not modelled

  Transactions are executed as one step of the parallel scheduler; that handlers of transactions that run
  at the same time do not interfere follows from their confinement to disjoint keys and is proved as
  commutation, not at the level of the accessors of the concurrent hash map; two processors of P also
  share a header member between the threads, which that step leaves out and Header_Race states. In the
  insertion by several threads (P) a single read or write of the database is one step, as RocksDB
  documents it. The HTTP server and curl are parameters; a request that curl could not
  perform has no effect in the model. Left out are the unit tests of files, databases, servers
  and schedulers, and logging, printing and timing output, also that of the experiments.
\<close>

section \<open>From commands to the state\<close>

text \<open>C6: What the parallel node does with a file of commands is serializable from end to end: if the
  lines hold commands of the wallet, voting and e-commerce clients in plain text, the block the
  producer builds from them is executed by the threads of the parallel scheduler, in any interleaving,
  with the effect and the verdict of executing its transactions one after the other, without any
  assumption on what the transactions declare.\<close>

theorem commands_serializable:
  assumes "json_law C" "header_law C sh"
    and "list_all (\<lambda>line. \<not> nft_line line \<and> list_all plain (words_of line)) (getline_all (CHR 0x0A) content)"
    and "produce_parallel E K sh nonces now committed gs cnt (Some content) bl = Ret b"
    and "0 < thCount" "create_dag C b thCount d = Ret g"
    and "J = block_job (execute_parallel C I (getValue E committed)) C g (b_transactions b)"
    and "sched_reach J (sched_start J thCount m) s" "\<forall>t. sc_phase s t = Stopped"
  shows "if sc_flag s
    then serial_run (block_run (execute_parallel C I (getValue E committed)) C (b_transactions b))
      [0..<length (b_transactions b)] m = (Ret True, sc_map s)
    else fst (serial_run (block_run (execute_parallel C I (getValue E committed)) C (b_transactions b))
      [0..<length (b_transactions b)] m) \<noteq> Ret True"
  using parallel_run_serial [of C "execute_parallel C I (getValue E committed)", OF execute_parallel_confined
      produced_declares_parallel [OF assms(1-4)] assms(5,6)] assms(7-9)
  by blast

theorem commands_serializable_witness:
  "\<exists>b (s :: sched). produce_parallel sample_env sample_blocks sample_show (\<lambda>_. ''7'') 0 Map.empty Map.empty 5 (Some command_file) Map.empty =
       Ret b \<and>
     serial_run (block_run sample_exec sample_codec (b_transactions b)) [0] Map.empty = (Ret True, sc_map s)"
proof -
  obtain b where b: "produce_parallel sample_env sample_blocks sample_show (\<lambda>_. ''7'') 0 Map.empty Map.empty 5
      (Some command_file) Map.empty = Ret b" "b_transactions b = [sample_txn]"
    using command_block(1) by blast
  have plain: "list_all (\<lambda>line. \<not> nft_line line \<and> list_all plain (words_of line)) (getline_all (CHR 0x0A) command_file)"
    by (simp add: command_lines nft_line_def split_line_def command_words)
  have job: "sample_job = block_job sample_exec sample_codec sample_graph (b_transactions b)"
    by (simp add: sample_job_def b(2) sample_block_def)
  have graph: "create_dag sample_codec b 1 sample_dag = Ret sample_graph"
    by (simp add: create_dag_eq sample_graph_def built_def b(2) sample_block_def)
  obtain s where s: "sched_reach sample_job (sched_start sample_job 1 Map.empty) s" "\<forall>t. sc_phase s t = Stopped" "sc_flag s"
    using sample_run by blast
  have "serial_run (block_run sample_exec sample_codec (b_transactions b)) [0] Map.empty = (Ret True, sc_map s)"
    using commands_serializable [OF sample_json_law sample_header_law plain b(1) _ graph job [folded no_value] s(1,2)] s(3)
    by (simp add: no_value b(2))
  then show ?thesis by (intro exI [of _ b] exI [of _ s] conjI b(1))
qed
end
